(* ===== verification/Prelude.thy ===== *)
theory Prelude
  imports Main "HOL-Library.Word"
begin

text \<open>
  The prelude of the development: the machine integer types the runtime uses, the error values
  its \<open>js_throw\<close> calls become, the proof collections, and the generic facts about words,
  lists and integer division that the component theories share.

  Rust's \<open>u8\<close>, \<open>u16\<close>, \<open>u32\<close>, \<open>u64\<close>, \<open>u128\<close> are words of that width
  (addition and multiplication wrap, as the wrapping operations of Rust do; the component theories
  prove the absence of overflow where the code relies on it). \<open>usize\<close> is 64 bits wide on
  every target the modelled code runs on. Pointers are \<open>u64\<close> addresses.
\<close>

unbundle bit_operations_syntax

type_synonym u8 = "8 word"
type_synonym u16 = "16 word"
type_synonym u32 = "32 word"
type_synonym u64 = "64 word"
type_synonym u128 = "128 word"
type_synonym addr = "64 word"

text \<open>
  A JavaScript exception raised by the runtime: the constructor is the error class
  (\<open>js_rangeerror_new\<close>, \<open>js_typeerror_new\<close>, \<open>js_syntaxerror_new\<close>), the argument its
  message; a syntax error quotes the offending source text, so its message is a list of code points.
  A Rust panic or abort is \<open>Panic\<close>.
\<close>

datatype js_throw =
    RangeError string
  | TypeError string
  | SyntaxError "nat list"
  | Panic string

text \<open>The collections the component proofs are driven by.\<close>

named_theorems unat_simps \<open>readings of word operations as operations on natural numbers\<close>
named_theorems limb_simps \<open>the values of limb lists\<close>

subsection \<open>Words read as natural numbers\<close>

lemma unat_u64_less [simp]: "unat (x :: u64) < 18446744073709551616"
  using unsigned_less [of x] by simp

lemma unat_u64_le: "unat (x :: u64) \<le> 18446744073709551615"
  using unat_u64_less [of x] by linarith

lemma unat_drop_bit_div [unat_simps]: "unat (drop_bit n (x :: 'a::len word)) = unat x div 2 ^ n"
  by (rule trans [OF unat_drop_bit_eq drop_bit_eq_div])

lemma unat_ucast_mod [unat_simps]:
  "unat (ucast (x :: 'a::len word) :: 'b::len word) = unat x mod 2 ^ LENGTH('b)"
  by (simp only: unsigned_ucast_eq take_bit_eq_mod)

lemma unat_take_bit_mod [unat_simps]: "unat (take_bit n (x :: 'a::len word)) = unat x mod 2 ^ n"
  by (rule trans [OF unsigned_take_bit_eq take_bit_eq_mod])

lemma unat_u128_of_u64 [simp]: "unat (ucast (x :: u64) :: u128) = unat x"
proof -
  have "unat x < 2 ^ LENGTH(128)"
    by (rule order_less_trans [OF unat_u64_less]) simp
  then show ?thesis by (simp add: unat_ucast_mod)
qed

text \<open>The low and the high half of a \<open>u128\<close>, as the code takes them (\<open>as u64\<close>, \<open>>> 64\<close>).\<close>

lemma unat_low_half: "unat (ucast (s :: u128) :: u64) = unat s mod 2 ^ 64"
  by (simp add: unat_ucast_mod)

lemma unat_high_half: "unat (ucast (drop_bit 64 (s :: u128)) :: u64) = unat s div 2 ^ 64"
proof -
  have "unat s < 2 ^ 64 * 2 ^ 64"
    using unsigned_less [of s] by simp
  then have "unat s div 2 ^ 64 < 2 ^ 64"
    by (simp only: less_mult_imp_div_less)
  then show ?thesis
    by (simp add: unat_ucast_mod unat_drop_bit_div del: power_numeral)
qed

lemma unat_plus_exact:
  "unat (a :: 'a::len word) + unat b < 2 ^ LENGTH('a) \<Longrightarrow> unat (a + b) = unat a + unat b"
  by (simp add: unat_word_ariths)

lemma unat_times_exact:
  "unat (a :: 'a::len word) * unat b < 2 ^ LENGTH('a) \<Longrightarrow> unat (a * b) = unat a * unat b"
  by (simp add: unat_word_ariths)

text \<open>The three-operand sum and the multiply-accumulate of the limb loops never leave 128 bits.\<close>

lemma unat_sum3_u128:
  "unat ((ucast (a :: u64) :: u128) + ucast (b :: u64) + ucast (c :: u64)) = unat a + unat b + unat c"
proof -
  have "unat a + unat b + unat c < 340282366920938463463374607431768211456"
    using unat_u64_le [of a] unat_u64_le [of b] unat_u64_le [of c] by linarith
  then show ?thesis by (simp add: unat_plus_exact)
qed

lemma mult_acc_bound:
  fixes a b c d :: nat
  assumes "a < 2 ^ 64" "b < 2 ^ 64" "c < 2 ^ 64" "d < 2 ^ 64"
  shows "a * b + c + d < 2 ^ 128"
proof -
  have "a * b \<le> (2 ^ 64 - 1) * (2 ^ 64 - 1)"
    using assms by (intro mult_le_mono) simp_all
  with assms show ?thesis by simp
qed

lemma unat_mult_acc_u128:
  assumes "unat (d :: u128) < 2 ^ 64"
  shows "unat ((ucast (a :: u64) :: u128) * ucast (b :: u64) + ucast (c :: u64) + d)
    = unat a * unat b + unat c + unat d"
proof -
  have lt: "unat a < 2 ^ 64" "unat b < 2 ^ 64" "unat c < 2 ^ 64"
    using unat_u64_less [of a] unat_u64_less [of b] unat_u64_less [of c] by simp_all
  have "unat a * unat b + unat c + unat d < 2 ^ 128"
    using lt assms by (rule mult_acc_bound)
  then show ?thesis by (simp add: unat_plus_exact unat_times_exact)
qed

end
