(* ===== verification/BigInt_Limbs.thy ===== *)
theory BigInt_Limbs
  imports Prelude
begin

text \<open>
  The BigInt representation of \<open>crates/perry-runtime/src/bigint/mod.rs\<close>: sixteen 64-bit limbs,
  little-endian, read as a 1024-bit two's complement integer.

  A Rust array \<open>[u64; 16]\<close> is a list of sixteen words (\<open>wf_limbs\<close>); the loops over its
  indices are recursions over the list. The first part holds the definitions, in the order of the
  source. The second part gives the limb lists their meaning: \<open>limbs_nat\<close> is the unsigned
  and \<open>limbs_int\<close> the two's complement value, for lists of any length, so that the facts
  serve the 16-limb values and the 32-limb products alike.
\<close>

subsection \<open>Constants and representation tests\<close>

definition BIGINT_LIMBS :: nat where
  "BIGINT_LIMBS = 16"

definition BIGINT_BITS :: nat where
  "BIGINT_BITS = BIGINT_LIMBS * 64"

definition ZERO_LIMBS :: "u64 list" where
  "ZERO_LIMBS = replicate BIGINT_LIMBS 0"

definition u64_MAX :: u64 where
  "u64_MAX = 0xFFFFFFFFFFFFFFFF"

definition throw_bigint_overflow :: js_throw where
  "throw_bigint_overflow = RangeError ''Maximum BigInt size exceeded''"

definition throw_bigint_division_by_zero :: js_throw where
  "throw_bigint_division_by_zero = RangeError ''Division by zero''"

definition magnitude_fits_1024 :: "u64 list \<Rightarrow> bool \<Rightarrow> bool" where
  "magnitude_fits_1024 mag negative =
     (if list_ex (\<lambda>l. l \<noteq> 0) (drop BIGINT_LIMBS mag) then False
      else
        let top = mag ! (BIGINT_LIMBS - 1)
        in if drop_bit 63 top = 0 then True
           else negative \<and> top = push_bit 63 1
             \<and> list_all (\<lambda>l. l = 0) (take (BIGINT_LIMBS - 1) mag))"

text \<open>The host \<open>i64\<close> is an \<open>int\<close>, the signed reading of the word.\<close>

definition fits_in_i64 :: "u64 list \<Rightarrow> int option" where
  "fits_in_i64 limbs =
     (let lo = limbs ! 0;
          hi_bit = drop_bit 63 lo;
          expected_fill = (if hi_bit = 0 then 0 else u64_MAX)
      in if list_ex (\<lambda>l. l \<noteq> expected_fill) (drop 1 limbs) then None else Some (sint lo))"

definition write_i64 :: "int \<Rightarrow> u64 list" where
  "write_i64 value =
     (let fill = (if value < 0 then u64_MAX else 0)
      in (replicate BIGINT_LIMBS fill)[0 := word_of_int value])"

definition write_i128 :: "int \<Rightarrow> u64 list" where
  "write_i128 value =
     (let fill = (if value < 0 then u64_MAX else 0);
          bits = (word_of_int value :: u128)
      in (replicate BIGINT_LIMBS fill)[0 := ucast bits, 1 := ucast (drop_bit 64 bits)])"

text \<open>
  Memory holds a 16-limb header at every address a BigInt pointer can name. Allocation asks the
  arena for an address and stores the limbs there; the arena is a parameter of the model.
\<close>

type_synonym bigint_mem = "addr \<Rightarrow> u64 list"

definition bigint_alloc_with_limbs ::
    "(bigint_mem \<Rightarrow> addr) \<Rightarrow> bigint_mem \<Rightarrow> u64 list \<Rightarrow> addr \<times> bigint_mem" where
  "bigint_alloc_with_limbs bigint_alloc mem limbs =
     (let ptr = bigint_alloc mem in (ptr, mem(ptr := limbs)))"

definition clean_bigint_ptr :: "addr \<Rightarrow> addr" where
  "clean_bigint_ptr p =
     (let bits = p; top16 = drop_bit 48 bits
      in if 0x7FF8 \<le> top16 then
           (let raw = bits AND 0x0000FFFFFFFFFFFF in if raw < 0x10000 then 0 else raw)
         else if bits < 0x10000 then 0
         else if top16 \<noteq> 0 then 0
         else p)"

definition bigint_limbs_or_zero :: "bigint_mem \<Rightarrow> addr \<Rightarrow> u64 list" where
  "bigint_limbs_or_zero mem a =
     (let a = clean_bigint_ptr a in if a = 0 then ZERO_LIMBS else mem a)"

definition is_negative :: "u64 list \<Rightarrow> bool" where
  "is_negative limbs = (drop_bit 63 (limbs ! (BIGINT_LIMBS - 1)) = 1)"

fun negate_loop :: "u64 list \<Rightarrow> u64 \<Rightarrow> u64 list" where
  "negate_loop [] carry = []"
| "negate_loop (limb # limbs) carry =
     (let flipped = NOT limb;
          sum = (ucast flipped :: u128) + ucast carry
      in ucast sum # negate_loop limbs (ucast (drop_bit 64 sum)))"

definition negate_limbs :: "u64 list \<Rightarrow> u64 list" where
  "negate_limbs limbs = negate_loop limbs 1"

definition wf_limbs :: "u64 list \<Rightarrow> bool" where
  "wf_limbs limbs = (length limbs = BIGINT_LIMBS)"

subsection \<open>The value of a limb list\<close>

fun limbs_nat :: "u64 list \<Rightarrow> nat" where
  "limbs_nat [] = 0"
| "limbs_nat (limb # limbs) = unat limb + 2 ^ 64 * limbs_nat limbs"

fun nat_limbs :: "nat \<Rightarrow> nat \<Rightarrow> u64 list" where
  "nat_limbs 0 v = []"
| "nat_limbs (Suc n) v = word_of_nat v # nat_limbs n (v div 2 ^ 64)"

text \<open>The number of values of \<open>n\<close> limbs, and the two's complement reading and range.\<close>

definition limb_mod :: "nat \<Rightarrow> nat" where
  "limb_mod n = 2 ^ (64 * n)"

definition limbs_int :: "u64 list \<Rightarrow> int" where
  "limbs_int limbs =
     (let v = limbs_nat limbs; m = limb_mod (length limbs)
      in if 2 * v < m then int v else int v - int m)"

definition int_limbs :: "int \<Rightarrow> u64 list" where
  "int_limbs z = nat_limbs BIGINT_LIMBS (nat (z mod int (limb_mod BIGINT_LIMBS)))"

definition bigint_in_range :: "int \<Rightarrow> bool" where
  "bigint_in_range z = (- int (limb_mod BIGINT_LIMBS) \<le> 2 * z \<and> 2 * z < int (limb_mod BIGINT_LIMBS))"

text \<open>What every checked operation promises: the exact result, or the overflow exception.\<close>

definition bigint_checked :: "int \<Rightarrow> js_throw + u64 list" where
  "bigint_checked z = (if bigint_in_range z then Inr (int_limbs z) else Inl throw_bigint_overflow)"

lemma limb_mod_0 [simp]: "limb_mod 0 = 1"
  by (simp add: limb_mod_def)

lemma limb_mod_Suc: "limb_mod (Suc n) = 2 ^ 64 * limb_mod n"
  by (simp add: limb_mod_def power_add)

lemma limb_mod_add: "limb_mod (m + n) = limb_mod m * limb_mod n"
  by (simp add: limb_mod_def power_add distrib_left)

lemma limb_mod_pos [simp]: "0 < limb_mod n"
  by (simp add: limb_mod_def)

lemma limb_mod_neq0 [simp]: "limb_mod n \<noteq> 0"
  by (simp add: limb_mod_def)

lemma limbs_nat_less: "limbs_nat limbs < limb_mod (length limbs)"
proof (induction limbs)
  case (Cons x xs)
  have "limbs_nat (x # xs) < 2 ^ 64 + 2 ^ 64 * limbs_nat xs"
    by simp
  also have "\<dots> \<le> 2 ^ 64 * limb_mod (length xs)"
    using Cons.IH by (simp add: Suc_le_eq flip: mult_Suc_right)
  finally show ?case by (simp add: limb_mod_Suc)
qed simp

lemma limbs_nat_append:
  "limbs_nat (xs @ ys) = limbs_nat xs + limb_mod (length xs) * limbs_nat ys"
  by (induction xs) (simp_all add: limb_mod_Suc algebra_simps)

lemma limbs_nat_inj:
  "length xs = length ys \<Longrightarrow> limbs_nat xs = limbs_nat ys \<Longrightarrow> xs = ys"
proof (induction xs ys rule: list_induct2)
  case (Cons x xs y ys)
  have "unat x = limbs_nat (x # xs) mod 2 ^ 64" "unat y = limbs_nat (y # ys) mod 2 ^ 64"
    by simp_all
  with Cons.prems have "x = y" by (metis unsigned_word_eqI)
  with Cons show ?case by simp
qed simp

lemma length_nat_limbs [simp]: "length (nat_limbs n v) = n"
  by (induction n arbitrary: v) simp_all

lemma limbs_nat_nat_limbs: "limbs_nat (nat_limbs n v) = v mod limb_mod n"
proof (induction n arbitrary: v)
  case (Suc n)
  have "unat (word_of_nat v :: u64) = v mod 2 ^ 64"
    by (simp add: unat_of_nat)
  with Suc show ?case
    by (simp add: limb_mod_Suc mod_mult2_eq del: power_numeral)
qed simp

lemma nat_limbs_limbs_nat: "length limbs = n \<Longrightarrow> nat_limbs n (limbs_nat limbs) = limbs"
  by (intro limbs_nat_inj) (auto simp: limbs_nat_nat_limbs limbs_nat_less)

lemma limbs_nat_replicate_0 [limb_simps]: "limbs_nat (replicate n 0) = 0"
  by (induction n) simp_all

lemma unat_u64_MAX [simp]: "unat u64_MAX = 18446744073709551615"
  by (simp add: u64_MAX_def)

lemma limbs_nat_replicate_MAX [limb_simps]: "limbs_nat (replicate n u64_MAX) = limb_mod n - 1"
proof (induction n)
  case (Suc n)
  have "limb_mod n \<ge> 1" by (simp add: Suc_leI)
  with Suc show ?case by (simp add: limb_mod_Suc)
qed simp

lemma limbs_nat_take_nth:
  assumes "n < length limbs"
  shows "limbs_nat (take (Suc n) limbs) = limbs_nat (take n limbs) + limb_mod n * unat (limbs ! n)"
  using assms by (simp add: take_Suc_conv_app_nth limbs_nat_append min_def)

lemma limbs_nat_take_drop:
  "limbs_nat limbs = limbs_nat (take n limbs) + limb_mod (min n (length limbs)) * limbs_nat (drop n limbs)"
  using limbs_nat_append [of "take n limbs" "drop n limbs"] by (simp add: min.commute)

lemma limbs_nat_eq_0_iff: "limbs_nat limbs = 0 \<longleftrightarrow> list_all (\<lambda>l. l = 0) limbs"
  by (induction limbs) (auto simp: unat_eq_zero)

lemma limbs_int_cong:
  "limbs_int limbs mod int (limb_mod (length limbs)) = int (limbs_nat limbs)"
  using limbs_nat_less [of limbs] by (simp add: limbs_int_def Let_def mod_diff_eq)

lemma limbs_int_range:
  "- int (limb_mod (length limbs)) \<le> 2 * limbs_int limbs"
  "2 * limbs_int limbs < int (limb_mod (length limbs))"
  using limbs_nat_less [of limbs] by (simp_all add: limbs_int_def Let_def)

lemma centred_mod_unique:
  fixes m y z :: int
  assumes "y mod m = z mod m" "- m \<le> 2 * y" "2 * y < m" "- m \<le> 2 * z" "2 * z < m"
  shows "y = z"
proof -
  have dvd: "m dvd y - z" using assms(1) by (simp add: mod_eq_dvd_iff)
  have "\<bar>y - z\<bar> < \<bar>m\<bar>" using assms by linarith
  with dvd_imp_le_int [OF _ dvd] show ?thesis by force
qed

lemma limbs_int_unique:
  assumes "z mod int (limb_mod (length limbs)) = int (limbs_nat limbs)"
    and "- int (limb_mod (length limbs)) \<le> 2 * z" "2 * z < int (limb_mod (length limbs))"
  shows "limbs_int limbs = z"
proof (rule centred_mod_unique)
  show "limbs_int limbs mod int (limb_mod (length limbs)) = z mod int (limb_mod (length limbs))"
    by (simp only: limbs_int_cong assms(1))
qed (use assms limbs_int_range [of limbs] in simp_all)

lemma wf_limbs_in_range [simp]: "wf_limbs limbs \<Longrightarrow> bigint_in_range (limbs_int limbs)"
  using limbs_int_range [of limbs] by (simp add: wf_limbs_def bigint_in_range_def)

lemma wf_int_limbs [simp]: "wf_limbs (int_limbs z)"
  by (simp add: wf_limbs_def int_limbs_def)

lemma limbs_nat_int_limbs: "int (limbs_nat (int_limbs z)) = z mod int (limb_mod BIGINT_LIMBS)"
  by (simp add: int_limbs_def limbs_nat_nat_limbs nat_mod_distrib zmod_int)

lemma limbs_int_int_limbs [simp]: "bigint_in_range z \<Longrightarrow> limbs_int (int_limbs z) = z"
  using wf_int_limbs [of z]
  by (intro limbs_int_unique) (simp_all add: wf_limbs_def limbs_nat_int_limbs bigint_in_range_def)

lemma int_limbs_limbs_int [simp]: "wf_limbs limbs \<Longrightarrow> int_limbs (limbs_int limbs) = limbs"
  using limbs_int_cong [of limbs]
  by (simp add: wf_limbs_def int_limbs_def nat_limbs_limbs_nat)

text \<open>Limb lists with the same value modulo \<open>2^1024\<close> are the same list.\<close>

lemma int_limbs_eqI:
  assumes "wf_limbs limbs" "int (limbs_nat limbs) mod int (limb_mod BIGINT_LIMBS) = z mod int (limb_mod BIGINT_LIMBS)"
  shows "limbs = int_limbs z"
proof (rule limbs_nat_inj)
  show "length limbs = length (int_limbs z)"
    using assms(1) wf_int_limbs [of z] by (simp add: wf_limbs_def)
  have "int (limbs_nat limbs) = int (limbs_nat (int_limbs z))"
    using assms limbs_nat_less [of limbs] by (simp add: limbs_nat_int_limbs wf_limbs_def)
  then show "limbs_nat limbs = limbs_nat (int_limbs z)" by simp
qed

lemma limbs_int_inj: "wf_limbs xs \<Longrightarrow> wf_limbs ys \<Longrightarrow> limbs_int xs = limbs_int ys \<longleftrightarrow> xs = ys"
  by (metis int_limbs_limbs_int)

subsection \<open>Sign, negation and range tests\<close>

lemma drop_bit_63_cases: "drop_bit 63 (x :: u64) = (if unat x < 2 ^ 63 then 0 else 1)"
proof -
  have "unat x div 2 ^ 63 = (if unat x < 2 ^ 63 then 0 else 1)"
    using unat_u64_le [of x] by (auto intro!: div_nat_eqI)
  then have "unat (drop_bit 63 x) = (if unat x < 2 ^ 63 then 0 else 1)"
    by (simp add: unat_drop_bit_div)
  then show ?thesis by (cases "unat x < 2 ^ 63") (simp_all add: word_unat_eq_iff)
qed

lemma wf_limbs_split:
  assumes "wf_limbs limbs"
  shows "limbs_nat limbs = limbs_nat (take 15 limbs) + limb_mod 15 * unat (limbs ! 15)"
    and "limbs_nat (take 15 limbs) < limb_mod 15"
proof -
  have len: "length limbs = 16" using assms by (simp add: wf_limbs_def BIGINT_LIMBS_def)
  show "limbs_nat limbs = limbs_nat (take 15 limbs) + limb_mod 15 * unat (limbs ! 15)"
    using limbs_nat_take_nth [of 15 limbs] len by simp
  show "limbs_nat (take 15 limbs) < limb_mod 15"
    using limbs_nat_less [of "take 15 limbs"] len by simp
qed

lemma limb_mod_BIGINT_LIMBS: "limb_mod BIGINT_LIMBS = 2 ^ 64 * limb_mod 15"
  using limb_mod_Suc [of 15] by (simp add: BIGINT_LIMBS_def)

lemma top_limb_half:
  fixes lo k t :: nat
  assumes "lo < k"
  shows "2 * (lo + k * t) < 2 ^ 64 * k \<longleftrightarrow> t < 2 ^ 63"
proof
  assume "t < 2 ^ 63"
  then have "k * Suc t \<le> k * 2 ^ 63" by (intro mult_le_mono2) simp
  with assms have "lo + k * t < k * 2 ^ 63" by (simp only: mult_Suc_right)
  then show "2 * (lo + k * t) < 2 ^ 64 * k" by simp
next
  assume "2 * (lo + k * t) < 2 ^ 64 * k"
  then have "2 * lo + 2 * (t * k) < 18446744073709551616 * k" by (simp add: algebra_simps)
  then have "t * k < 9223372036854775808 * k" by linarith
  then show "t < 2 ^ 63" by simp
qed

lemma is_negative_iff:
  assumes "wf_limbs limbs"
  shows "is_negative limbs \<longleftrightarrow> limbs_int limbs < 0"
proof -
  note split = wf_limbs_split [OF assms]
  have "is_negative limbs \<longleftrightarrow> \<not> unat (limbs ! 15) < 2 ^ 63"
    by (simp add: is_negative_def BIGINT_LIMBS_def drop_bit_63_cases)
  also have "\<dots> \<longleftrightarrow> \<not> 2 * limbs_nat limbs < limb_mod BIGINT_LIMBS"
    using top_limb_half [OF split(2)] split(1) by (simp add: limb_mod_BIGINT_LIMBS)
  also have "\<dots> \<longleftrightarrow> limbs_int limbs < 0"
    using assms limbs_nat_less [of limbs] by (simp add: limbs_int_def wf_limbs_def Let_def)
  finally show ?thesis .
qed

lemma length_negate_loop [simp]: "length (negate_loop limbs c) = length limbs"
  by (induction limbs arbitrary: c) (simp_all add: Let_def)

lemma unat_not_u64: "unat (NOT x :: u64) = 18446744073709551615 - unat x"
proof -
  have le: "int (unat x) \<le> 18446744073709551615"
    using unat_u64_le [of x] by linarith
  have "(- int (unat x) - 1) mod 18446744073709551616
      = (18446744073709551615 - int (unat x)) mod 18446744073709551616"
    by (simp add: mod_eq_dvd_iff)
  also have "\<dots> = 18446744073709551615 - int (unat x)"
    using le by (intro mod_pos_pos_trivial) (simp, linarith)
  finally have "uint (NOT x) = 18446744073709551615 - int (unat x)"
    by (simp add: unsigned_not_eq take_bit_eq_mod not_int_def)
  then have "int (unat (NOT x)) = 18446744073709551615 - int (unat x)" by simp
  then show ?thesis by linarith
qed

lemma digit_mod: "(lo :: nat) < b \<Longrightarrow> (lo + b * q) mod (b * m) = lo + b * (q mod m)"
  by (simp add: mod_mult2_eq)

lemma unat_sum2_u128: "unat ((ucast (a :: u64) :: u128) + ucast (b :: u64)) = unat a + unat b"
  using unat_sum3_u128 [of a b 0] by simp

lemma limbs_nat_negate_loop:
  "unat c \<le> 1 \<Longrightarrow> limbs_nat (negate_loop limbs c)
    = (limb_mod (length limbs) - 1 - limbs_nat limbs + unat c) mod limb_mod (length limbs)"
proof (induction limbs arbitrary: c)
  case (Cons x xs)
  define m where "m = limb_mod (length xs)"
  define v where "v = limbs_nat xs"
  define sum where "sum = (ucast (NOT x) :: u128) + ucast c"
  have v: "v < m" unfolding v_def m_def by (rule limbs_nat_less)
  have sum: "unat sum = 2 ^ 64 - 1 - unat x + unat c"
    by (simp add: sum_def unat_sum2_u128 unat_not_u64)
  then have "unat sum div 2 ^ 64 \<le> 1" using Cons.prems by simp
  then have "limbs_nat (negate_loop xs (ucast (drop_bit 64 sum)))
      = (m - 1 - v + unat sum div 2 ^ 64) mod m"
    unfolding m_def v_def using Cons.IH [of "ucast (drop_bit 64 sum)"]
    by (simp add: unat_high_half del: power_numeral)
  then have "limbs_nat (negate_loop (x # xs) c)
      = unat sum mod 2 ^ 64 + 2 ^ 64 * ((m - 1 - v + unat sum div 2 ^ 64) mod m)"
    by (simp add: unat_low_half sum_def [symmetric] Let_def del: power_numeral)
  also have "\<dots> = (unat sum mod 2 ^ 64 + 2 ^ 64 * (m - 1 - v + unat sum div 2 ^ 64)) mod (2 ^ 64 * m)"
    by (rule digit_mod [symmetric]) simp
  also have "unat sum mod 2 ^ 64 + 2 ^ 64 * (m - 1 - v + unat sum div 2 ^ 64)
      = unat sum + 2 ^ 64 * (m - 1 - v)"
    using mod_mult_div_eq [of "unat sum" "2 ^ 64"] unfolding distrib_left by linarith
  also have "\<dots> = 2 ^ 64 * m - 1 - (unat x + 2 ^ 64 * v) + unat c"
  proof -
    obtain d where "m = v + 1 + d" using v less_iff_Suc_add by auto
    then show ?thesis using unat_u64_le [of x] by (simp add: sum)
  qed
  finally show ?case by (simp add: m_def v_def limb_mod_Suc)
qed simp

lemma length_negate_limbs [simp]: "length (negate_limbs limbs) = length limbs"
  by (simp add: negate_limbs_def)

lemma limbs_nat_negate_limbs:
  "limbs_nat (negate_limbs limbs) = (limb_mod (length limbs) - limbs_nat limbs) mod limb_mod (length limbs)"
proof -
  have "limb_mod (length limbs) - 1 - limbs_nat limbs + 1 = limb_mod (length limbs) - limbs_nat limbs"
    using limbs_nat_less [of limbs] by simp
  then show ?thesis
    using limbs_nat_negate_loop [of 1 limbs] limbs_nat_less [of "negate_limbs limbs"]
    by (simp add: negate_limbs_def)
qed

lemma limbs_nat_cong_neg:
  "wf_limbs limbs \<Longrightarrow> negate_limbs limbs = int_limbs (- limbs_int limbs)"
proof (rule int_limbs_eqI)
  assume wf: "wf_limbs limbs"
  then show "wf_limbs (negate_limbs limbs)" by (simp add: wf_limbs_def)
  define m where "m = limb_mod BIGINT_LIMBS"
  have v: "limbs_nat limbs < m" "limbs_int limbs mod int m = int (limbs_nat limbs)"
    using wf limbs_nat_less [of limbs] limbs_int_cong [of limbs] by (simp_all add: wf_limbs_def m_def)
  have "int (limbs_nat (negate_limbs limbs)) = (int m - int (limbs_nat limbs)) mod int m"
    using wf v(1) by (simp add: limbs_nat_negate_limbs wf_limbs_def m_def zmod_int)
  also have "\<dots> = (- limbs_int limbs) mod int m"
    using v(2) by (metis mod_minus_eq mod_diff_left_eq diff_0 mod_self)
  finally show "int (limbs_nat (negate_limbs limbs)) mod int (limb_mod BIGINT_LIMBS)
      = - limbs_int limbs mod int (limb_mod BIGINT_LIMBS)"
    by (simp add: m_def)
qed

lemma wf_negate_limbs [simp]: "wf_limbs limbs \<Longrightarrow> wf_limbs (negate_limbs limbs)"
  by (simp add: wf_limbs_def)

text \<open>The magnitude every signed operation starts from, and the sign it puts back at the end.\<close>

lemma limbs_nat_magnitude:
  assumes "wf_limbs limbs"
  shows "int (limbs_nat (if is_negative limbs then negate_limbs limbs else limbs)) = \<bar>limbs_int limbs\<bar>"
proof (cases "limbs_int limbs < 0")
  case True
  have "int (limbs_nat (negate_limbs limbs)) = (- limbs_int limbs) mod int (limb_mod BIGINT_LIMBS)"
    by (simp add: limbs_nat_cong_neg [OF assms] limbs_nat_int_limbs)
  also have "\<dots> = - limbs_int limbs"
    using True wf_limbs_in_range [OF assms] by (intro mod_pos_pos_trivial) (simp_all add: bigint_in_range_def)
  finally show ?thesis using True assms by (simp add: is_negative_iff)
next
  case False
  then have "limbs_int limbs mod int (limb_mod BIGINT_LIMBS) = limbs_int limbs"
    using wf_limbs_in_range [OF assms] by (intro mod_pos_pos_trivial) (simp_all add: bigint_in_range_def)
  with False assms limbs_int_cong [of limbs] show ?thesis by (simp add: is_negative_iff wf_limbs_def)
qed

lemma apply_sign_limbs:
  assumes "wf_limbs mag"
  shows "(if neg then negate_limbs mag else mag)
    = int_limbs (if neg then - int (limbs_nat mag) else int (limbs_nat mag))"
proof (rule int_limbs_eqI)
  show "wf_limbs (if neg then negate_limbs mag else mag)" using assms by simp
  have "limbs_int mag mod int (limb_mod BIGINT_LIMBS) = int (limbs_nat mag)"
    using assms limbs_int_cong [of mag] by (simp add: wf_limbs_def)
  then have "(- limbs_int mag) mod int (limb_mod BIGINT_LIMBS) = (- int (limbs_nat mag)) mod int (limb_mod BIGINT_LIMBS)"
    by (metis mod_minus_eq)
  then show "int (limbs_nat (if neg then negate_limbs mag else mag)) mod int (limb_mod BIGINT_LIMBS)
    = (if neg then - int (limbs_nat mag) else int (limbs_nat mag)) mod int (limb_mod BIGINT_LIMBS)"
    using assms by (simp add: limbs_nat_cong_neg limbs_nat_int_limbs)
qed

lemma top_limb_exact:
  fixes lo k t :: nat
  assumes "lo < k" "\<not> t < 2 ^ 63"
  shows "2 * (lo + k * t) \<le> 2 ^ 64 * k \<longleftrightarrow> t = 2 ^ 63 \<and> lo = 0"
proof
  assume le: "2 * (lo + k * t) \<le> 2 ^ 64 * k"
  then have le': "lo + k * t \<le> k * 2 ^ 63" by simp
  have "k * 2 ^ 63 \<le> k * t" using assms(2) by (intro mult_le_mono2) simp
  with le' have "lo = 0" "k * t = k * 2 ^ 63" by linarith+
  with assms(1) show "t = 2 ^ 63 \<and> lo = 0" by simp
qed simp

lemma magnitude_fits_iff:
  assumes "BIGINT_LIMBS \<le> length mag"
  shows "magnitude_fits_1024 mag negative
    \<longleftrightarrow> bigint_in_range (if negative then - int (limbs_nat mag) else int (limbs_nat mag))"
proof -
  define low where "low = take BIGINT_LIMBS mag"
  define hi where "hi = limbs_nat (drop BIGINT_LIMBS mag)"
  have wf: "wf_limbs low" using assms by (simp add: low_def wf_limbs_def)
  have v: "limbs_nat mag = limbs_nat low + limb_mod BIGINT_LIMBS * hi"
    using assms limbs_nat_take_drop [of mag BIGINT_LIMBS] by (simp add: low_def hi_def)
  have nz: "list_ex (\<lambda>l. l \<noteq> 0) (drop BIGINT_LIMBS mag) \<longleftrightarrow> hi \<noteq> 0"
    by (simp add: hi_def limbs_nat_eq_0_iff list_ex_iff list_all_iff)
  have idx: "mag ! (BIGINT_LIMBS - 1) = low ! 15" "take (BIGINT_LIMBS - 1) mag = take 15 low"
    by (simp_all add: low_def BIGINT_LIMBS_def)
  note split = wf_limbs_split [OF wf]
  have half: "unat (low ! 15) < 2 ^ 63 \<longleftrightarrow> 2 * limbs_nat low < limb_mod BIGINT_LIMBS"
    using top_limb_half [OF split(2)] split(1) by (simp add: limb_mod_BIGINT_LIMBS)
  have exact: "\<not> unat (low ! 15) < 2 ^ 63 \<Longrightarrow> 2 * limbs_nat low \<le> limb_mod BIGINT_LIMBS
      \<longleftrightarrow> unat (low ! 15) = 2 ^ 63 \<and> limbs_nat (take 15 low) = 0"
    using top_limb_exact [OF split(2)] split(1) by (simp add: limb_mod_BIGINT_LIMBS)
  have top: "low ! 15 = push_bit 63 1 \<longleftrightarrow> unat (low ! 15) = 2 ^ 63"
    by (simp add: word_unat_eq_iff)
  have big: "hi \<noteq> 0 \<Longrightarrow> limb_mod BIGINT_LIMBS \<le> limbs_nat mag"
    by (simp add: v trans_le_add2)
  show ?thesis
  proof (cases "hi = 0")
    case False
    with big have "limb_mod BIGINT_LIMBS \<le> limbs_nat mag" by simp
    moreover have "0 < limb_mod BIGINT_LIMBS" by simp
    ultimately have "\<not> bigint_in_range (if negative then - int (limbs_nat mag) else int (limbs_nat mag))"
      unfolding bigint_in_range_def by (simp split: if_split)
    with False nz show ?thesis by (simp add: magnitude_fits_1024_def)
  next
    case True
    have "bigint_in_range (if negative then - int (limbs_nat low) else int (limbs_nat low))
      \<longleftrightarrow> 2 * limbs_nat low < limb_mod BIGINT_LIMBS \<or> (negative \<and> 2 * limbs_nat low \<le> limb_mod BIGINT_LIMBS)"
      using limb_mod_pos [of BIGINT_LIMBS] unfolding bigint_in_range_def
      by (cases negative; simp only: if_True if_False simp_thms) linarith+
    moreover have "magnitude_fits_1024 mag negative \<longleftrightarrow> unat (low ! 15) < 2 ^ 63
      \<or> (negative \<and> unat (low ! 15) = 2 ^ 63 \<and> limbs_nat (take 15 low) = 0)"
      unfolding magnitude_fits_1024_def idx Let_def nz top limbs_nat_eq_0_iff drop_bit_63_cases
      using True by simp
    ultimately show ?thesis using True v half exact by auto
  qed
qed

subsection \<open>The machine-word fast path\<close>

lemma replicate_BIGINT_LIMBS: "replicate BIGINT_LIMBS f = f # f # replicate 14 f"
  by (simp add: BIGINT_LIMBS_def numeral_eq_Suc)

lemma wf_write_i64 [simp]: "wf_limbs (write_i64 z)"
  by (simp add: write_i64_def wf_limbs_def Let_def)

lemma wf_write_i128 [simp]: "wf_limbs (write_i128 z)"
  by (simp add: write_i128_def wf_limbs_def Let_def)

lemma limb_mod_BIGINT_LIMBS_14: "limb_mod BIGINT_LIMBS = 2 ^ 128 * limb_mod 14"
  using limb_mod_add [of 2 14] by (simp add: BIGINT_LIMBS_def limb_mod_def [of 2])

lemma limbs_nat_two: "limbs_nat [ucast (b :: u128), ucast (drop_bit 64 b)] = unat b"
  using mod_mult_div_eq [of "unat b" "2 ^ 64"]
  by (simp only: limbs_nat.simps unat_high_half) (simp only: unat_low_half mult_0_right add_0_right)

lemma limbs_nat_fill:
  "limbs_nat (replicate n (if neg then u64_MAX else 0)) = (if neg then limb_mod n - 1 else 0)"
  by (simp add: limb_simps)

lemma write_i128_eq:
  assumes "- (2 ^ 127) \<le> z" "z < 2 ^ 127"
  shows "write_i128 z = int_limbs z"
proof (rule int_limbs_eqI)
  define b where "b = (word_of_int z :: u128)"
  define n where "n = limb_mod 14"
  have npos: "1 \<le> n" by (simp add: n_def Suc_leI)
  have "write_i128 z = [ucast b, ucast (drop_bit 64 b)] @ replicate 14 (if z < 0 then u64_MAX else 0)"
    by (simp add: write_i128_def replicate_BIGINT_LIMBS Let_def b_def)
  then have len: "limbs_nat (write_i128 z) = unat b + limb_mod 2 * (if z < 0 then n - 1 else 0)"
    by (simp only: limbs_nat_append limbs_nat_two limbs_nat_fill n_def) (simp add: numeral_2_eq_2)
  have ub: "uint b = z mod 2 ^ 128"
    by (simp add: b_def uint_word_of_int)
  have m: "z mod 2 ^ 128 = (if z < 0 then z + 2 ^ 128 else z)"
  proof (cases "z < 0")
    case True
    have "z mod 2 ^ 128 = (z + 2 ^ 128) mod 2 ^ 128" by simp
    also have "\<dots> = z + 2 ^ 128" using assms True by (intro mod_pos_pos_trivial) simp_all
    finally show ?thesis using True by simp
  next
    case False
    then show ?thesis using assms by (simp add: mod_pos_pos_trivial)
  qed
  have "int (limbs_nat (write_i128 z)) = (if z < 0 then z + int (limb_mod BIGINT_LIMBS) else z)"
    using npos m by (cases "z < 0")
      (simp_all add: len ub limb_mod_BIGINT_LIMBS_14 n_def [symmetric] limb_mod_def [of 2] algebra_simps)
  then show "int (limbs_nat (write_i128 z)) mod int (limb_mod BIGINT_LIMBS) = z mod int (limb_mod BIGINT_LIMBS)"
    by simp
qed simp

lemma limb_mod_BIGINT_LIMBS_15: "limb_mod BIGINT_LIMBS = limb_mod 1 * limb_mod 15"
  using limb_mod_add [of 1 15] by (simp add: BIGINT_LIMBS_def)

lemma i64_mod_u64:
  assumes "- (2 ^ 63) \<le> z" "z < (2 :: int) ^ 63"
  shows "z mod 2 ^ 64 = (if z < 0 then z + 2 ^ 64 else z)"
proof (cases "z < 0")
  case True
  have "z mod 2 ^ 64 = (z + 2 ^ 64) mod 2 ^ 64" by simp
  also have "\<dots> = z + 2 ^ 64" using assms True by (intro mod_pos_pos_trivial) simp_all
  finally show ?thesis using True by simp
qed (use assms in \<open>simp add: mod_pos_pos_trivial\<close>)

text \<open>The value of a limb followed by its sign extension.\<close>

lemma limbs_int_sign_extension:
  assumes "- (2 ^ 63) \<le> z" "z < (2 :: int) ^ 63"
  shows "word_of_int z # replicate 15 (if z < 0 then u64_MAX else 0) = int_limbs z"
proof (rule int_limbs_eqI)
  define n where "n = limb_mod 15"
  have npos: "1 \<le> n" by (simp add: n_def Suc_leI)
  have ub: "int (unat (word_of_int z :: u64)) = z mod 2 ^ 64"
    by (simp add: uint_word_of_int)
  have "int (limbs_nat (word_of_int z # replicate 15 (if z < 0 then u64_MAX else 0)))
      = (if z < 0 then z + int (limb_mod BIGINT_LIMBS) else z)"
    using npos i64_mod_u64 [OF assms] ub
    by (cases "z < 0")
      (simp_all add: limb_simps limb_mod_BIGINT_LIMBS n_def [symmetric] algebra_simps)
  then show "int (limbs_nat (word_of_int z # replicate 15 (if z < 0 then u64_MAX else 0))) mod int (limb_mod BIGINT_LIMBS)
      = z mod int (limb_mod BIGINT_LIMBS)"
    by simp
qed (simp add: wf_limbs_def BIGINT_LIMBS_def)

lemma write_i64_eq:
  assumes "- (2 ^ 63) \<le> z" "z < (2 :: int) ^ 63"
  shows "write_i64 z = int_limbs z"
proof -
  have "write_i64 z = word_of_int z # replicate 15 (if z < 0 then u64_MAX else 0)"
    by (simp add: write_i64_def BIGINT_LIMBS_def numeral_eq_Suc)
  then show ?thesis by (simp only: limbs_int_sign_extension [OF assms])
qed

lemma sint_u64_range: "- (2 ^ 63) \<le> sint (x :: u64)" "sint (x :: u64) < 2 ^ 63"
  using sint_ge [of x] sint_lt [of x] by simp_all

lemma sint_u64_neg_iff: "sint (x :: u64) < 0 \<longleftrightarrow> \<not> unat x < 2 ^ 63"
proof -
  have "int (unat x) = sint x mod 2 ^ 64" by (simp add: uint_sint take_bit_eq_mod)
  then have eq: "int (unat x) = (if sint x < 0 then sint x + 2 ^ 64 else sint x)"
    using i64_mod_u64 [OF sint_u64_range, of x] by (simp only:)
  have range: "- 9223372036854775808 \<le> sint x" "sint x < 9223372036854775808"
    using sint_u64_range [of x] by simp_all
  have half: "unat x < 9223372036854775808 \<longleftrightarrow> int (unat x) < 9223372036854775808"
    by linarith
  have "sint x < 0 \<longleftrightarrow> \<not> int (unat x) < 9223372036854775808"
    using range unfolding eq by simp
  then show ?thesis unfolding half [symmetric] by simp
qed

lemma i128_in_range: "- (2 ^ 127) \<le> z \<Longrightarrow> z < 2 ^ 127 \<Longrightarrow> bigint_in_range z"
proof -
  assume "- (2 ^ 127) \<le> z" "z < 2 ^ 127"
  moreover have "(2 :: int) ^ 128 \<le> int (limb_mod BIGINT_LIMBS)"
    using limb_mod_pos [of 14] by (simp add: limb_mod_BIGINT_LIMBS_14 del: limb_mod_pos)
  ultimately show ?thesis by (simp add: bigint_in_range_def)
qed

lemma fits_in_i64_Some:
  assumes "wf_limbs limbs" "fits_in_i64 limbs = Some z"
  shows "limbs_int limbs = z \<and> - (2 ^ 63) \<le> z \<and> z < 2 ^ 63"
proof -
  obtain x xs where limbs: "limbs = x # xs" "length xs = 15"
    using assms(1) by (cases limbs) (auto simp: wf_limbs_def BIGINT_LIMBS_def)
  have z: "z = sint x" and fill: "list_all (\<lambda>l. l = (if sint x < 0 then u64_MAX else 0)) xs"
    using assms(2) by (auto simp: fits_in_i64_def limbs(1) Let_def drop_bit_63_cases sint_u64_neg_iff
        list_ex_iff list_all_iff split: if_splits)
  have "xs = replicate 15 (if z < 0 then u64_MAX else 0)"
    using fill limbs(2) unfolding z by (intro replicate_eqI) (auto simp: list_all_iff)
  then have "limbs = int_limbs z"
    using limbs_int_sign_extension [OF sint_u64_range, of x] by (simp add: limbs(1) z)
  moreover have "bigint_in_range z"
    using sint_u64_range [of x] unfolding z by (intro i128_in_range) simp_all
  ultimately show ?thesis using sint_u64_range [of x] z by simp
qed

end
