(* ===== verification/BigInt_Interface.thy ===== *)
theory BigInt_Interface
  imports BigInt_Limbs
begin

text \<open>
  The interface between the limb-level BigInt operations and the exported \<open>js_bigint_*\<close>
  functions: an operation reads its operands' limbs through \<open>bigint_limbs_or_zero\<close>, computes on
  limbs, and allocates the result. The locales \<open>bigint_op1\<close> and \<open>bigint_op2\<close> state the
  law an operation promises, refinement of a function on integers that may throw, and derive
  once what the exported function then does to memory. The component theories interpret them on
  every operation.
\<close>

definition bigint_return ::
    "(bigint_mem \<Rightarrow> addr) \<Rightarrow> bigint_mem \<Rightarrow> js_throw + u64 list \<Rightarrow> js_throw + (addr \<times> bigint_mem)" where
  "bigint_return alloc mem r =
     (case r of Inl e \<Rightarrow> Inl e | Inr limbs \<Rightarrow> Inr (bigint_alloc_with_limbs alloc mem limbs))"

text \<open>The integer a BigInt pointer denotes, the well-formedness of memory, and the arena's promise.\<close>

definition bigint_value :: "bigint_mem \<Rightarrow> addr \<Rightarrow> int" where
  "bigint_value mem p = limbs_int (bigint_limbs_or_zero mem p)"

definition bigint_mem_ok :: "bigint_mem \<Rightarrow> bool" where
  "bigint_mem_ok mem \<longleftrightarrow> (\<forall>p. wf_limbs (mem p))"

definition arena_ok :: "(bigint_mem \<Rightarrow> addr) \<Rightarrow> bool" where
  "arena_ok alloc \<longleftrightarrow> (\<forall>mem. clean_bigint_ptr (alloc mem) = alloc mem \<and> alloc mem \<noteq> 0)"

text \<open>
  What an exported operation owes its caller: on the specified value \<open>v\<close>, a pointer to a fresh
  header holding it with every other pointer's value unchanged, or the specified exception.
\<close>

definition bigint_result ::
    "bigint_mem \<Rightarrow> js_throw + int \<Rightarrow> js_throw + (addr \<times> bigint_mem) \<Rightarrow> bool" where
  "bigint_result mem v r \<longleftrightarrow>
     (case (v, r) of
        (Inl e, Inl e') \<Rightarrow> e' = e
      | (Inr z, Inr (p, mem')) \<Rightarrow> p \<noteq> 0 \<and> bigint_value mem' p = z \<and> bigint_mem_ok mem'
          \<and> (\<forall>q. clean_bigint_ptr q \<noteq> p \<longrightarrow> bigint_value mem' q = bigint_value mem q)
      | _ \<Rightarrow> False)"

definition int_checked :: "int \<Rightarrow> js_throw + int" where
  "int_checked z = (if bigint_in_range z then Inr z else Inl throw_bigint_overflow)"

lemma wf_ZERO_LIMBS [simp]: "wf_limbs ZERO_LIMBS"
  by (simp add: wf_limbs_def ZERO_LIMBS_def)

lemma limbs_nat_ZERO_LIMBS [simp]: "limbs_nat ZERO_LIMBS = 0"
  by (simp add: ZERO_LIMBS_def limb_simps)

lemma limbs_int_ZERO_LIMBS [simp]: "limbs_int ZERO_LIMBS = 0"
  by (simp add: limbs_int_def)

lemma eq_ZERO_LIMBS_iff: "wf_limbs limbs \<Longrightarrow> limbs = ZERO_LIMBS \<longleftrightarrow> limbs_int limbs = 0"
  using limbs_int_inj [of limbs ZERO_LIMBS] by simp

lemma wf_limbs_or_zero [simp]: "bigint_mem_ok mem \<Longrightarrow> wf_limbs (bigint_limbs_or_zero mem p)"
  by (simp add: bigint_limbs_or_zero_def bigint_mem_ok_def Let_def)

lemma bigint_checked_int_checked: "bigint_checked z = map_sum id int_limbs (int_checked z)"
  by (simp add: bigint_checked_def int_checked_def)

lemma int_checked_in_range: "int_checked x = Inr z \<Longrightarrow> bigint_in_range z"
  by (simp add: int_checked_def split: if_splits)

lemma bigint_return_result:
  assumes "bigint_mem_ok mem" "arena_ok alloc" "\<And>z. v = Inr z \<Longrightarrow> bigint_in_range z"
  shows "bigint_result mem v (bigint_return alloc mem (map_sum id int_limbs v))"
proof (cases v)
  case (Inr z)
  define p where "p = alloc mem"
  have p: "clean_bigint_ptr p = p" "p \<noteq> 0" using assms(2) by (simp_all add: arena_ok_def p_def)
  have "bigint_value (mem(p := int_limbs z)) p = z"
    using p assms(3) [OF Inr] by (simp add: bigint_value_def bigint_limbs_or_zero_def Let_def)
  moreover have "bigint_mem_ok (mem(p := int_limbs z))"
    using assms(1) by (simp add: bigint_mem_ok_def)
  moreover have "bigint_value (mem(p := int_limbs z)) q = bigint_value mem q" if "clean_bigint_ptr q \<noteq> p" for q
    using that by (simp add: bigint_value_def bigint_limbs_or_zero_def Let_def)
  ultimately show ?thesis
    using p(2) by (simp add: bigint_result_def Inr bigint_return_def bigint_alloc_with_limbs_def p_def Let_def)
qed (simp add: bigint_result_def bigint_return_def)

locale bigint_op1 =
  fixes lop :: "u64 list \<Rightarrow> js_throw + u64 list"
    and iop :: "int \<Rightarrow> js_throw + int"
  assumes refines: "wf_limbs a \<Longrightarrow> lop a = map_sum id int_limbs (iop (limbs_int a))"
    and closed: "bigint_in_range x \<Longrightarrow> iop x = Inr z \<Longrightarrow> bigint_in_range z"
begin

lemma exported:
  assumes "bigint_mem_ok mem" "arena_ok alloc"
  shows "bigint_result mem (iop (bigint_value mem a))
    (bigint_return alloc mem (lop (bigint_limbs_or_zero mem a)))"
  unfolding refines [OF wf_limbs_or_zero [OF assms(1)]] bigint_value_def
  by (rule bigint_return_result [OF assms]) (rule closed, simp_all add: assms(1))

end

locale bigint_op2 =
  fixes lop :: "u64 list \<Rightarrow> u64 list \<Rightarrow> js_throw + u64 list"
    and iop :: "int \<Rightarrow> int \<Rightarrow> js_throw + int"
  assumes refines: "wf_limbs a \<Longrightarrow> wf_limbs b \<Longrightarrow> lop a b = map_sum id int_limbs (iop (limbs_int a) (limbs_int b))"
    and closed: "bigint_in_range x \<Longrightarrow> bigint_in_range y \<Longrightarrow> iop x y = Inr z \<Longrightarrow> bigint_in_range z"
begin

lemma exported:
  assumes "bigint_mem_ok mem" "arena_ok alloc"
  shows "bigint_result mem (iop (bigint_value mem a) (bigint_value mem b))
    (bigint_return alloc mem (lop (bigint_limbs_or_zero mem a) (bigint_limbs_or_zero mem b)))"
  unfolding refines [OF wf_limbs_or_zero [OF assms(1)] wf_limbs_or_zero [OF assms(1)]] bigint_value_def
  by (rule bigint_return_result [OF assms]) (rule closed, simp_all add: assms(1))

end

end
