(* ===== verification/BigInt_Arith.thy ===== *)
theory BigInt_Arith
  imports BigInt_Interface "HOL-Library.Signed_Division"
begin

text \<open>
  BigInt arithmetic, \<open>crates/perry-runtime/src/bigint/arith.rs\<close>: negation, addition,
  subtraction, multiplication, division, remainder and power.

  Each operation of the source has two parts. The body after the operands' limbs are read is a
  function from limbs to \<open>js_throw + u64 list\<close> (\<open>bigint_add\<close>, \<open>bigint_mul\<close>,
  \<dots>); the exported function (\<open>js_bigint_add\<close>, \<dots>) reads the operands through
  \<open>bigint_limbs_or_zero\<close> and allocates the result. Index loops are recursions over the limb
  lists; the \<open>i128\<close> intermediates of the source, whose ranges are shown by the proofs, are
  integers, its \<open>u128\<close> intermediates are 128-bit words.
\<close>

subsection \<open>The operations\<close>

definition js_bigint_is_negative :: "bigint_mem \<Rightarrow> addr \<Rightarrow> int" where
  "js_bigint_is_negative mem a =
     (let a = clean_bigint_ptr a
      in if a = 0 then 0
         else let msb = mem a ! (BIGINT_LIMBS - 1)
              in if msb AND push_bit 63 1 \<noteq> 0 then 1 else 0)"

definition bigint_neg :: "u64 list \<Rightarrow> js_throw + u64 list" where
  "bigint_neg a_limbs =
     (let result = negate_loop a_limbs 1
      in if result = a_limbs \<and> a_limbs \<noteq> ZERO_LIMBS then Inl throw_bigint_overflow else Inr result)"

definition js_bigint_neg where
  "js_bigint_neg alloc mem a = bigint_return alloc mem (bigint_neg (bigint_limbs_or_zero mem a))"

definition bigint_not :: "u64 list \<Rightarrow> js_throw + u64 list" where
  "bigint_not a_limbs = Inr (map (\<lambda>l. NOT l) a_limbs)"

definition js_bigint_not where
  "js_bigint_not alloc mem a = bigint_return alloc mem (bigint_not (bigint_limbs_or_zero mem a))"

definition js_bigint_is_zero :: "bigint_mem \<Rightarrow> addr \<Rightarrow> int" where
  "js_bigint_is_zero mem a =
     (let a = clean_bigint_ptr a
      in if a = 0 then 1 else if list_ex (\<lambda>l. l \<noteq> 0) (mem a) then 0 else 1)"

fun add_loop :: "u64 list \<Rightarrow> u64 list \<Rightarrow> u64 \<Rightarrow> u64 list" where
  "add_loop (x # xs) (y # ys) carry =
     (let sum = (ucast x :: u128) + ucast y + ucast carry
      in ucast sum # add_loop xs ys (ucast (drop_bit 64 sum)))"
| "add_loop _ _ _ = []"

definition bigint_add :: "u64 list \<Rightarrow> u64 list \<Rightarrow> js_throw + u64 list" where
  "bigint_add a_limbs b_limbs =
     (case (fits_in_i64 a_limbs, fits_in_i64 b_limbs) of
        (Some av, Some bv) \<Rightarrow> Inr (write_i128 (av + bv))
      | _ \<Rightarrow>
          let result = add_loop a_limbs b_limbs 0
          in if is_negative a_limbs = is_negative b_limbs \<and> is_negative result \<noteq> is_negative a_limbs
             then Inl throw_bigint_overflow else Inr result)"

definition js_bigint_add where
  "js_bigint_add alloc mem a b =
     bigint_return alloc mem (bigint_add (bigint_limbs_or_zero mem a) (bigint_limbs_or_zero mem b))"

fun sub_loop :: "u64 list \<Rightarrow> u64 list \<Rightarrow> int \<Rightarrow> u64 list" where
  "sub_loop (x # xs) (y # ys) borrow =
     (let diff = uint x - uint y - borrow
      in if diff < 0 then word_of_int (diff + 2 ^ 64) # sub_loop xs ys 1
         else word_of_int diff # sub_loop xs ys 0)"
| "sub_loop _ _ _ = []"

definition bigint_sub :: "u64 list \<Rightarrow> u64 list \<Rightarrow> js_throw + u64 list" where
  "bigint_sub a_limbs b_limbs =
     (case (fits_in_i64 a_limbs, fits_in_i64 b_limbs) of
        (Some av, Some bv) \<Rightarrow> Inr (write_i128 (av - bv))
      | _ \<Rightarrow>
          let result = sub_loop a_limbs b_limbs 0
          in if is_negative a_limbs \<noteq> is_negative b_limbs \<and> is_negative result \<noteq> is_negative a_limbs
             then Inl throw_bigint_overflow else Inr result)"

definition js_bigint_sub where
  "js_bigint_sub alloc mem a b =
     bigint_return alloc mem (bigint_sub (bigint_limbs_or_zero mem a) (bigint_limbs_or_zero mem b))"

definition effective_limb_len :: "u64 list \<Rightarrow> nat" where
  "effective_limb_len limbs =
     (let fill = (if drop_bit 63 (limbs ! (BIGINT_LIMBS - 1)) = 1 then u64_MAX else 0)
      in case find (\<lambda>i. limbs ! i \<noteq> fill) (rev [0..<BIGINT_LIMBS]) of
           Some i \<Rightarrow> min (i + 2) BIGINT_LIMBS
         | None \<Rightarrow> 1)"

text \<open>The inner loop over \<open>j\<close> at a fixed row \<open>i\<close>; \<open>p\<close> is the index \<open>i + j\<close>.\<close>

fun mul_row :: "u64 \<Rightarrow> u64 list \<Rightarrow> nat \<Rightarrow> u64 list \<Rightarrow> u128 \<Rightarrow> u64 list \<times> u128" where
  "mul_row ai [] p wide carry = (wide, carry)"
| "mul_row ai (bj # bs) p wide carry =
     (let product = (ucast ai :: u128) * ucast bj + ucast (wide ! p) + carry
      in mul_row ai bs (Suc p) (wide[p := ucast product]) (drop_bit 64 product))"

function mul_carry :: "nat \<Rightarrow> u64 list \<Rightarrow> u128 \<Rightarrow> u64 list" where
  "mul_carry k wide carry =
     (if carry \<noteq> 0 \<and> k < 2 * BIGINT_LIMBS then
        let sum = (ucast (wide ! k) :: u128) + carry
        in mul_carry (Suc k) (wide[k := ucast sum]) (drop_bit 64 sum)
      else wide)"
  by pat_completeness auto
termination
  by (relation "measure (\<lambda>(k, _, _). 2 * BIGINT_LIMBS - k)") auto

declare mul_carry.simps [simp del]

fun mul_rows :: "u64 list \<Rightarrow> nat \<Rightarrow> u64 list \<Rightarrow> u64 list \<Rightarrow> u64 list" where
  "mul_rows [] i b wide = wide"
| "mul_rows (ai # as) i b wide =
     (let (wide, carry) = mul_row ai b i wide 0
      in mul_rows as (Suc i) b (mul_carry (i + length b) wide carry))"

definition mul_limbs_checked :: "u64 list \<Rightarrow> u64 list \<Rightarrow> js_throw + u64 list" where
  "mul_limbs_checked a_limbs b_limbs =
     (let a_neg = is_negative a_limbs;
          b_neg = is_negative b_limbs;
          a_mag = (if a_neg then negate_limbs a_limbs else a_limbs);
          b_mag = (if b_neg then negate_limbs b_limbs else b_limbs);
          a_len = effective_limb_len a_mag;
          b_len = effective_limb_len b_mag;
          wide = mul_rows (take a_len a_mag) 0 (take b_len b_mag) (replicate (2 * BIGINT_LIMBS) 0);
          negative = (a_neg \<noteq> b_neg)
      in if \<not> magnitude_fits_1024 wide negative then Inl throw_bigint_overflow
         else let result = take BIGINT_LIMBS wide
              in Inr (if negative then negate_limbs result else result))"

definition bigint_mul :: "u64 list \<Rightarrow> u64 list \<Rightarrow> js_throw + u64 list" where
  "bigint_mul a_limbs b_limbs =
     (case (fits_in_i64 a_limbs, fits_in_i64 b_limbs) of
        (Some av, Some bv) \<Rightarrow> Inr (write_i128 (av * bv))
      | _ \<Rightarrow> mul_limbs_checked a_limbs b_limbs)"

definition js_bigint_mul where
  "js_bigint_mul alloc mem a b =
     bigint_return alloc mem (bigint_mul (bigint_limbs_or_zero mem a) (bigint_limbs_or_zero mem b))"

text \<open>\<open>u64::leading_zeros\<close> and \<open>u64::is_power_of_two\<close>.\<close>

definition leading_zeros :: "u64 \<Rightarrow> nat" where
  "leading_zeros x = (case find (\<lambda>i. bit x i) (rev [0..<64]) of Some i \<Rightarrow> 63 - i | None \<Rightarrow> 64)"

definition is_power_of_two :: "u64 \<Rightarrow> bool" where
  "is_power_of_two x = (length (filter (\<lambda>i. bit x i) [0..<64]) = 1)"

definition highest_set_bit :: "u64 list \<Rightarrow> nat option" where
  "highest_set_bit limbs =
     (case find (\<lambda>i. limbs ! i \<noteq> 0) (rev [0..<BIGINT_LIMBS]) of
        Some i \<Rightarrow> Some (i * 64 + 63 - leading_zeros (limbs ! i))
      | None \<Rightarrow> None)"

fun shl1_loop :: "u64 list \<Rightarrow> u64 \<Rightarrow> u64 list" where
  "shl1_loop [] carry = []"
| "shl1_loop (limb # limbs) carry =
     (let new_carry = drop_bit 63 limb
      in (push_bit 1 limb OR carry) # shl1_loop limbs new_carry)"

text \<open>The scan from the top limb down; the arguments are the reversed limb lists.\<close>

fun ge_loop :: "u64 list \<Rightarrow> u64 list \<Rightarrow> bool" where
  "ge_loop (x # xs) (y # ys) = (if x > y then True else if x < y then False else ge_loop xs ys)"
| "ge_loop _ _ = True"

definition subtract_limbs :: "u64 list \<Rightarrow> u64 list \<Rightarrow> u64 list" where
  "subtract_limbs a b = sub_loop a b 0"

text \<open>Tier 1 of the division: the divisor is \<open>2 ^ k\<close>.\<close>

definition div_pow2 :: "u64 list \<Rightarrow> nat \<Rightarrow> u64 list \<times> u64 list" where
  "div_pow2 a k =
     (let limb_k = k div 64;
          bit_k = k mod 64;
          remainder = take limb_k a @ drop limb_k ZERO_LIMBS;
          remainder = (if bit_k > 0 then remainder[limb_k := a ! limb_k AND (push_bit bit_k 1 - 1)]
                       else remainder);
          quot = map (\<lambda>i.
            let src = i + limb_k;
                lo = (if src < BIGINT_LIMBS then a ! src else 0)
            in if bit_k = 0 then lo
               else let hi = (if src + 1 < BIGINT_LIMBS then a ! (src + 1) else 0)
                    in drop_bit bit_k lo OR push_bit (64 - bit_k) hi) [0..<BIGINT_LIMBS]
      in (quot, remainder))"

text \<open>Tier 2: one limb of divisor, hardware division; the limbs \<open>n - 1, \<dots>, 0\<close> remain.\<close>

fun div_limb_loop :: "u64 list \<Rightarrow> u64 \<Rightarrow> nat \<Rightarrow> u64 list \<Rightarrow> u64 \<Rightarrow> u64 list \<times> u64" where
  "div_limb_loop a d 0 quot rem = (quot, rem)"
| "div_limb_loop a d (Suc i) quot rem =
     (let cur = push_bit 64 (ucast rem :: u128) OR ucast (a ! i)
      in div_limb_loop a d i (quot[i := ucast (cur div ucast d)]) (ucast (cur mod ucast d)))"

text \<open>Tier 3: bit at a time; the bits \<open>n - 1, \<dots>, 0\<close> of the dividend remain.\<close>

fun div_bit_loop :: "u64 list \<Rightarrow> u64 list \<Rightarrow> nat \<Rightarrow> u64 list \<Rightarrow> u64 list \<Rightarrow> u64 list \<times> u64 list" where
  "div_bit_loop a b 0 quot remainder = (quot, remainder)"
| "div_bit_loop a b (Suc i) quot remainder =
     (let remainder = shl1_loop remainder 0;
          limb_idx = i div 64;
          bit_idx = i mod 64;
          remainder = remainder[0 := remainder ! 0 OR (drop_bit bit_idx (a ! limb_idx) AND 1)]
      in if ge_loop (rev remainder) (rev b)
         then div_bit_loop a b i
                (quot[limb_idx := quot ! limb_idx OR push_bit bit_idx 1])
                (subtract_limbs remainder b)
         else div_bit_loop a b i quot remainder)"

definition unsigned_div_limbs :: "u64 list \<Rightarrow> u64 list \<Rightarrow> u64 list \<times> u64 list" where
  "unsigned_div_limbs a b =
     (case highest_set_bit a of
        None \<Rightarrow> (ZERO_LIMBS, ZERO_LIMBS)
      | Some a_top_bit \<Rightarrow>
          (case highest_set_bit b of
             None \<Rightarrow> (ZERO_LIMBS, ZERO_LIMBS)
           | Some b_top_bit \<Rightarrow>
               if a_top_bit < b_top_bit then (ZERO_LIMBS, a)
               else
                 let b_top_limb = b_top_bit div 64
                 in if is_power_of_two (b ! b_top_limb) \<and> list_all (\<lambda>l. l = 0) (take b_top_limb b)
                    then div_pow2 a b_top_bit
                    else if b_top_limb = 0
                    then (let (quot, rem) = div_limb_loop a (b ! 0) (Suc (a_top_bit div 64)) ZERO_LIMBS 0
                          in (quot, ZERO_LIMBS[0 := rem]))
                    else div_bit_loop a b (Suc a_top_bit) ZERO_LIMBS ZERO_LIMBS))"

text \<open>Rust's \<open>/\<close> and \<open>%\<close> on \<open>i64\<close>/\<open>i128\<close> truncate: \<open>sdiv\<close> and \<open>smod\<close>.\<close>

definition bigint_div :: "u64 list \<Rightarrow> u64 list \<Rightarrow> js_throw + u64 list" where
  "bigint_div a_limbs b_limbs =
     (if b_limbs = ZERO_LIMBS then Inl throw_bigint_division_by_zero
      else
        let slow =
          (let a_neg = is_negative a_limbs;
               b_neg = is_negative b_limbs;
               abs_a = (if a_neg then negate_limbs a_limbs else a_limbs);
               abs_b = (if b_neg then negate_limbs b_limbs else b_limbs);
               quot = fst (unsigned_div_limbs abs_a abs_b)
           in Inr (if a_neg \<noteq> b_neg \<and> quot \<noteq> ZERO_LIMBS then negate_limbs quot else quot))
        in case (fits_in_i64 a_limbs, fits_in_i64 b_limbs) of
             (Some av, Some bv) \<Rightarrow> if bv \<noteq> 0 then Inr (write_i128 (av sdiv bv)) else slow
           | _ \<Rightarrow> slow)"

definition js_bigint_div where
  "js_bigint_div alloc mem a b =
     bigint_return alloc mem (bigint_div (bigint_limbs_or_zero mem a) (bigint_limbs_or_zero mem b))"

text \<open>\<open>i64::MIN % -1\<close> panics in Rust (overflow); the model has that branch.\<close>

definition i64_rem :: "int \<Rightarrow> int \<Rightarrow> js_throw + int" where
  "i64_rem a b = (if a = - (2 ^ 63) \<and> b = -1
     then Inl (Panic ''attempt to calculate the remainder with overflow'') else Inr (a smod b))"

definition bigint_mod :: "u64 list \<Rightarrow> u64 list \<Rightarrow> js_throw + u64 list" where
  "bigint_mod a_limbs b_limbs =
     (if b_limbs = ZERO_LIMBS then Inl throw_bigint_division_by_zero
      else
        let slow =
          (let a_neg = is_negative a_limbs;
               b_neg = is_negative b_limbs;
               abs_a = (if a_neg then negate_limbs a_limbs else a_limbs);
               abs_b = (if b_neg then negate_limbs b_limbs else b_limbs);
               remainder = snd (unsigned_div_limbs abs_a abs_b)
           in Inr (if a_neg \<and> remainder \<noteq> ZERO_LIMBS then negate_limbs remainder else remainder))
        in case (fits_in_i64 a_limbs, fits_in_i64 b_limbs) of
             (Some av, Some bv) \<Rightarrow>
               if bv \<noteq> 0 then (case i64_rem av bv of Inl e \<Rightarrow> Inl e | Inr r \<Rightarrow> Inr (write_i64 r)) else slow
           | _ \<Rightarrow> slow)"

definition js_bigint_mod where
  "js_bigint_mod alloc mem a b =
     bigint_return alloc mem (bigint_mod (bigint_limbs_or_zero mem a) (bigint_limbs_or_zero mem b))"

function pow_loop :: "u64 \<Rightarrow> u64 list \<Rightarrow> u64 list \<Rightarrow> js_throw + u64 list" where
  "pow_loop e result base =
     (if e > 0 then
        case (if e AND 1 = 1 then mul_limbs_checked result base else Inr result) of
          Inl err \<Rightarrow> Inl err
        | Inr result \<Rightarrow>
            let e' = drop_bit 1 e
            in if e' > 0 then
                 (case mul_limbs_checked base base of
                    Inl err \<Rightarrow> Inl err
                  | Inr base \<Rightarrow> pow_loop e' result base)
               else pow_loop e' result base
      else Inr result)"
  by pat_completeness auto
termination
proof (relation "measure (\<lambda>(e, _, _). unat e)", goal_cases)
  case (2 e _ _ _ e')
  then show ?case by (simp add: unat_drop_bit_div word_gt_0_no unat_gt_0)
next
  case (3 e _ _ _ e')
  then show ?case by (simp add: unat_drop_bit_div unat_gt_0)
qed simp

declare pow_loop.simps [simp del]

definition bigint_pow :: "u64 list \<Rightarrow> u64 list \<Rightarrow> js_throw + u64 list" where
  "bigint_pow a_limbs b_limbs =
     (if is_negative b_limbs then Inl (RangeError ''Exponent must be positive'')
      else
        let exp = b_limbs ! 0
        in if exp = 0 then Inr (ZERO_LIMBS[0 := 1])
           else pow_loop exp (ZERO_LIMBS[0 := 1]) a_limbs)"

definition js_bigint_pow where
  "js_bigint_pow alloc mem a b =
     bigint_return alloc mem (bigint_pow (bigint_limbs_or_zero mem a) (bigint_limbs_or_zero mem b))"

subsection \<open>Addition, subtraction and negation\<close>

lemma length_add_loop [simp]: "length xs = length ys \<Longrightarrow> length (add_loop xs ys c) = length xs"
  by (induction xs ys arbitrary: c rule: list_induct2) (simp_all add: Let_def)

lemma length_sub_loop [simp]: "length xs = length ys \<Longrightarrow> length (sub_loop xs ys c) = length xs"
  by (induction xs ys arbitrary: c rule: list_induct2) (simp_all add: Let_def)

lemma limbs_nat_add_loop:
  "length xs = length ys \<Longrightarrow>
    limbs_nat (add_loop xs ys c) = (limbs_nat xs + limbs_nat ys + unat c) mod limb_mod (length xs)"
proof (induction xs ys arbitrary: c rule: list_induct2)
  case (Cons x xs y ys)
  define s where "s = unat x + unat y + unat c"
  have sum: "unat ((ucast x :: u128) + ucast y + ucast c) = s"
    by (simp only: unat_sum3_u128 s_def)
  have "limbs_nat (add_loop (x # xs) (y # ys) c)
      = s mod 2 ^ 64 + 2 ^ 64 * ((limbs_nat xs + limbs_nat ys + s div 2 ^ 64) mod limb_mod (length xs))"
    by (simp only: add_loop.simps Let_def limbs_nat.simps Cons.IH unat_high_half) (simp only: unat_low_half sum)
  also have "\<dots> = (s mod 2 ^ 64 + 2 ^ 64 * (limbs_nat xs + limbs_nat ys + s div 2 ^ 64)) mod (2 ^ 64 * limb_mod (length xs))"
    by (rule digit_mod [symmetric]) simp
  also have "s mod 2 ^ 64 + 2 ^ 64 * (limbs_nat xs + limbs_nat ys + s div 2 ^ 64)
      = limbs_nat (x # xs) + limbs_nat (y # ys) + unat c"
    using mod_mult_div_eq [of s "2 ^ 64"] unfolding distrib_left limbs_nat.simps s_def by linarith
  finally show ?case by (simp only: limb_mod_Suc list.size add_0_right add_Suc_right)
qed simp

lemma digit_mod_int:
  fixes lo b q m :: int
  assumes "0 \<le> lo" "lo < b" "0 \<le> m"
  shows "(lo + b * q) mod (b * m) = lo + b * (q mod m)"
proof -
  have "(lo + b * q) div b = q" using assms by (intro int_div_pos_eq [where r = lo]) simp_all
  then show ?thesis using assms by (simp add: zmod_zmult2_eq mod_pos_pos_trivial)
qed

lemma limbs_nat_sub_loop:
  "length xs = length ys \<Longrightarrow> c \<in> {0, 1} \<Longrightarrow>
    int (limbs_nat (sub_loop xs ys c)) = (int (limbs_nat xs) - int (limbs_nat ys) - c) mod int (limb_mod (length xs))"
proof (induction xs ys arbitrary: c rule: list_induct2)
  case (Cons x xs y ys)
  define d where "d = uint x - uint y - c"
  define m where "m = int (limb_mod (length xs))"
  have d: "- (2 ^ 64) \<le> d" "d < 2 ^ 64"
  proof -
    have "uint x < 18446744073709551616" "uint y < 18446744073709551616"
      using uint_lt2p [of x] uint_lt2p [of y] by simp_all
    moreover have "0 \<le> uint x" "0 \<le> uint y" by simp_all
    moreover have "c = 0 \<or> c = 1" using Cons.prems by simp
    ultimately have "- 18446744073709551616 \<le> d \<and> d < 18446744073709551616"
      unfolding d_def by linarith
    then show "- (2 ^ 64) \<le> d" "d < 2 ^ 64" by simp_all
  qed
  have "int (limbs_nat (sub_loop (x # xs) (y # ys) c))
      = d mod 2 ^ 64 + 2 ^ 64 * ((int (limbs_nat xs) - int (limbs_nat ys) + d div 2 ^ 64) mod m)"
  proof (cases "d < 0")
    case True
    have dd: "d div 2 ^ 64 = -1" using True d by (intro int_div_pos_eq [where r = "d + 2 ^ 64"]) simp_all
    have wrap: "word_of_int (d + 2 ^ 64) = (word_of_int d :: u64)"
      by (rule word_of_int_eq_iff [THEN iffD2]) (simp add: take_bit_eq_mod)
    have step: "sub_loop (x # xs) (y # ys) c = word_of_int d # sub_loop xs ys 1"
      using True by (simp only: sub_loop.simps Let_def d_def [symmetric] wrap if_True)
    have "uint (word_of_int d :: u64) = d mod 2 ^ 64"
      by (simp add: uint_word_of_int)
    moreover have "int (limbs_nat (sub_loop xs ys 1)) = (int (limbs_nat xs) - int (limbs_nat ys) - 1) mod m"
      using Cons.IH [of 1] by (simp add: m_def)
    ultimately show ?thesis using dd unfolding step by simp
  next
    case False
    then have dd: "d div 2 ^ 64 = 0" "d mod 2 ^ 64 = d" using d by (simp_all add: div_pos_pos_trivial mod_pos_pos_trivial)
    have "uint (word_of_int d :: u64) = d mod 2 ^ 64"
      by (simp add: uint_word_of_int)
    moreover have "int (limbs_nat (sub_loop xs ys 0)) = (int (limbs_nat xs) - int (limbs_nat ys)) mod m"
      using Cons.IH [of 0] by (simp add: m_def)
    ultimately show ?thesis using False dd by (simp add: d_def [symmetric] Let_def)
  qed
  also have "\<dots> = (d mod 2 ^ 64 + 2 ^ 64 * (int (limbs_nat xs) - int (limbs_nat ys) + d div 2 ^ 64)) mod (2 ^ 64 * m)"
    by (rule digit_mod_int [symmetric]) (simp_all add: m_def)
  also have "d mod 2 ^ 64 + 2 ^ 64 * (int (limbs_nat xs) - int (limbs_nat ys) + d div 2 ^ 64)
      = d + 2 ^ 64 * (int (limbs_nat xs) - int (limbs_nat ys))"
    using mod_mult_div_eq [of d "2 ^ 64"] unfolding distrib_left by linarith
  also have "\<dots> = int (limbs_nat (x # xs)) - int (limbs_nat (y # ys)) - c"
    by (simp add: d_def algebra_simps)
  finally show ?case by (simp add: m_def limb_mod_Suc)
qed simp

lemma limbs_int_mod: "wf_limbs limbs \<Longrightarrow> int (limbs_nat limbs) = limbs_int limbs mod int (limb_mod BIGINT_LIMBS)"
  using limbs_int_cong [of limbs] by (simp add: wf_limbs_def)

lemma add_loop_eq:
  assumes "wf_limbs a" "wf_limbs b"
  shows "add_loop a b 0 = int_limbs (limbs_int a + limbs_int b)"
proof (rule int_limbs_eqI)
  have "int (limbs_nat (add_loop a b 0)) = (int (limbs_nat a) + int (limbs_nat b)) mod int (limb_mod BIGINT_LIMBS)"
    using assms limbs_nat_add_loop [of a b 0] by (simp add: wf_limbs_def zmod_int)
  then show "int (limbs_nat (add_loop a b 0)) mod int (limb_mod BIGINT_LIMBS)
      = (limbs_int a + limbs_int b) mod int (limb_mod BIGINT_LIMBS)"
    by (simp add: limbs_int_mod assms mod_add_eq)
qed (use assms in \<open>simp add: wf_limbs_def\<close>)

lemma sub_loop_eq:
  assumes "wf_limbs a" "wf_limbs b"
  shows "sub_loop a b 0 = int_limbs (limbs_int a - limbs_int b)"
proof (rule int_limbs_eqI)
  have "int (limbs_nat (sub_loop a b 0)) = (int (limbs_nat a) - int (limbs_nat b)) mod int (limb_mod BIGINT_LIMBS)"
    using assms limbs_nat_sub_loop [of a b 0] by (simp add: wf_limbs_def)
  then show "int (limbs_nat (sub_loop a b 0)) mod int (limb_mod BIGINT_LIMBS)
      = (limbs_int a - limbs_int b) mod int (limb_mod BIGINT_LIMBS)"
    by (simp add: limbs_int_mod assms mod_diff_eq)
qed (use assms in \<open>simp add: wf_limbs_def\<close>)

text \<open>
  The sign test after a wrapped sum: the sum of two in-range values whose 1024-bit wrap-around has
  the sign of the operands is exact, and otherwise out of range.
\<close>

lemma is_negative_int_limbs:
  "is_negative (int_limbs z) \<longleftrightarrow> int (limb_mod BIGINT_LIMBS) \<le> 2 * (z mod int (limb_mod BIGINT_LIMBS))"
proof -
  have "limbs_int (int_limbs z) < 0 \<longleftrightarrow> \<not> 2 * int (limbs_nat (int_limbs z)) < int (limb_mod BIGINT_LIMBS)"
    using limbs_nat_less [of "int_limbs z"] wf_int_limbs [of z]
    by (simp add: limbs_int_def Let_def wf_limbs_def)
  then show ?thesis by (simp add: is_negative_iff limbs_nat_int_limbs not_less)
qed

lemma wrapped_sign_test:
  fixes m x y z :: int
  assumes "0 < m" "- m \<le> 2 * x" "2 * x < m" "- m \<le> 2 * y" "2 * y < m" "even m"
  shows "((x < 0) = (y < 0) \<and> (m \<le> 2 * ((x + y) mod m)) \<noteq> (x < 0))
    \<longleftrightarrow> \<not> (- m \<le> 2 * (x + y) \<and> 2 * (x + y) < m)"
proof -
  have "(x + y) mod m = (if x + y < 0 then x + y + m else x + y)"
  proof (cases "x + y < 0")
    case True
    have "(x + y) mod m = (x + y + m) mod m" by simp
    also have "\<dots> = x + y + m" using assms True by (intro mod_pos_pos_trivial) simp_all
    finally show ?thesis using True by simp
  qed (use assms in \<open>simp add: mod_pos_pos_trivial\<close>)
  then show ?thesis using assms by (cases "x < 0"; cases "y < 0"; cases "x + y < 0") auto
qed

lemma wrapped_sign_test_diff:
  fixes m x y z :: int
  assumes "0 < m" "- m \<le> 2 * x" "2 * x < m" "- m \<le> 2 * y" "2 * y < m" "even m"
  shows "((x < 0) \<noteq> (y < 0) \<and> (m \<le> 2 * ((x - y) mod m)) \<noteq> (x < 0))
    \<longleftrightarrow> \<not> (- m \<le> 2 * (x - y) \<and> 2 * (x - y) < m)"
proof -
  have "(x - y) mod m = (if x - y < 0 then x - y + m else x - y)"
  proof (cases "x - y < 0")
    case True
    have "(x - y) mod m = (x - y + m) mod m" by simp
    also have "\<dots> = x - y + m" using assms True by (intro mod_pos_pos_trivial) simp_all
    finally show ?thesis using True by simp
  qed (use assms in \<open>simp add: mod_pos_pos_trivial\<close>)
  then show ?thesis using assms by (cases "x < 0"; cases "y < 0"; cases "x - y < 0") auto
qed

lemma fits_case:
  assumes "wf_limbs a" "wf_limbs b"
    and "\<And>x y. limbs_int a = x \<Longrightarrow> limbs_int b = y \<Longrightarrow> - (2 ^ 63) \<le> x \<Longrightarrow> x < 2 ^ 63 \<Longrightarrow>
      - (2 ^ 63) \<le> y \<Longrightarrow> y < 2 ^ 63 \<Longrightarrow> f x y = r"
    and "s = r"
  shows "(case (fits_in_i64 a, fits_in_i64 b) of (Some x, Some y) \<Rightarrow> f x y | _ \<Rightarrow> s) = r"
  using assms(3,4) fits_in_i64_Some [OF assms(1)] fits_in_i64_Some [OF assms(2)]
  by (auto split: option.split)

text \<open>The fast path of the three ring operations: no result leaves 128 bits.\<close>

lemma write_i128_checked:
  assumes "- (2 ^ 127) \<le> z" "z < 2 ^ 127"
  shows "Inr (write_i128 z) = bigint_checked z"
  using assms by (simp add: bigint_checked_def write_i128_eq i128_in_range)

lemma even_limb_mod: "even (limb_mod BIGINT_LIMBS)"
  by (simp add: limb_mod_BIGINT_LIMBS)

lemma bigint_add_eq:
  assumes "wf_limbs a" "wf_limbs b"
  shows "bigint_add a b = bigint_checked (limbs_int a + limbs_int b)"
  unfolding bigint_add_def
proof (rule fits_case [OF assms])
  show "(let result = add_loop a b 0
     in if is_negative a = is_negative b \<and> is_negative result \<noteq> is_negative a
        then Inl throw_bigint_overflow else Inr result) = bigint_checked (limbs_int a + limbs_int b)"
    using wrapped_sign_test [of "int (limb_mod BIGINT_LIMBS)" "limbs_int a" "limbs_int b"]
      wf_limbs_in_range [OF assms(1)] wf_limbs_in_range [OF assms(2)] even_limb_mod
    by (simp add: Let_def add_loop_eq assms bigint_checked_def is_negative_int_limbs is_negative_iff
        bigint_in_range_def)
qed (auto intro!: write_i128_checked)

lemma bigint_sub_eq:
  assumes "wf_limbs a" "wf_limbs b"
  shows "bigint_sub a b = bigint_checked (limbs_int a - limbs_int b)"
  unfolding bigint_sub_def
proof (rule fits_case [OF assms])
  show "(let result = sub_loop a b 0
     in if is_negative a \<noteq> is_negative b \<and> is_negative result \<noteq> is_negative a
        then Inl throw_bigint_overflow else Inr result) = bigint_checked (limbs_int a - limbs_int b)"
    using wrapped_sign_test_diff [of "int (limb_mod BIGINT_LIMBS)" "limbs_int a" "limbs_int b"]
      wf_limbs_in_range [OF assms(1)] wf_limbs_in_range [OF assms(2)] even_limb_mod
    by (simp add: Let_def sub_loop_eq assms bigint_checked_def is_negative_int_limbs is_negative_iff
        bigint_in_range_def)
qed (auto intro!: write_i128_checked)

lemma bigint_neg_eq:
  assumes "wf_limbs a"
  shows "bigint_neg a = bigint_checked (- limbs_int a)"
proof -
  define m where "m = int (limb_mod BIGINT_LIMBS)"
  have r: "- m \<le> 2 * limbs_int a" "2 * limbs_int a < m"
    using wf_limbs_in_range [OF assms] by (simp_all add: bigint_in_range_def m_def)
  have neg: "negate_loop a 1 = int_limbs (- limbs_int a)"
    using limbs_nat_cong_neg [OF assms] by (simp add: negate_limbs_def)
  have "int_limbs (- limbs_int a) = a \<and> limbs_int a \<noteq> 0 \<longleftrightarrow> \<not> bigint_in_range (- limbs_int a)"
  proof
    assume l: "int_limbs (- limbs_int a) = a \<and> limbs_int a \<noteq> 0"
    show "\<not> bigint_in_range (- limbs_int a)"
    proof
      assume "bigint_in_range (- limbs_int a)"
      then have "limbs_int a = - limbs_int a" using l limbs_int_int_limbs by metis
      with l show False by simp
    qed
  next
    assume "\<not> bigint_in_range (- limbs_int a)"
    then have half: "2 * limbs_int a = - m" using r by (simp add: bigint_in_range_def m_def)
    then have shift: "- limbs_int a = limbs_int a + m" by simp
    have "int_limbs (- limbs_int a) = int_limbs (limbs_int a)"
      unfolding shift by (simp add: int_limbs_def m_def)
    then show "int_limbs (- limbs_int a) = a \<and> limbs_int a \<noteq> 0"
      using half assms by (auto simp: m_def)
  qed
  then show ?thesis
    by (simp add: bigint_neg_def neg eq_ZERO_LIMBS_iff assms bigint_checked_def Let_def)
qed

subsection \<open>Multiplication and power\<close>

lemma limbs_nat_update:
  "n < length xs \<Longrightarrow>
    limbs_nat (xs[n := v]) + limb_mod n * unat (xs ! n) = limbs_nat xs + limb_mod n * unat v"
proof (induction xs arbitrary: n)
  case (Cons x xs)
  show ?case
  proof (cases n)
    case (Suc m)
    then have "limbs_nat (xs[m := v]) + limb_mod m * unat (xs ! m) = limbs_nat xs + limb_mod m * unat v"
      using Cons by simp
    then have "2 ^ 64 * (limbs_nat (xs[m := v]) + limb_mod m * unat (xs ! m))
        = 2 ^ 64 * (limbs_nat xs + limb_mod m * unat v)"
      by (simp only:)
    then show ?thesis by (simp add: Suc limb_mod_Suc distrib_left)
  qed simp
qed simp

text \<open>One step of a row: storing the low half and carrying the high half moves no value.\<close>

lemma limbs_nat_store_product:
  assumes "p < length wide"
  shows "limbs_nat (wide[p := ucast s]) + limb_mod (Suc p) * (unat s div 2 ^ 64) + limb_mod p * unat (wide ! p)
    = limbs_nat wide + limb_mod p * unat (s :: u128)"
proof -
  have "limb_mod p * unat s = limb_mod p * (unat s mod 2 ^ 64) + limb_mod (Suc p) * (unat s div 2 ^ 64)"
  proof -
    have "limb_mod p * unat s = limb_mod p * (unat s mod 2 ^ 64 + 2 ^ 64 * (unat s div 2 ^ 64))"
      by (simp only: mod_mult_div_eq)
    then show ?thesis by (simp only: distrib_left limb_mod_Suc mult_ac)
  qed
  moreover have "limbs_nat (wide[p := ucast s]) + limb_mod p * unat (wide ! p)
      = limbs_nat wide + limb_mod p * (unat s mod 2 ^ 64)"
    using limbs_nat_update [OF assms, of "ucast s"] by (simp only: unat_low_half)
  ultimately show ?thesis by linarith
qed

lemma unat_drop_64_less: "unat (drop_bit 64 (s :: u128)) < 2 ^ 64"
proof -
  have "unat s < 2 ^ 64 * 2 ^ 64" using unsigned_less [of s] by simp
  then show ?thesis by (simp only: unat_drop_bit_div less_mult_imp_div_less)
qed

lemma mul_row_spec:
  assumes "unat carry < 2 ^ 64" "p + length bs \<le> length wide" "mul_row ai bs p wide carry = (wide', carry')"
  shows "length wide' = length wide \<and> unat carry' < 2 ^ 64 \<and>
    limbs_nat wide' + limb_mod (p + length bs) * unat carry'
      = limbs_nat wide + limb_mod p * (unat ai * limbs_nat bs + unat carry)"
  using assms
proof (induction bs arbitrary: p wide carry)
  case (Cons bj bs)
  define s where "s = (ucast ai :: u128) * ucast bj + ucast (wide ! p) + carry"
  have s: "unat s = unat ai * unat bj + unat (wide ! p) + unat carry"
    unfolding s_def using Cons.prems(1) by (rule unat_mult_acc_u128)
  have row: "mul_row ai bs (Suc p) (wide[p := ucast s]) (drop_bit 64 s) = (wide', carry')"
    using Cons.prems(3) by (simp add: s_def Let_def)
  have IH: "length wide' = length wide" "unat carry' < 2 ^ 64"
    "limbs_nat wide' + limb_mod (Suc p + length bs) * unat carry'
      = limbs_nat (wide[p := ucast s]) + limb_mod (Suc p) * (unat ai * limbs_nat bs + unat s div 2 ^ 64)"
    using Cons.IH [OF unat_drop_64_less _ row] Cons.prems(2) by (simp_all add: unat_drop_bit_div del: power_numeral)
  have store: "limbs_nat (wide[p := ucast s]) + limb_mod (Suc p) * (unat s div 2 ^ 64) + limb_mod p * unat (wide ! p)
      = limbs_nat wide + limb_mod p * unat s"
    using Cons.prems(2) by (intro limbs_nat_store_product) simp
  have "limb_mod p * (unat ai * limbs_nat (bj # bs)) = limb_mod p * (unat ai * unat bj) + limb_mod (Suc p) * (unat ai * limbs_nat bs)"
    by (simp add: limb_mod_Suc algebra_simps)
  then have "limbs_nat wide' + limb_mod (p + length (bj # bs)) * unat carry'
      = limbs_nat wide + limb_mod p * (unat ai * limbs_nat (bj # bs) + unat carry)"
    using IH(3) store unfolding s distrib_left list.size add_Suc_right add_Suc add_0_right by linarith
  with IH show ?case by blast
qed simp

lemma mul_carry_spec:
  assumes "unat carry < 2 ^ 64" "length wide = 2 * BIGINT_LIMBS" "k \<le> 2 * BIGINT_LIMBS"
    and "limbs_nat wide + limb_mod k * unat carry < limb_mod (2 * BIGINT_LIMBS)"
  shows "length (mul_carry k wide carry) = length wide \<and>
    limbs_nat (mul_carry k wide carry) = limbs_nat wide + limb_mod k * unat carry"
  using assms
proof (induction k wide carry rule: mul_carry.induct)
  case (1 k wide carry)
  show ?case
  proof (cases "carry \<noteq> 0 \<and> k < 2 * BIGINT_LIMBS")
    case True
    define s where "s = (ucast (wide ! k) :: u128) + carry"
    have "unat (wide ! k) + unat carry < 2 ^ 128"
      using 1(2) unat_u64_le [of "wide ! k"] by simp
    then have s: "unat s = unat (wide ! k) + unat carry"
      unfolding s_def by (simp add: unat_plus_exact)
    have store: "limbs_nat (wide[k := ucast s]) + limb_mod (Suc k) * unat (drop_bit 64 s)
        = limbs_nat wide + limb_mod k * unat carry"
      using limbs_nat_store_product [of k wide s] True 1(3)
      by (simp add: s distrib_left unat_drop_bit_div del: power_numeral)
    have "mul_carry k wide carry = mul_carry (Suc k) (wide[k := ucast s]) (drop_bit 64 s)"
      using True by (subst mul_carry.simps) (simp add: s_def Let_def)
    moreover have "unat (drop_bit 64 s) < 2 ^ 64" by (rule unat_drop_64_less)
    ultimately show ?thesis
      using 1(1) [OF True s_def] 1(3-5) True store by simp
  next
    case False
    have "limb_mod k * unat carry = 0"
    proof (cases "carry = 0")
      case False
      with \<open>\<not> (carry \<noteq> 0 \<and> k < 2 * BIGINT_LIMBS)\<close> 1(4) have "k = 2 * BIGINT_LIMBS" by simp
      moreover have "1 \<le> unat carry" using False by (simp add: Suc_le_eq unat_gt_0)
      ultimately have "limb_mod (2 * BIGINT_LIMBS) * 1 \<le> limb_mod k * unat carry"
        by (intro mult_le_mono) simp_all
      with 1(5) show ?thesis by linarith
    qed simp
    moreover have "mul_carry k wide carry = wide" using False by (subst mul_carry.simps) (rule if_not_P)
    ultimately show ?thesis by simp
  qed
qed

lemma mul_rows_spec:
  assumes "length wide = 2 * BIGINT_LIMBS" "i + length as + length b \<le> 2 * BIGINT_LIMBS"
    and "limbs_nat wide + limb_mod i * (limbs_nat as * limbs_nat b) < limb_mod (2 * BIGINT_LIMBS)"
  shows "length (mul_rows as i b wide) = length wide \<and>
    limbs_nat (mul_rows as i b wide) = limbs_nat wide + limb_mod i * (limbs_nat as * limbs_nat b)"
  using assms
proof (induction as arbitrary: i wide)
  case (Cons ai as)
  obtain w c where row: "mul_row ai b i wide 0 = (w, c)" by fastforce
  have w: "length w = length wide" "unat c < 2 ^ 64"
    "limbs_nat w + limb_mod (i + length b) * unat c = limbs_nat wide + limb_mod i * (unat ai * limbs_nat b)"
    using mul_row_spec [OF _ _ row] Cons.prems(1,2) by simp_all
  have split: "limb_mod i * (limbs_nat (ai # as) * limbs_nat b)
      = limb_mod i * (unat ai * limbs_nat b) + limb_mod (Suc i) * (limbs_nat as * limbs_nat b)"
    by (simp add: limb_mod_Suc algebra_simps)
  define w' where "w' = mul_carry (i + length b) w c"
  have "length w' = length wide \<and> limbs_nat w' = limbs_nat wide + limb_mod i * (unat ai * limbs_nat b)"
    unfolding w'_def using mul_carry_spec [of c w "i + length b"] w Cons.prems split by simp
  then show ?case
    using Cons.IH [of w' "Suc i"] Cons.prems split by (simp add: row w'_def)
qed simp

lemma find_rev_upt_Some:
  "find P (rev [0..<n]) = Some i \<longleftrightarrow> i < n \<and> P i \<and> (\<forall>j. i < j \<and> j < n \<longrightarrow> \<not> P j)"
  by (induction n) (auto simp: less_Suc_eq)

lemma find_rev_upt_None: "find P (rev [0..<n]) = None \<longleftrightarrow> (\<forall>j<n. \<not> P j)"
  by (auto simp: find_None_iff)

lemma limbs_nat_take_zeros:
  assumes "\<forall>j. n \<le> j \<and> j < length limbs \<longrightarrow> limbs ! j = 0"
  shows "limbs_nat (take n limbs) = limbs_nat limbs"
proof -
  have "limbs_nat (drop n limbs) = 0"
    using assms by (auto simp: limbs_nat_eq_0_iff list_all_length)
  then show ?thesis using limbs_nat_take_drop [of limbs n] by simp
qed

lemma magnitude_top_limb:
  assumes "wf_limbs mag" "2 * limbs_nat mag \<le> limb_mod BIGINT_LIMBS"
  shows "unat (mag ! 15) \<le> 2 ^ 63"
proof (rule ccontr)
  assume "\<not> unat (mag ! 15) \<le> 2 ^ 63"
  then show False
    using top_limb_exact [OF wf_limbs_split(2) [OF assms(1)], of "unat (mag ! 15)"] assms(2)
    by (simp add: wf_limbs_split(1) [OF assms(1)] limb_mod_BIGINT_LIMBS)
qed

text \<open>
  \<open>effective_limb_len\<close> drops no significant limb of a magnitude, although its fill for a set
  top bit is all ones: the only magnitude with that bit set is \<open>2 ^ 1023\<close>.
\<close>

lemma effective_limb_len_sound:
  assumes "wf_limbs mag" "2 * limbs_nat mag \<le> limb_mod BIGINT_LIMBS"
  shows "limbs_nat (take (effective_limb_len mag) mag) = limbs_nat mag"
    and "effective_limb_len mag \<le> BIGINT_LIMBS"
proof -
  have len: "length mag = 16" using assms(1) by (simp add: wf_limbs_def BIGINT_LIMBS_def)
  have top_index: "BIGINT_LIMBS - 1 = 15" and limbs16: "BIGINT_LIMBS = 16" by (simp_all add: BIGINT_LIMBS_def)
  define P where "P = (\<lambda>i. mag ! i \<noteq> (if drop_bit 63 (mag ! 15) = 1 then u64_MAX else 0))"
  have eff: "effective_limb_len mag
      = (case find P (rev [0..<BIGINT_LIMBS]) of Some i \<Rightarrow> min (i + 2) BIGINT_LIMBS | None \<Rightarrow> 1)"
    unfolding effective_limb_len_def P_def Let_def top_index ..
  show "effective_limb_len mag \<le> BIGINT_LIMBS"
    unfolding eff using limbs16 by (simp split: option.split)
  have "unat (mag ! 15) \<noteq> unat u64_MAX"
    using magnitude_top_limb [OF assms] by simp
  then have top: "mag ! 15 \<noteq> u64_MAX" by auto
  show "limbs_nat (take (effective_limb_len mag) mag) = limbs_nat mag"
  proof (cases "find P (rev [0..<BIGINT_LIMBS])")
    case None
    then have all: "\<forall>j<16. \<not> P j" unfolding find_rev_upt_None limbs16 .
    then have "\<not> P 15" by simp
    then have "drop_bit 63 (mag ! 15) \<noteq> 1" using top unfolding P_def by auto
    moreover have "effective_limb_len mag = 1" unfolding eff None by simp
    moreover have "mag ! j = 0" if "j < 16" for j
      using all that calculation(1) unfolding P_def by simp
    ultimately show ?thesis using len by (intro limbs_nat_take_zeros) simp
  next
    case (Some i)
    then have i: "i < 16" "\<forall>j. i < j \<and> j < 16 \<longrightarrow> \<not> P j"
      unfolding find_rev_upt_Some limbs16 by blast+
    have eff_i: "effective_limb_len mag = min (i + 2) 16" unfolding eff Some by (simp add: limbs16)
    show ?thesis
    proof (cases "drop_bit 63 (mag ! 15) = 1")
      case True
      then have "P 15" using top by (simp add: P_def)
      with spec [OF i(2), of 15] have "\<not> i < 15" by simp
      with i(1) have "i = 15" by simp
      then show ?thesis using len unfolding eff_i by simp
    next
      case False
      then have "mag ! j = 0" if "i < j" "j < 16" for j
        using i(2) that unfolding P_def by simp
      then show ?thesis using i(1) len unfolding eff_i by (intro limbs_nat_take_zeros) (auto simp: min_def split: if_splits)
    qed
  qed
qed

lemma magnitude_bound:
  assumes "wf_limbs limbs"
  defines "mag \<equiv> (if is_negative limbs then negate_limbs limbs else limbs)"
  shows "wf_limbs mag" and "int (limbs_nat mag) = \<bar>limbs_int limbs\<bar>"
    and "2 * limbs_nat mag \<le> limb_mod BIGINT_LIMBS"
proof -
  show "wf_limbs mag" using assms(1) by (simp add: mag_def)
  show mag: "int (limbs_nat mag) = \<bar>limbs_int limbs\<bar>"
    unfolding mag_def by (rule limbs_nat_magnitude [OF assms(1)])
  have "2 * int (limbs_nat mag) \<le> int (limb_mod BIGINT_LIMBS)"
    unfolding mag using wf_limbs_in_range [OF assms(1)] by (auto simp: bigint_in_range_def)
  then show "2 * limbs_nat mag \<le> limb_mod BIGINT_LIMBS" by linarith
qed

lemma mul_rows_product:
  assumes "wf_limbs a" "wf_limbs b"
    and "2 * limbs_nat a \<le> limb_mod BIGINT_LIMBS" "2 * limbs_nat b \<le> limb_mod BIGINT_LIMBS"
  defines "wide \<equiv> mul_rows (take (effective_limb_len a) a) 0 (take (effective_limb_len b) b)
    (replicate (2 * BIGINT_LIMBS) 0)"
  shows "length wide = 2 * BIGINT_LIMBS" "limbs_nat wide = limbs_nat a * limbs_nat b"
proof -
  note a = effective_limb_len_sound [OF assms(1,3)] and b = effective_limb_len_sound [OF assms(2,4)]
  have "limbs_nat a < limb_mod BIGINT_LIMBS" "limbs_nat b < limb_mod BIGINT_LIMBS"
    using limbs_nat_less [of a] limbs_nat_less [of b] assms(1,2) by (simp_all add: wf_limbs_def)
  then have "limbs_nat a * limbs_nat b < limb_mod (2 * BIGINT_LIMBS)"
    by (simp add: mult_2 limb_mod_add mult_strict_mono)
  then have "length wide = 2 * BIGINT_LIMBS \<and> limbs_nat wide = limbs_nat a * limbs_nat b"
    using mul_rows_spec [of "replicate (2 * BIGINT_LIMBS) 0" 0 "take (effective_limb_len a) a" "take (effective_limb_len b) b"]
      a b assms(1,2)
    by (simp add: wide_def limbs_nat_replicate_0 wf_limbs_def)
  then show "length wide = 2 * BIGINT_LIMBS" "limbs_nat wide = limbs_nat a * limbs_nat b" by simp_all
qed

text \<open>The shared end of multiplication and left shift: range test, truncation, sign.\<close>

lemma wide_signed_result:
  assumes "length wide = 2 * BIGINT_LIMBS" "(if neg then - int (limbs_nat wide) else int (limbs_nat wide)) = z"
  shows "(if \<not> magnitude_fits_1024 wide neg then Inl throw_bigint_overflow
      else let result = take BIGINT_LIMBS wide in Inr (if neg then negate_limbs result else result)) = bigint_checked z"
proof -
  have fits: "magnitude_fits_1024 wide neg \<longleftrightarrow> bigint_in_range z"
    using magnitude_fits_iff [of wide neg] assms by simp
  have low: "limbs_nat (take BIGINT_LIMBS wide) = limbs_nat wide" if fit: "magnitude_fits_1024 wide neg"
  proof -
    have "limbs_nat (drop BIGINT_LIMBS wide) = 0"
      using fit by (auto simp: magnitude_fits_1024_def limbs_nat_eq_0_iff list_ex_iff list_all_iff split: if_splits)
    then show ?thesis using limbs_nat_take_drop [of wide BIGINT_LIMBS] by simp
  qed
  have "(if neg then negate_limbs (take BIGINT_LIMBS wide) else take BIGINT_LIMBS wide) = int_limbs z"
    if "magnitude_fits_1024 wide neg"
    using apply_sign_limbs [of "take BIGINT_LIMBS wide" neg] assms low [OF that]
    by (cases neg) (simp_all add: wf_limbs_def)
  then show ?thesis using fits by (simp add: bigint_checked_def)
qed

lemma mul_limbs_checked_eq:
  assumes "wf_limbs a" "wf_limbs b"
  shows "mul_limbs_checked a b = bigint_checked (limbs_int a * limbs_int b)"
proof -
  define a_mag b_mag where "a_mag = (if is_negative a then negate_limbs a else a)"
    and "b_mag = (if is_negative b then negate_limbs b else b)"
  note ma = magnitude_bound [OF assms(1), folded a_mag_def]
    and mb = magnitude_bound [OF assms(2), folded b_mag_def]
  define wide where "wide = mul_rows (take (effective_limb_len a_mag) a_mag) 0
    (take (effective_limb_len b_mag) b_mag) (replicate (2 * BIGINT_LIMBS) 0)"
  define neg where "neg = (is_negative a \<noteq> is_negative b)"
  have wide: "length wide = 2 * BIGINT_LIMBS" "limbs_nat wide = limbs_nat a_mag * limbs_nat b_mag"
    unfolding wide_def by (rule mul_rows_product [OF ma(1) mb(1) ma(3) mb(3)])+
  have v: "(if neg then - int (limbs_nat wide) else int (limbs_nat wide)) = limbs_int a * limbs_int b"
    unfolding wide(2) of_nat_mult ma(2) mb(2) neg_def
    using is_negative_iff [OF assms(1)] is_negative_iff [OF assms(2)] by (auto simp: abs_if)
  show ?thesis
    unfolding mul_limbs_checked_def Let_def a_mag_def [symmetric] b_mag_def [symmetric] wide_def [symmetric]
      neg_def [symmetric] by (rule wide_signed_result [OF wide(1) v, unfolded Let_def])
qed

lemma i64_mult_bound:
  fixes x y :: int
  assumes "- (2 ^ 63) \<le> x" "x < 2 ^ 63" "- (2 ^ 63) \<le> y" "y < 2 ^ 63"
  shows "- (2 ^ 127) \<le> x * y" "x * y < 2 ^ 127"
proof -
  have "\<bar>x * y\<bar> \<le> 2 ^ 63 * 2 ^ 63"
    unfolding abs_mult using assms by (intro mult_mono) auto
  then show "- (2 ^ 127) \<le> x * y" "x * y < 2 ^ 127" by (simp_all add: abs_le_iff)
qed

lemma bigint_mul_eq:
  assumes "wf_limbs a" "wf_limbs b"
  shows "bigint_mul a b = bigint_checked (limbs_int a * limbs_int b)"
  unfolding bigint_mul_def
  by (rule fits_case [OF assms]) (auto intro!: write_i128_checked i64_mult_bound mul_limbs_checked_eq assms)

lemma ONE_LIMBS: "ZERO_LIMBS[0 := 1] = int_limbs 1"
  using write_i64_eq [of 1] by (simp add: write_i64_def ZERO_LIMBS_def)

text \<open>A power that stays in range has all its smaller powers in range.\<close>

lemma power_in_range_mono:
  assumes "bigint_in_range (x ^ n)" "m \<le> n"
  shows "bigint_in_range (x ^ m)"
proof (cases "\<bar>x\<bar> \<le> 1 \<or> m = n")
  case True
  have "bigint_in_range z" if "\<bar>z\<bar> \<le> 1" for z
    using that by (intro i128_in_range) auto
  moreover have "\<bar>x ^ m\<bar> \<le> 1" if "\<bar>x\<bar> \<le> 1"
    using that by (simp add: power_abs power_le_one)
  ultimately show ?thesis using True assms(1) by auto
next
  case False
  define M where "M = int (limb_mod BIGINT_LIMBS)"
  obtain k where n: "n = m + Suc k" using False assms(2) by (metis le_neq_implies_less less_imp_Suc_add add_Suc_right)
  have "\<bar>x ^ m\<bar> * 2 \<le> \<bar>x ^ m\<bar> * \<bar>x\<bar> ^ Suc k"
  proof (rule mult_left_mono)
    have "1 \<le> \<bar>x\<bar> ^ k" using False by (intro one_le_power) simp
    then show "2 \<le> \<bar>x\<bar> ^ Suc k" using False mult_mono [of 2 "\<bar>x\<bar>" 1 "\<bar>x\<bar> ^ k"] by simp
  qed simp
  also have "\<dots> = \<bar>x ^ n\<bar>" by (simp add: n power_add abs_mult power_abs)
  finally have "2 * (2 * \<bar>x ^ m\<bar>) \<le> M"
    using assms(1) unfolding bigint_in_range_def M_def [symmetric] by linarith
  moreover have "0 < M" by (simp add: M_def)
  ultimately show ?thesis unfolding bigint_in_range_def M_def [symmetric] by linarith
qed

lemma word_and_1_eq_iff: "(e :: u64) AND 1 = 1 \<longleftrightarrow> odd (unat e)"
proof -
  have "odd e \<longleftrightarrow> odd (unat e)" by (simp add: bit_unsigned_iff flip: bit_0)
  then show ?thesis by (simp add: and_one_eq odd_iff_mod_2_eq_one)
qed

lemma bigint_checked_Inr: "bigint_in_range z \<Longrightarrow> bigint_checked z = Inr (int_limbs z)"
  by (simp add: bigint_checked_def)

lemma bigint_checked_Inl: "\<not> bigint_in_range z \<Longrightarrow> bigint_checked z = Inl throw_bigint_overflow"
  by (simp add: bigint_checked_def)

lemma pow_loop_0: "pow_loop 0 result base = Inr result"
  by (simp add: pow_loop.simps)

lemma pow_loop_step:
  assumes "unat e > 0" "bigint_in_range (x ^ n)" "bigint_in_range (x ^ k)"
  shows "pow_loop e (int_limbs (x ^ n)) (int_limbs (x ^ k)) =
    (case bigint_checked (x ^ (n + k * (unat e mod 2))) of
       Inl err \<Rightarrow> Inl err
     | Inr result \<Rightarrow>
         if unat e div 2 > 0 then
           (case bigint_checked (x ^ (2 * k)) of
              Inl err \<Rightarrow> Inl err | Inr base \<Rightarrow> pow_loop (drop_bit 1 e) result base)
         else Inr result)"
proof -
  have mul: "(if e AND 1 = 1 then mul_limbs_checked (int_limbs (x ^ n)) (int_limbs (x ^ k)) else Inr (int_limbs (x ^ n)))
      = bigint_checked (x ^ (n + k * (unat e mod 2)))"
    using assms(2,3) by (auto simp: word_and_1_eq_iff mul_limbs_checked_eq power_add bigint_checked_Inr
        odd_iff_mod_2_eq_one even_iff_mod_2_eq_zero)
  have sq: "mul_limbs_checked (int_limbs (x ^ k)) (int_limbs (x ^ k)) = bigint_checked (x ^ (2 * k))"
    using assms(3) by (simp add: mul_limbs_checked_eq power_add mult_2)
  have half: "(drop_bit 1 e > 0) = (unat e div 2 > 0)" "e > 0"
    using assms(1) by (simp_all add: word_less_nat_alt unat_drop_bit_div)
  have "drop_bit 1 e = 0" if "\<not> unat e div 2 > 0"
    using that by (simp add: word_unat_eq_iff unat_drop_bit_div)
  then show ?thesis
    unfolding pow_loop.simps [of e] mul sq Let_def half(1) using half(2)
    by (auto simp: pow_loop_0 split: sum.split)
qed

lemma pow_loop_eq:
  assumes "bigint_in_range (x ^ n)" "bigint_in_range (x ^ k)"
  shows "pow_loop e (int_limbs (x ^ n)) (int_limbs (x ^ k)) = bigint_checked (x ^ (n + k * unat e))"
  using assms
proof (induction "unat e" arbitrary: e n k rule: less_induct)
  case less
  show ?case
  proof (cases "unat e = 0")
    case True
    then have "e = 0" by (simp add: unat_eq_zero)
    with less.prems show ?thesis by (simp add: pow_loop_0 bigint_checked_Inr)
  next
    case False
    define p q where "p = n + k * (unat e mod 2)" and "q = unat e div 2"
    have e: "unat e = unat e mod 2 + 2 * q" by (simp add: q_def)
    then have total: "n + k * unat e = p + 2 * k * q"
      unfolding p_def by (metis add.assoc distrib_left mult.assoc mult.commute)
    note step = pow_loop_step [OF _ less.prems, of e, folded p_def q_def, unfolded neq0_conv [symmetric], OF False]
    have le: "p \<le> n + k * unat e" "q > 0 \<Longrightarrow> 2 * k \<le> n + k * unat e"
      by (simp_all add: total trans_le_add2)
    show ?thesis
    proof (cases "bigint_in_range (x ^ p) \<and> (q > 0 \<longrightarrow> bigint_in_range (x ^ (2 * k)))")
      case True
      have "pow_loop (drop_bit 1 e) (int_limbs (x ^ p)) (int_limbs (x ^ (2 * k))) = bigint_checked (x ^ (p + 2 * k * q))"
        if "q > 0"
        using less.hyps [of "drop_bit 1 e" p "2 * k"] that True
        by (simp add: unat_drop_bit_div q_def)
      then show ?thesis using True unfolding step total by (simp add: bigint_checked_Inr)
    next
      case False
      then have "\<not> bigint_in_range (x ^ (n + k * unat e))"
        using le power_in_range_mono by blast
      then show ?thesis using False unfolding step by (auto simp: bigint_checked_Inl bigint_checked_def)
    qed
  qed
qed

lemma bigint_pow_eq:
  assumes "wf_limbs a" "wf_limbs b"
  shows "bigint_pow a b = (if limbs_int b < 0 then Inl (RangeError ''Exponent must be positive'')
    else bigint_checked (limbs_int a ^ unat (b ! 0)))"
proof -
  have one: "bigint_in_range 1" by (rule i128_in_range) simp_all
  have "pow_loop (b ! 0) (int_limbs 1) a = bigint_checked (limbs_int a ^ unat (b ! 0))"
    using pow_loop_eq [of "limbs_int a" 0 1 "b ! 0"] assms(1) one by simp
  then show ?thesis
    using is_negative_iff [OF assms(2)] one
    by (auto simp: bigint_pow_def ONE_LIMBS Let_def bigint_checked_Inr)
qed

subsection \<open>Division\<close>

lemma bit_limbs_nat:
  "bit (limbs_nat limbs) n \<longleftrightarrow> n div 64 < length limbs \<and> bit (limbs ! (n div 64)) (n mod 64)"
proof (induction limbs arbitrary: n)
  case (Cons x xs)
  have "unat x < 2 ^ 64" by simp
  then have tb: "take_bit 64 (unat x) = unat x" by (simp add: take_bit_nat_eq_self)
  have disj: "unat x + 2 ^ 64 * limbs_nat xs = unat x OR push_bit 64 (limbs_nat xs)"
  proof -
    have "unat x AND push_bit 64 (limbs_nat xs) = 0"
      by (rule bit_eqI) (metis tb bit_and_iff bit_push_bit_iff bit_take_bit_iff bit_0_eq bot_apply bot_bool_def not_less)
    then have "unat x + push_bit 64 (limbs_nat xs) = unat x OR push_bit 64 (limbs_nat xs)"
      by (rule disjunctive_add_eq_or)
    then show ?thesis by (simp add: push_bit_eq_mult mult.commute)
  qed
  show ?case
  proof (cases "n < 64")
    case True
    then show ?thesis by (simp only: limbs_nat.simps disj) (simp add: bit_or_iff bit_push_bit_iff bit_unsigned_iff)
  next
    case False
    then obtain m where n: "n = m + 64" using le_Suc_ex [of 64 n] by (auto simp: add.commute)
    have "\<not> bit (unat x) n" using tb False by (metis bit_take_bit_iff)
    moreover have "(m + 64) div 64 = Suc (m div 64)" by (simp add: div_add_self2)
    ultimately show ?thesis by (simp only: limbs_nat.simps disj) (simp add: n bit_or_iff bit_push_bit_iff Cons.IH)
  qed
qed simp

lemma limbs_nat_eq_bitsI:
  assumes "length limbs = BIGINT_LIMBS" "v < limb_mod BIGINT_LIMBS"
    and "\<And>i j. i < BIGINT_LIMBS \<Longrightarrow> j < 64 \<Longrightarrow> bit (limbs ! i) j \<longleftrightarrow> bit v (i * 64 + j)"
  shows "limbs_nat limbs = v"
proof (rule bit_eqI)
  fix n
  have v: "take_bit (64 * BIGINT_LIMBS) v = v"
    using assms(2) by (simp add: take_bit_nat_eq_self limb_mod_def)
  show "bit (limbs_nat limbs) n \<longleftrightarrow> bit v n"
  proof (cases "n div 64 < BIGINT_LIMBS")
    case True
    then show ?thesis using assms(1) assms(3) [of "n div 64" "n mod 64"]
      by (simp add: bit_limbs_nat)
  next
    case False
    then have "64 * BIGINT_LIMBS \<le> n" by (simp add: not_less less_eq_div_iff_mult_less_eq mult.commute)
    then have "\<not> bit v n" using v by (metis bit_take_bit_iff not_less)
    then show ?thesis using False assms(1) by (simp add: bit_limbs_nat)
  qed
qed

lemma leading_zeros_spec:
  assumes "x \<noteq> 0"
  shows "leading_zeros x \<le> 63" "bit x (63 - leading_zeros x)" "\<And>j. 63 - leading_zeros x < j \<Longrightarrow> \<not> bit x j"
proof -
  obtain i0 where "bit x i0" using assms by (metis bit_0_eq bit_eqI bot_apply bot_bool_def)
  then have "i0 < 64" using bit_imp_le_length [of x i0] by simp
  with \<open>bit x i0\<close> obtain i where i: "find (bit x) (rev [0..<64]) = Some i"
    by (metis find_rev_upt_None option.exhaust)
  then have f: "i < 64" "bit x i" "\<forall>j. i < j \<and> j < 64 \<longrightarrow> \<not> bit x j"
    unfolding find_rev_upt_Some by blast+
  have lz: "leading_zeros x = 63 - i" unfolding leading_zeros_def i by simp
  show "leading_zeros x \<le> 63" "bit x (63 - leading_zeros x)" using f by (simp_all add: lz)
  show "\<not> bit x j" if "63 - leading_zeros x < j" for j
    using that f(1,3) bit_imp_le_length [of x j] by (auto simp: lz)
qed

lemma bit_top_bounds:
  fixes v :: nat
  assumes "bit v n" "\<And>m. n < m \<Longrightarrow> \<not> bit v m"
  shows "2 ^ n \<le> v" "v < 2 ^ Suc n"
proof -
  have "take_bit (Suc n) v = v"
    by (rule bit_eqI) (metis assms(2) bit_take_bit_iff not_less_eq)
  then show "v < 2 ^ Suc n" using take_bit_nat_less_exp [of "Suc n" v] by simp
  show "2 ^ n \<le> v"
    using assms(1) by (metis bit_take_bit_iff less_irrefl not_le take_bit_nat_eq_self)
qed

lemma highest_set_bit_None:
  "wf_limbs limbs \<Longrightarrow> highest_set_bit limbs = None \<Longrightarrow> limbs_nat limbs = 0"
  unfolding highest_set_bit_def
  by (auto simp: find_rev_upt_None limbs_nat_eq_0_iff list_all_length wf_limbs_def split: option.splits)

lemma highest_set_bit_Some:
  assumes "wf_limbs limbs" "highest_set_bit limbs = Some n"
  shows "bit (limbs_nat limbs) n" "\<And>m. n < m \<Longrightarrow> \<not> bit (limbs_nat limbs) m"
proof -
  have len: "length limbs = BIGINT_LIMBS" using assms(1) by (simp add: wf_limbs_def)
  obtain i where "find (\<lambda>i. limbs ! i \<noteq> 0) (rev [0..<BIGINT_LIMBS]) = Some i"
    and n: "n = i * 64 + 63 - leading_zeros (limbs ! i)"
    using assms(2) by (auto simp: highest_set_bit_def split: option.splits)
  then have i: "i < BIGINT_LIMBS" "limbs ! i \<noteq> 0" "\<forall>j. i < j \<and> j < BIGINT_LIMBS \<longrightarrow> limbs ! j = 0"
    unfolding find_rev_upt_Some by blast+
  note lz = leading_zeros_spec [OF i(2)]
  have n': "n = i * 64 + (63 - leading_zeros (limbs ! i))" using n lz(1) by simp
  then have dm: "n div 64 = i" "n mod 64 = 63 - leading_zeros (limbs ! i)" by simp_all
  show "bit (limbs_nat limbs) n" using i lz by (simp add: bit_limbs_nat dm len)
  show "\<not> bit (limbs_nat limbs) m" if "n < m" for m
  proof (cases "m div 64 = i")
    case True
    then have "n mod 64 < m mod 64" using that dm(1)
      by (metis div_mult_mod_eq nat_add_left_cancel_less)
    then show ?thesis using True lz(3) by (simp add: bit_limbs_nat dm)
  next
    case False
    then have "i < m div 64" using that dm(1) by (metis div_le_mono le_neq_implies_less less_imp_le)
    then show ?thesis using i(3) by (auto simp: bit_limbs_nat len)
  qed
qed

text \<open>Tier 1.\<close>

lemma filter_upt_singleton: "length (filter P [0..<n]) = 1 \<Longrightarrow> \<exists>i. {j. j < n \<and> P j} = {i}"
proof -
  assume "length (filter P [0..<n]) = 1"
  then obtain i where "filter P [0..<n] = [i]" by (auto simp: length_Suc_conv)
  then have "set (filter P [0..<n]) = {i}" by simp
  then show ?thesis by auto
qed

lemma is_power_of_two_bits:
  assumes "is_power_of_two x" "bit x n"
  shows "x = push_bit n 1"
proof (rule bit_word_eqI)
  have n: "n < 64" using bit_imp_le_length [OF assms(2)] by simp
  obtain i where set: "{j. j < 64 \<and> bit x j} = {i}"
    using filter_upt_singleton assms(1) unfolding is_power_of_two_def by blast
  fix j assume "j < LENGTH(64)"
  then have j: "j < 64" by simp
  have "n \<in> {i}" using assms(2) n unfolding set [symmetric] by blast
  moreover have "j \<in> {i}" if "bit x j" using that j unfolding set [symmetric] by blast
  ultimately have "bit x j \<longleftrightarrow> j = n" using assms(2) by blast
  then show "bit x j \<longleftrightarrow> bit (push_bit n (1 :: u64)) j"
    using n j unfolding push_bit_of_1 bit_exp_iff by simp
qed

lemma pow2_divisor:
  assumes "wf_limbs b" "highest_set_bit b = Some k" "is_power_of_two (b ! (k div 64))"
    and "list_all (\<lambda>l. l = 0) (take (k div 64) b)"
  shows "limbs_nat b = 2 ^ k"
proof -
  have len: "length b = BIGINT_LIMBS" using assms(1) by (simp add: wf_limbs_def)
  note top = highest_set_bit_Some [OF assms(1,2)]
  have k: "k div 64 < BIGINT_LIMBS" "bit (b ! (k div 64)) (k mod 64)"
    using top(1) by (simp_all add: bit_limbs_nat len)
  have limb: "b ! (k div 64) = push_bit (k mod 64) 1"
    by (rule is_power_of_two_bits [OF assms(3) k(2)])
  have low: "b ! i = 0" if "i < k div 64" for i
    using assms(4) that k(1) len by (simp add: list_all_length)
  have "bit (limbs_nat b) n \<longleftrightarrow> n = k" for n
  proof (cases n k rule: linorder_cases)
    case less
    show ?thesis
    proof (cases "n div 64 = k div 64")
      case True
      then have "n mod 64 < k mod 64" using less by (metis div_mult_mod_eq nat_add_left_cancel_less)
      then show ?thesis using less True by (simp add: bit_limbs_nat limb bit_exp_iff)
    next
      case False
      then have "n div 64 < k div 64" using less by (metis div_le_mono le_neq_implies_less less_imp_le)
      then show ?thesis using less low by (simp add: bit_limbs_nat)
    qed
  qed (use top in auto)
  then show ?thesis by (intro bit_eqI) (simp add: bit_exp_iff)
qed

lemma div_mod_64_add: "(i * 64 + j + k) div 64 = i + (j + k) div 64" "(i * 64 + j + k) mod 64 = (j + k) mod (64 :: nat)"
  using div_mult_self3 [of 64 i "j + k"] mod_mult_self3 [of i 64 "j + k"] by (simp_all add: ac_simps)

lemma div_pow2_bits:
  assumes "wf_limbs a" "k < 1024" "i < BIGINT_LIMBS" "j < 64"
  shows "bit (fst (div_pow2 a k) ! i) j \<longleftrightarrow> bit (limbs_nat a) (i * 64 + j + k)"
    and "bit (snd (div_pow2 a k) ! i) j \<longleftrightarrow> bit (limbs_nat a) (i * 64 + j) \<and> i * 64 + j < k"
proof -
  have len: "length a = BIGINT_LIMBS" using assms(1) by (simp add: wf_limbs_def)
  define lk bk where "lk = k div 64" and "bk = k mod 64"
  have k: "k = lk * 64 + bk" "bk < 64" by (simp_all add: lk_def bk_def)
  have lk: "lk < BIGINT_LIMBS" using assms(2) k(1) by (simp add: BIGINT_LIMBS_def)
  have q: "fst (div_pow2 a k) ! i = (let lo = (if i + lk < BIGINT_LIMBS then a ! (i + lk) else 0)
       in if bk = 0 then lo else let hi = (if i + lk + 1 < BIGINT_LIMBS then a ! (i + lk + 1) else 0)
          in drop_bit bk lo OR push_bit (64 - bk) hi)"
    using assms(3) unfolding div_pow2_def lk_def [symmetric] bk_def [symmetric] Let_def by simp
  have split: "(i * 64 + j + k) div 64 = i + lk + (j + bk) div 64" "(i * 64 + j + k) mod 64 = (j + bk) mod 64"
    using div_mod_64_add [of "i + lk" j bk] unfolding k(1) by (simp_all add: algebra_simps)
  show "bit (fst (div_pow2 a k) ! i) j \<longleftrightarrow> bit (limbs_nat a) (i * 64 + j + k)"
  proof (cases "j + bk < 64")
    case True
    then show ?thesis unfolding q bit_limbs_nat split using assms(4) len
      by (auto simp: Let_def bit_or_iff bit_drop_bit_eq bit_push_bit_iff add.commute)
  next
    case False
    then have "(j + bk) div 64 = 1" "(j + bk) mod 64 = j + bk - 64"
      using k(2) assms(4) by (simp_all add: div_nat_eqI mod_if [of "j + bk"] )
    moreover have "\<not> bit w (j + bk)" for w :: u64
      using False bit_imp_le_length [of w "j + bk"] by auto
    ultimately show ?thesis unfolding q bit_limbs_nat split using assms(4) len False k(2)
      by (auto simp: Let_def bit_or_iff bit_drop_bit_eq bit_push_bit_iff add.commute)
  qed
  have r: "snd (div_pow2 a k) ! i = (if i < lk then a ! i
      else if i = lk \<and> bk > 0 then a ! i AND (push_bit bk 1 - 1) else 0)"
    using assms(3) lk len unfolding div_pow2_def lk_def [symmetric] bk_def [symmetric] Let_def
    by (auto simp: nth_append ZERO_LIMBS_def nth_list_update)
  have "push_bit bk 1 - 1 = (mask bk :: u64)" by (simp add: mask_eq_exp_minus_1 push_bit_eq_mult)
  then show "bit (snd (div_pow2 a k) ! i) j \<longleftrightarrow> bit (limbs_nat a) (i * 64 + j) \<and> i * 64 + j < k"
    unfolding r using assms(3,4) len k
    by (auto simp: bit_limbs_nat bit_and_iff bit_mask_iff)
qed

lemma div_pow2_spec:
  assumes "wf_limbs a" "k < 1024"
  shows "wf_limbs (fst (div_pow2 a k))" "wf_limbs (snd (div_pow2 a k))"
    and "limbs_nat (fst (div_pow2 a k)) = limbs_nat a div 2 ^ k"
    and "limbs_nat (snd (div_pow2 a k)) = limbs_nat a mod 2 ^ k"
proof -
  have len: "length a = BIGINT_LIMBS" using assms(1) by (simp add: wf_limbs_def)
  have a: "limbs_nat a < limb_mod BIGINT_LIMBS" using limbs_nat_less [of a] len by simp
  show wf: "wf_limbs (fst (div_pow2 a k))" "wf_limbs (snd (div_pow2 a k))"
    using len assms(2) by (simp_all add: div_pow2_def wf_limbs_def Let_def ZERO_LIMBS_def BIGINT_LIMBS_def del: upt_rec_numeral)
  show "limbs_nat (fst (div_pow2 a k)) = limbs_nat a div 2 ^ k"
  proof (rule limbs_nat_eq_bitsI)
    show "limbs_nat a div 2 ^ k < limb_mod BIGINT_LIMBS"
      using a by (rule le_less_trans [OF div_le_dividend])
  qed (use wf assms in \<open>simp_all add: wf_limbs_def div_pow2_bits bit_drop_bit_eq add.commute flip: drop_bit_eq_div\<close>)
  show "limbs_nat (snd (div_pow2 a k)) = limbs_nat a mod 2 ^ k"
  proof (rule limbs_nat_eq_bitsI)
    show "limbs_nat a mod 2 ^ k < limb_mod BIGINT_LIMBS"
      using a by (rule le_less_trans [OF mod_less_eq_dividend])
  qed (use wf assms in \<open>auto simp: wf_limbs_def div_pow2_bits bit_take_bit_iff simp flip: take_bit_eq_mod\<close>)
qed

text \<open>Tier 2.\<close>

lemma unat_pair_u128: "unat (push_bit 64 (ucast (hi :: u64) :: u128) OR ucast (lo :: u64)) = unat lo + 2 ^ 64 * unat hi"
proof -
  have "push_bit 64 (ucast hi :: u128) AND ucast lo = 0"
    by (rule bit_word_eqI) (auto simp: bit_simps dest: bit_imp_le_length)
  then have "push_bit 64 (ucast hi :: u128) OR ucast lo = push_bit 64 (ucast hi) + ucast lo"
    by (rule disjunctive_add_eq_or [symmetric])
  moreover have "unat (push_bit 64 (ucast hi :: u128)) = 2 ^ 64 * unat hi"
  proof -
    have "2 ^ 64 * unat hi < 2 ^ 128" using unat_u64_le [of hi] by simp
    then show ?thesis by (simp add: push_bit_eq_mult unat_word_ariths mult.commute)
  qed
  moreover have "2 ^ 64 * unat hi + unat lo < 2 ^ 128"
    using unat_u64_le [of hi] unat_u64_le [of lo] by simp
  ultimately show ?thesis by (simp add: unat_plus_exact)
qed

lemma div_limb_loop_spec:
  assumes "unat rem < unat d" "n \<le> length quot" "n \<le> length a" "\<forall>i<n. quot ! i = 0"
    and "div_limb_loop a d n quot rem = (quot', rem')"
  shows "length quot' = length quot \<and> unat rem' < unat d \<and>
    limbs_nat quot' * unat d + unat rem'
      = limbs_nat quot * unat d + unat rem * limb_mod n + limbs_nat (take n a)"
  using assms
proof (induction n arbitrary: quot rem)
  case (Suc i)
  define cur where "cur = push_bit 64 (ucast rem :: u128) OR ucast (a ! i)"
  define c where "c = unat (a ! i) + 2 ^ 64 * unat rem"
  have cur: "unat cur = c" unfolding cur_def c_def by (rule unat_pair_u128)
  have dpos: "0 < unat d" using Suc.prems(1) by simp
  have "c < 2 ^ 64 * unat d"
  proof -
    have "2 ^ 64 * Suc (unat rem) \<le> 2 ^ 64 * unat d" using Suc.prems(1) by (intro mult_le_mono2) simp
    then show ?thesis unfolding c_def mult_Suc_right using unat_u64_le [of "a ! i"] by simp
  qed
  then have qlt: "c div unat d < 2 ^ 64" by (simp add: less_mult_imp_div_less)
  have q: "unat (ucast (cur div ucast d) :: u64) = c div unat d"
    using qlt by (simp add: unat_ucast_mod unat_div_distrib cur)
  have "c mod unat d < 2 ^ 64"
    using order_less_trans [OF mod_less_divisor [OF dpos]] unat_u64_less [of d] by simp
  then have r: "unat (ucast (cur mod ucast d) :: u64) = c mod unat d"
    by (simp add: unat_ucast_mod unat_mod_distrib cur)
  have step: "div_limb_loop a d i (quot[i := ucast (cur div ucast d)]) (ucast (cur mod ucast d)) = (quot', rem')"
    using Suc.prems(5) by (simp add: cur_def Let_def)
  have q0: "limbs_nat (quot[i := ucast (cur div ucast d)]) = limbs_nat quot + limb_mod i * (c div unat d)"
    using limbs_nat_update [of i quot "ucast (cur div ucast d)"] Suc.prems(2,4) q by simp
  have IH: "length quot' = length quot" "unat rem' < unat d"
    "limbs_nat quot' * unat d + unat rem' = (limbs_nat quot + limb_mod i * (c div unat d)) * unat d
      + (c mod unat d) * limb_mod i + limbs_nat (take i a)"
    using Suc.IH [OF _ _ _ _ step] Suc.prems dpos unfolding q0 r by simp_all
  have "(limb_mod i * (c div unat d)) * unat d + (c mod unat d) * limb_mod i = limb_mod i * c"
    using div_mult_mod_eq [of c "unat d"] by (metis distrib_left mult.assoc mult.commute)
  moreover have "limb_mod i * c = limb_mod i * unat (a ! i) + unat rem * limb_mod (Suc i)"
    unfolding c_def limb_mod_Suc distrib_left by (simp only: mult_ac)
  moreover have "limbs_nat (take (Suc i) a) = limbs_nat (take i a) + limb_mod i * unat (a ! i)"
    using Suc.prems(3) by (intro limbs_nat_take_nth) simp
  ultimately show ?case using IH unfolding distrib_right by linarith
qed simp

text \<open>Tier 3.\<close>

lemma ge_loop_append:
  "length xs = length ys \<Longrightarrow> ge_loop (xs @ [x]) (ys @ [y])
    \<longleftrightarrow> (if xs = ys then y \<le> x else ge_loop xs ys)"
  by (induction xs ys rule: list_induct2) auto

lemma limbs_nat_snoc: "limbs_nat (xs @ [x]) = limbs_nat xs + limb_mod (length xs) * unat x"
  by (simp add: limbs_nat_append)

lemma limbs_nat_less_top:
  fixes p q m x y :: nat
  assumes "p < m" "x < y"
  shows "p + m * x < q + m * y"
proof -
  have "m * Suc x \<le> m * y" using assms(2) by (intro mult_le_mono2) simp
  then show ?thesis using assms(1) by simp
qed

lemma ge_loop_iff:
  "length xs = length ys \<Longrightarrow> ge_loop (rev xs) (rev ys) \<longleftrightarrow> limbs_nat ys \<le> limbs_nat xs"
proof (induction xs arbitrary: ys rule: rev_induct)
  case (snoc x xs)
  then obtain y ys' where ys: "ys = ys' @ [y]" "length xs = length ys'"
    by (cases ys rule: rev_cases) auto
  have lt: "limbs_nat xs < limb_mod (length xs)" "limbs_nat ys' < limb_mod (length xs)"
    using limbs_nat_less [of xs] limbs_nat_less [of ys'] ys(2) by simp_all
  show ?case
  proof (cases x y rule: linorder_cases)
    case less
    then have "limbs_nat (xs @ [x]) < limbs_nat ys"
      using limbs_nat_less_top [OF lt(1)] unfolding ys(1) limbs_nat_snoc ys(2) [symmetric]
      by (simp add: word_less_nat_alt)
    with less show ?thesis by (simp add: ys(1) not_le)
  next
    case equal
    then show ?thesis using snoc.IH [of ys'] ys by (simp add: limbs_nat_snoc)
  next
    case greater
    then have "limbs_nat ys < limbs_nat (xs @ [x])"
      using limbs_nat_less_top [OF lt(2)] unfolding ys(1) limbs_nat_snoc ys(2) [symmetric]
      by (simp add: word_less_nat_alt)
    with greater show ?thesis by (simp add: ys(1) less_imp_le)
  qed
qed simp

lemma length_shl1_loop [simp]: "length (shl1_loop limbs c) = length limbs"
  by (induction limbs c rule: shl1_loop.induct) (simp_all add: Let_def)

lemma unat_shl1:
  assumes "unat c \<le> 1"
  shows "unat (push_bit 1 x OR c :: u64) = (2 * unat x) mod 2 ^ 64 + unat c"
proof -
  define y where "y = (2 * unat x) mod 2 ^ 64"
  have dbl: "unat (push_bit 1 x) = y"
    unfolding y_def by (simp add: push_bit_eq_mult unat_word_ariths mult.commute)
  have "unat c = 0 \<or> unat c = 1" using assms by linarith
  then have c: "c = 0 \<or> c = 1" unfolding word_unat_eq_iff by simp
  then have "push_bit 1 x AND c = 0"
    by (intro bit_word_eqI) (auto simp: bit_and_iff bit_push_bit_iff bit_1_iff bit_0)
  then have sum: "push_bit 1 x OR c = push_bit 1 x + c" by (rule disjunctive_add_eq_or [symmetric])
  have "even y" unfolding y_def by (simp add: dvd_mod)
  then obtain z where z: "y = 2 * z" by (rule evenE)
  have "y < 18446744073709551616" unfolding y_def by simp
  then have "z < 9223372036854775808" using z by simp
  then have "y + unat c < 18446744073709551616" using assms z by linarith
  then have "unat (push_bit 1 x + c) = y + unat c"
    by (intro unat_plus_exact [of "push_bit 1 x" c, unfolded dbl]) simp
  then show ?thesis unfolding sum y_def .
qed

lemma limbs_nat_shl1_loop:
  "unat c \<le> 1 \<Longrightarrow> limbs_nat (shl1_loop limbs c) = (2 * limbs_nat limbs + unat c) mod limb_mod (length limbs)"
proof (induction limbs arbitrary: c)
  case (Cons x xs)
  have hi: "unat (drop_bit 63 x) = (2 * unat x) div 2 ^ 64" by (simp add: unat_drop_bit_div)
  have "(2 * unat x) div 2 ^ 64 \<le> 1" using unat_u64_le [of x] by simp
  then have "limbs_nat (shl1_loop (x # xs) c)
      = (2 * unat x) mod 2 ^ 64 + unat c + 2 ^ 64 * ((2 * limbs_nat xs + (2 * unat x) div 2 ^ 64) mod limb_mod (length xs))"
    using Cons.IH [of "drop_bit 63 x"] unat_shl1 [OF Cons.prems, of x]
    by (simp add: Let_def hi del: power_numeral)
  also have "\<dots> = ((2 * unat x) mod 2 ^ 64 + unat c + 2 ^ 64 * (2 * limbs_nat xs + (2 * unat x) div 2 ^ 64)) mod (2 ^ 64 * limb_mod (length xs))"
    using unat_shl1 [OF Cons.prems, of x] unat_u64_less [of "push_bit 1 x OR c"]
    by (intro digit_mod [symmetric]) simp
  also have "(2 * unat x) mod 2 ^ 64 + unat c + 2 ^ 64 * (2 * limbs_nat xs + (2 * unat x) div 2 ^ 64)
      = 2 * limbs_nat (x # xs) + unat c"
    using mod_mult_div_eq [of "2 * unat x" "2 ^ 64"] unfolding distrib_left limbs_nat.simps by linarith
  finally show ?case by (simp add: limb_mod_Suc)
qed simp

lemma limbs_nat_set_bit:
  assumes "n div 64 < length limbs" "\<not> bit (limbs_nat limbs) n"
  shows "limbs_nat (limbs[n div 64 := limbs ! (n div 64) OR push_bit (n mod 64) 1]) = limbs_nat limbs + 2 ^ n"
proof -
  define l where "l = limbs ! (n div 64)"
  have "\<not> bit l (n mod 64)" using assms by (simp add: bit_limbs_nat l_def)
  then have disj: "l AND push_bit (n mod 64) 1 = 0"
    by (intro bit_word_eqI) (auto simp: bit_and_iff bit_exp_iff)
  then have or: "l OR push_bit (n mod 64) 1 = l + push_bit (n mod 64) 1"
    by (rule disjunctive_add_eq_or [symmetric])
  have p: "unat (push_bit (n mod 64) 1 :: u64) = 2 ^ (n mod 64)"
    by (simp add: unsigned_push_bit_eq take_bit_nat_eq_self power_strict_increasing del: push_bit_of_1)
  have "unat (l OR push_bit (n mod 64) 1) = unat l + 2 ^ (n mod 64)"
  proof -
    have "unat (l OR push_bit (n mod 64) 1) = unat l OR unat (push_bit (n mod 64) 1 :: u64)"
      by (rule unsigned_or_eq)
    also have "\<dots> = unat l + unat (push_bit (n mod 64) 1 :: u64)"
      by (rule disjunctive_add_eq_or [symmetric]) (simp only: unsigned_and_eq [symmetric] disj unsigned_0)
    finally show ?thesis by (simp only: p)
  qed
  moreover have "limb_mod (n div 64) * 2 ^ (n mod 64) = 2 ^ n"
    by (simp add: limb_mod_def flip: power_add)
  ultimately show ?thesis
    using limbs_nat_update [OF assms(1), of "l OR push_bit (n mod 64) 1"]
    by (simp add: l_def [symmetric] distrib_left)
qed

lemma limbs_nat_set_low_bit:
  assumes "0 < length limbs" "even (limbs_nat limbs)"
  shows "limbs_nat (limbs[0 := limbs ! 0 OR (drop_bit k x AND 1)]) = limbs_nat limbs + of_bool (bit x k)"
proof -
  have "drop_bit k x AND 1 = (if bit x k then push_bit 0 1 else 0)"
    by (intro bit_word_eqI) (auto simp: bit_and_iff bit_drop_bit_eq bit_1_iff intro!: gr0I)
  then show ?thesis
    using limbs_nat_set_bit [of 0 limbs] assms by (simp add: bit_0)
qed

lemma div_bit_loop_spec:
  assumes "wf_limbs a" "wf_limbs b" "wf_limbs quot" "wf_limbs rem" "n \<le> 1024"
    and "2 * limbs_nat b \<le> limb_mod BIGINT_LIMBS" "limbs_nat rem < limbs_nat b" "2 ^ n dvd limbs_nat quot"
    and "div_bit_loop a b n quot rem = (quot', rem')"
  shows "wf_limbs quot' \<and> wf_limbs rem' \<and> limbs_nat rem' < limbs_nat b \<and>
    limbs_nat quot' * limbs_nat b + limbs_nat rem'
      = limbs_nat quot * limbs_nat b + limbs_nat rem * 2 ^ n + limbs_nat a mod 2 ^ n"
  using assms
proof (induction n arbitrary: quot rem)
  case (Suc i)
  define B where "B = limbs_nat b"
  define bt where "bt = (of_bool (bit (limbs_nat a) i) :: nat)"
  define s where "s = shl1_loop rem 0"
  define r where "r = s[0 := s ! 0 OR (drop_bit (i mod 64) (a ! (i div 64)) AND 1)]"
  have i: "i div 64 < BIGINT_LIMBS" using Suc.prems(5) by (simp add: BIGINT_LIMBS_def less_mult_imp_div_less)
  have wf_r: "wf_limbs r" using Suc.prems(4) by (simp add: r_def s_def wf_limbs_def)
  have "2 * limbs_nat rem < limb_mod BIGINT_LIMBS" using Suc.prems(6,7) by linarith
  then have s: "limbs_nat s = 2 * limbs_nat rem"
    using Suc.prems(4) limbs_nat_shl1_loop [of 0 rem] by (simp add: s_def wf_limbs_def)
  have "length s = 16" using Suc.prems(4) by (simp add: s_def wf_limbs_def BIGINT_LIMBS_def)
  then have r: "limbs_nat r = 2 * limbs_nat rem + bt"
    unfolding r_def using limbs_nat_set_low_bit [of s] s Suc.prems(1) i
    by (simp add: bt_def bit_limbs_nat wf_limbs_def)
  have rec: "div_bit_loop a b (Suc i) quot rem =
      (if B \<le> limbs_nat r
       then div_bit_loop a b i (quot[i div 64 := quot ! (i div 64) OR push_bit (i mod 64) 1]) (subtract_limbs r b)
       else div_bit_loop a b i quot r)"
    using Suc.prems(2) wf_r
    by (simp add: Let_def s_def [symmetric] r_def [symmetric] ge_loop_iff B_def wf_limbs_def)
  have dv: "2 ^ i dvd limbs_nat quot" using Suc.prems(8) by (rule power_le_dvd) simp
  have am: "limbs_nat a mod 2 ^ Suc i = bt * 2 ^ i + limbs_nat a mod 2 ^ i"
    using take_bit_Suc_from_most [of i "limbs_nat a"] by (simp add: bt_def take_bit_eq_mod mult.commute)
  show ?case
  proof (cases "B \<le> limbs_nat r")
    case True
    define q1 where "q1 = quot[i div 64 := quot ! (i div 64) OR push_bit (i mod 64) 1]"
    define r1 where "r1 = subtract_limbs r b"
    have nb: "\<not> bit (limbs_nat quot) i"
      using Suc.prems(8) by (metis bit_take_bit_iff dvd_imp_mod_0 lessI take_bit_eq_mod bit_0_eq bot_apply bot_bool_def)
    have q1: "limbs_nat q1 = limbs_nat quot + 2 ^ i"
      unfolding q1_def using nb i Suc.prems(3) by (intro limbs_nat_set_bit) (simp_all add: wf_limbs_def)
    have wf1: "wf_limbs q1" "wf_limbs r1"
      using Suc.prems(2,3) wf_r by (simp_all add: q1_def r1_def subtract_limbs_def wf_limbs_def)
    have "int (limbs_nat r1) = (int (limbs_nat r) - int B) mod int (limb_mod BIGINT_LIMBS)"
      using limbs_nat_sub_loop [of r b 0] wf_r Suc.prems(2)
      by (simp add: r1_def subtract_limbs_def B_def wf_limbs_def)
    also have "\<dots> = int (limbs_nat r) - int B"
      using True limbs_nat_less [of r] wf_r by (intro mod_pos_pos_trivial) (simp_all add: wf_limbs_def)
    finally have r1: "limbs_nat r = limbs_nat r1 + B" by simp
    have "bt \<le> 1" by (simp add: bt_def)
    then have lt: "limbs_nat r1 < B" using r r1 Suc.prems(7) unfolding B_def by linarith
    have "2 ^ i dvd limbs_nat q1" using dv by (simp add: q1)
    then have IH: "wf_limbs quot' \<and> wf_limbs rem' \<and> limbs_nat rem' < B \<and>
        limbs_nat quot' * B + limbs_nat rem' = limbs_nat q1 * B + limbs_nat r1 * 2 ^ i + limbs_nat a mod 2 ^ i"
      unfolding B_def using Suc.prems rec True wf1 lt
      by (intro Suc.IH) (simp_all add: q1_def r1_def B_def)
    have "limbs_nat q1 * B + limbs_nat r1 * 2 ^ i = limbs_nat quot * B + limbs_nat r * 2 ^ i"
      unfolding q1 r1 by (simp add: algebra_simps)
    also have "\<dots> = limbs_nat quot * B + limbs_nat rem * 2 ^ Suc i + bt * 2 ^ i"
      unfolding r by (simp add: algebra_simps)
    finally show ?thesis using IH am unfolding B_def by linarith
  next
    case False
    then have IH: "wf_limbs quot' \<and> wf_limbs rem' \<and> limbs_nat rem' < B \<and>
        limbs_nat quot' * B + limbs_nat rem' = limbs_nat quot * B + limbs_nat r * 2 ^ i + limbs_nat a mod 2 ^ i"
      unfolding B_def using Suc.prems rec wf_r dv by (intro Suc.IH) (simp_all add: B_def)
    have "limbs_nat r * 2 ^ i = limbs_nat rem * 2 ^ Suc i + bt * 2 ^ i"
      unfolding r by (simp add: algebra_simps)
    then show ?thesis using IH am unfolding B_def by linarith
  qed
qed simp

lemma limbs_nat_single: "limbs_nat (ZERO_LIMBS[0 := r]) = unat r"
  using limbs_nat_update [of 0 ZERO_LIMBS r] by (simp add: ZERO_LIMBS_def BIGINT_LIMBS_def limb_simps)

lemma highest_set_bit_take:
  assumes "wf_limbs limbs" "highest_set_bit limbs = Some n"
  shows "n div 64 < BIGINT_LIMBS" "n < 1024" "limbs_nat (take (Suc (n div 64)) limbs) = limbs_nat limbs"
proof -
  note top = highest_set_bit_Some [OF assms]
  show n: "n div 64 < BIGINT_LIMBS" using top(1) assms(1) by (simp add: bit_limbs_nat wf_limbs_def)
  then show "n < 1024" by (simp add: BIGINT_LIMBS_def div_less_iff_less_mult)
  show "limbs_nat (take (Suc (n div 64)) limbs) = limbs_nat limbs"
  proof (rule limbs_nat_take_zeros, intro allI impI)
    fix j assume j: "Suc (n div 64) \<le> j \<and> j < length limbs"
    have "\<not> bit (limbs ! j) k" if "k < 64" for k
    proof -
      have "n < j * 64" using j by (simp add: Suc_le_eq div_less_iff_less_mult)
      then have "\<not> bit (limbs_nat limbs) (j * 64 + k)" by (intro top(2)) simp
      then show ?thesis using j that by (simp add: bit_limbs_nat)
    qed
    then show "limbs ! j = 0" by (intro bit_word_eqI) simp
  qed
qed

lemma div_mod_unique:
  fixes a b q r :: nat
  assumes "q * b + r = a" "r < b"
  shows "q = a div b \<and> r = a mod b"
  using assms by (auto simp: div_nat_eqI simp flip: assms(1))

text \<open>The three tiers compute the same quotient and remainder.\<close>

lemma div_limb_tier:
  assumes "wf_limbs a" "highest_set_bit a = Some m" "wf_limbs b" "highest_set_bit b = Some k" "k div 64 = 0"
    and "limbs_nat b \<noteq> 0" "div_limb_loop a (b ! 0) (Suc (m div 64)) ZERO_LIMBS 0 = (q, r)"
  shows "wf_limbs q \<and> limbs_nat q = limbs_nat a div limbs_nat b \<and> unat r = limbs_nat a mod limbs_nat b"
proof -
  note ta = highest_set_bit_take [OF assms(1,2)] and tb = highest_set_bit_take [OF assms(3,4)]
  have lens: "length a = BIGINT_LIMBS" "length b = BIGINT_LIMBS" "length ZERO_LIMBS = BIGINT_LIMBS"
    using assms(1,3) wf_ZERO_LIMBS by (simp_all add: wf_limbs_def)
  have b0: "limbs_nat b = unat (b ! 0)"
    using tb(3) lens(2) limbs_nat_take_nth [of 0 b] by (simp add: assms(5) BIGINT_LIMBS_def)
  have "length q = BIGINT_LIMBS \<and> unat r < limbs_nat b \<and> limbs_nat q * limbs_nat b + unat r = limbs_nat a"
    using div_limb_loop_spec [OF _ _ _ _ assms(7)] ta(1,3) lens assms(6) unfolding b0
    by (simp add: Suc_le_eq) (simp add: ZERO_LIMBS_def)
  then show ?thesis using div_mod_unique [of "limbs_nat q" "limbs_nat b" "unat r" "limbs_nat a"]
    by (simp add: wf_limbs_def)
qed

lemma unsigned_div_limbs_spec:
  assumes "wf_limbs a" "wf_limbs b" "limbs_nat b \<noteq> 0" "2 * limbs_nat b \<le> limb_mod BIGINT_LIMBS"
    and "unsigned_div_limbs a b = (q, r)"
  shows "wf_limbs q \<and> wf_limbs r \<and> limbs_nat q = limbs_nat a div limbs_nat b \<and> limbs_nat r = limbs_nat a mod limbs_nat b"
proof (cases "highest_set_bit a")
  case None
  then show ?thesis using assms(5) highest_set_bit_None [OF assms(1)] by (auto simp: unsigned_div_limbs_def)
next
  case (Some m)
  obtain k where k: "highest_set_bit b = Some k"
    using highest_set_bit_None [OF assms(2)] assms(3) by fastforce
  note ba = bit_top_bounds [OF highest_set_bit_Some [OF assms(1) Some]]
    and bb = bit_top_bounds [OF highest_set_bit_Some [OF assms(2) k]]
  note ta = highest_set_bit_take [OF assms(1) Some] and tb = highest_set_bit_take [OF assms(2) k]
  let ?pow2 = "is_power_of_two (b ! (k div 64)) \<and> list_all (\<lambda>l. l = 0) (take (k div 64) b)"
  consider (less) "m < k" | (pow2) "\<not> m < k" ?pow2 | (limb) "\<not> m < k" "\<not> ?pow2" "k div 64 = 0"
    | (bits) "\<not> m < k" "\<not> ?pow2" "k div 64 \<noteq> 0" by blast
  then show ?thesis
  proof cases
    case less
    have "limbs_nat a < 2 ^ Suc m" by (rule ba(2))
    also have "\<dots> \<le> 2 ^ k" using less by (intro power_increasing) simp_all
    also have "\<dots> \<le> limbs_nat b" by (rule bb(1))
    finally have "limbs_nat a < limbs_nat b" .
    moreover have "q = ZERO_LIMBS" "r = a" using assms(5) less by (simp_all add: unsigned_div_limbs_def Some k)
    ultimately show ?thesis using assms(1) by simp
  next
    case pow2
    then have "limbs_nat b = 2 ^ k" using pow2_divisor [OF assms(2) k] by blast
    moreover have "q = fst (div_pow2 a k)" "r = snd (div_pow2 a k)"
      using assms(5) pow2 by (simp_all add: unsigned_div_limbs_def Some k Let_def)
    ultimately show ?thesis using div_pow2_spec [OF assms(1) tb(2)] by simp
  next
    case limb
    obtain r' where r: "r = ZERO_LIMBS[0 := r']" "div_limb_loop a (b ! 0) (Suc (m div 64)) ZERO_LIMBS 0 = (q, r')"
      using assms(5) limb by (auto simp: unsigned_div_limbs_def Some k Let_def split: prod.splits)
    then have "wf_limbs r" using wf_ZERO_LIMBS by (simp add: wf_limbs_def)
    then show ?thesis
      using div_limb_tier [OF assms(1) Some assms(2) k limb(3) assms(3) r(2)] by (simp add: r(1) limbs_nat_single)
  next
    case bits
    have loop: "div_bit_loop a b (Suc m) ZERO_LIMBS ZERO_LIMBS = (q, r)"
      using assms(5) bits by (auto simp: unsigned_div_limbs_def Some k Let_def)
    have "limbs_nat a mod 2 ^ Suc m = limbs_nat a" using ba(2) by simp
    then show ?thesis
      using div_bit_loop_spec [OF assms(1,2) _ _ _ assms(4) _ _ loop] ta(2) assms(3)
        div_mod_unique [of "limbs_nat q" "limbs_nat b" "limbs_nat r" "limbs_nat a"]
      by simp
  qed
qed

text \<open>The signed operations: truncating division and remainder.\<close>

lemma nat_div_sdiv:
  "int (nat \<bar>x\<bar> div nat \<bar>y\<bar>) = \<bar>x\<bar> div \<bar>y\<bar>" "int (nat \<bar>x\<bar> mod nat \<bar>y\<bar>) = \<bar>x\<bar> mod \<bar>y\<bar>"
  by (simp_all add: zdiv_int zmod_int)

lemma sdiv_cases: "(x :: int) sdiv y = (if (x < 0) \<noteq> (y < 0) then - (\<bar>x\<bar> div \<bar>y\<bar>) else \<bar>x\<bar> div \<bar>y\<bar>)"
  by (auto simp: signed_divide_int_def sgn_if)

lemma smod_cases: "(x :: int) smod y = (if x < 0 then - (\<bar>x\<bar> mod \<bar>y\<bar>) else \<bar>x\<bar> mod \<bar>y\<bar>)"
  by (auto simp: signed_modulo_int_def sgn_if)

lemma sdiv_bounds:
  assumes "(y :: int) \<noteq> 0"
  shows "\<bar>x sdiv y\<bar> \<le> \<bar>x\<bar>" "\<bar>x smod y\<bar> \<le> \<bar>x\<bar>" "\<bar>x smod y\<bar> < \<bar>y\<bar>"
proof -
  define q r where "q = \<bar>x\<bar> div \<bar>y\<bar>" and "r = \<bar>x\<bar> mod \<bar>y\<bar>"
  have "int (nat \<bar>x\<bar> div nat \<bar>y\<bar>) \<le> int (nat \<bar>x\<bar>)" by (simp only: of_nat_le_iff div_le_dividend)
  then have q: "q \<le> \<bar>x\<bar>" unfolding nat_div_sdiv q_def by simp
  have q0: "0 \<le> q" unfolding q_def using assms by (intro pos_imp_zdiv_nonneg_iff [THEN iffD2]) simp_all
  have r: "r \<le> \<bar>x\<bar>" "r < \<bar>y\<bar>" "0 \<le> r"
    unfolding r_def using assms by (auto intro: zmod_le_nonneg_dividend pos_mod_bound pos_mod_sign)
  show "\<bar>x sdiv y\<bar> \<le> \<bar>x\<bar>" unfolding sdiv_cases q_def [symmetric] using q q0 by (simp split: if_split)
  show "\<bar>x smod y\<bar> \<le> \<bar>x\<bar>" "\<bar>x smod y\<bar> < \<bar>y\<bar>"
    unfolding smod_cases r_def [symmetric] using r by (auto split: if_split)
qed

text \<open>The magnitude path of both operations, before the sign is put back.\<close>

lemma unsigned_div_magnitudes:
  assumes "wf_limbs a" "wf_limbs b" "limbs_int b \<noteq> 0"
  defines "qr \<equiv> unsigned_div_limbs (if is_negative a then negate_limbs a else a) (if is_negative b then negate_limbs b else b)"
  shows "wf_limbs (fst qr)" "wf_limbs (snd qr)"
    "int (limbs_nat (fst qr)) = \<bar>limbs_int a\<bar> div \<bar>limbs_int b\<bar>"
    "int (limbs_nat (snd qr)) = \<bar>limbs_int a\<bar> mod \<bar>limbs_int b\<bar>"
proof -
  define ma mb where "ma = (if is_negative a then negate_limbs a else a)"
    and "mb = (if is_negative b then negate_limbs b else b)"
  note A = magnitude_bound [OF assms(1), folded ma_def] and B = magnitude_bound [OF assms(2), folded mb_def]
  have "limbs_nat mb \<noteq> 0" using B(2) assms(3) by auto
  then have spec: "wf_limbs (fst qr) \<and> wf_limbs (snd qr) \<and> limbs_nat (fst qr) = limbs_nat ma div limbs_nat mb
      \<and> limbs_nat (snd qr) = limbs_nat ma mod limbs_nat mb"
    using A(1) B(1,3) by (intro unsigned_div_limbs_spec) (simp_all add: qr_def ma_def mb_def)
  then show "wf_limbs (fst qr)" "wf_limbs (snd qr)"
    "int (limbs_nat (fst qr)) = \<bar>limbs_int a\<bar> div \<bar>limbs_int b\<bar>"
    "int (limbs_nat (snd qr)) = \<bar>limbs_int a\<bar> mod \<bar>limbs_int b\<bar>"
    by (simp_all add: zdiv_int zmod_int A(2) B(2))
qed

lemma negate_nonzero:
  assumes "wf_limbs q"
  shows "(if s \<and> q \<noteq> ZERO_LIMBS then negate_limbs q else q)
    = int_limbs (if s then - int (limbs_nat q) else int (limbs_nat q))"
proof (cases "q = ZERO_LIMBS")
  case True
  then show ?thesis using apply_sign_limbs [of ZERO_LIMBS False] by simp
qed (use apply_sign_limbs [OF assms, of s] in simp)

lemma bigint_div_wrap:
  assumes "wf_limbs a" "wf_limbs b" "limbs_int b \<noteq> 0"
  shows "bigint_div a b = Inr (int_limbs (limbs_int a sdiv limbs_int b))"
proof -
  note um = unsigned_div_magnitudes [OF assms]
  have slow: "(let a_neg = is_negative a; b_neg = is_negative b;
        abs_a = (if a_neg then negate_limbs a else a); abs_b = (if b_neg then negate_limbs b else b);
        quot = fst (unsigned_div_limbs abs_a abs_b)
      in Inr (if a_neg \<noteq> b_neg \<and> quot \<noteq> ZERO_LIMBS then negate_limbs quot else quot))
    = (Inr (int_limbs (limbs_int a sdiv limbs_int b)) :: js_throw + u64 list)"
    unfolding Let_def negate_nonzero [OF um(1)] um(3) by (simp add: sdiv_cases is_negative_iff assms)
  have nz: "b \<noteq> ZERO_LIMBS" using assms by (simp add: eq_ZERO_LIMBS_iff)
  have "(if bv \<noteq> 0 then Inr (write_i128 (av sdiv bv)) else s) = Inr (int_limbs (limbs_int a sdiv limbs_int b))"
    if "limbs_int a = av" "limbs_int b = bv" "- (2 ^ 63) \<le> av" "av < 2 ^ 63" for av bv and s :: "js_throw + u64 list"
    using that assms(3) sdiv_bounds(1) [of bv av] by (auto simp: write_i128_eq)
  then show ?thesis
    unfolding bigint_div_def slow using nz by (simp only: if_False) (unfold Let_def, rule fits_case [OF assms(1,2)], auto)
qed


lemma bigint_div_zero: "wf_limbs b \<Longrightarrow> limbs_int b = 0 \<Longrightarrow> bigint_div a b = Inl throw_bigint_division_by_zero"
  by (simp add: bigint_div_def eq_ZERO_LIMBS_iff)

lemma bigint_mod_zero: "wf_limbs b \<Longrightarrow> limbs_int b = 0 \<Longrightarrow> bigint_mod a b = Inl throw_bigint_division_by_zero"
  by (simp add: bigint_mod_def eq_ZERO_LIMBS_iff)

lemma bigint_mod_eq:
  assumes "wf_limbs a" "wf_limbs b" "limbs_int b \<noteq> 0" "\<not> (limbs_int a = - (2 ^ 63) \<and> limbs_int b = -1)"
  shows "bigint_mod a b = Inr (int_limbs (limbs_int a smod limbs_int b))"
proof -
  note um = unsigned_div_magnitudes [OF assms(1-3)]
  have slow: "(let a_neg = is_negative a; b_neg = is_negative b;
        abs_a = (if a_neg then negate_limbs a else a); abs_b = (if b_neg then negate_limbs b else b);
        remainder = snd (unsigned_div_limbs abs_a abs_b)
      in Inr (if a_neg \<and> remainder \<noteq> ZERO_LIMBS then negate_limbs remainder else remainder))
    = (Inr (int_limbs (limbs_int a smod limbs_int b)) :: js_throw + u64 list)"
    unfolding Let_def negate_nonzero [OF um(2)] um(4) by (simp add: smod_cases is_negative_iff assms)
  have nz: "b \<noteq> ZERO_LIMBS" using assms by (simp add: eq_ZERO_LIMBS_iff)
  have "(if bv \<noteq> 0 then (case i64_rem av bv of Inl e \<Rightarrow> Inl e | Inr r \<Rightarrow> Inr (write_i64 r)) else s)
      = Inr (int_limbs (limbs_int a smod limbs_int b))"
    if "limbs_int a = av" "limbs_int b = bv" "- (2 ^ 63) \<le> av" "av < 2 ^ 63" "- (2 ^ 63) \<le> bv" "bv < 2 ^ 63"
    for av bv and s :: "js_throw + u64 list"
    using that assms(3,4) sdiv_bounds(3) [of bv av] by (auto simp: i64_rem_def write_i64_eq)
  then show ?thesis
    unfolding bigint_mod_def slow using nz by (simp only: if_False) (unfold Let_def, rule fits_case [OF assms(1,2)], auto)
qed

lemma sdiv_in_range:
  assumes "bigint_in_range x" "y \<noteq> 0" "\<not> (2 * x = - int (limb_mod BIGINT_LIMBS) \<and> y = -1)"
  shows "bigint_in_range (x sdiv y)"
proof -
  define M where "M = int (limb_mod BIGINT_LIMBS)"
  have x: "- M \<le> 2 * x" "2 * x < M" and Mpos: "0 < M" using assms(1) by (simp_all add: bigint_in_range_def M_def)
  show ?thesis
  proof (cases "2 * x = - M")
    case True
    have "\<bar>x\<bar> div \<bar>y\<bar> < \<bar>x\<bar>" if "\<bar>y\<bar> \<noteq> 1"
      using that assms(2) True Mpos by (intro int_div_less_self) auto
    moreover have "y = 1 \<or> \<bar>y\<bar> \<noteq> 1" using assms(3) True by (auto simp: M_def)
    moreover have "0 \<le> \<bar>x\<bar> div \<bar>y\<bar>" using assms(2) by (simp add: div_int_pos_iff)
    ultimately show ?thesis using x True by (auto simp: bigint_in_range_def M_def [symmetric] sdiv_cases)
  next
    case False
    then show ?thesis using sdiv_bounds(1) [OF assms(2), of x] x
      unfolding bigint_in_range_def M_def [symmetric] by linarith
  qed
qed

subsection \<open>The exported operations\<close>

text \<open>The integer functions the operations refine, exceptions included.\<close>

definition js_div :: "int \<Rightarrow> int \<Rightarrow> js_throw + int" where
  "js_div x y = (if y = 0 then Inl throw_bigint_division_by_zero
     else if x = - (2 ^ 1023) \<and> y = -1 then Inr x else Inr (x sdiv y))"

definition js_mod :: "int \<Rightarrow> int \<Rightarrow> js_throw + int" where
  "js_mod x y = (if y = 0 then Inl throw_bigint_division_by_zero
     else if x = - (2 ^ 63) \<and> y = -1
     then Inl (Panic ''attempt to calculate the remainder with overflow'') else Inr (x smod y))"

definition js_pow :: "int \<Rightarrow> int \<Rightarrow> js_throw + int" where
  "js_pow x y = (if y < 0 then Inl (RangeError ''Exponent must be positive'')
     else int_checked (x ^ nat (y mod 2 ^ 64)))"

lemma limb_mod_BIGINT_LIMBS_exp: "int (limb_mod BIGINT_LIMBS) = 2 * 2 ^ 1023"
proof -
  have "limb_mod BIGINT_LIMBS = 2 ^ Suc 1023" by (simp only: limb_mod_def BIGINT_LIMBS_def) simp
  then show ?thesis by (simp only: power_Suc of_nat_mult of_nat_power of_nat_numeral)
qed

lemma bigint_in_range_exp: "bigint_in_range z \<longleftrightarrow> - (2 ^ 1023) \<le> z \<and> z < 2 ^ 1023"
  unfolding bigint_in_range_def limb_mod_BIGINT_LIMBS_exp by linarith

lemma int_limbs_wrap: "int_limbs (z + int (limb_mod BIGINT_LIMBS)) = int_limbs z"
  by (simp add: int_limbs_def)

lemma low_limb_mod:
  assumes "wf_limbs b"
  shows "int (unat (b ! 0)) = limbs_int b mod 2 ^ 64"
proof -
  obtain x xs where b: "b = x # xs" using assms by (cases b) (auto simp: wf_limbs_def BIGINT_LIMBS_def)
  have "limbs_int b mod 2 ^ 64 = (limbs_int b mod int (limb_mod BIGINT_LIMBS)) mod 2 ^ 64"
    unfolding limb_mod_BIGINT_LIMBS of_nat_mult of_nat_power by (simp add: mod_mod_cancel)
  also have "\<dots> = int (limbs_nat b) mod 2 ^ 64" using limbs_int_mod [OF assms] by simp
  also have "\<dots> = int (limbs_nat b mod 2 ^ 64)" by (simp add: zmod_int)
  also have "limbs_nat b mod 2 ^ 64 = unat x" by (simp add: b)
  finally show ?thesis by (simp add: b)
qed

lemma fits_in_i64_complete:
  assumes "wf_limbs limbs" "- (2 ^ 63) \<le> limbs_int limbs" "limbs_int limbs < 2 ^ 63"
  shows "fits_in_i64 limbs = Some (limbs_int limbs)"
proof -
  define z where "z = limbs_int limbs"
  have limbs: "limbs = word_of_int z # replicate 15 (if z < 0 then u64_MAX else 0)"
    using limbs_int_sign_extension [OF assms(2,3)] assms(1) by (simp add: z_def)
  have s: "sint (word_of_int z :: u64) = z"
    using assms(2,3) by (simp add: z_def signed_of_int signed_take_bit_int_eq_self)
  have "drop_bit 63 (word_of_int z :: u64) = (if z < 0 then 1 else 0)"
    using sint_u64_neg_iff [of "word_of_int z"] unfolding s drop_bit_63_cases by simp
  then show ?thesis
    unfolding z_def [symmetric] by (simp add: limbs fits_in_i64_def Let_def s list_ex_iff)
qed

interpretation neg: bigint_op1 bigint_neg "\<lambda>x. int_checked (- x)"
  by unfold_locales (simp_all add: bigint_neg_eq bigint_checked_int_checked int_checked_in_range)

interpretation add: bigint_op2 bigint_add "\<lambda>x y. int_checked (x + y)"
  by unfold_locales (simp_all add: bigint_add_eq bigint_checked_int_checked int_checked_in_range)

interpretation sub: bigint_op2 bigint_sub "\<lambda>x y. int_checked (x - y)"
  by unfold_locales (simp_all add: bigint_sub_eq bigint_checked_int_checked int_checked_in_range)

interpretation mul: bigint_op2 bigint_mul "\<lambda>x y. int_checked (x * y)"
  by unfold_locales (simp_all add: bigint_mul_eq bigint_checked_int_checked int_checked_in_range)

interpretation div: bigint_op2 bigint_div js_div
proof
  fix a b assume wf: "wf_limbs a" "wf_limbs b"
  have one: "\<bar>limbs_int a\<bar> sdiv (-1) = - \<bar>limbs_int a\<bar>" by (simp add: sdiv_cases)
  have wrap: "int_limbs (2 ^ 1023) = int_limbs (- (2 ^ 1023))"
    using int_limbs_wrap [of "- (2 ^ 1023)"] unfolding limb_mod_BIGINT_LIMBS_exp by simp
  show "bigint_div a b = map_sum id int_limbs (js_div (limbs_int a) (limbs_int b))"
    using bigint_div_zero [OF wf(2), of a] bigint_div_wrap [OF wf] wrap
    by (auto simp: js_div_def sdiv_cases)
next
  fix x y z assume "bigint_in_range x" "bigint_in_range y" "js_div x y = Inr z"
  then show "bigint_in_range z"
    using sdiv_in_range [of x y] unfolding limb_mod_BIGINT_LIMBS_exp
    by (auto simp: js_div_def split: if_splits)
qed

interpretation rem: bigint_op2 bigint_mod js_mod
proof
  fix a b assume wf: "wf_limbs a" "wf_limbs b"
  have "bigint_mod a b = Inl (Panic ''attempt to calculate the remainder with overflow'')"
    if "limbs_int a = - (2 ^ 63)" "limbs_int b = -1"
    using that wf fits_in_i64_complete [OF wf(1)] fits_in_i64_complete [OF wf(2)]
    by (simp add: bigint_mod_def eq_ZERO_LIMBS_iff i64_rem_def Let_def)
  then show "bigint_mod a b = map_sum id int_limbs (js_mod (limbs_int a) (limbs_int b))"
    using bigint_mod_zero [OF wf(2), of a] bigint_mod_eq [OF wf] by (auto simp: js_mod_def)
next
  fix x y z assume "bigint_in_range x" "bigint_in_range y" "js_mod x y = Inr z"
  then show "bigint_in_range z"
    using sdiv_bounds(2,3) [of y x] 
    by (auto simp: js_mod_def bigint_in_range_exp split: if_splits)
qed

interpretation pow: bigint_op2 bigint_pow js_pow
proof
  fix a b assume wf: "wf_limbs a" "wf_limbs b"
  have "unat (b ! 0) = nat (limbs_int b mod 2 ^ 64)" using low_limb_mod [OF wf(2)] by linarith
  then show "bigint_pow a b = map_sum id int_limbs (js_pow (limbs_int a) (limbs_int b))"
    by (simp add: bigint_pow_eq [OF wf] js_pow_def bigint_checked_int_checked)
next
  fix x y z assume "js_pow x y = Inr z"
  then show "bigint_in_range z" by (auto simp: js_pow_def int_checked_in_range split: if_splits)
qed

text \<open>A memory with two BigInts and an arena that hands out a third address, for the witnesses.\<close>

definition sample_mem :: "int \<Rightarrow> int \<Rightarrow> bigint_mem" where
  "sample_mem x y = (\<lambda>_. ZERO_LIMBS)(0x20000 := int_limbs x, 0x30000 := int_limbs y)"

definition sample_arena :: "bigint_mem \<Rightarrow> addr" where
  "sample_arena mem = 0x40000"

lemma sample_ok: "bigint_mem_ok (sample_mem x y)" "arena_ok sample_arena"
  by (simp_all add: bigint_mem_ok_def sample_mem_def arena_ok_def sample_arena_def clean_bigint_ptr_def Let_def drop_bit_word_numeral)

lemma sample_values:
  assumes "bigint_in_range x" "bigint_in_range y"
  shows "bigint_value (sample_mem x y) 0x20000 = x" "bigint_value (sample_mem x y) 0x30000 = y"
  using assms by (simp_all add: bigint_value_def sample_mem_def bigint_limbs_or_zero_def clean_bigint_ptr_def Let_def)

text \<open>
  C18. Addition: on every memory and every pair of operand pointers, \<open>js_bigint_add\<close> returns
  a pointer to a header holding the exact sum, leaving every other BigInt as it was, or throws the
  size RangeError exactly when the sum does not fit in 1024 bits two's complement. The same function
  serves the i64 fast path and the 16-limb carry loop.
\<close>

theorem js_bigint_add_correct:
  assumes "bigint_mem_ok mem" "arena_ok alloc"
  shows "bigint_result mem (int_checked (bigint_value mem a + bigint_value mem b)) (js_bigint_add alloc mem a b)"
  unfolding js_bigint_add_def by (rule add.exported [OF assms])

theorem js_bigint_add_correct_witness:
  "bigint_result (sample_mem (2 ^ 100) (- 3)) (Inr (2 ^ 100 - 3))
    (js_bigint_add sample_arena (sample_mem (2 ^ 100) (- 3)) 0x20000 0x30000)"
  using js_bigint_add_correct [OF sample_ok, of "2 ^ 100" "-3" "0x20000" "0x30000"]
  by (simp add: sample_values i128_in_range int_checked_def)

text \<open>
  Subtraction and negation: \<open>js_bigint_sub\<close> and \<open>js_bigint_neg\<close> return the
  exact difference and the exact negation or throw the size RangeError, exactly out of range.
\<close>

theorem js_bigint_sub_neg_correct:
  assumes "bigint_mem_ok mem" "arena_ok alloc"
  shows "bigint_result mem (int_checked (bigint_value mem a - bigint_value mem b)) (js_bigint_sub alloc mem a b)
    \<and> bigint_result mem (int_checked (- bigint_value mem a)) (js_bigint_neg alloc mem a)"
  unfolding js_bigint_sub_def js_bigint_neg_def using sub.exported [OF assms] neg.exported [OF assms] by blast

theorem js_bigint_sub_neg_correct_witness:
  "bigint_result (sample_mem 5 (2 ^ 100)) (Inr (5 - 2 ^ 100))
      (js_bigint_sub sample_arena (sample_mem 5 (2 ^ 100)) 0x20000 0x30000)
    \<and> bigint_result (sample_mem 5 (2 ^ 100)) (Inr (- 5)) (js_bigint_neg sample_arena (sample_mem 5 (2 ^ 100)) 0x20000)"
  using js_bigint_sub_neg_correct [OF sample_ok, of 5 "2 ^ 100" "0x20000" "0x30000"]
  by (simp add: sample_values i128_in_range int_checked_def)

text \<open>
  C3. Multiplication: \<open>js_bigint_mul\<close> returns the exact product or throws the size
  RangeError exactly when it is out of range, through the i64 fast path and through the
  sign-and-magnitude schoolbook loop with its trimmed operand lengths.
\<close>

theorem js_bigint_mul_correct:
  assumes "bigint_mem_ok mem" "arena_ok alloc"
  shows "bigint_result mem (int_checked (bigint_value mem a * bigint_value mem b)) (js_bigint_mul alloc mem a b)"
  unfolding js_bigint_mul_def by (rule mul.exported [OF assms])

theorem js_bigint_mul_correct_witness:
  "bigint_result (sample_mem (2 ^ 100) (- 3)) (Inr (- 3 * 2 ^ 100))
    (js_bigint_mul sample_arena (sample_mem (2 ^ 100) (- 3)) 0x20000 0x30000)"
  using js_bigint_mul_correct [OF sample_ok, of "2 ^ 100" "-3" "0x20000" "0x30000"]
  by (simp add: sample_values i128_in_range int_checked_def)

text \<open>
  C11. Unsigned division: all three tiers of \<open>unsigned_div_limbs\<close> (power-of-two divisor,
  single-limb divisor, bit-at-a-time) compute the quotient and the remainder of the magnitudes.
\<close>

theorem unsigned_div_limbs_correct:
  assumes "wf_limbs a" "wf_limbs b" "limbs_nat b \<noteq> 0" "2 * limbs_nat b \<le> limb_mod BIGINT_LIMBS"
  shows "limbs_nat (fst (unsigned_div_limbs a b)) = limbs_nat a div limbs_nat b
    \<and> limbs_nat (snd (unsigned_div_limbs a b)) = limbs_nat a mod limbs_nat b"
  using unsigned_div_limbs_spec [OF assms, of "fst (unsigned_div_limbs a b)" "snd (unsigned_div_limbs a b)"]
  by simp

theorem unsigned_div_limbs_correct_witness:
  "limbs_nat (fst (unsigned_div_limbs (write_i64 1000) (write_i64 7))) = 142"
proof -
  have "limbs_nat (write_i64 1000) = 1000" "limbs_nat (write_i64 7) = 7"
    using limbs_nat_single [of 1000] limbs_nat_single [of 7] by (simp_all add: write_i64_def ZERO_LIMBS_def)
  moreover have "(14 :: nat) \<le> limb_mod BIGINT_LIMBS" by (simp add: limb_mod_def BIGINT_LIMBS_def)
  ultimately show ?thesis
    using unsigned_div_limbs_correct [of "write_i64 1000" "write_i64 7"] by simp
qed

text \<open>
  C6. Division and remainder: \<open>js_bigint_div\<close> and \<open>js_bigint_mod\<close> throw the
  division-by-zero RangeError on a zero divisor and otherwise return the quotient and the remainder
  of division truncated toward zero (\<open>js_div\<close>, \<open>js_mod\<close>), with two exceptions the
  specification spells out: \<open>- 2^1023 / -1\<close> returns the dividend instead of throwing, and
  \<open>- 2^63 % -1\<close> panics in the fast path.
\<close>

theorem js_bigint_div_mod_correct:
  assumes "bigint_mem_ok mem" "arena_ok alloc"
  shows "bigint_result mem (js_div (bigint_value mem a) (bigint_value mem b)) (js_bigint_div alloc mem a b)
    \<and> bigint_result mem (js_mod (bigint_value mem a) (bigint_value mem b)) (js_bigint_mod alloc mem a b)"
  unfolding js_bigint_div_def js_bigint_mod_def using div.exported [OF assms] rem.exported [OF assms] by blast

theorem js_bigint_div_mod_correct_witness:
  "bigint_result (sample_mem (- 7) 2) (Inr (- 3)) (js_bigint_div sample_arena (sample_mem (- 7) 2) 0x20000 0x30000)
    \<and> bigint_result (sample_mem (- 7) 2) (Inr (- 1)) (js_bigint_mod sample_arena (sample_mem (- 7) 2) 0x20000 0x30000)"
  using js_bigint_div_mod_correct [OF sample_ok, of "-7" 2 "0x20000" "0x30000"]
  by (simp add: sample_values i128_in_range js_div_def js_mod_def sdiv_cases smod_cases)

text \<open>
  C19. Power: \<open>js_bigint_pow\<close> throws on a negative exponent and otherwise returns the exact
  power for the exponent's low 64 bits, throwing the size RangeError exactly when that power is out
  of range: square-and-multiply never overflows on a result that fits.
\<close>

theorem js_bigint_pow_correct:
  assumes "bigint_mem_ok mem" "arena_ok alloc"
  shows "bigint_result mem (js_pow (bigint_value mem a) (bigint_value mem b)) (js_bigint_pow alloc mem a b)"
  unfolding js_bigint_pow_def by (rule pow.exported [OF assms])

theorem js_bigint_pow_correct_witness:
  "bigint_result (sample_mem (- 2) 101) (Inr (- (2 ^ 101))) (js_bigint_pow sample_arena (sample_mem (- 2) 101) 0x20000 0x30000)"
  using js_bigint_pow_correct [OF sample_ok, of "-2" 101 "0x20000" "0x30000"]
  by (simp add: sample_values i128_in_range js_pow_def int_checked_def)

end
