(* ===== verification/BigInt_Bitwise.thy ===== *)
theory BigInt_Bitwise
  imports BigInt_Arith
begin

text \<open>
  BigInt shifts, bitwise operations and \<open>BigInt.asIntN\<close>/\<open>asUintN\<close>,
  \<open>crates/perry-runtime/src/bigint/bitwise.rs\<close>, and comparison,
  \<open>crates/perry-runtime/src/bigint/compare.rs\<close>. The operations are shown to be those of
  the unbounded two's complement integers, bit by bit.
\<close>

subsection \<open>The operations\<close>

text \<open>The loop of \<open>shl_checked\<close> over the limbs of the magnitude; \<open>dst\<close> is \<open>i + limb_shift\<close>.\<close>

fun shl_loop :: "u64 list \<Rightarrow> nat \<Rightarrow> nat \<Rightarrow> u64 list \<Rightarrow> u64 list" where
  "shl_loop [] dst bit_shift wide = wide"
| "shl_loop (limb # mag) dst bit_shift wide =
     (if limb = 0 then shl_loop mag (Suc dst) bit_shift wide
      else if bit_shift = 0 then
        shl_loop mag (Suc dst) bit_shift (wide[dst := wide ! dst OR limb])
      else
        let wide = wide[dst := wide ! dst OR push_bit bit_shift limb];
            wide = wide[Suc dst := wide ! Suc dst OR drop_bit (64 - bit_shift) limb]
        in shl_loop mag (Suc dst) bit_shift wide)"

definition shl_checked :: "u64 list \<Rightarrow> nat \<Rightarrow> js_throw + u64 list" where
  "shl_checked a_limbs shift =
     (if shift = 0 \<or> a_limbs = ZERO_LIMBS then Inr a_limbs
      else if shift \<ge> BIGINT_BITS then Inl throw_bigint_overflow
      else
        let a_neg = is_negative a_limbs;
            mag = (if a_neg then negate_limbs a_limbs else a_limbs);
            limb_shift = shift div 64;
            bit_shift = shift mod 64;
            wide = shl_loop mag limb_shift bit_shift (replicate (2 * BIGINT_LIMBS) 0)
        in if \<not> magnitude_fits_1024 wide a_neg then Inl throw_bigint_overflow
           else let result = take BIGINT_LIMBS wide
                in Inr (if a_neg then negate_limbs result else result))"

definition shr_limbs :: "u64 list \<Rightarrow> nat \<Rightarrow> u64 list" where
  "shr_limbs a_limbs shift =
     (let fill = (if is_negative a_limbs then NOT 0 else 0)
      in if shift \<ge> BIGINT_BITS then replicate BIGINT_LIMBS fill
         else
           let limb_shift = shift div 64;
               bit_shift = shift mod 64
           in map (\<lambda>i.
                if i < BIGINT_LIMBS - limb_shift then
                  if bit_shift = 0 then a_limbs ! (i + limb_shift)
                  else
                    let src_idx = i + limb_shift;
                        r = drop_bit bit_shift (a_limbs ! src_idx)
                    in if src_idx + 1 < BIGINT_LIMBS
                       then r OR push_bit (64 - bit_shift) (a_limbs ! (src_idx + 1))
                       else r OR push_bit (64 - bit_shift) fill
                else fill) [0..<BIGINT_LIMBS])"

definition shift_count :: "u64 list \<Rightarrow> nat \<times> bool" where
  "shift_count b_limbs =
     (if is_negative b_limbs then
        let mag = negate_limbs b_limbs
        in if list_ex (\<lambda>l. l \<noteq> 0) (drop 1 mag) then (BIGINT_BITS, True) else (unat (mag ! 0), True)
      else if list_ex (\<lambda>l. l \<noteq> 0) (drop 1 b_limbs) then (BIGINT_BITS, False)
      else (unat (b_limbs ! 0), False))"

definition bigint_shl :: "u64 list \<Rightarrow> u64 list \<Rightarrow> js_throw + u64 list" where
  "bigint_shl a_limbs b_limbs =
     (let (shift, negative) = shift_count b_limbs
      in if negative then Inr (shr_limbs a_limbs shift) else shl_checked a_limbs shift)"

definition js_bigint_shl where
  "js_bigint_shl alloc mem a b =
     bigint_return alloc mem (bigint_shl (bigint_limbs_or_zero mem a) (bigint_limbs_or_zero mem b))"

definition bigint_shr :: "u64 list \<Rightarrow> u64 list \<Rightarrow> js_throw + u64 list" where
  "bigint_shr a_limbs b_limbs =
     (let (shift, negative) = shift_count b_limbs
      in if negative then shl_checked a_limbs shift else Inr (shr_limbs a_limbs shift))"

definition js_bigint_shr where
  "js_bigint_shr alloc mem a b =
     bigint_return alloc mem (bigint_shr (bigint_limbs_or_zero mem a) (bigint_limbs_or_zero mem b))"

definition bigint_and :: "u64 list \<Rightarrow> u64 list \<Rightarrow> js_throw + u64 list" where
  "bigint_and a_limbs b_limbs = Inr (map2 (\<lambda>x y. x AND y) a_limbs b_limbs)"

definition js_bigint_and where
  "js_bigint_and alloc mem a b =
     bigint_return alloc mem (bigint_and (bigint_limbs_or_zero mem a) (bigint_limbs_or_zero mem b))"

definition bigint_or :: "u64 list \<Rightarrow> u64 list \<Rightarrow> js_throw + u64 list" where
  "bigint_or a_limbs b_limbs = Inr (map2 (\<lambda>x y. x OR y) a_limbs b_limbs)"

definition js_bigint_or where
  "js_bigint_or alloc mem a b =
     bigint_return alloc mem (bigint_or (bigint_limbs_or_zero mem a) (bigint_limbs_or_zero mem b))"

definition bigint_xor :: "u64 list \<Rightarrow> u64 list \<Rightarrow> js_throw + u64 list" where
  "bigint_xor a_limbs b_limbs = Inr (map2 (\<lambda>x y. x XOR y) a_limbs b_limbs)"

definition js_bigint_xor where
  "js_bigint_xor alloc mem a b =
     bigint_return alloc mem (bigint_xor (bigint_limbs_or_zero mem a) (bigint_limbs_or_zero mem b))"

definition mask_low_bits :: "u64 list \<Rightarrow> nat \<Rightarrow> u64 list" where
  "mask_low_bits limbs bits =
     (if bits \<ge> BIGINT_BITS then limbs
      else
        let full_limbs = bits div 64;
            rem = bits mod 64
        in map (\<lambda>(i, l).
             if i < full_limbs then l
             else if i = full_limbs \<and> rem \<noteq> 0 then l AND (push_bit rem 1 - 1)
             else 0) (enumerate 0 limbs))"

definition bigint_as_uint_n :: "u32 \<Rightarrow> u64 list \<Rightarrow> js_throw + u64 list" where
  "bigint_as_uint_n bits limbs = Inr (mask_low_bits limbs (unat bits))"

definition js_bigint_as_uint_n where
  "js_bigint_as_uint_n alloc mem bits value =
     bigint_return alloc mem (bigint_as_uint_n bits (bigint_limbs_or_zero mem value))"

definition bigint_as_int_n :: "u32 \<Rightarrow> u64 list \<Rightarrow> js_throw + u64 list" where
  "bigint_as_int_n bits limbs =
     (let bits = unat bits
      in if bits = 0 then Inr ZERO_LIMBS
         else if bits \<ge> BIGINT_BITS then Inr limbs
         else
           let masked = mask_low_bits limbs bits;
               sign_limb = (bits - 1) div 64;
               sign_pos = (bits - 1) mod 64
           in if drop_bit sign_pos (masked ! sign_limb) AND 1 = 1 then
                let full_limbs = bits div 64;
                    rem = bits mod 64
                in Inr (map (\<lambda>(i, l).
                     if i < full_limbs then l
                     else if i = full_limbs \<and> rem \<noteq> 0 then l OR NOT (push_bit rem 1 - 1)
                     else if i \<ge> full_limbs then u64_MAX
                     else l) (enumerate 0 masked))
              else Inr masked)"

definition js_bigint_as_int_n where
  "js_bigint_as_int_n alloc mem bits value =
     bigint_return alloc mem (bigint_as_int_n bits (bigint_limbs_or_zero mem value))"

text \<open>The scan of \<open>compare_limbs\<close> from the top limb down, over the reversed lists.\<close>

fun compare_loop :: "u64 list \<Rightarrow> u64 list \<Rightarrow> int" where
  "compare_loop (x # xs) (y # ys) = (if x > y then 1 else if x < y then -1 else compare_loop xs ys)"
| "compare_loop _ _ = 0"

definition compare_limbs :: "u64 list \<Rightarrow> u64 list \<Rightarrow> int" where
  "compare_limbs a b =
     (let a_neg = is_negative a; b_neg = is_negative b
      in if a_neg \<and> \<not> b_neg then -1
         else if \<not> a_neg \<and> b_neg then 1
         else compare_loop (rev a) (rev b))"

definition js_bigint_cmp :: "bigint_mem \<Rightarrow> addr \<Rightarrow> addr \<Rightarrow> int" where
  "js_bigint_cmp mem a b =
     (let a = clean_bigint_ptr a; b = clean_bigint_ptr b
      in if a = 0 \<or> b = 0 then 0
         else case (fits_in_i64 (mem a), fits_in_i64 (mem b)) of
                (Some av, Some bv) \<Rightarrow> if av < bv then -1 else if av = bv then 0 else 1
              | _ \<Rightarrow> compare_limbs (mem a) (mem b))"

definition js_bigint_eq :: "bigint_mem \<Rightarrow> addr \<Rightarrow> addr \<Rightarrow> int" where
  "js_bigint_eq mem a b =
     (let a = clean_bigint_ptr a; b = clean_bigint_ptr b
      in if a = 0 \<or> b = 0 then (if a = b then 1 else 0)
         else if mem a = mem b then 1 else 0)"

subsection \<open>Bits of the two's complement value\<close>

lemma limbs_int_signed_take_bit:
  assumes "wf_limbs limbs"
  shows "limbs_int limbs = signed_take_bit 1023 (int (limbs_nat limbs))"
proof (rule limbs_int_unique)
  define v where "v = int (limbs_nat limbs)"
  have len: "int (limb_mod (length limbs)) = 2 ^ 1024"
    using assms by (simp add: wf_limbs_def BIGINT_LIMBS_def limb_mod_def)
  have dbl: "(2 :: int) * 2 ^ 1023 = 2 ^ 1024" by (simp only: power_Suc [symmetric]) simp
  have v: "0 \<le> v" "v < 2 ^ 1024" using limbs_nat_less [of limbs] len by (simp_all add: v_def flip: len)
  have "signed_take_bit 1023 v mod 2 ^ 1024 = v mod 2 ^ 1024"
    by (simp only: take_bit_eq_mod [symmetric]) (simp add: take_bit_signed_take_bit)
  then show "signed_take_bit 1023 (int (limbs_nat limbs)) mod int (limb_mod (length limbs)) = int (limbs_nat limbs)"
    unfolding v_def [symmetric] len using v by (simp only: mod_pos_pos_trivial)
  show "- int (limb_mod (length limbs)) \<le> 2 * signed_take_bit 1023 (int (limbs_nat limbs))"
    unfolding len using signed_take_bit_int_greater_eq_minus_exp [of 1023 "int (limbs_nat limbs)"] dbl by linarith
  show "2 * signed_take_bit 1023 (int (limbs_nat limbs)) < int (limb_mod (length limbs))"
    unfolding len using signed_take_bit_int_less_exp [of 1023 "int (limbs_nat limbs)"] dbl by linarith
qed

lemma bit_limbs_int:
  assumes "wf_limbs limbs"
  shows "bit (limbs_int limbs) n \<longleftrightarrow> bit (limbs ! (min n 1023 div 64)) (min n 1023 mod 64)"
proof -
  have "min n 1023 div 64 < 16" by (simp add: div_less_iff_less_mult min_def)
  then show ?thesis
    using assms
    by (simp add: limbs_int_signed_take_bit bit_signed_take_bit_iff bit_of_nat_iff_bit bit_limbs_nat
        wf_limbs_def BIGINT_LIMBS_def min.commute)
qed

lemma is_negative_bit: "wf_limbs limbs \<Longrightarrow> is_negative limbs \<longleftrightarrow> bit (limbs ! 15) 63"
  by (simp add: is_negative_def BIGINT_LIMBS_def bit_iff_odd_drop_bit drop_bit_63_cases)

text \<open>Two's complement values are equal when their limbs agree bit by bit.\<close>

lemma limbs_int_bitsI:
  assumes "wf_limbs limbs" "bigint_in_range z"
    and "\<And>i j. i < 16 \<Longrightarrow> j < 64 \<Longrightarrow> bit (limbs ! i) j \<longleftrightarrow> bit z (i * 64 + j)"
  shows "limbs = int_limbs z"
proof -
  have "limbs ! i = int_limbs z ! i" if "i < 16" for i
  proof (rule bit_word_eqI)
    fix j assume "j < LENGTH(64)"
    then have j: "j < 64" by simp
    then have "i * 64 + j < 1024" "(i * 64 + j) div 64 = i" "(i * 64 + j) mod 64 = j" using that by simp_all
    then have "bit (int_limbs z ! i) j \<longleftrightarrow> bit z (i * 64 + j)"
      using bit_limbs_int [OF wf_int_limbs, of z "i * 64 + j"] assms(2) by (simp add: min_def)
    then show "bit (limbs ! i) j \<longleftrightarrow> bit (int_limbs z ! i) j" using assms(3) [OF that j] by simp
  qed
  then show ?thesis
    using assms(1) wf_int_limbs [of z] by (intro nth_equalityI) (simp_all add: wf_limbs_def BIGINT_LIMBS_def)
qed

lemma bit_limbs_int_limb:
  "wf_limbs limbs \<Longrightarrow> i < 16 \<Longrightarrow> j < 64 \<Longrightarrow> bit (limbs_int limbs) (i * 64 + j) \<longleftrightarrow> bit (limbs ! i) j"
  using bit_limbs_int [of limbs "i * 64 + j"] by (simp add: min_def)

text \<open>In-range integers are those whose bits from 1023 on are the sign.\<close>

lemma in_range_signed_take_bit: "bigint_in_range z \<longleftrightarrow> signed_take_bit 1023 z = z"
proof
  assume "bigint_in_range z"
  then show "signed_take_bit 1023 z = z"
    unfolding bigint_in_range_exp by (intro signed_take_bit_int_eq_self) simp_all
next
  assume "signed_take_bit 1023 z = z"
  then show "bigint_in_range z"
    unfolding bigint_in_range_exp
    using signed_take_bit_int_greater_eq_minus_exp [of 1023 z] signed_take_bit_int_less_exp [of 1023 z] by simp
qed

lemma in_range_bits: "bigint_in_range z \<longleftrightarrow> (\<forall>n. bit z (min 1023 n) \<longleftrightarrow> bit z n)"
  unfolding in_range_signed_take_bit by (simp add: bit_eq_iff bit_signed_take_bit_iff)

lemma bitwise_in_range:
  assumes "bigint_in_range x" "bigint_in_range y"
  shows "bigint_in_range (x AND y)" "bigint_in_range (x OR y)" "bigint_in_range (x XOR y)"
  using assms unfolding in_range_bits by (auto simp: bit_and_iff bit_or_iff bit_xor_iff)

lemma not_in_range: "bigint_in_range x \<Longrightarrow> bigint_in_range (NOT x)"
  unfolding bigint_in_range_exp not_int_def by linarith

lemma drop_bit_in_range:
  assumes "bigint_in_range x"
  shows "bigint_in_range (drop_bit n x)"
  unfolding in_range_bits bit_drop_bit_eq
proof
  fix m
  have "min 1023 (n + min 1023 m) = min 1023 (n + m)" by simp
  then show "(bit x \<circ> (+) n) (min 1023 m) = (bit x \<circ> (+) n) m"
    using assms unfolding in_range_bits o_apply by metis
qed

lemma bit_map2_limbs:
  assumes "wf_limbs a" "wf_limbs b" "i < 16"
  shows "map2 f a b ! i = f (a ! i) (b ! i)" "wf_limbs (map2 f a b)"
  using assms by (simp_all add: wf_limbs_def BIGINT_LIMBS_def)

lemma bigint_and_eq: "wf_limbs a \<Longrightarrow> wf_limbs b \<Longrightarrow> bigint_and a b = Inr (int_limbs (limbs_int a AND limbs_int b))"
  unfolding bigint_and_def
  by (auto intro!: limbs_int_bitsI bitwise_in_range simp: bit_map2_limbs [where i = 0] bit_map2_limbs bit_and_iff bit_limbs_int_limb)

lemma bigint_or_eq: "wf_limbs a \<Longrightarrow> wf_limbs b \<Longrightarrow> bigint_or a b = Inr (int_limbs (limbs_int a OR limbs_int b))"
  unfolding bigint_or_def
  by (auto intro!: limbs_int_bitsI bitwise_in_range simp: bit_map2_limbs [where i = 0] bit_map2_limbs bit_or_iff bit_limbs_int_limb)

lemma bigint_xor_eq: "wf_limbs a \<Longrightarrow> wf_limbs b \<Longrightarrow> bigint_xor a b = Inr (int_limbs (limbs_int a XOR limbs_int b))"
  unfolding bigint_xor_def
  by (auto intro!: limbs_int_bitsI bitwise_in_range simp: bit_map2_limbs [where i = 0] bit_map2_limbs bit_xor_iff bit_limbs_int_limb)

lemma bigint_not_eq: "wf_limbs a \<Longrightarrow> bigint_not a = Inr (int_limbs (NOT (limbs_int a)))"
  unfolding bigint_not_def
  by (auto intro!: limbs_int_bitsI not_in_range simp: bit_not_iff bit_limbs_int_limb) (simp_all add: wf_limbs_def BIGINT_LIMBS_def bit_not_iff)

subsection \<open>Shifts\<close>

lemma bit_drop_bit_limb:
  assumes "wf_limbs a" "s = ls * 64 + bs"
  shows "bit (drop_bit s (limbs_int a)) (i * 64 + j)
    \<longleftrightarrow> (if i + ls + (j + bs) div 64 < 16 then bit (a ! (i + ls + (j + bs) div 64)) ((j + bs) mod 64)
        else bit (a ! 15) 63)"
proof -
  define n where "n = s + (i * 64 + j)"
  have n: "n = (i + ls) * 64 + j + bs" by (simp add: n_def assms(2))
  have dm: "n div 64 = i + ls + (j + bs) div 64" "n mod 64 = (j + bs) mod 64"
    using div_mod_64_add [of "i + ls" j bs] by (simp_all only: n)
  have lt: "n div 64 < 16 \<longleftrightarrow> n < 1024" by (simp add: div_less_iff_less_mult)
  have "bit (drop_bit s (limbs_int a)) (i * 64 + j) \<longleftrightarrow> bit (limbs_int a) n"
    by (simp add: bit_drop_bit_eq n_def)
  also have "\<dots> \<longleftrightarrow> (if n div 64 < 16 then bit (a ! (n div 64)) (n mod 64) else bit (a ! 15) 63)"
    using lt by (simp add: bit_limbs_int [OF assms(1)] min_def)
  finally show ?thesis by (simp only: dm)
qed

lemma shr_limbs_nth:
  assumes "i < 16" "s = ls * 64 + bs" "bs < 64"
  shows "shr_limbs a s ! i =
    (let fill = (if is_negative a then NOT 0 else 0)
     in if i + ls < 16 then
          if bs = 0 then a ! (i + ls)
          else drop_bit bs (a ! (i + ls)) OR push_bit (64 - bs) (if i + ls + 1 < 16 then a ! (i + ls + 1) else fill)
        else fill)"
proof -
  have "s div 64 = ls" "s mod 64 = bs" using assms by simp_all
  moreover have "s \<ge> 1024 \<longleftrightarrow> ls \<ge> 16" using assms(2,3) by presburger
  ultimately show ?thesis
    using assms(1) unfolding shr_limbs_def Let_def BIGINT_BITS_def
    by (auto simp: BIGINT_LIMBS_def less_diff_conv simp del: upt_rec_numeral)
qed

lemma shr_limbs_eq:
  assumes "wf_limbs a"
  shows "shr_limbs a s = int_limbs (drop_bit s (limbs_int a))"
proof (rule limbs_int_bitsI)
  show "wf_limbs (shr_limbs a s)" by (simp add: shr_limbs_def wf_limbs_def Let_def)
  show "bigint_in_range (drop_bit s (limbs_int a))" using assms by (simp add: drop_bit_in_range)
  fix i j :: nat assume ij: "i < 16" "j < 64"
  have fill: "bit (if is_negative a then NOT 0 else 0 :: u64) k \<longleftrightarrow> bit (a ! 15) 63" if "k < 64" for k
    using that is_negative_bit [OF assms] by (simp add: bit_not_iff)
  obtain ls bs where s: "s = ls * 64 + bs" "bs < 64" by (metis div_mult_mod_eq mod_less_divisor zero_less_numeral)
  have big: "\<not> bit w (bs + j)" if "\<not> j + bs < 64" for w :: u64
    using that bit_imp_le_length [of w "bs + j"] by auto
  have cmp: "64 - bs \<le> j \<longleftrightarrow> \<not> j + bs < 64" using s(2) by auto
  have dm: "(j + bs) div 64 = (if j + bs < 64 then 0 else 1)" "(j + bs) mod 64 = (if j + bs < 64 then j + bs else j + bs - 64)"
    using s(2) ij(2) by (simp_all add: div_nat_eqI mod_if)
  show "bit (shr_limbs a s ! i) j \<longleftrightarrow> bit (drop_bit s (limbs_int a)) (i * 64 + j)"
    unfolding shr_limbs_nth [OF ij(1) s] bit_drop_bit_limb [OF assms s(1)] dm Let_def
    using ij(2) s(2) fill big cmp
    by (cases "j + bs < 64"; cases "i + ls < 16"; cases "i + ls + 1 < 16"; cases "bs = 0")
      (simp_all add: bit_or_iff bit_drop_bit_eq bit_push_bit_iff add.commute [of bs j] not_less)
qed

lemma limbs_nat_Cons_or: "limbs_nat (x # xs) = unat x OR push_bit 64 (limbs_nat xs)"
  by (rule bit_eqI) (auto simp: bit_or_iff bit_push_bit_iff bit_limbs_nat bit_unsigned_iff nth_Cons' not_less le_div_geq le_mod_geq
      simp del: limbs_nat.simps dest: bit_imp_le_length)

lemma limbs_nat_or_at:
  "k < length w \<Longrightarrow> limbs_nat (w[k := w ! k OR x]) = limbs_nat w OR push_bit (64 * k) (unat x)"
proof (rule bit_eqI)
  fix n assume k: "k < length w"
  have "bit (push_bit (64 * k) (unat x)) n \<longleftrightarrow> n div 64 = k \<and> bit x (n mod 64)"
  proof (cases "n div 64 = k")
    case True
    then have "n = 64 * k + n mod 64" by (metis mult_div_mod_eq)
    then have "64 * k \<le> n" "n - 64 * k = n mod 64" by linarith+
    then show ?thesis using True by (simp add: bit_push_bit_iff bit_unsigned_iff)
  next
    case False
    have "\<not> bit x (n - 64 * k)" if "64 * k \<le> n"
    proof
      assume "bit x (n - 64 * k)"
      then have "n - 64 * k < 64" using bit_imp_le_length [of x] by simp
      then have "n div 64 = k" using that by (intro div_nat_eqI) simp_all
      with False show False ..
    qed
    then show ?thesis using False by (auto simp: bit_push_bit_iff bit_unsigned_iff)
  qed
  then show "bit (limbs_nat (w[k := w ! k OR x])) n \<longleftrightarrow> bit (limbs_nat w OR push_bit (64 * k) (unat x)) n"
    using k by (auto simp: bit_or_iff bit_limbs_nat nth_list_update)
qed


lemma push_bit_unat_split:
  assumes "0 < bs" "bs < 64"
  shows "push_bit bs (unat (x :: u64)) = unat (push_bit bs x) OR push_bit 64 (unat (drop_bit (64 - bs) x))"
proof (rule bit_eqI)
  fix n
  have "bit x k \<Longrightarrow> k < 64" for k using bit_imp_le_length [of x k] by simp
  moreover have "n \<ge> 64 \<Longrightarrow> 64 - bs + (n - 64) = n - bs" using assms(2) by simp
  ultimately show "bit (push_bit bs (unat x)) n
      \<longleftrightarrow> bit (unat (push_bit bs x) OR push_bit 64 (unat (drop_bit (64 - bs) x))) n"
    using assms by (cases "n < 64") (auto simp: bit_or_iff bit_push_bit_iff bit_unsigned_iff bit_drop_bit_eq)
qed

lemma shl_loop_spec:
  assumes "bs < 64" "dst + length mag < length wide"
  shows "length (shl_loop mag dst bs wide) = length wide \<and>
    limbs_nat (shl_loop mag dst bs wide) = limbs_nat wide OR push_bit (64 * dst + bs) (limbs_nat mag)"
  using assms
proof (induction mag dst bs wide rule: shl_loop.induct)
  case (2 x mag dst bs wide)
  have tail: "push_bit (64 * dst + bs) (limbs_nat (x # mag))
      = push_bit (64 * dst + bs) (unat x) OR push_bit (64 * Suc dst + bs) (limbs_nat mag)"
    unfolding limbs_nat_Cons_or push_bit_or push_bit_push_bit by (simp add: ac_simps)
  consider (zero) "x = 0" | (aligned) "x \<noteq> 0" "bs = 0" | (split) "x \<noteq> 0" "bs > 0" by blast
  then show ?case
  proof cases
    case zero
    then show ?thesis using 2 tail by simp
  next
    case aligned
    then show ?thesis using 2 tail limbs_nat_or_at [of dst wide x] by (simp add: or.assoc)
  next
    case split
    define w1 where "w1 = wide[dst := wide ! dst OR push_bit bs x]"
    define w2 where "w2 = w1[Suc dst := w1 ! Suc dst OR drop_bit (64 - bs) x]"
    have "limbs_nat w2 = limbs_nat wide OR push_bit (64 * dst) (unat (push_bit bs x)) OR push_bit (64 * Suc dst) (unat (drop_bit (64 - bs) x))"
      using 2 limbs_nat_or_at [of dst wide "push_bit bs x"] limbs_nat_or_at [of "Suc dst" w1 "drop_bit (64 - bs) x"]
      by (simp add: w1_def w2_def or.assoc)
    also have "\<dots> = limbs_nat wide OR push_bit (64 * dst + bs) (unat x)"
    proof -
      have "push_bit (64 * dst + bs) (unat x) = push_bit (64 * dst) (push_bit bs (unat x))" by simp
      also have "\<dots> = push_bit (64 * dst) (unat (push_bit bs x)) OR push_bit (64 * Suc dst) (unat (drop_bit (64 - bs) x))"
        unfolding push_bit_unat_split [OF split(2) 2(4)] push_bit_or push_bit_push_bit by (simp add: add.commute)
      finally show ?thesis by (simp only:)
    qed
    finally show ?thesis
      using 2 split tail by (simp add: w1_def [symmetric] w2_def [symmetric] Let_def or.assoc) (simp add: w1_def w2_def)
  qed
qed simp

lemma signed_magnitude:
  assumes "wf_limbs a"
  shows "(if is_negative a then - int (limbs_nat (if is_negative a then negate_limbs a else a))
      else int (limbs_nat (if is_negative a then negate_limbs a else a))) = limbs_int a"
  using limbs_nat_magnitude [OF assms] is_negative_iff [OF assms] by (auto split: if_splits)

lemma mult_power_out_of_range:
  assumes "x \<noteq> 0" "1024 \<le> k"
  shows "\<not> bigint_in_range (x * 2 ^ k)"
proof -
  have "(2 :: int) ^ 1024 \<le> 2 ^ k" using assms(2) by (intro power_increasing) simp_all
  moreover have "1 * 2 ^ k \<le> \<bar>x\<bar> * 2 ^ k" using assms(1) by (intro mult_right_mono) simp_all
  moreover have "(2 :: int) ^ 1024 = 2 * 2 ^ 1023" by (simp only: power_Suc [symmetric]) simp
  moreover have "(0 :: int) < 2 ^ 1023" by (rule zero_less_power) simp
  moreover have "\<bar>x * 2 ^ k\<bar> = \<bar>x\<bar> * 2 ^ k" by (simp add: abs_mult)
  ultimately have "2 ^ 1023 < \<bar>x * 2 ^ k\<bar>" by linarith
  then show ?thesis unfolding bigint_in_range_exp by linarith
qed

lemma shl_checked_eq:
  assumes "wf_limbs a"
  shows "shl_checked a s = bigint_checked (limbs_int a * 2 ^ s)"
proof -
  consider (id) "s = 0 \<or> limbs_int a = 0" | (big) "limbs_int a \<noteq> 0" "1024 \<le> s" | (loop) "limbs_int a \<noteq> 0" "s \<noteq> 0" "s < 1024"
    by fastforce
  then show ?thesis
  proof cases
    case id
    then have "limbs_int a * 2 ^ s = limbs_int a" by auto
    moreover have "shl_checked a s = Inr a" using id assms by (simp add: shl_checked_def eq_ZERO_LIMBS_iff)
    moreover have "bigint_checked (limbs_int a) = Inr a" using assms by (simp add: bigint_checked_Inr)
    ultimately show ?thesis by (simp only:)
  next
    case big
    then have "\<not> bigint_in_range (limbs_int a * 2 ^ s)" by (rule mult_power_out_of_range)
    then show ?thesis using big assms
      by (simp add: shl_checked_def eq_ZERO_LIMBS_iff bigint_checked_Inl BIGINT_BITS_def BIGINT_LIMBS_def)
  next
    case loop
    define mag where "mag = (if is_negative a then negate_limbs a else a)"
    define wide where "wide = shl_loop mag (s div 64) (s mod 64) (replicate (2 * BIGINT_LIMBS) 0)"
    have "s div 64 < 16" using loop(3) by (simp add: div_less_iff_less_mult)
    then have "length wide = 2 * BIGINT_LIMBS \<and> limbs_nat wide = push_bit s (limbs_nat mag)"
      unfolding wide_def using assms shl_loop_spec [of "s mod 64" "s div 64" mag "replicate (2 * BIGINT_LIMBS) 0"]
      by (simp add: mag_def wf_limbs_def limbs_nat_replicate_0 BIGINT_LIMBS_def)
    then have wide: "length wide = 2 * BIGINT_LIMBS"
      "(if is_negative a then - int (limbs_nat wide) else int (limbs_nat wide)) = limbs_int a * 2 ^ s"
      using signed_magnitude [OF assms, folded mag_def]
      by (auto simp: push_bit_eq_mult split: if_splits simp flip: mult_minus_left)
    have "shl_checked a s = (if \<not> magnitude_fits_1024 wide (is_negative a) then Inl throw_bigint_overflow
      else let result = take BIGINT_LIMBS wide in Inr (if is_negative a then negate_limbs result else result))"
      using loop assms
      by (simp add: shl_checked_def eq_ZERO_LIMBS_iff BIGINT_BITS_def BIGINT_LIMBS_def mag_def wide_def Let_def)
    then show ?thesis using wide_signed_result [OF wide] by simp
  qed
qed

lemma low_limb_value:
  assumes "wf_limbs limbs"
  shows "list_ex (\<lambda>l. l \<noteq> 0) (drop 1 limbs) \<longleftrightarrow> 2 ^ 64 \<le> limbs_nat limbs"
    and "\<not> list_ex (\<lambda>l. l \<noteq> 0) (drop 1 limbs) \<Longrightarrow> unat (limbs ! 0) = limbs_nat limbs"
proof -
  obtain x xs where limbs: "limbs = x # xs" using assms by (cases limbs) (auto simp: wf_limbs_def BIGINT_LIMBS_def)
  have ex: "list_ex (\<lambda>l. l \<noteq> 0) (drop 1 limbs) \<longleftrightarrow> limbs_nat xs \<noteq> 0"
    by (simp add: limbs limbs_nat_eq_0_iff list_ex_iff list_all_iff)
  show "list_ex (\<lambda>l. l \<noteq> 0) (drop 1 limbs) \<longleftrightarrow> 2 ^ 64 \<le> limbs_nat limbs"
    unfolding ex using unat_u64_le [of x] by (cases "limbs_nat xs") (simp_all add: limbs)
  show "\<not> list_ex (\<lambda>l. l \<noteq> 0) (drop 1 limbs) \<Longrightarrow> unat (limbs ! 0) = limbs_nat limbs"
    unfolding ex by (simp add: limbs)
qed

lemma shift_count_eq:
  assumes "wf_limbs b"
  shows "shift_count b = (if \<bar>limbs_int b\<bar> < 2 ^ 64 then nat \<bar>limbs_int b\<bar> else 1024, limbs_int b < 0)"
proof -
  define mag where "mag = (if is_negative b then negate_limbs b else b)"
  have mag: "wf_limbs mag" "int (limbs_nat mag) = \<bar>limbs_int b\<bar>"
    using magnitude_bound [OF assms] by (simp_all add: mag_def)
  have "shift_count b = (if list_ex (\<lambda>l. l \<noteq> 0) (drop 1 mag) then 1024 else unat (mag ! 0), limbs_int b < 0)"
    using is_negative_iff [OF assms] by (simp add: shift_count_def mag_def Let_def BIGINT_BITS_def BIGINT_LIMBS_def)
  moreover have "nat \<bar>limbs_int b\<bar> = limbs_nat mag" using mag(2) by linarith
  moreover have "\<bar>limbs_int b\<bar> < 2 ^ 64 \<longleftrightarrow> \<not> 2 ^ 64 \<le> limbs_nat mag"
    unfolding mag(2) [symmetric] by (simp add: not_le)
  ultimately show ?thesis using low_limb_value [OF mag(1)] by auto
qed

definition js_shl :: "int \<Rightarrow> int \<Rightarrow> js_throw + int" where
  "js_shl x y = (if y < 0 then Inr (x div 2 ^ nat (- y)) else int_checked (x * 2 ^ nat y))"

definition js_shr :: "int \<Rightarrow> int \<Rightarrow> js_throw + int" where
  "js_shr x y = js_shl x (- y)"

text \<open>A count saturated at 1024 shifts every value as the true count does.\<close>

lemma div_power_saturated:
  assumes "bigint_in_range x" "1024 \<le> m" "1024 \<le> n"
  shows "x div 2 ^ m = x div 2 ^ n"
proof -
  have "x div 2 ^ k = (if x < 0 then - 1 else 0)" if "1024 \<le> k" for k
  proof -
    have "(2 :: int) ^ 1023 \<le> 2 ^ k" using that by (intro power_increasing) simp_all
    then have "- (2 ^ k) \<le> x" "x < 2 ^ k" using assms(1) unfolding bigint_in_range_exp by linarith+
    then show ?thesis by (auto intro!: div_pos_pos_trivial int_div_pos_eq [where r = "x + 2 ^ k"])
  qed
  then show ?thesis using assms(2,3) by simp
qed

lemma mult_power_saturated:
  "1024 \<le> m \<Longrightarrow> 1024 \<le> n \<Longrightarrow> int_checked (x * 2 ^ m) = int_checked (x * 2 ^ n)"
  by (cases "x = 0") (simp_all add: int_checked_def mult_power_out_of_range)

lemma shifts_eq:
  assumes "wf_limbs a" "wf_limbs b"
  defines "s \<equiv> fst (shift_count b)"
  shows "Inr (shr_limbs a s) = map_sum id int_limbs (Inr (limbs_int a div 2 ^ nat \<bar>limbs_int b\<bar>) :: js_throw + int)"
    and "shl_checked a s = map_sum id int_limbs (int_checked (limbs_int a * 2 ^ nat \<bar>limbs_int b\<bar>))"
proof -
  have s: "s = nat \<bar>limbs_int b\<bar> \<or> 1024 \<le> s \<and> 1024 \<le> nat \<bar>limbs_int b\<bar>"
    by (auto simp: s_def shift_count_eq [OF assms(2)])
  have "limbs_int a div 2 ^ s = limbs_int a div 2 ^ nat \<bar>limbs_int b\<bar>"
    using s div_power_saturated [OF wf_limbs_in_range [OF assms(1)]] by blast
  then show "Inr (shr_limbs a s) = map_sum id int_limbs (Inr (limbs_int a div 2 ^ nat \<bar>limbs_int b\<bar>) :: js_throw + int)"
    by (simp add: shr_limbs_eq [OF assms(1)] drop_bit_eq_div)
  have "int_checked (limbs_int a * 2 ^ s) = int_checked (limbs_int a * 2 ^ nat \<bar>limbs_int b\<bar>)"
    using s mult_power_saturated by blast
  then show "shl_checked a s = map_sum id int_limbs (int_checked (limbs_int a * 2 ^ nat \<bar>limbs_int b\<bar>))"
    by (simp add: shl_checked_eq [OF assms(1)] bigint_checked_int_checked)
qed

lemma shift_count_sign: "wf_limbs b \<Longrightarrow> shift_count b = (fst (shift_count b), limbs_int b < 0)"
  by (simp add: shift_count_eq)

lemma div_power_in_range: "bigint_in_range x \<Longrightarrow> bigint_in_range (x div 2 ^ n)"
  using drop_bit_in_range [of x n] by (simp add: drop_bit_eq_div)

interpretation shl: bigint_op2 bigint_shl js_shl
proof
  fix a b assume wf: "wf_limbs a" "wf_limbs b"
  show "bigint_shl a b = map_sum id int_limbs (js_shl (limbs_int a) (limbs_int b))"
    using shifts_eq [OF wf] unfolding bigint_shl_def
    by (subst shift_count_sign [OF wf(2)]) (auto simp: js_shl_def)
next
  fix x y z assume "bigint_in_range x" "js_shl x y = Inr z"
  then show "bigint_in_range z"
    by (auto simp: js_shl_def div_power_in_range int_checked_in_range split: if_splits)
qed

interpretation shr: bigint_op2 bigint_shr js_shr
proof
  fix a b assume wf: "wf_limbs a" "wf_limbs b"
  have "limbs_int b = 0 \<Longrightarrow> int_checked (limbs_int a) = Inr (limbs_int a)" using wf by (simp add: int_checked_def)
  then show "bigint_shr a b = map_sum id int_limbs (js_shr (limbs_int a) (limbs_int b))"
    using shifts_eq [OF wf] unfolding bigint_shr_def
    by (subst shift_count_sign [OF wf(2)]) (cases "limbs_int b = 0", auto simp: js_shr_def js_shl_def)
next
  fix x y z assume "bigint_in_range x" "js_shr x y = Inr z"
  then show "bigint_in_range z"
    by (auto simp: js_shr_def js_shl_def div_power_in_range int_checked_in_range split: if_splits)
qed

interpretation band: bigint_op2 bigint_and "\<lambda>x y. Inr (x AND y)"
  by unfold_locales (auto simp: bigint_and_eq bitwise_in_range)

interpretation bor: bigint_op2 bigint_or "\<lambda>x y. Inr (x OR y)"
  by unfold_locales (auto simp: bigint_or_eq bitwise_in_range)

interpretation bxor: bigint_op2 bigint_xor "\<lambda>x y. Inr (x XOR y)"
  by unfold_locales (auto simp: bigint_xor_eq bitwise_in_range)

interpretation bnot: bigint_op1 bigint_not "\<lambda>x. Inr (NOT x)"
  by unfold_locales (auto simp: bigint_not_eq not_in_range)

subsection \<open>Wrapping to a width\<close>

lemma mask_low_bits_nth:
  assumes "length limbs = 16" "i < 16" "bits < 1024"
  shows "mask_low_bits limbs bits ! i = (if i < bits div 64 then limbs ! i
    else if i = bits div 64 \<and> bits mod 64 \<noteq> 0 then limbs ! i AND (push_bit (bits mod 64) 1 - 1) else 0)"
  using assms by (simp add: mask_low_bits_def Let_def BIGINT_BITS_def BIGINT_LIMBS_def nth_enumerate_eq)

lemma bit_mask_low_bits:
  assumes "wf_limbs limbs" "i < 16" "j < 64" "bits < 1024"
  shows "bit (mask_low_bits limbs bits ! i) j \<longleftrightarrow> i * 64 + j < bits \<and> bit (limbs ! i) j"
proof -
  define full r where "full = bits div 64" and "r = bits mod 64"
  have b: "bits = full * 64 + r" "r < 64" by (simp_all add: full_def r_def)
  have "push_bit r 1 - 1 = (mask r :: u64)" by (simp add: mask_eq_exp_minus_1 push_bit_eq_mult)
  then show ?thesis
    using assms b mask_low_bits_nth [of limbs i bits, folded full_def r_def]
    by (auto simp: wf_limbs_def BIGINT_LIMBS_def bit_and_iff bit_mask_iff)
qed

lemma wf_mask_low_bits [simp]: "wf_limbs limbs \<Longrightarrow> wf_limbs (mask_low_bits limbs bits)"
  by (simp add: mask_low_bits_def wf_limbs_def Let_def)

lemma in_range_take_bit:
  assumes "n < 1024"
  shows "bigint_in_range (take_bit n x)"
proof -
  have "take_bit n x < 2 ^ n" "0 \<le> take_bit n x" by simp_all
  moreover have "(2 :: int) ^ n \<le> 2 ^ 1023" using assms by (intro power_increasing) simp_all
  moreover have "(0 :: int) < 2 ^ 1023" by (rule zero_less_power) simp
  ultimately show ?thesis unfolding bigint_in_range_exp by linarith
qed

lemma in_range_signed_take_bit_le: "n \<le> 1023 \<Longrightarrow> bigint_in_range (signed_take_bit n x)"
  unfolding in_range_bits bit_signed_take_bit_iff by (simp add: min.left_commute min.absorb2 min.assoc [symmetric])

definition js_as_uint_n :: "u32 \<Rightarrow> int \<Rightarrow> js_throw + int" where
  "js_as_uint_n bits x = Inr (if unat bits < 1024 then x mod 2 ^ unat bits else x)"

definition js_as_int_n :: "u32 \<Rightarrow> int \<Rightarrow> js_throw + int" where
  "js_as_int_n bits x = Inr (if unat bits = 0 then 0 else signed_take_bit (unat bits - 1) x)"

lemma bigint_as_uint_n_eq:
  assumes "wf_limbs a"
  shows "bigint_as_uint_n bits a = map_sum id int_limbs (js_as_uint_n bits (limbs_int a))"
proof (cases "unat bits < 1024")
  case True
  have "mask_low_bits a (unat bits) = int_limbs (take_bit (unat bits) (limbs_int a))"
    using assms True
    by (intro limbs_int_bitsI) (simp_all add: in_range_take_bit bit_mask_low_bits bit_take_bit_iff bit_limbs_int_limb)
  then show ?thesis using True by (simp add: bigint_as_uint_n_def js_as_uint_n_def take_bit_eq_mod)
next
  case False
  then show ?thesis using assms
    by (simp add: bigint_as_uint_n_def js_as_uint_n_def mask_low_bits_def BIGINT_BITS_def BIGINT_LIMBS_def)
qed

lemma drop_bit_and_1: "drop_bit n (x :: u64) AND 1 = 1 \<longleftrightarrow> bit x n"
  by (simp add: and_one_eq odd_iff_mod_2_eq_one [symmetric] bit_iff_odd_drop_bit)

lemma sign_extend_limbs:
  assumes "wf_limbs limbs" "i < 16" "j < 64" "bits < 1024"
  defines "r \<equiv> map (\<lambda>(i, l). if i < bits div 64 then l
      else if i = bits div 64 \<and> bits mod 64 \<noteq> 0 then l OR NOT (push_bit (bits mod 64) 1 - 1)
      else if i \<ge> bits div 64 then u64_MAX else l) (enumerate 0 limbs)"
  shows "wf_limbs r" "bit (r ! i) j \<longleftrightarrow> bits \<le> i * 64 + j \<or> bit (limbs ! i) j"
proof -
  define full rm where "full = bits div 64" and "rm = bits mod 64"
  have b: "bits = full * 64 + rm" "rm < 64" by (simp_all add: full_def rm_def)
  have len: "length limbs = 16" using assms(1) by (simp add: wf_limbs_def BIGINT_LIMBS_def)
  show "wf_limbs r" using assms(1) by (simp add: r_def wf_limbs_def)
  have "push_bit rm 1 - 1 = (mask rm :: u64)" by (simp add: mask_eq_exp_minus_1 push_bit_eq_mult)
  moreover have "bit u64_MAX k" if "k < 64" for k
  proof -
    have "u64_MAX = NOT 0" by (simp add: u64_MAX_def)
    then show ?thesis unfolding \<open>u64_MAX = NOT 0\<close> bit_not_iff using that by simp
  qed
  moreover have "r ! i = (if i < full then limbs ! i
      else if i = full \<and> rm \<noteq> 0 then limbs ! i OR NOT (push_bit rm 1 - 1) else u64_MAX)"
    using assms(2) len by (simp add: r_def full_def rm_def nth_enumerate_eq)
  ultimately show "bit (r ! i) j \<longleftrightarrow> bits \<le> i * 64 + j \<or> bit (limbs ! i) j"
    using assms(2,3) b by (auto simp: bit_or_iff bit_not_iff bit_mask_iff)
qed

lemma bit_signed_take_bit_limb:
  assumes "wf_limbs a" "0 < n" "i < 16" "j < 64"
  shows "bit (signed_take_bit (n - 1) (limbs_int a)) (i * 64 + j)
    \<longleftrightarrow> (if i * 64 + j < n then bit (a ! i) j else bit (limbs_int a) (n - 1))"
proof -
  have "min (n - 1) (i * 64 + j) = (if i * 64 + j < n then i * 64 + j else n - 1)" using assms(2) by auto
  then show ?thesis using assms by (simp add: bit_signed_take_bit_iff bit_limbs_int_limb)
qed

lemma bigint_as_int_n_mid:
  assumes "wf_limbs a" "0 < unat bits" "unat bits < 1024"
  shows "bigint_as_int_n bits a = Inr (int_limbs (signed_take_bit (unat bits - 1) (limbs_int a)))"
proof -
  define n sg masked where "n = unat bits" and "sg = bit (limbs_int a) (n - 1)" and "masked = mask_low_bits a n"
  have n: "0 < n" "n < 1024" using assms by (simp_all add: n_def)
  have wf: "wf_limbs masked" using assms by (simp add: masked_def)
  have mask: "bit (masked ! i) j \<longleftrightarrow> i * 64 + j < n \<and> bit (a ! i) j" if "i < 16" "j < 64" for i j
    unfolding masked_def by (rule bit_mask_low_bits [OF assms(1) that n(2)])
  have "(n - 1) div 64 < 16" using n by (simp add: div_less_iff_less_mult)
  then have sg: "bit (masked ! ((n - 1) div 64)) ((n - 1) mod 64) \<longleftrightarrow> sg"
    unfolding sg_def using bit_limbs_int_limb [OF assms(1), of "(n - 1) div 64" "(n - 1) mod 64"] n by (simp add: mask)
  define r where "r = map (\<lambda>(i, l). if i < n div 64 then l
      else if i = n div 64 \<and> n mod 64 \<noteq> 0 then l OR NOT (push_bit (n mod 64) 1 - 1)
      else if i \<ge> n div 64 then u64_MAX else l) (enumerate 0 masked)"
  note ext = sign_extend_limbs [OF wf _ _ n(2), folded r_def]
  have wf_r: "wf_limbs r" by (rule ext(1) [of 0 0]) simp_all
  have "bigint_as_int_n bits a = Inr (if sg then r else masked)"
    unfolding bigint_as_int_n_def n_def [symmetric] masked_def [symmetric] r_def [symmetric] Let_def drop_bit_and_1 sg
    using n by (simp add: BIGINT_BITS_def BIGINT_LIMBS_def)
  moreover have "(if sg then r else masked) = int_limbs (signed_take_bit (n - 1) (limbs_int a))"
  proof (rule limbs_int_bitsI)
    show "bigint_in_range (signed_take_bit (n - 1) (limbs_int a))"
      using n by (intro in_range_signed_take_bit_le) simp
    fix i j :: nat assume ij: "i < 16" "j < 64"
    show "bit ((if sg then r else masked) ! i) j \<longleftrightarrow> bit (signed_take_bit (n - 1) (limbs_int a)) (i * 64 + j)"
      unfolding bit_signed_take_bit_limb [OF assms(1) n(1) ij] using ext(2) [OF ij] mask [OF ij]
      by (auto simp: sg_def)
  qed (use wf wf_r in simp)
  ultimately show ?thesis by (simp add: n_def)
qed

lemma bigint_as_int_n_eq:
  assumes "wf_limbs a"
  shows "bigint_as_int_n bits a = map_sum id int_limbs (js_as_int_n bits (limbs_int a))"
proof -
  define n where "n = unat bits"
  consider (zero) "n = 0" | (all) "1024 \<le> n" | (mid) "0 < n" "n < 1024" by linarith
  then show ?thesis
  proof cases
    case zero
    have "int_limbs 0 = ZERO_LIMBS" using int_limbs_limbs_int [OF wf_ZERO_LIMBS] by simp
    then show ?thesis using zero by (simp add: bigint_as_int_n_def js_as_int_n_def n_def [symmetric])
  next
    case all
    have "signed_take_bit (n - 1) (limbs_int a) = limbs_int a"
    proof (rule signed_take_bit_int_eq_self)
      have "(2 :: int) ^ 1023 \<le> 2 ^ (n - 1)" using all by (intro power_increasing) simp_all
      then show "- (2 ^ (n - 1)) \<le> limbs_int a" "limbs_int a < 2 ^ (n - 1)"
        using wf_limbs_in_range [OF assms] unfolding bigint_in_range_exp by linarith+
    qed
    then show ?thesis using all assms
      by (simp add: bigint_as_int_n_def js_as_int_n_def n_def [symmetric] BIGINT_BITS_def BIGINT_LIMBS_def)
  next
    case mid
    then show ?thesis using bigint_as_int_n_mid [OF assms, of bits] by (simp add: n_def js_as_int_n_def)
  qed
qed

interpretation as_uint_n: bigint_op1 "bigint_as_uint_n bits" "js_as_uint_n bits" for bits
  by unfold_locales (auto simp: bigint_as_uint_n_eq js_as_uint_n_def in_range_take_bit split: if_splits
      simp flip: take_bit_eq_mod)

interpretation as_int_n: bigint_op1 "bigint_as_int_n bits" "js_as_int_n bits" for bits
proof
  fix x z assume "bigint_in_range x" "js_as_int_n bits x = Inr z"
  then show "bigint_in_range z"
    unfolding in_range_bits
    by (auto simp: js_as_int_n_def bit_signed_take_bit_iff min.left_commute [of _ 1023] min.absorb2 split: if_splits)
qed (simp add: bigint_as_int_n_eq)

subsection \<open>Comparison\<close>

lemma compare_loop_ge:
  "length xs = length ys \<Longrightarrow> compare_loop xs ys = (if xs = ys then 0 else if ge_loop xs ys then 1 else - 1)"
  by (induction xs ys rule: list_induct2) auto

lemma compare_limbs_eq:
  assumes "wf_limbs a" "wf_limbs b"
  shows "compare_limbs a b = sgn (limbs_int a - limbs_int b)"
proof -
  have len: "length a = length b" using assms by (simp add: wf_limbs_def)
  have same: "(limbs_nat b \<le> limbs_nat a) = (limbs_int b \<le> limbs_int a)" if "(limbs_int a < 0) = (limbs_int b < 0)"
    using that limbs_nat_less [of a] limbs_nat_less [of b] len
    by (auto simp: limbs_int_def Let_def split: if_splits)
  have "compare_loop (rev a) (rev b) = (if a = b then 0 else if limbs_nat b \<le> limbs_nat a then 1 else - 1)"
    using len by (simp add: compare_loop_ge ge_loop_iff)
  then show ?thesis
    using is_negative_iff [OF assms(1)] is_negative_iff [OF assms(2)] same limbs_int_inj [OF assms]
    by (auto simp: compare_limbs_def Let_def sgn_if)
qed

lemma js_bigint_cmp_eq:
  assumes "bigint_mem_ok mem" "clean_bigint_ptr a \<noteq> 0" "clean_bigint_ptr b \<noteq> 0"
  shows "js_bigint_cmp mem a b = sgn (bigint_value mem a - bigint_value mem b)"
proof -
  let ?a = "mem (clean_bigint_ptr a)" and ?b = "mem (clean_bigint_ptr b)"
  have wf: "wf_limbs ?a" "wf_limbs ?b" using assms(1) by (simp_all add: bigint_mem_ok_def)
  have "js_bigint_cmp mem a b = sgn (limbs_int ?a - limbs_int ?b)"
    unfolding js_bigint_cmp_def using assms(2,3)
    by (simp only: Let_def simp_thms if_False) (rule fits_case [OF wf], auto simp: compare_limbs_eq wf sgn_if)
  then show ?thesis using assms(2,3) by (simp add: bigint_value_def bigint_limbs_or_zero_def Let_def)
qed

lemma js_bigint_eq_iff:
  assumes "bigint_mem_ok mem" "clean_bigint_ptr a \<noteq> 0" "clean_bigint_ptr b \<noteq> 0"
  shows "js_bigint_eq mem a b = (if bigint_value mem a = bigint_value mem b then 1 else 0)"
  using assms limbs_int_inj [of "mem (clean_bigint_ptr a)" "mem (clean_bigint_ptr b)"]
  by (simp add: js_bigint_eq_def bigint_value_def bigint_limbs_or_zero_def Let_def bigint_mem_ok_def)

subsection \<open>Properties\<close>

text \<open>
  C23. The bitwise operators \<open>js_bigint_and\<close>, \<open>js_bigint_or\<close>, \<open>js_bigint_xor\<close> and
  \<open>js_bigint_not\<close> are those of the unbounded two's complement integers; they never throw.
\<close>

theorem js_bigint_bitwise_correct:
  assumes "bigint_mem_ok mem" "arena_ok alloc"
  shows "bigint_result mem (Inr (bigint_value mem a AND bigint_value mem b)) (js_bigint_and alloc mem a b)
    \<and> bigint_result mem (Inr (bigint_value mem a OR bigint_value mem b)) (js_bigint_or alloc mem a b)
    \<and> bigint_result mem (Inr (bigint_value mem a XOR bigint_value mem b)) (js_bigint_xor alloc mem a b)
    \<and> bigint_result mem (Inr (NOT (bigint_value mem a))) (js_bigint_not alloc mem a)"
  unfolding js_bigint_and_def js_bigint_or_def js_bigint_xor_def js_bigint_not_def
  using band.exported [OF assms] bor.exported [OF assms] bxor.exported [OF assms] bnot.exported [OF assms] by blast

theorem js_bigint_bitwise_correct_witness:
  "bigint_result (sample_mem (- 4) 6) (Inr 4) (js_bigint_and sample_arena (sample_mem (- 4) 6) 0x20000 0x30000)"
  using js_bigint_bitwise_correct [OF sample_ok, of "- 4" 6 "0x20000" "0x30000"]
  by (simp add: sample_values i128_in_range)

text \<open>
  C22. Shifts: \<open>js_bigint_shl\<close> multiplies by a power of two, throwing the size RangeError
  exactly when the result is out of range; \<open>js_bigint_shr\<close> divides by it rounding toward
  minus infinity; a negative count reverses the direction, and the saturation of huge counts is
  unobservable.
\<close>

theorem js_bigint_shift_correct:
  assumes "bigint_mem_ok mem" "arena_ok alloc"
  shows "bigint_result mem (js_shl (bigint_value mem a) (bigint_value mem b)) (js_bigint_shl alloc mem a b)
    \<and> bigint_result mem (js_shr (bigint_value mem a) (bigint_value mem b)) (js_bigint_shr alloc mem a b)"
  unfolding js_bigint_shl_def js_bigint_shr_def using shl.exported [OF assms] shr.exported [OF assms] by blast

theorem js_bigint_shift_correct_witness:
  "bigint_result (sample_mem (- 5) 2) (Inr (- 20)) (js_bigint_shl sample_arena (sample_mem (- 5) 2) 0x20000 0x30000)
    \<and> bigint_result (sample_mem (- 5) 2) (Inr (- 2)) (js_bigint_shr sample_arena (sample_mem (- 5) 2) 0x20000 0x30000)"
  using js_bigint_shift_correct [OF sample_ok, of "- 5" 2 "0x20000" "0x30000"]
  by (simp add: sample_values i128_in_range js_shl_def js_shr_def int_checked_def)

text \<open>
  C29. \<open>BigInt.asIntN\<close> wraps to the signed residue of the given width for every width, and
  \<open>BigInt.asUintN\<close> to the non-negative residue for every width below 1024; from 1024 bits on
  \<open>asUintN\<close> returns its argument unchanged, negative values included.
\<close>

theorem js_bigint_as_n_correct:
  assumes "bigint_mem_ok mem" "arena_ok alloc"
  shows "bigint_result mem (Inr (if unat bits = 0 then 0 else signed_take_bit (unat bits - 1) (bigint_value mem a)))
      (js_bigint_as_int_n alloc mem bits a)
    \<and> bigint_result mem (Inr (if unat bits < 1024 then bigint_value mem a mod 2 ^ unat bits else bigint_value mem a))
      (js_bigint_as_uint_n alloc mem bits a)"
  unfolding js_bigint_as_int_n_def js_bigint_as_uint_n_def
  using as_int_n.exported [OF assms, of bits] as_uint_n.exported [OF assms, of bits]
  unfolding js_as_int_n_def js_as_uint_n_def by blast

theorem js_bigint_as_n_correct_witness:
  "bigint_result (sample_mem (- 1) 0) (Inr 255) (js_bigint_as_uint_n sample_arena (sample_mem (- 1) 0) 8 0x20000)
    \<and> bigint_result (sample_mem (- 1) 0) (Inr (- 1)) (js_bigint_as_uint_n sample_arena (sample_mem (- 1) 0) 2000 0x20000)"
  using js_bigint_as_n_correct [OF sample_ok, of "- 1" 0 8 "0x20000"]
    js_bigint_as_n_correct [OF sample_ok, of "- 1" 0 2000 "0x20000"]
  by (simp add: sample_values i128_in_range)

text \<open>
  C24. Comparison: on BigInt pointers \<open>js_bigint_cmp\<close> returns the sign of the difference and
  \<open>js_bigint_eq\<close> decides equality of the values.
\<close>

theorem js_bigint_compare_correct:
  assumes "bigint_mem_ok mem" "clean_bigint_ptr a \<noteq> 0" "clean_bigint_ptr b \<noteq> 0"
  shows "js_bigint_cmp mem a b = sgn (bigint_value mem a - bigint_value mem b)
    \<and> js_bigint_eq mem a b = (if bigint_value mem a = bigint_value mem b then 1 else 0)"
  using js_bigint_cmp_eq [OF assms] js_bigint_eq_iff [OF assms] by blast

theorem js_bigint_compare_correct_witness:
  "js_bigint_cmp (sample_mem (- 1) 1) 0x20000 0x30000 = - 1 \<and> js_bigint_eq (sample_mem (- 1) 1) 0x20000 0x30000 = 0"
  using js_bigint_compare_correct [OF sample_ok(1), of "0x20000" "0x30000" "- 1" 1]
  by (simp add: sample_values i128_in_range clean_bigint_ptr_def Let_def)

end
