(* ===== verification/BigInt_Convert.thy ===== *)
theory BigInt_Convert
  imports BigInt_Bitwise
begin

text \<open>
  BigInt parsing and printing, \<open>crates/perry-runtime/src/bigint/convert.rs\<close>. A Rust \<open>str\<close>
  is the list of its code points. A parser that can both fail and throw returns
  \<open>js_throw + 'a option\<close>: \<open>Inl\<close> the exception, \<open>Inr None\<close> the \<open>Err(())\<close> value.
  The digit loop of the printers runs until the quotient is zero, with no static bound: it is a
  partial function whose result is shown to exist.
\<close>

type_synonym rust_str = "nat list"

subsection \<open>Constructors\<close>

definition js_bigint_from_u64 where
  "js_bigint_from_u64 alloc mem value = bigint_alloc_with_limbs alloc mem (ZERO_LIMBS[0 := value])"

definition js_bigint_from_i64 where
  "js_bigint_from_i64 alloc mem value =
     (let fill = (if value < 0 then u64_MAX else 0)
      in bigint_alloc_with_limbs alloc mem ((replicate BIGINT_LIMBS fill)[0 := word_of_int value]))"

text \<open>\<open>bits as i128\<close> is the signed reading of the word.\<close>

definition js_bigint_from_i128_parts where
  "js_bigint_from_i128_parts alloc mem (lo :: u64) (hi :: int) =
     (let bits = push_bit 64 (ucast (word_of_int hi :: u64) :: u128) OR ucast lo
      in bigint_alloc_with_limbs alloc mem (write_i128 (sint bits)))"

subsection \<open>Parsing\<close>

text \<open>The code points with the Unicode property \<open>White_Space\<close>, which \<open>str::trim\<close> strips.\<close>

definition is_white_space :: "nat \<Rightarrow> bool" where
  "is_white_space c \<longleftrightarrow> (9 \<le> c \<and> c \<le> 13) \<or> c = 32 \<or> c = 0x85 \<or> c = 0xA0 \<or> c = 0x1680
     \<or> (0x2000 \<le> c \<and> c \<le> 0x200A) \<or> c = 0x2028 \<or> c = 0x2029 \<or> c = 0x202F \<or> c = 0x205F \<or> c = 0x3000"

definition str_trim :: "rust_str \<Rightarrow> rust_str" where
  "str_trim s = rev (dropWhile is_white_space (rev (dropWhile is_white_space s)))"

text \<open>\<open>char::to_digit\<close> for a radix up to 36.\<close>

definition to_digit :: "nat \<Rightarrow> nat \<Rightarrow> nat option" where
  "to_digit radix c =
     (let d = (if 48 \<le> c \<and> c \<le> 57 then Some (c - 48)
               else if 97 \<le> c \<and> c \<le> 122 then Some (c - 97 + 10)
               else if 65 \<le> c \<and> c \<le> 90 then Some (c - 65 + 10)
               else None)
      in case d of Some v \<Rightarrow> if v < radix then Some v else None | None \<Rightarrow> None)"

fun mul_add_loop :: "u128 \<Rightarrow> u64 list \<Rightarrow> u64 \<Rightarrow> u64 list \<times> u64" where
  "mul_add_loop radix [] carry = ([], carry)"
| "mul_add_loop radix (limb # limbs) carry =
     (let product = ucast limb * radix + ucast carry;
          (rest, carry) = mul_add_loop radix limbs (ucast (drop_bit 64 product))
      in (ucast product # rest, carry))"

fun parse_digits_loop :: "nat \<Rightarrow> rust_str \<Rightarrow> u64 list \<Rightarrow> js_throw + u64 list option" where
  "parse_digits_loop radix [] limbs = Inr (Some limbs)"
| "parse_digits_loop radix (c # cs) limbs =
     (case to_digit radix c of
        None \<Rightarrow> Inr None
      | Some digit \<Rightarrow>
          let (limbs, carry) = mul_add_loop (of_nat radix) limbs (of_nat digit)
          in if carry \<noteq> 0 then Inl throw_bigint_overflow else parse_digits_loop radix cs limbs)"

text \<open>The common end of both parsers.\<close>

definition finish_magnitude :: "u64 list \<Rightarrow> bool \<Rightarrow> js_throw + u64 list" where
  "finish_magnitude limbs is_neg =
     (if \<not> magnitude_fits_1024 limbs is_neg then Inl throw_bigint_overflow
      else Inr (if is_neg \<and> \<not> list_all (\<lambda>l. l = 0) limbs then negate_limbs limbs else limbs))"

definition parse_radix_digits :: "rust_str \<Rightarrow> nat \<Rightarrow> bool \<Rightarrow> js_throw + u64 list option" where
  "parse_radix_digits digits radix is_neg =
     (case parse_digits_loop radix digits ZERO_LIMBS of
        Inl e \<Rightarrow> Inl e
      | Inr None \<Rightarrow> Inr None
      | Inr (Some limbs) \<Rightarrow> map_sum id Some (finish_magnitude limbs is_neg))"

definition ascii_lowercase :: "nat \<Rightarrow> nat" where
  "ascii_lowercase c = (if 65 \<le> c \<and> c \<le> 90 then c + 32 else c)"

definition radix_of_prefix :: "rust_str \<Rightarrow> nat option" where
  "radix_of_prefix s =
     (case s of
        c0 # c1 # _ \<Rightarrow>
          if ascii_lowercase c0 = 48 then
            (let tag = ascii_lowercase c1
             in if tag = 120 then Some 16 else if tag = 111 then Some 8 else if tag = 98 then Some 2 else None)
          else None
      | _ \<Rightarrow> None)"

definition parse_bigint_string :: "rust_str \<Rightarrow> js_throw + u64 list option" where
  "parse_bigint_string raw =
     (let s = str_trim raw
      in if s = [] then Inr (Some ZERO_LIMBS)
         else
           case radix_of_prefix s of
             Some radix \<Rightarrow>
               (let digits = drop 2 s
                in if digits = [] then Inr None else parse_radix_digits digits radix False)
           | None \<Rightarrow>
               (let (is_neg, digits) =
                  (case s of
                     c # rest \<Rightarrow> if c = 45 then (True, rest) else if c = 43 then (False, rest) else (False, s)
                   | [] \<Rightarrow> (False, s))
                in if digits = [] then Inr None else parse_radix_digits digits 10 is_neg))"

definition js_bigint_from_string where
  "js_bigint_from_string alloc mem raw =
     (case parse_bigint_string raw of
        Inl e \<Rightarrow> Inl e
      | Inr (Some limbs) \<Rightarrow> Inr (bigint_alloc_with_limbs alloc mem limbs)
      | Inr None \<Rightarrow>
          Inl (SyntaxError (map of_char ''Cannot convert '' @ raw @ map of_char '' to a BigInt'')))"

definition string_to_bigint where
  "string_to_bigint alloc mem raw =
     (case parse_bigint_string raw of
        Inl e \<Rightarrow> Inl e
      | Inr r \<Rightarrow> Inr (map_option (bigint_alloc_with_limbs alloc mem) r))"

text \<open>
  \<open>js_bigint_from_string_radix\<close>. The hex path reads nibbles from the reversed characters; a
  character that is not a hex digit leaves its nibble zero.
\<close>

definition hex_digit :: "nat \<Rightarrow> nat option" where
  "hex_digit c = (if 48 \<le> c \<and> c \<le> 57 then Some (c - 48)
     else if 97 \<le> c \<and> c \<le> 102 then Some (c - 97 + 10)
     else if 65 \<le> c \<and> c \<le> 70 then Some (c - 65 + 10) else None)"

text \<open>The nibbles \<open>16 - n, \<dots>, 15\<close> of a limb remain.\<close>

fun hex_limb_loop :: "nat \<Rightarrow> rust_str \<Rightarrow> u64 \<Rightarrow> u64 \<times> rust_str" where
  "hex_limb_loop 0 chars value = (value, chars)"
| "hex_limb_loop (Suc n) [] value = (value, [])"
| "hex_limb_loop (Suc n) (c # chars) value =
     (case hex_digit c of
        None \<Rightarrow> hex_limb_loop n chars value
      | Some digit \<Rightarrow> hex_limb_loop n chars (value OR push_bit ((16 - Suc n) * 4) (of_nat digit)))"

fun hex_limbs_loop :: "nat \<Rightarrow> rust_str \<Rightarrow> u64 list \<times> rust_str" where
  "hex_limbs_loop 0 chars = ([], chars)"
| "hex_limbs_loop (Suc n) chars =
     (let (value, chars) = hex_limb_loop 16 chars 0;
          (limbs, chars) = hex_limbs_loop n chars
      in (value # limbs, chars))"

definition nonzero_hex :: "nat \<Rightarrow> bool" where
  "nonzero_hex c \<longleftrightarrow> (49 \<le> c \<and> c \<le> 57) \<or> (97 \<le> c \<and> c \<le> 102) \<or> (65 \<le> c \<and> c \<le> 70)"

text \<open>The general path; \<open>radix\<close> is the \<open>i32\<close> argument cast to \<open>u64\<close>.\<close>

definition alnum_digit :: "nat \<Rightarrow> u64 option" where
  "alnum_digit c = (if 48 \<le> c \<and> c \<le> 57 then Some (of_nat (c - 48))
     else if 97 \<le> c \<and> c \<le> 122 then Some (of_nat (c - 97 + 10))
     else if 65 \<le> c \<and> c \<le> 90 then Some (of_nat (c - 65 + 10)) else None)"

fun radix_digits_loop :: "u64 \<Rightarrow> rust_str \<Rightarrow> u64 list \<Rightarrow> js_throw + u64 list" where
  "radix_digits_loop radix [] limbs = Inr limbs"
| "radix_digits_loop radix (c # cs) limbs =
     (case alnum_digit c of
        None \<Rightarrow> radix_digits_loop radix cs limbs
      | Some digit \<Rightarrow>
          if digit \<ge> radix then radix_digits_loop radix cs limbs
          else
            let (limbs, carry) = mul_add_loop (ucast radix) limbs digit
            in if carry \<noteq> 0 then Inl throw_bigint_overflow else radix_digits_loop radix cs limbs)"

definition bigint_from_string_radix :: "rust_str \<Rightarrow> int \<Rightarrow> js_throw + u64 list" where
  "bigint_from_string_radix s radix =
     (let (is_neg, s) = (case s of c # rest \<Rightarrow> if c = 45 then (True, rest) else (False, s) | [] \<Rightarrow> (False, s));
          s = (if radix = 16 \<and> (take 2 s = [48, 120] \<or> take 2 s = [48, 88]) then drop 2 s else s);
          radix = (word_of_int radix :: u64)
      in if radix = 16 then
           (let (limbs, chars) = hex_limbs_loop BIGINT_LIMBS (rev s)
            in if list_ex nonzero_hex chars then Inl throw_bigint_overflow else finish_magnitude limbs is_neg)
         else
           (case radix_digits_loop radix s ZERO_LIMBS of
              Inl e \<Rightarrow> Inl e
            | Inr limbs \<Rightarrow> finish_magnitude limbs is_neg))"

definition js_bigint_from_string_radix where
  "js_bigint_from_string_radix alloc mem s radix =
     (if s = [] then Inr (js_bigint_from_i64 alloc mem 0)
      else bigint_return alloc mem (bigint_from_string_radix s radix))"

subsection \<open>Printing\<close>

text \<open>One pass of the division loop, from the top limb (the list is reversed) down.\<close>

fun div_radix_loop :: "u128 \<Rightarrow> u64 list \<Rightarrow> u128 \<Rightarrow> u64 list \<times> u128" where
  "div_radix_loop radix [] remainder = ([], remainder)"
| "div_radix_loop radix (limb # limbs) remainder =
     (let dividend = push_bit 64 remainder + ucast limb;
          (rest, remainder) = div_radix_loop radix limbs (dividend mod radix)
      in (ucast (dividend div radix) # rest, remainder))"

definition digit_char :: "u8 \<Rightarrow> nat" where
  "digit_char digit = (if digit < 10 then 48 + unat digit else 97 + (unat digit - 10))"

partial_function (option) digits_loop :: "u128 \<Rightarrow> u64 list \<Rightarrow> nat list \<Rightarrow> nat list option" where
  "digits_loop radix temp digits =
     (if temp = ZERO_LIMBS then Some digits
      else
        let (t, remainder) = div_radix_loop radix (rev temp) 0
        in digits_loop radix (rev t) (digits @ [digit_char (ucast remainder)]))"

definition limbs_to_digits :: "u128 \<Rightarrow> u64 list \<Rightarrow> nat list option" where
  "limbs_to_digits radix limbs =
     (if limbs = ZERO_LIMBS then Some [48]
      else
        let negative = is_negative limbs;
            temp = (if negative then negate_limbs limbs else limbs)
        in map_option (\<lambda>digits. if negative then 45 # rev digits else rev digits) (digits_loop radix temp []))"

definition limbs_to_decimal_string :: "u64 list \<Rightarrow> nat list option" where
  "limbs_to_decimal_string limbs = limbs_to_digits 10 limbs"

definition limbs_to_radix_string :: "u64 list \<Rightarrow> u32 \<Rightarrow> nat list option" where
  "limbs_to_radix_string limbs radix =
     (let radix = (if 2 \<le> radix \<and> radix \<le> 36 then radix else 10)
      in if radix = 10 then limbs_to_decimal_string limbs else limbs_to_digits (ucast radix) limbs)"

text \<open>The exported printers return a null string for a pointer that is not a plain address.\<close>

definition js_bigint_to_string :: "bigint_mem \<Rightarrow> addr \<Rightarrow> nat list option option" where
  "js_bigint_to_string mem a =
     (if a = 0 \<or> a < 0x10000 \<or> drop_bit 48 a \<noteq> 0 then Some None
      else map_option Some (limbs_to_decimal_string (mem a)))"

definition js_bigint_to_string_radix :: "bigint_mem \<Rightarrow> addr \<Rightarrow> int \<Rightarrow> nat list option option" where
  "js_bigint_to_string_radix mem a radix =
     (if a = 0 \<or> a < 0x10000 \<or> drop_bit 48 a \<noteq> 0 then Some None
      else map_option Some (limbs_to_radix_string (mem a) (word_of_int radix)))"

text \<open>\<open>js_bigint_to_buffer\<close>: the bytes written, big-endian.\<close>

definition js_bigint_to_buffer :: "bigint_mem \<Rightarrow> addr \<Rightarrow> int \<Rightarrow> u8 list" where
  "js_bigint_to_buffer mem a len =
     (let limbs = bigint_limbs_or_zero mem a;
          n = (if len \<le> 0 then 32 else nat len);
          significant = min (BIGINT_LIMBS * 8) n
      in fold (\<lambda>i data. data[n - 1 - i := ucast (drop_bit ((i mod 8) * 8) (limbs ! (i div 8)) AND 0xFF)])
           [0..<significant] (replicate n 0))"

subsection \<open>The parsing loops\<close>

lemma mul_add_loop_spec:
  assumes "unat radix < 2 ^ 64" "mul_add_loop radix limbs carry = (limbs', carry')"
  shows "length limbs' = length limbs \<and>
    limbs_nat limbs' + limb_mod (length limbs) * unat carry' = limbs_nat limbs * unat radix + unat carry"
  using assms(2)
proof (induction limbs arbitrary: carry limbs' carry')
  case (Cons x xs)
  define s where "s = ucast x * radix + ucast carry"
  obtain r c where rc: "mul_add_loop radix xs (ucast (drop_bit 64 s)) = (r, c)" by fastforce
  have out: "limbs' = ucast s # r" "carry' = c" using Cons.prems rc by (simp_all add: s_def Let_def)
  have "unat x * unat radix + unat carry < 2 ^ 128"
    using mult_acc_bound [of "unat x" "unat radix" "unat carry" 0] assms(1) by simp
  then have s: "unat s = unat x * unat radix + unat carry"
    by (simp add: s_def unat_plus_exact unat_times_exact)
  have IH: "length r = length xs"
    "limbs_nat r + limb_mod (length xs) * unat c = limbs_nat xs * unat radix + unat s div 2 ^ 64"
    using Cons.IH [OF rc] by (simp_all add: unat_high_half del: power_numeral)
  have "limbs_nat limbs' + limb_mod (length (x # xs)) * unat carry'
      = unat s mod 2 ^ 64 + 2 ^ 64 * (limbs_nat r + limb_mod (length xs) * unat c)"
    by (simp add: out limb_mod_Suc unat_low_half distrib_left del: power_numeral)
  also have "\<dots> = unat s + 2 ^ 64 * (limbs_nat xs * unat radix)"
    unfolding IH(2) distrib_left using mod_mult_div_eq [of "unat s" "2 ^ 64"] by linarith
  also have "\<dots> = limbs_nat (x # xs) * unat radix + unat carry"
    by (simp add: s algebra_simps)
  finally show ?case using IH(1) out by simp
qed simp

text \<open>The value of a digit string, most significant digit first, on top of \<open>v\<close>.\<close>

fun digits_value :: "nat \<Rightarrow> nat \<Rightarrow> nat list \<Rightarrow> nat" where
  "digits_value r v [] = v"
| "digits_value r v (d # ds) = digits_value r (v * r + d) ds"

lemma digits_value_ge: "1 \<le> r \<Longrightarrow> v \<le> digits_value r v ds"
proof (induction r v ds rule: digits_value.induct)
  case (2 r v d ds)
  have "v * 1 \<le> v * r" using 2(2) by (intro mult_le_mono2) simp
  then show ?case using 2 unfolding digits_value.simps by linarith
qed simp

lemma mul_add_step:
  assumes "wf_limbs limbs" "unat radix < 2 ^ 64" "mul_add_loop radix limbs digit = (limbs', carry)"
  shows "carry = 0 \<longleftrightarrow> limbs_nat limbs * unat radix + unat digit < limb_mod BIGINT_LIMBS"
    and "carry = 0 \<Longrightarrow> wf_limbs limbs' \<and> limbs_nat limbs' = limbs_nat limbs * unat radix + unat digit"
proof -
  have spec: "length limbs' = BIGINT_LIMBS"
    "limbs_nat limbs' + limb_mod BIGINT_LIMBS * unat carry = limbs_nat limbs * unat radix + unat digit"
    using mul_add_loop_spec [OF assms(2,3)] assms(1) by (simp_all add: wf_limbs_def)
  have lt: "limbs_nat limbs' < limb_mod BIGINT_LIMBS" using limbs_nat_less [of limbs'] spec(1) by simp
  show "carry = 0 \<longleftrightarrow> limbs_nat limbs * unat radix + unat digit < limb_mod BIGINT_LIMBS"
  proof (cases "carry = 0")
    case False
    then have "limb_mod BIGINT_LIMBS * 1 \<le> limb_mod BIGINT_LIMBS * unat carry"
      by (intro mult_le_mono2) (simp add: Suc_le_eq unat_gt_0)
    then show ?thesis using False spec(2) by linarith
  qed (use lt spec(2) in simp)
  show "carry = 0 \<Longrightarrow> wf_limbs limbs' \<and> limbs_nat limbs' = limbs_nat limbs * unat radix + unat digit"
    using spec by (simp add: wf_limbs_def)
qed

lemma to_digit_less: "to_digit radix c = Some d \<Longrightarrow> d < radix"
  by (auto simp: to_digit_def Let_def split: if_splits option.splits)

lemma parse_digits_loop_valid:
  assumes "wf_limbs limbs" "1 \<le> radix" "radix \<le> 36" "map (to_digit radix) cs = map Some ds"
  shows "parse_digits_loop radix cs limbs =
    (if digits_value radix (limbs_nat limbs) ds < limb_mod BIGINT_LIMBS
     then Inr (Some (nat_limbs BIGINT_LIMBS (digits_value radix (limbs_nat limbs) ds)))
     else Inl throw_bigint_overflow)"
  using assms
proof (induction cs arbitrary: limbs ds)
  case Nil
  then show ?case using limbs_nat_less [of limbs] by (simp add: wf_limbs_def nat_limbs_limbs_nat)
next
  case (Cons c cs)
  obtain d ds' where ds: "ds = d # ds'" "to_digit radix c = Some d" "map (to_digit radix) cs = map Some ds'"
    using Cons.prems(4) by auto
  have d: "d < radix" using to_digit_less [OF ds(2)] .
  have u: "unat (of_nat radix :: u128) = radix" "unat (of_nat d :: u64) = d"
    using Cons.prems(3) d by (simp_all add: unat_of_nat)
  obtain l k where lk: "mul_add_loop (of_nat radix) limbs (of_nat d) = (l, k)" by fastforce
  have step: "k = 0 \<longleftrightarrow> limbs_nat limbs * radix + d < limb_mod BIGINT_LIMBS"
    "k = 0 \<Longrightarrow> wf_limbs l \<and> limbs_nat l = limbs_nat limbs * radix + d"
    using mul_add_step [OF Cons.prems(1) _ lk] Cons.prems(3) by (simp_all add: u)
  show ?case
  proof (cases "k = 0")
    case True
    then show ?thesis using step(2) Cons.IH [of l ds'] Cons.prems(2,3) ds by (simp add: lk)
  next
    case False
    have "limbs_nat limbs * radix + d \<le> digits_value radix (limbs_nat limbs * radix + d) ds'"
      using Cons.prems(2) by (rule digits_value_ge)
    then have "\<not> digits_value radix (limbs_nat limbs) ds < limb_mod BIGINT_LIMBS"
      using step(1) False by (simp add: ds(1))
    then show ?thesis using False by (simp add: lk ds(2))
  qed
qed

lemma finish_magnitude_eq:
  assumes "wf_limbs limbs"
  shows "finish_magnitude limbs neg = bigint_checked (if neg then - int (limbs_nat limbs) else int (limbs_nat limbs))"
proof -
  have "list_all (\<lambda>l. l = 0) limbs \<longleftrightarrow> limbs = ZERO_LIMBS"
    using eq_ZERO_LIMBS_iff [OF assms] limbs_nat_eq_0_iff [of limbs] limbs_int_mod [OF assms] assms
    by (metis limbs_int_ZERO_LIMBS limbs_nat_ZERO_LIMBS limbs_nat_inj wf_ZERO_LIMBS wf_limbs_def)
  then show ?thesis
    using magnitude_fits_iff [of limbs neg] negate_nonzero [OF assms, of neg] assms
    by (simp add: finish_magnitude_def bigint_checked_def wf_limbs_def)
qed

lemma parse_radix_digits_valid:
  assumes "1 \<le> radix" "radix \<le> 36" "map (to_digit radix) cs = map Some ds"
  defines "v \<equiv> int (digits_value radix 0 ds)"
  shows "parse_radix_digits cs radix neg = map_sum id Some (bigint_checked (if neg then - v else v))"
proof -
  have loop: "parse_digits_loop radix cs ZERO_LIMBS =
    (if v < int (limb_mod BIGINT_LIMBS) then Inr (Some (nat_limbs BIGINT_LIMBS (digits_value radix 0 ds)))
     else Inl throw_bigint_overflow)"
    using parse_digits_loop_valid [OF wf_ZERO_LIMBS assms(1-3)] by (simp add: v_def)
  show ?thesis
  proof (cases "v < int (limb_mod BIGINT_LIMBS)")
    case True
    then have "limbs_nat (nat_limbs BIGINT_LIMBS (digits_value radix 0 ds)) = digits_value radix 0 ds"
      by (simp add: limbs_nat_nat_limbs v_def)
    then show ?thesis
      using True finish_magnitude_eq [of "nat_limbs BIGINT_LIMBS (digits_value radix 0 ds)" neg]
      by (simp add: parse_radix_digits_def loop wf_limbs_def v_def)
  next
    case False
    have "0 < int (limb_mod BIGINT_LIMBS)" by simp
    then have "\<not> bigint_in_range (if neg then - v else v)"
      using False unfolding bigint_in_range_def by (simp split: if_split)
    then show ?thesis using False by (simp add: parse_radix_digits_def loop bigint_checked_Inl)
  qed
qed

subsection \<open>The printing loops\<close>

lemma div_radix_loop_spec:
  assumes "0 < unat radix" "unat radix < 2 ^ 64" "unat rem < unat radix" "div_radix_loop radix hs rem = (q, r)"
  shows "length q = length hs \<and> unat r < unat radix \<and>
    limbs_nat (rev q) * unat radix + unat r = unat rem * limb_mod (length hs) + limbs_nat (rev hs)"
  using assms(3,4)
proof (induction hs arbitrary: rem q r)
  case (Cons x xs)
  define s where "s = push_bit 64 rem + ucast x"
  define c where "c = unat rem * 2 ^ 64 + unat x"
  have rlt: "unat rem < 2 ^ 64" using Cons.prems(1) assms(2) by linarith
  have bound: "unat rem * 2 ^ 64 + unat x < 2 ^ 64 * unat radix"
  proof -
    have "Suc (unat rem) * 2 ^ 64 \<le> unat radix * 2 ^ 64" using Cons.prems(1) by (intro mult_le_mono1) simp
    then show ?thesis using unat_u64_le [of x] by simp
  qed
  also have "2 ^ 64 * unat radix < 2 ^ 64 * 2 ^ 64" using assms(2) by simp
  finally have fit: "unat rem * 2 ^ 64 + unat x < 2 ^ 128" by simp
  have push: "unat (push_bit 64 rem) = unat rem * 2 ^ 64"
    using fit by (simp add: push_bit_eq_mult unat_word_ariths)
  have s: "unat s = c"
    using unat_plus_exact [of "push_bit 64 rem" "ucast x"] fit unfolding s_def c_def push by simp
  have c: "c < 2 ^ 64 * unat radix" using bound by (simp add: c_def)
  then have q: "unat (ucast (s div radix) :: u64) = c div unat radix"
    by (simp add: unat_ucast_mod unat_div_distrib s less_mult_imp_div_less)
  obtain q' r' where rec: "div_radix_loop radix xs (s mod radix) = (q', r')" by fastforce
  have out: "q = ucast (s div radix) # q'" "r = r'" using Cons.prems(2) rec by (simp_all add: s_def Let_def)
  have m: "unat (s mod radix) = c mod unat radix" by (simp add: unat_mod_distrib s)
  have IH: "length q' = length xs" "unat r' < unat radix"
    "limbs_nat (rev q') * unat radix + unat r' = (c mod unat radix) * limb_mod (length xs) + limbs_nat (rev xs)"
    using Cons.IH [OF _ rec] assms(1) by (simp_all add: m)
  have "limbs_nat (rev q) * unat radix + unat r
      = limbs_nat (rev q') * unat radix + unat r' + limb_mod (length xs) * (c div unat radix * unat radix)"
    by (simp add: out limbs_nat_snoc IH(1) q algebra_simps)
  also have "\<dots> = limb_mod (length xs) * (c div unat radix * unat radix + c mod unat radix) + limbs_nat (rev xs)"
    unfolding IH(3) distrib_left by (simp only: ac_simps)
  also have "\<dots> = unat rem * limb_mod (length (x # xs)) + limbs_nat (rev (x # xs))"
    unfolding div_mult_mod_eq by (simp add: c_def limb_mod_Suc limbs_nat_snoc algebra_simps)
  finally show ?case using IH out by simp
qed simp

text \<open>The digits of a number, least significant first, and its textual form in a radix.\<close>

function nat_digits :: "nat \<Rightarrow> nat \<Rightarrow> nat list" where
  "nat_digits r n = (if n = 0 \<or> r < 2 then [] else n mod r # nat_digits r (n div r))"
  by pat_completeness auto
termination by (relation "measure snd") auto

declare nat_digits.simps [simp del]

definition radix_char :: "nat \<Rightarrow> nat" where
  "radix_char d = (if d < 10 then 48 + d else 87 + d)"

definition int_to_str :: "nat \<Rightarrow> int \<Rightarrow> rust_str" where
  "int_to_str r z = (if z = 0 then [48]
     else (if z < 0 then [45] else []) @ rev (map radix_char (nat_digits r (nat \<bar>z\<bar>))))"

lemma nat_digits_0 [simp]: "nat_digits r 0 = []"
  by (simp add: nat_digits.simps)

lemma digits_loop_eq:
  assumes "wf_limbs temp" "2 \<le> unat radix" "unat radix \<le> 36"
  shows "digits_loop radix temp acc = Some (acc @ map radix_char (nat_digits (unat radix) (limbs_nat temp)))"
  using assms(1)
proof (induction "limbs_nat temp" arbitrary: temp acc rule: less_induct)
  case less
  show ?case
  proof (cases "temp = ZERO_LIMBS")
    case True
    then show ?thesis by (subst digits_loop.simps) simp
  next
    case False
    then have nz: "limbs_nat temp \<noteq> 0"
      using less.prems limbs_nat_inj [of temp ZERO_LIMBS] by (auto simp: wf_limbs_def ZERO_LIMBS_def limb_simps)
    obtain q r where qr: "div_radix_loop radix (rev temp) 0 = (q, r)" by fastforce
    have spec: "length q = length temp" "unat r < unat radix" "limbs_nat (rev q) * unat radix + unat r = limbs_nat temp"
      using div_radix_loop_spec [OF _ _ _ qr] assms(2,3) by simp_all
    have dm: "limbs_nat (rev q) = limbs_nat temp div unat radix" "unat r = limbs_nat temp mod unat radix"
      using div_mod_unique [OF spec(3,2)] by simp_all
    have lt: "limbs_nat (rev q) < limbs_nat temp" unfolding dm(1) using nz assms(2) by simp
    have wf: "wf_limbs (rev q)" using spec(1) less.prems by (simp add: wf_limbs_def)
    have "unat (ucast r :: u8) = unat r" using spec(2) assms(3) by (simp add: unat_ucast_mod)
    then have ch: "digit_char (ucast r) = radix_char (unat r)"
      by (simp add: digit_char_def radix_char_def word_less_nat_alt)
    have "digits_loop radix temp acc = digits_loop radix (rev q) (acc @ [radix_char (unat r)])"
      using False qr by (subst digits_loop.simps) (simp add: ch)
    also have "\<dots> = Some (acc @ [radix_char (unat r)] @ map radix_char (nat_digits (unat radix) (limbs_nat (rev q))))"
      using less.hyps [OF lt wf] by simp
    also have "\<dots> = Some (acc @ map radix_char (nat_digits (unat radix) (limbs_nat temp)))"
      using nz assms(2) by (subst (2) nat_digits.simps) (simp add: dm)
    finally show ?thesis .
  qed
qed

lemma limbs_to_digits_eq:
  assumes "wf_limbs limbs" "2 \<le> unat radix" "unat radix \<le> 36"
  shows "limbs_to_digits radix limbs = Some (int_to_str (unat radix) (limbs_int limbs))"
proof -
  note mag = magnitude_bound [OF assms(1)]
  have "nat \<bar>limbs_int limbs\<bar> = limbs_nat (if is_negative limbs then negate_limbs limbs else limbs)"
    using mag(2) by linarith
  then show ?thesis
    using digits_loop_eq [OF mag(1) assms(2,3), of "[]"] eq_ZERO_LIMBS_iff [OF assms(1)] is_negative_iff [OF assms(1)]
    by (auto simp: limbs_to_digits_def int_to_str_def Let_def)
qed

lemma limbs_to_decimal_string_eq:
  "wf_limbs limbs \<Longrightarrow> limbs_to_decimal_string limbs = Some (int_to_str 10 (limbs_int limbs))"
  using limbs_to_digits_eq [of limbs 10] by (simp add: limbs_to_decimal_string_def)

lemma limbs_to_radix_string_eq:
  assumes "wf_limbs limbs"
  shows "limbs_to_radix_string limbs radix
    = Some (int_to_str (if 2 \<le> unat radix \<and> unat radix \<le> 36 then unat radix else 10) (limbs_int limbs))"
proof -
  have le: "(2 \<le> radix \<and> radix \<le> 36) = (2 \<le> unat radix \<and> unat radix \<le> 36)"
    by (simp add: word_le_nat_alt)
  have "unat (ucast radix :: u128) = unat radix" if "unat radix \<le> 36"
    using that by (simp add: unat_ucast_mod)
  then show ?thesis
    using limbs_to_digits_eq [OF assms, of "ucast radix"] limbs_to_decimal_string_eq [OF assms]
    unfolding limbs_to_radix_string_def Let_def le by auto
qed

subsection \<open>Round trips\<close>

lemma nat_digits_less: "d \<in> set (nat_digits r n) \<Longrightarrow> d < r"
  by (induction r n rule: nat_digits.induct) (subst (asm) (2) nat_digits.simps, auto split: if_splits)

lemma digits_value_append: "digits_value r v (ds @ es) = digits_value r (digits_value r v ds) es"
  by (induction ds arbitrary: v) simp_all

lemma digits_value_nat_digits: "2 \<le> r \<Longrightarrow> digits_value r 0 (rev (nat_digits r n)) = n"
proof (induction r n rule: nat_digits.induct)
  case (1 r n)
  then show ?case by (subst nat_digits.simps) (auto simp: digits_value_append)
qed

lemma nat_digits_nonempty: "0 < n \<Longrightarrow> 2 \<le> r \<Longrightarrow> nat_digits r n \<noteq> []"
  by (simp add: nat_digits.simps)

lemma to_digit_radix_char: "d < r \<Longrightarrow> r \<le> 36 \<Longrightarrow> to_digit r (radix_char d) = Some d"
  by (auto simp: to_digit_def radix_char_def Let_def)

lemma map_to_digit:
  "r \<le> 36 \<Longrightarrow> map (to_digit r) (rev (map radix_char (nat_digits r n))) = map Some (rev (nat_digits r n))"
  using nat_digits_less [of _ r n] by (auto simp: rev_map to_digit_radix_char)

lemma str_trim_id:
  "s \<noteq> [] \<Longrightarrow> \<not> is_white_space (hd s) \<Longrightarrow> \<not> is_white_space (last s) \<Longrightarrow> str_trim s = s"
  by (simp add: str_trim_def dropWhile_eq_self_iff [THEN iffD2] hd_rev)

lemma radix_char_decimal: "d < 10 \<Longrightarrow> 48 \<le> radix_char d \<and> radix_char d \<le> 57"
  by (simp add: radix_char_def)

lemma decimal_chars:
  "c \<in> set (rev (map radix_char (nat_digits 10 n))) \<Longrightarrow> 48 \<le> c \<and> c \<le> 57"
  using nat_digits_less [of _ 10 n] radix_char_decimal by auto

lemma radix_of_prefix_decimal:
  "\<forall>c\<in>set s. c \<le> 57 \<Longrightarrow> radix_of_prefix s = None"
  unfolding radix_of_prefix_def
  by (auto simp: ascii_lowercase_def Let_def split: list.split)

lemma parse_bigint_string_int_to_str:
  "parse_bigint_string (int_to_str 10 z) = map_sum id Some (bigint_checked z)"
proof (cases "z = 0")
  case True
  have "str_trim [48] = [48]" by (simp add: str_trim_def is_white_space_def)
  moreover have "parse_radix_digits [48] 10 False = map_sum id Some (bigint_checked 0)"
    using parse_radix_digits_valid [of 10 "[48]" "[0]" False] by (simp add: to_digit_def)
  ultimately show ?thesis
    using True by (simp add: parse_bigint_string_def int_to_str_def radix_of_prefix_def)
next
  case False
  define n where "n = nat \<bar>z\<bar>"
  define s where "s = rev (map radix_char (nat_digits 10 n))"
  have chars: "48 \<le> c \<and> c \<le> 57" if "c \<in> set s" for c using decimal_chars that by (simp add: s_def)
  have "s \<noteq> []" using False nat_digits_nonempty [of n 10] by (simp add: s_def n_def)
  define t where "t = int_to_str 10 z"
  have t: "t = (if z < 0 then [45] else []) @ s" using False by (simp add: t_def int_to_str_def s_def n_def)
  have tchars: "c = 45 \<or> (48 \<le> c \<and> c \<le> 57)" if "c \<in> set t" for c using that chars by (auto simp: t split: if_splits)
  have "str_trim t = t"
  proof (rule str_trim_id)
    show "t \<noteq> []" using \<open>s \<noteq> []\<close> by (simp add: t)
    then show "\<not> is_white_space (hd t)" "\<not> is_white_space (last t)"
      using tchars [OF hd_in_set] tchars [OF last_in_set] by (auto simp: is_white_space_def)
  qed
  moreover have "radix_of_prefix t = None" using tchars by (intro radix_of_prefix_decimal) fastforce
  moreover have "parse_radix_digits s 10 neg = map_sum id Some (bigint_checked (if neg then - int n else int n))" for neg
    using parse_radix_digits_valid [of 10 s "rev (nat_digits 10 n)" neg] map_to_digit [of 10 n]
    by (simp add: s_def digits_value_nat_digits)
  moreover obtain c cs where s: "s = c # cs" using \<open>s \<noteq> []\<close> by (cases s) auto
  moreover have "c \<noteq> 45" "c \<noteq> 43" using chars [of c] by (simp_all add: s)
  ultimately show ?thesis
    unfolding t_def [symmetric] parse_bigint_string_def
    by (auto simp: t n_def)
qed

subsection \<open>The radix parser\<close>

lemma radix_digits_loop_valid:
  assumes "wf_limbs limbs" "1 \<le> radix" "radix \<le> 36" "map (to_digit radix) cs = map Some ds"
  shows "radix_digits_loop (of_nat radix) cs limbs =
    (if digits_value radix (limbs_nat limbs) ds < limb_mod BIGINT_LIMBS
     then Inr (nat_limbs BIGINT_LIMBS (digits_value radix (limbs_nat limbs) ds))
     else Inl throw_bigint_overflow)"
  using assms
proof (induction cs arbitrary: limbs ds)
  case Nil
  then show ?case using limbs_nat_less [of limbs] by (simp add: wf_limbs_def nat_limbs_limbs_nat)
next
  case (Cons c cs)
  obtain d ds' where ds: "ds = d # ds'" "to_digit radix c = Some d" "map (to_digit radix) cs = map Some ds'"
    using Cons.prems(4) by auto
  have d: "d < radix" using to_digit_less [OF ds(2)] .
  have ad: "alnum_digit c = Some (of_nat d)"
    using ds(2) by (auto simp: to_digit_def alnum_digit_def Let_def split: if_splits)
  have u: "unat (of_nat radix :: u64) = radix" "unat (of_nat d :: u64) = d"
    using Cons.prems(3) d by (simp_all add: unat_of_nat)
  then have nge: "\<not> (of_nat d :: u64) \<ge> of_nat radix" using d by (simp add: word_le_nat_alt)
  have ur: "unat (ucast (of_nat radix :: u64) :: u128) = radix" by (simp only: unat_u128_of_u64 u)
  obtain l k where lk: "mul_add_loop (ucast (of_nat radix :: u64)) limbs (of_nat d) = (l, k)" by fastforce
  have step: "k = 0 \<longleftrightarrow> limbs_nat limbs * radix + d < limb_mod BIGINT_LIMBS"
    "k = 0 \<Longrightarrow> wf_limbs l \<and> limbs_nat l = limbs_nat limbs * radix + d"
    using mul_add_step [OF Cons.prems(1) _ lk] Cons.prems(3) unfolding u ur by simp_all
  show ?case
  proof (cases "k = 0")
    case True
    then show ?thesis using step(2) Cons.IH [of l ds'] Cons.prems(2,3) ds ad nge lk by simp
  next
    case False
    have "limbs_nat limbs * radix + d \<le> digits_value radix (limbs_nat limbs * radix + d) ds'"
      using Cons.prems(2) by (rule digits_value_ge)
    then have "\<not> digits_value radix (limbs_nat limbs) ds < limb_mod BIGINT_LIMBS"
      using step(1) False by (simp add: ds(1))
    then show ?thesis using False ad nge lk by simp
  qed
qed

text \<open>Hexadecimal digits, least significant first.\<close>

fun lsb_value :: "nat list \<Rightarrow> nat" where
  "lsb_value [] = 0"
| "lsb_value (d # ds) = d + 16 * lsb_value ds"

lemma digits_value_rev_lsb: "digits_value 16 0 (rev ds) = lsb_value ds"
  by (induction ds) (simp_all add: digits_value_append)

lemma lsb_value_append: "lsb_value (xs @ ys) = lsb_value xs + 16 ^ length xs * lsb_value ys"
  by (induction xs) (simp_all add: algebra_simps)

lemma lsb_value_eq_0_iff: "lsb_value ds = 0 \<longleftrightarrow> (\<forall>d\<in>set ds. d = 0)"
  by (induction ds) auto

lemma hex_digit_less: "hex_digit c = Some d \<Longrightarrow> d < 16"
  by (auto simp: hex_digit_def split: if_splits)

lemma or_push_nibble:
  assumes "unat (value :: u64) < 16 ^ i" "d < 16" "i < 16"
  shows "unat (value OR push_bit (i * 4) (of_nat d)) = unat value + d * 16 ^ i"
proof -
  have p: "(2 :: nat) ^ (i * 4) = 16 ^ i" by (simp add: power_mult mult.commute [of i])
  have dl: "d * 16 ^ i < 2 ^ 64"
  proof -
    have "Suc d * 16 ^ i \<le> 16 * 16 ^ i" using assms(2) by (intro mult_le_mono1) simp
    also have "\<dots> \<le> 16 ^ 16" using assms(3) power_increasing [of "Suc i" 16 "16 :: nat"] by simp
    finally have "16 ^ i + d * 16 ^ i \<le> 2 ^ 64" by simp
    moreover have "0 < (16 :: nat) ^ i" by simp
    ultimately show ?thesis by linarith
  qed
  have u: "unat (push_bit (i * 4) (of_nat d :: u64)) = push_bit (i * 4) d"
    using dl assms(2)
    by (simp only: unsigned_push_bit_eq) (simp add: unat_of_nat take_bit_nat_eq_self push_bit_eq_mult p)
  have "unat value AND push_bit (i * 4) d = 0"
  proof (rule bit_eqI)
    fix n
    have tb: "take_bit (i * 4) (unat value) = unat value" using assms(1) by (simp add: take_bit_nat_eq_self p)
    show "bit (unat value AND push_bit (i * 4) d) n = bit 0 n"
      by (metis tb bit_and_iff bit_push_bit_iff bit_take_bit_iff bit_0_eq bot_apply bot_bool_def not_less)
  qed
  then have "unat value OR push_bit (i * 4) d = unat value + push_bit (i * 4) d"
    by (rule disjunctive_add_eq_or [symmetric])
  then show ?thesis unfolding unsigned_or_eq u by (simp add: push_bit_eq_mult p)
qed

lemma hex_limb_loop_valid:
  assumes "n \<le> 16" "unat acc < 16 ^ (16 - n)" "map hex_digit cs = map Some ds" "hex_limb_loop n cs acc = (w, rest)"
  shows "rest = drop n cs \<and> unat w = unat acc + 16 ^ (16 - n) * lsb_value (take n ds)"
  using assms
proof (induction n cs acc arbitrary: ds rule: hex_limb_loop.induct)
  case (3 n c cs acc)
  obtain d ds' where ds: "ds = d # ds'" "hex_digit c = Some d" "map hex_digit cs = map Some ds'"
    using "3.prems"(3) by auto
  define i where "i = 15 - n"
  have i: "i < 16" "16 - n = Suc i" using "3.prems"(1) by (simp_all add: i_def)
  have v: "unat (acc OR push_bit (i * 4) (of_nat d)) = unat acc + d * 16 ^ i"
    using "3.prems"(2) hex_digit_less [OF ds(2)] i(1) by (intro or_push_nibble) (simp_all add: i_def)
  have "unat acc + d * 16 ^ i < 16 ^ (16 - n)"
  proof -
    have "Suc d * 16 ^ i \<le> 16 * 16 ^ i" using hex_digit_less [OF ds(2)] by (intro mult_le_mono1) simp
    moreover have "unat acc < 16 ^ i" using "3.prems"(2) by (simp add: i_def)
    ultimately show ?thesis unfolding i(2) power_Suc mult_Suc by linarith
  qed
  then have "rest = drop n cs \<and> unat w = unat acc + d * 16 ^ i + 16 ^ (16 - n) * lsb_value (take n ds')"
    using "3.IH"(2) [OF ds(2) _ _ ds(3)] "3.prems"(1,4) ds(2) v by (simp add: i_def [symmetric])
  then show ?case by (simp add: ds(1) i i_def [symmetric] algebra_simps)
qed simp_all

lemma hex_limbs_loop_valid:
  assumes "map hex_digit cs = map Some ds" "hex_limbs_loop n cs = (limbs, rest)"
  shows "length limbs = n \<and> rest = drop (16 * n) cs \<and> limbs_nat limbs = lsb_value (take (16 * n) ds)"
  using assms
proof (induction n arbitrary: cs ds limbs)
  case (Suc n)
  obtain w r where w: "hex_limb_loop 16 cs 0 = (w, r)" by fastforce
  have wv: "r = drop 16 cs" "unat w = lsb_value (take 16 ds)"
    using hex_limb_loop_valid [OF _ _ Suc.prems(1) w] by simp_all
  obtain ls r' where ls: "hex_limbs_loop n r = (ls, r')" by fastforce
  have out: "limbs = w # ls" "rest = r'" using Suc.prems(2) w ls by simp_all
  have IH: "length ls = n" "r' = drop (16 * n) r" "limbs_nat ls = lsb_value (take (16 * n) (drop 16 ds))"
    using Suc.IH [of r "drop 16 ds" ls] Suc.prems(1) ls out wv by (simp_all flip: drop_map)
  have split: "take (16 * Suc n) ds = take 16 ds @ take (16 * n) (drop 16 ds)"
    by (simp add: take_add [symmetric])
  have "lsb_value (take (16 * Suc n) ds) = unat w + 2 ^ 64 * limbs_nat ls"
  proof (cases "16 \<le> length ds")
    case True
    then show ?thesis unfolding split lsb_value_append by (simp add: wv(2) IH(3))
  qed (simp add: split lsb_value_append wv(2) IH(3))
  then show ?case by (simp add: out IH wv(1) add.commute)
qed simp

lemma hex_digit_to_digit: "hex_digit = to_digit 16"
  by (rule ext) (auto simp: hex_digit_def to_digit_def Let_def)

lemma nonzero_hex_iff: "hex_digit c = Some d \<Longrightarrow> nonzero_hex c \<longleftrightarrow> d \<noteq> 0"
  by (auto simp: hex_digit_def nonzero_hex_def split: if_splits)

lemma list_ex_nonzero_hex:
  "map hex_digit cs = map Some ds \<Longrightarrow> list_ex nonzero_hex cs \<longleftrightarrow> lsb_value ds \<noteq> 0"
proof (induction cs arbitrary: ds)
  case (Cons c cs)
  then show ?case using nonzero_hex_iff [of c] by (cases ds) auto
qed simp

text \<open>Both paths of the radix parser read a valid digit string exactly.\<close>

definition parse_magnitude :: "rust_str \<Rightarrow> nat \<Rightarrow> bool \<Rightarrow> js_throw + u64 list" where
  "parse_magnitude s radix is_neg =
     (if radix = 16 then
        (let (limbs, chars) = hex_limbs_loop BIGINT_LIMBS (rev s)
         in if list_ex nonzero_hex chars then Inl throw_bigint_overflow else finish_magnitude limbs is_neg)
      else
        (case radix_digits_loop (of_nat radix) s ZERO_LIMBS of
           Inl e \<Rightarrow> Inl e
         | Inr limbs \<Rightarrow> finish_magnitude limbs is_neg))"

lemma out_of_range_magnitude:
  assumes "\<not> v < limb_mod BIGINT_LIMBS"
  shows "bigint_checked (if neg then - int v else int v) = Inl throw_bigint_overflow"
proof -
  have "0 < int (limb_mod BIGINT_LIMBS)" by simp
  then have "\<not> bigint_in_range (if neg then - int v else int v)"
    using assms unfolding bigint_in_range_def by (simp split: if_split)
  then show ?thesis by (rule bigint_checked_Inl)
qed

lemma limb_mod_hex: "limb_mod BIGINT_LIMBS = 16 ^ 256"
proof -
  have "limb_mod BIGINT_LIMBS = 2 ^ (4 * 256)" by (simp only: limb_mod_def BIGINT_LIMBS_def) simp
  then show ?thesis unfolding power_mult by simp
qed

lemma parse_magnitude_hex:
  assumes "map (to_digit 16) s = map Some ds"
  defines "v \<equiv> digits_value 16 0 ds"
  shows "parse_magnitude s 16 neg = bigint_checked (if neg then - int v else int v)"
proof -
  obtain limbs chars where loop: "hex_limbs_loop BIGINT_LIMBS (rev s) = (limbs, chars)" by fastforce
  have rev: "map hex_digit (rev s) = map Some (rev ds)"
    using arg_cong [OF assms(1), of rev] unfolding hex_digit_to_digit by (simp add: rev_map)
  have spec: "length limbs = BIGINT_LIMBS" "chars = drop 256 (rev s)" "limbs_nat limbs = lsb_value (take 256 (rev ds))"
    using hex_limbs_loop_valid [OF rev loop] by (simp_all add: BIGINT_LIMBS_def)
  have ex: "list_ex nonzero_hex chars \<longleftrightarrow> lsb_value (drop 256 (rev ds)) \<noteq> 0"
    using list_ex_nonzero_hex [of chars "drop 256 (rev ds)"] rev by (simp add: spec(2) flip: drop_map)
  have v: "v = lsb_value (take 256 (rev ds)) + 16 ^ min 256 (length ds) * lsb_value (drop 256 (rev ds))"
    using digits_value_rev_lsb [of "rev ds"] lsb_value_append [of "take 256 (rev ds)" "drop 256 (rev ds)"]
    by (simp add: v_def min.commute)
  show ?thesis
  proof (cases "lsb_value (drop 256 (rev ds)) = 0")
    case True
    then have "limbs_nat limbs = v" by (simp add: v spec(3))
    moreover have "wf_limbs limbs" using spec(1) by (simp add: wf_limbs_def)
    ultimately show ?thesis using True ex loop finish_magnitude_eq [of limbs neg] by (simp add: parse_magnitude_def)
  next
    case False
    then have "256 \<le> length ds" by (cases "256 \<le> length ds") simp_all
    then have "limb_mod BIGINT_LIMBS * 1 \<le> 16 ^ min 256 (length ds) * lsb_value (drop 256 (rev ds))"
      unfolding limb_mod_hex using False by (intro mult_le_mono) (simp_all add: min_def)
    then have "\<not> v < limb_mod BIGINT_LIMBS" by (simp add: v)
    from out_of_range_magnitude [OF this] show ?thesis using False ex loop by (simp add: parse_magnitude_def)
  qed
qed

lemma parse_magnitude_valid:
  assumes "2 \<le> radix" "radix \<le> 36" "map (to_digit radix) s = map Some ds"
  defines "v \<equiv> digits_value radix 0 ds"
  shows "parse_magnitude s radix neg = bigint_checked (if neg then - int v else int v)"
proof (cases "radix = 16")
  case True
  then show ?thesis using parse_magnitude_hex [of s ds neg] assms(3) by (simp add: v_def)
next
  case False
  have loop: "radix_digits_loop (of_nat radix) s ZERO_LIMBS = (if v < limb_mod BIGINT_LIMBS
     then Inr (nat_limbs BIGINT_LIMBS v) else Inl throw_bigint_overflow)"
    using radix_digits_loop_valid [OF wf_ZERO_LIMBS _ assms(2,3)] assms(1) by (simp add: v_def)
  show ?thesis
  proof (cases "v < limb_mod BIGINT_LIMBS")
    case True
    then show ?thesis
      using False loop finish_magnitude_eq [of "nat_limbs BIGINT_LIMBS v" neg]
      by (simp add: parse_magnitude_def wf_limbs_def limbs_nat_nat_limbs)
  next
    case out: False
    from out_of_range_magnitude [OF out] show ?thesis using False out loop by (simp add: parse_magnitude_def)
  qed
qed

lemma word_of_radix: "2 \<le> r \<Longrightarrow> r \<le> 36 \<Longrightarrow> (word_of_int (int r) :: u64) = of_nat r \<and> ((of_nat r :: u64) = 16 \<longleftrightarrow> r = 16)"
  by (simp add: word_unat_eq_iff unat_of_nat)

lemma hd_digit_string:
  assumes "2 \<le> r" "r \<le> 36" "map (to_digit r) s = map Some ds"
  shows "c \<in> set s \<Longrightarrow> c \<noteq> 45 \<and> (r = 16 \<longrightarrow> c \<noteq> 120 \<and> c \<noteq> 88)"
proof -
  assume "c \<in> set s"
  then have "to_digit r c \<in> set (map Some ds)" using assms(3) by (metis list.set_map imageI)
  then show ?thesis by (auto simp: to_digit_def Let_def split: if_splits option.splits)
qed

lemma bigint_from_string_radix_magnitude:
  assumes "2 \<le> r" "r \<le> 36" "s \<noteq> []" "map (to_digit r) s = map Some ds"
  shows "bigint_from_string_radix ((if neg then [45] else []) @ s) (int r) = parse_magnitude s r neg"
proof -
  note hd = hd_digit_string [OF assms(1,2,4)]
  obtain c cs where s: "s = c # cs" using assms(3) by (cases s) auto
  define t where "t = (if neg then [45] else []) @ s"
  have sign: "(case t of [] \<Rightarrow> (False, t) | c # rest \<Rightarrow> if c = 45 then (True, rest) else (False, t)) = (neg, s)"
    using s hd [of c] by (cases neg) (simp_all add: t_def)
  have strip: "(if int r = 16 \<and> (take 2 s = [48, 120] \<or> take 2 s = [48, 88]) then drop 2 s else s) = s"
    using hd by (cases cs) (auto simp: s)
  have radix: "(word_of_int (int r) :: u64) = of_nat r" "((of_nat r :: u64) = 16) = (r = 16)"
    using word_of_radix [OF assms(1,2)] by simp_all
  show ?thesis
    unfolding t_def [symmetric]
    by (simp only: bigint_from_string_radix_def Let_def sign prod.case strip radix parse_magnitude_def)
qed

lemma bigint_from_string_radix_int_to_str:
  assumes "2 \<le> r" "r \<le> 36"
  shows "bigint_from_string_radix (int_to_str r z) (int r) = bigint_checked z"
proof (cases "z = 0")
  case True
  have d: "map (to_digit r) [48] = map Some [0]" using assms(1) by (simp add: to_digit_def)
  have "bigint_from_string_radix ((if False then [45] else []) @ [48]) (int r) = bigint_checked 0"
    using bigint_from_string_radix_magnitude [OF assms _ d, of False] parse_magnitude_valid [OF assms d, of False] by simp
  then show ?thesis using True by (simp add: int_to_str_def)
next
  case False
  define n where "n = nat \<bar>z\<bar>"
  define s where "s = rev (map radix_char (nat_digits r n))"
  have s: "s \<noteq> []" "map (to_digit r) s = map Some (rev (nat_digits r n))"
    using False assms nat_digits_nonempty [of n r] map_to_digit [of r n] by (simp_all add: s_def n_def)
  have "int_to_str r z = (if z < 0 then [45] else []) @ s" using False by (simp add: int_to_str_def s_def n_def)
  then show ?thesis
    using bigint_from_string_radix_magnitude [OF assms s, of "z < 0"] parse_magnitude_valid [OF assms s(2), of "z < 0"]
    by (simp add: digits_value_nat_digits assms(1) n_def)
qed

subsection \<open>Bytes\<close>

text \<open>The value of a big-endian byte list.\<close>

fun be_value :: "nat \<Rightarrow> u8 list \<Rightarrow> nat" where
  "be_value v [] = v"
| "be_value v (b # bs) = be_value (256 * v + unat b) bs"

lemma be_value_snoc: "be_value v (bs @ [b]) = 256 * be_value v bs + unat b"
  by (induction bs arbitrary: v) simp_all

lemma to_buffer_fold:
  "k \<le> n \<Longrightarrow> fold (\<lambda>i data. data[n - 1 - i := f i]) [0..<k] (replicate n x)
    = replicate (n - k) x @ rev (map f [0..<k])"
proof (induction k)
  case (Suc k)
  then have "n - k = Suc (n - Suc k)" by simp
  then have "replicate (n - k) x = replicate (n - Suc k) x @ [x]"
    by (simp add: replicate_append_same)
  then show ?case using Suc by (simp add: list_update_append)
qed simp

lemma be_value_zeros: "be_value 0 (replicate n 0 @ bs) = be_value 0 bs"
  by (induction n) simp_all

lemma limb_byte:
  assumes "wf_limbs limbs" "i < 128"
  shows "unat (ucast (drop_bit ((i mod 8) * 8) (limbs ! (i div 8)) AND 0xFF) :: u8)
    = limbs_nat limbs div 256 ^ i mod 256"
proof -
  have e: "(256 :: nat) ^ i = 2 ^ (i * 8)" by (simp add: power_mult mult.commute [of i])
  have dm: "(i * 8 + j) div 64 = i div 8" "(i * 8 + j) mod 64 = (i mod 8) * 8 + j" if "j < 8" for j
  proof -
    define q r where "q = i div 8" and "r = (i mod 8) * 8 + j"
    have e: "i * 8 + j = q * 64 + r"
      using div_mult_mod_eq [of i 8] unfolding q_def r_def by linarith
    have "r < 64" using that mod_less_divisor [of 8 i] unfolding r_def by linarith
    then have "(i * 8 + j) div 64 = q" "(i * 8 + j) mod 64 = r" unfolding e by simp_all
    then show "(i * 8 + j) div 64 = i div 8" "(i * 8 + j) mod 64 = (i mod 8) * 8 + j"
      by (simp_all add: q_def r_def)
  qed
  have idx: "i div 8 < 16" using assms(2) by (simp add: div_less_iff_less_mult)
  have "unat (ucast (drop_bit ((i mod 8) * 8) (limbs ! (i div 8)) AND 0xFF) :: u8)
      = take_bit 8 (drop_bit (i * 8) (limbs_nat limbs))"
  proof (rule bit_eqI)
    fix j
    have m: "(0xFF :: u64) = mask 8" by (simp add: mask_eq_exp_minus_1)
    show "bit (unat (ucast (drop_bit ((i mod 8) * 8) (limbs ! (i div 8)) AND 0xFF) :: u8)) j
        \<longleftrightarrow> bit (take_bit 8 (drop_bit (i * 8) (limbs_nat limbs))) j"
      using assms(1) idx dm [of j]
      by (auto simp: m bit_unsigned_iff bit_ucast_iff bit_and_iff bit_mask_iff bit_drop_bit_eq bit_take_bit_iff
          bit_limbs_nat wf_limbs_def BIGINT_LIMBS_def)
  qed
  then show ?thesis by (simp add: e take_bit_eq_mod drop_bit_eq_div)
qed

lemma be_value_acc: "be_value v bs = v * 256 ^ length bs + be_value 0 bs"
proof (induction bs arbitrary: v)
  case (Cons b bs)
  show ?case
    unfolding be_value.simps Cons.IH [of "256 * v + unat b"] Cons.IH [of "256 * 0 + unat b"]
    by (simp add: algebra_simps)
qed simp

lemma be_value_rev_bytes:
  "(\<And>i. i < k \<Longrightarrow> unat (f i :: u8) = v div 256 ^ i mod 256) \<Longrightarrow> be_value 0 (rev (map f [0..<k])) = v mod 256 ^ k"
proof (induction k)
  case (Suc k)
  have "be_value 0 (rev (map f [0..<Suc k])) = unat (f k) * 256 ^ k + v mod 256 ^ k"
    using Suc.IH Suc.prems be_value_acc [of "unat (f k)" "rev (map f [0..<k])"] by simp
  also have "\<dots> = v mod (256 ^ k * 256)"
    unfolding Suc.prems [of k, simplified] mod_mult2_eq by simp
  finally show ?case by (simp add: mult.commute)
qed simp

subsection \<open>Properties\<close>

text \<open>
  C20. Decimal round trip: printing a BigInt terminates, and \<open>parse_bigint_string\<close> (the
  \<open>BigInt("...")\<close> coercion) reads the printed text back to the same limbs, for every value.
\<close>

theorem bigint_decimal_roundtrip:
  assumes "wf_limbs limbs"
  shows "\<exists>s. limbs_to_decimal_string limbs = Some s \<and> parse_bigint_string s = Inr (Some limbs)"
  using limbs_to_decimal_string_eq [OF assms] parse_bigint_string_int_to_str [of "limbs_int limbs"] assms
  by (simp add: bigint_checked_Inr)

theorem bigint_decimal_roundtrip_witness:
  "\<exists>s. limbs_to_decimal_string (int_limbs (- 12)) = Some s \<and> parse_bigint_string s = Inr (Some (int_limbs (- 12)))"
  using bigint_decimal_roundtrip [of "int_limbs (- 12)"] by simp

text \<open>
  C21. Radix round trip: for every radix from 2 to 36, \<open>limbs_to_radix_string\<close> terminates with a
  text that \<open>js_bigint_from_string_radix\<close>, through its nibble path for radix 16 and its
  multiply-add path otherwise, reads back to the same value.
\<close>

theorem bigint_radix_roundtrip:
  assumes "wf_limbs limbs" "2 \<le> r" "r \<le> 36"
  shows "\<exists>s. limbs_to_radix_string limbs (of_nat r) = Some s \<and> bigint_from_string_radix s (int r) = Inr limbs"
proof -
  have "unat (of_nat r :: u32) = r" using assms(3) by (simp add: unat_of_nat)
  then show ?thesis
    using limbs_to_radix_string_eq [OF assms(1), of "of_nat r"] assms
      bigint_from_string_radix_int_to_str [OF assms(2,3), of "limbs_int limbs"]
    by (simp add: bigint_checked_Inr)
qed

theorem bigint_radix_roundtrip_witness:
  "\<exists>s. limbs_to_radix_string (int_limbs 255) (of_nat 16) = Some s \<and> bigint_from_string_radix s (int 16) = Inr (int_limbs 255)"
  by (rule bigint_radix_roundtrip) simp_all

text \<open>
  Parsing: a non-empty string of valid digits in radix 2, 8, 10 or 16 is read to its exact
  value, and the size RangeError is thrown exactly when that value, with its sign, is out of range,
  whether the digits overflow the sixteen limbs or only the sign bit.
\<close>

theorem parse_radix_digits_exact:
  assumes "2 \<le> radix" "radix \<le> 36" "map (to_digit radix) cs = map Some ds"
  shows "parse_radix_digits cs radix neg = map_sum id Some (bigint_checked
    (if neg then - int (digits_value radix 0 ds) else int (digits_value radix 0 ds)))"
  using assms by (intro parse_radix_digits_valid) simp_all

theorem parse_radix_digits_exact_witness:
  "parse_radix_digits [102, 70] 16 True = map_sum id Some (bigint_checked (- 255))"
  using parse_radix_digits_exact [of 16 "[102, 70]" "[15, 15]" True] by (simp add: to_digit_def)

text \<open>
  \<open>js_bigint_to_buffer\<close> writes exactly the requested number of bytes (32 when the length is
  not positive), and read big-endian they are the low bytes of the two's complement value.
\<close>

theorem js_bigint_to_buffer_value:
  fixes len :: int
  assumes "bigint_mem_ok mem"
  defines "n \<equiv> (if len \<le> 0 then 32 else nat len)"
  shows "length (js_bigint_to_buffer mem a len) = n
    \<and> be_value 0 (js_bigint_to_buffer mem a len) = limbs_nat (bigint_limbs_or_zero mem a) mod 256 ^ min 128 n"
proof -
  define limbs where "limbs = bigint_limbs_or_zero mem a"
  define f where "f = (\<lambda>i. ucast (drop_bit ((i mod 8) * 8) (limbs ! (i div 8)) AND 0xFF) :: u8)"
  have wf: "wf_limbs limbs" using assms(1) by (simp add: limbs_def)
  have "js_bigint_to_buffer mem a len = replicate (n - min 128 n) 0 @ rev (map f [0..<min 128 n])"
    using to_buffer_fold [of "min 128 n" n f 0]
    by (simp add: js_bigint_to_buffer_def n_def limbs_def f_def BIGINT_LIMBS_def Let_def del: upt_rec_numeral)
  moreover have "be_value 0 (rev (map f [0..<min 128 n])) = limbs_nat limbs mod 256 ^ min 128 n"
    by (rule be_value_rev_bytes) (simp add: f_def limb_byte [OF wf])
  ultimately show ?thesis by (simp add: be_value_zeros limbs_def)
qed

theorem js_bigint_to_buffer_value_witness:
  "length (js_bigint_to_buffer (sample_mem 258 0) 0x20000 4) = 4"
  using js_bigint_to_buffer_value [OF sample_ok(1), of 258 0 "0x20000" 4] by simp

text \<open>
  White space: \<open>parse_bigint_string\<close> strips the Unicode \<open>White_Space\<close> code points,
  which is not the set ECMAScript strips: a byte order mark before the digits is rejected, and a
  next-line control is skipped.
\<close>

theorem parse_bigint_string_white_space:
  "parse_bigint_string [0xFEFF, 49] = Inr None \<and> parse_bigint_string [0x85, 49] = Inr (Some (int_limbs 1))"
proof -
  have "parse_radix_digits [49] 10 False = map_sum id Some (bigint_checked 1)"
    using parse_radix_digits_valid [of 10 "[49]" "[1]" False] by (simp add: to_digit_def)
  moreover have "bigint_checked 1 = Inr (int_limbs 1)" by (intro bigint_checked_Inr i128_in_range) simp_all
  moreover have "str_trim [0x85, 49] = [49]" "str_trim [0xFEFF, 49] = [0xFEFF, 49]"
    by (simp_all add: str_trim_def is_white_space_def)
  moreover have "parse_radix_digits [0xFEFF, 49] 10 False = Inr None"
    by (simp add: parse_radix_digits_def to_digit_def)
  ultimately show ?thesis
    by (simp add: parse_bigint_string_def radix_of_prefix_def ascii_lowercase_def)
qed

end
