(* ===== verification/F64.thy ===== *)
theory F64
  imports Prelude
begin

text \<open>
  IEEE-754 binary64 numbers by their bits. A Rust \<open>f64\<close> is its 64-bit pattern (\<open>to_bits\<close>,
  \<open>from_bits\<close>). Every finite double is an integer multiple of \<open>2 ^ -1074\<close>, so its value
  is kept as that integer, \<open>f64_units\<close>: comparison, integrality and truncation become exact
  integer operations, and the infinities, read by the same formula, lie above every finite value.
\<close>

type_synonym f64 = "64 word"

definition f64_sign :: "f64 \<Rightarrow> bool" where
  "f64_sign b = bit b 63"

definition f64_exp :: "f64 \<Rightarrow> nat" where
  "f64_exp b = unat b div 2 ^ 52 mod 2 ^ 11"

definition f64_mant :: "f64 \<Rightarrow> nat" where
  "f64_mant b = unat b mod 2 ^ 52"

definition f64_is_nan :: "f64 \<Rightarrow> bool" where
  "f64_is_nan b \<longleftrightarrow> f64_exp b = 2047 \<and> f64_mant b \<noteq> 0"

definition f64_is_finite :: "f64 \<Rightarrow> bool" where
  "f64_is_finite b \<longleftrightarrow> f64_exp b \<noteq> 2047"

definition f64_mag :: "f64 \<Rightarrow> nat" where
  "f64_mag b = (if f64_exp b = 0 then f64_mant b else (2 ^ 52 + f64_mant b) * 2 ^ (f64_exp b - 1))"

definition f64_units :: "f64 \<Rightarrow> int" where
  "f64_units b = (if f64_sign b then - int (f64_mag b) else int (f64_mag b))"

text \<open>The IEEE comparisons, false on NaN.\<close>

definition f64_eq :: "f64 \<Rightarrow> f64 \<Rightarrow> bool" where
  "f64_eq a b \<longleftrightarrow> \<not> f64_is_nan a \<and> \<not> f64_is_nan b \<and> f64_units a = f64_units b"

definition f64_lt :: "f64 \<Rightarrow> f64 \<Rightarrow> bool" where
  "f64_lt a b \<longleftrightarrow> \<not> f64_is_nan a \<and> \<not> f64_is_nan b \<and> f64_units a < f64_units b"

definition f64_le :: "f64 \<Rightarrow> f64 \<Rightarrow> bool" where
  "f64_le a b \<longleftrightarrow> \<not> f64_is_nan a \<and> \<not> f64_is_nan b \<and> f64_units a \<le> f64_units b"

text \<open>\<open>x.trunc() == x\<close>, and the integer such an \<open>x\<close> is.\<close>

definition f64_is_integer :: "f64 \<Rightarrow> bool" where
  "f64_is_integer b \<longleftrightarrow> f64_is_finite b \<and> 2 ^ 1074 dvd f64_units b"

definition f64_floor :: "f64 \<Rightarrow> int" where
  "f64_floor b = f64_units b div 2 ^ 1074"

text \<open>The double of an integer below \<open>2 ^ 53\<close> in magnitude (\<open>i32 as f64\<close>): exact.\<close>

fun floor_log2 :: "nat \<Rightarrow> nat" where
  "floor_log2 n = (if n \<le> 1 then 0 else Suc (floor_log2 (n div 2)))"

declare floor_log2.simps [simp del]

definition f64_of_int :: "int \<Rightarrow> f64" where
  "f64_of_int z =
     (if z = 0 then 0
      else
        let n = nat \<bar>z\<bar>;
            k = floor_log2 n;
            m = n * 2 ^ (52 - k) - 2 ^ 52
        in of_nat ((if z < 0 then 2 ^ 63 else 0) + (1023 + k) * 2 ^ 52 + m))"

definition f64_NAN :: f64 where
  "f64_NAN = 0x7FF8000000000000"

definition f64_INFINITY :: f64 where
  "f64_INFINITY = 0x7FF0000000000000"

lemma f64_mant_less: "f64_mant b < 2 ^ 52"
  by (simp add: f64_mant_def)

lemma f64_exp_less: "f64_exp b < 2048"
  by (simp add: f64_exp_def)

lemma floor_log2_bounds: "0 < n \<Longrightarrow> 2 ^ floor_log2 n \<le> n \<and> n < 2 ^ Suc (floor_log2 n)"
proof (induction n rule: floor_log2.induct)
  case (1 n)
  show ?case
  proof (cases "n \<le> 1")
    case True
    then show ?thesis using 1(2) by (simp add: floor_log2.simps)
  next
    case False
    then have "2 ^ floor_log2 (n div 2) \<le> n div 2 \<and> n div 2 < 2 ^ Suc (floor_log2 (n div 2))"
      using 1(1) by simp
    moreover have "floor_log2 n = Suc (floor_log2 (n div 2))"
      using False by (subst floor_log2.simps) simp
    ultimately show ?thesis by auto
  qed
qed

text \<open>The fields of a bit pattern assembled from sign, exponent and mantissa.\<close>

lemma f64_fields:
  fixes s :: bool
  assumes "e < 2048" "m < 2 ^ 52"
  defines "b \<equiv> (of_nat ((if s then 2 ^ 63 else 0) + e * 2 ^ 52 + m) :: f64)"
  shows "f64_sign b = s" "f64_exp b = e" "f64_mant b = m"
proof -
  define v where "v = (if s then 2 ^ 63 else 0) + e * 2 ^ 52 + m"
  have em: "e * 2 ^ 52 + m < 2 ^ 63"
  proof -
    have "Suc e * 2 ^ 52 \<le> 2048 * 2 ^ 52" using assms(1) by (intro mult_le_mono1) simp
    then show ?thesis using assms(2) by simp
  qed
  then have v: "v < 2 ^ 64" by (simp add: v_def split: if_split)
  have u: "unat b = v" using v unfolding b_def v_def [symmetric] by (simp add: unat_of_nat)
  define q where "q = (if s then 2048 else 0) + e"
  have split: "v = q * 2 ^ 52 + m" by (simp add: v_def q_def)
  have "v div 2 ^ 52 = q" using assms(2) unfolding split by simp
  then show "f64_exp b = e" using assms(1) by (simp add: f64_exp_def u q_def)
  show "f64_mant b = m" using assms(2) unfolding f64_mant_def u split by simp
  have "bit b 63 \<longleftrightarrow> odd (unat b div 2 ^ 63)"
  proof -
    have "bit b 63 \<longleftrightarrow> bit (unat b) 63" by (simp add: bit_unsigned_iff)
    then show ?thesis by (simp add: bit_iff_odd)
  qed
  moreover have "v div 2 ^ 63 = (if s then 1 else 0)"
    using em by (auto simp: v_def intro!: div_nat_eqI)
  ultimately show "f64_sign b = s" by (simp add: f64_sign_def u)
qed

lemma f64_of_int_units:
  assumes "\<bar>z\<bar> < 2 ^ 53"
  shows "f64_units (f64_of_int z) = z * 2 ^ 1074" "f64_is_finite (f64_of_int z)"
proof -
  have "f64_units (f64_of_int z) = z * 2 ^ 1074 \<and> f64_is_finite (f64_of_int z)"
  proof (cases "z = 0")
    case True
    then show ?thesis
      by (simp add: f64_of_int_def f64_units_def f64_mag_def f64_exp_def f64_mant_def f64_is_finite_def)
  next
    case False
    define n k where "n = nat \<bar>z\<bar>" and "k = floor_log2 n"
    have n: "0 < n" "n < 2 ^ 53" using False assms by (simp_all add: n_def)
    have k: "2 ^ k \<le> n" "n < 2 ^ Suc k" using floor_log2_bounds [OF n(1)] by (simp_all add: k_def)
    have "(2 :: nat) ^ k < 2 ^ 53" using k(1) n(2) by linarith
    then have k52: "k \<le> 52" using power_less_imp_less_exp [of "2 :: nat" k 53] by linarith
    define m where "m = n * 2 ^ (52 - k) - 2 ^ 52"
    have pk: "(2 :: nat) ^ k * 2 ^ (52 - k) = 2 ^ 52" using k52 by (simp flip: power_add)
    have ge: "2 ^ 52 \<le> n * 2 ^ (52 - k)" using mult_le_mono1 [OF k(1), of "2 ^ (52 - k)"] pk by simp
    have "n * 2 ^ (52 - k) < 2 ^ Suc k * 2 ^ (52 - k)" using k(2) by simp
    then have "n * 2 ^ (52 - k) < 2 * 2 ^ 52" unfolding power_Suc mult.assoc pk .
    then have m: "m < 2 ^ 52" using ge by (simp add: m_def)
    have b: "f64_of_int z = of_nat ((if z < 0 then 2 ^ 63 else 0) + (1023 + k) * 2 ^ 52 + m)"
      using False by (simp add: f64_of_int_def n_def k_def m_def Let_def)
    note f = f64_fields [of "1023 + k" m "z < 0", folded b]
    have mag: "f64_mag (f64_of_int z) = n * 2 ^ 1074"
    proof -
      have "f64_mag (f64_of_int z) = (2 ^ 52 + m) * 2 ^ (1022 + k)"
        using f m k52 by (simp add: f64_mag_def)
      also have "2 ^ 52 + m = n * 2 ^ (52 - k)" using ge by (simp add: m_def)
      also have "n * 2 ^ (52 - k) * 2 ^ (1022 + k) = n * 2 ^ 1074"
        using k52 by (simp add: mult.assoc flip: power_add)
      finally show ?thesis .
    qed
    have "f64_units (f64_of_int z) = (if z < 0 then - int (n * 2 ^ 1074) else int (n * 2 ^ 1074))"
      using f m k52 by (simp only: f64_units_def mag)
    also have "\<dots> = z * 2 ^ 1074" by (simp add: n_def)
    finally show ?thesis using f m k52 by (simp add: f64_is_finite_def)
  qed
  then show "f64_units (f64_of_int z) = z * 2 ^ 1074" "f64_is_finite (f64_of_int z)" by simp_all
qed

subsection \<open>Doubles are determined by their value\<close>

lemma f64_decompose: "unat b = (if f64_sign b then 2 ^ 63 else 0) + f64_exp b * 2 ^ 52 + f64_mant b"
proof -
  define u where "u = unat b"
  have "u < 2 ^ 64" using unsigned_less [of b] by (simp add: u_def)
  then have h: "u div 2 ^ 63 < 2" by simp
  have s: "f64_sign b \<longleftrightarrow> odd (u div 2 ^ 63)"
    using bit_unsigned_iff [where ?'a = nat, of b 63] by (simp add: f64_sign_def u_def bit_iff_odd)
  have d: "u div 2 ^ 52 div 2 ^ 11 = u div 2 ^ 63" by (simp add: div_mult2_eq [symmetric])
  have "u = u div 2 ^ 52 * 2 ^ 52 + u mod 2 ^ 52" by simp
  also have "u div 2 ^ 52 = u div 2 ^ 63 * 2 ^ 11 + u div 2 ^ 52 mod 2 ^ 11"
    using div_mult_mod_eq [of "u div 2 ^ 52" "2 ^ 11", symmetric] unfolding d .
  finally have e: "u = u div 2 ^ 63 * 2 ^ 63 + f64_exp b * 2 ^ 52 + f64_mant b"
    by (simp add: f64_exp_def f64_mant_def u_def distrib_right)
  have "k = (if odd k then 1 else 0)" if "k < 2" for k :: nat using that by (cases k) auto
  then have "u div 2 ^ 63 = (if f64_sign b then 1 else 0)" using h s by metis
  then show ?thesis using e unfolding u_def by (simp split: if_splits)
qed

lemma f64_eqI:
  "f64_sign a = f64_sign b \<Longrightarrow> f64_exp a = f64_exp b \<Longrightarrow> f64_mant a = f64_mant b \<Longrightarrow> a = b"
  using f64_decompose [of a] f64_decompose [of b] by (simp only: word_unat_eq_iff)

lemma f64_mag_bounds:
  assumes "f64_exp b \<noteq> 0"
  shows "2 ^ (f64_exp b + 51) \<le> f64_mag b" "f64_mag b < 2 ^ (f64_exp b + 52)"
proof -
  obtain e where e: "f64_exp b = Suc e" using assms by (cases "f64_exp b") auto
  then have m: "f64_mag b = (2 ^ 52 + f64_mant b) * 2 ^ e" by (simp add: f64_mag_def)
  have "2 ^ 52 * 2 ^ e \<le> f64_mag b" unfolding m by (intro mult_le_mono1) simp
  then show "2 ^ (f64_exp b + 51) \<le> f64_mag b" by (simp add: e power_add)
  have "f64_mag b < 2 ^ 53 * 2 ^ e" unfolding m using f64_mant_less [of b] by (intro mult_strict_right_mono) simp_all
  then show "f64_mag b < 2 ^ (f64_exp b + 52)" by (simp add: e power_add)
qed

lemma f64_mag_le_subnormal: "f64_exp b = 0 \<Longrightarrow> f64_mag b < 2 ^ 52"
  using f64_mant_less [of b] by (simp add: f64_mag_def)

lemma f64_mag_exp_mono:
  assumes "f64_exp a < f64_exp b"
  shows "f64_mag a < f64_mag b"
proof -
  have b: "2 ^ (f64_exp b + 51) \<le> f64_mag b" using assms by (intro f64_mag_bounds) simp
  have "f64_mag a < 2 ^ (f64_exp b + 51)"
  proof (cases "f64_exp a = 0")
    case True
    have "f64_mag a < 2 ^ 52" by (rule f64_mag_le_subnormal [OF True])
    also have "(2 :: nat) ^ 52 \<le> 2 ^ (f64_exp b + 51)" using assms by (intro power_increasing) simp_all
    finally show ?thesis .
  next
    case False
    then have "f64_mag a < 2 ^ (f64_exp a + 52)" by (rule f64_mag_bounds)
    also have "(2 :: nat) ^ (f64_exp a + 52) \<le> 2 ^ (f64_exp b + 51)" using assms by (intro power_increasing) simp_all
    finally show ?thesis .
  qed
  with b show ?thesis by linarith
qed

lemma f64_mag_inject:
  assumes "f64_mag a = f64_mag b"
  shows "f64_exp a = f64_exp b" "f64_mant a = f64_mant b"
proof -
  show e: "f64_exp a = f64_exp b"
    using f64_mag_exp_mono [of a b] f64_mag_exp_mono [of b a] assms by linarith
  show "f64_mant a = f64_mant b" using assms e by (simp add: f64_mag_def split: if_splits)
qed

lemma f64_units_inject:
  assumes "f64_units a = f64_units b" "f64_units a \<noteq> 0"
  shows "a = b"
proof -
  have "f64_sign a = f64_sign b" "f64_mag a = f64_mag b"
    using assms by (auto simp: f64_units_def split: if_splits)
  then show ?thesis by (intro f64_eqI f64_mag_inject)
qed

lemma f64_mag_0_iff: "f64_mag b = 0 \<longleftrightarrow> b = 0 \<or> b = 0x8000000000000000"
proof
  assume "f64_mag b = 0"
  then have "f64_exp b = 0" "f64_mant b = 0" by (auto simp: f64_mag_def split: if_splits)
  then have "unat b = 0 \<or> unat b = 0x8000000000000000" using f64_decompose [of b] by (simp split: if_splits)
  then show "b = 0 \<or> b = 0x8000000000000000" by (auto simp: word_unat_eq_iff)
qed (auto simp: f64_mag_def f64_exp_def f64_mant_def)

lemma f64_eq_iff:
  "f64_eq a b \<longleftrightarrow> \<not> f64_is_nan a \<and> \<not> f64_is_nan b \<and> (a = b \<or> f64_mag a = 0 \<and> f64_mag b = 0)"
proof -
  have "f64_units x = 0 \<longleftrightarrow> f64_mag x = 0" for x by (simp add: f64_units_def)
  then show ?thesis using f64_units_inject [of a b] unfolding f64_eq_def by metis
qed

end
