(* ===== verification/NaN_Box.thy ===== *)
theory NaN_Box
  imports F64
begin

text \<open>
  The NaN-boxed value representation: the tag constants of
  \<open>crates/perry-runtime/src/value/tags.rs\<close>, the constructors, predicates and accessors of
  \<open>JSValue\<close> (\<open>value/jsvalue.rs\<close>), and the pack and unpack helpers called from generated
  code (\<open>value/nanbox.rs\<close>). A \<open>JSValue\<close> is its 64 bits. The abstract reading
  \<open>js_view\<close> says which JavaScript value a bit pattern denotes; the predicates and accessors are
  shown to agree with it.
\<close>

type_synonym jsvalue = "64 word"

subsection \<open>Tags\<close>

definition TAG_MARKER :: u64 where "TAG_MARKER = 0x7FFC000000000000"
definition TAG_UNDEFINED :: u64 where "TAG_UNDEFINED = 0x7FFC000000000001"
definition TAG_NULL :: u64 where "TAG_NULL = 0x7FFC000000000002"
definition TAG_FALSE :: u64 where "TAG_FALSE = 0x7FFC000000000003"
definition TAG_TRUE :: u64 where "TAG_TRUE = 0x7FFC000000000004"
definition TAG_HOLE :: u64 where "TAG_HOLE = 0x7FFC000000000010"
definition TAG_TDZ :: u64 where "TAG_TDZ = 0x7FFC000000000011"
definition POINTER_TAG :: u64 where "POINTER_TAG = 0x7FFD000000000000"
definition POINTER_MASK :: u64 where "POINTER_MASK = 0x0000FFFFFFFFFFFF"
definition INT32_TAG :: u64 where "INT32_TAG = 0x7FFE000000000000"
definition INT32_MASK :: u64 where "INT32_MASK = 0x00000000FFFFFFFF"
definition STRING_TAG :: u64 where "STRING_TAG = 0x7FFF000000000000"
definition SHORT_STRING_TAG :: u64 where "SHORT_STRING_TAG = 0x7FF9000000000000"
definition SHORT_STRING_LEN_SHIFT :: nat where "SHORT_STRING_LEN_SHIFT = 40"
definition SHORT_STRING_LEN_MASK :: u64 where "SHORT_STRING_LEN_MASK = 0x0000FF0000000000"
definition SHORT_STRING_DATA_MASK :: u64 where "SHORT_STRING_DATA_MASK = 0x000000FFFFFFFFFF"
definition SHORT_STRING_MAX_LEN :: nat where "SHORT_STRING_MAX_LEN = 5"
definition BIGINT_TAG :: u64 where "BIGINT_TAG = 0x7FFA000000000000"
definition JS_HANDLE_TAG :: u64 where "JS_HANDLE_TAG = 0x7FFB000000000000"
definition TAG_MASK :: u64 where "TAG_MASK = 0xFFFF000000000000"

lemmas tag_defs = TAG_MARKER_def TAG_UNDEFINED_def TAG_NULL_def TAG_FALSE_def TAG_TRUE_def TAG_HOLE_def
  TAG_TDZ_def POINTER_TAG_def POINTER_MASK_def INT32_TAG_def INT32_MASK_def STRING_TAG_def
  SHORT_STRING_TAG_def SHORT_STRING_LEN_MASK_def SHORT_STRING_DATA_MASK_def BIGINT_TAG_def
  JS_HANDLE_TAG_def TAG_MASK_def

subsection \<open>\<open>JSValue\<close>\<close>

definition js_undefined :: jsvalue where "js_undefined = TAG_UNDEFINED"

definition js_null :: jsvalue where "js_null = TAG_NULL"

definition js_bool :: "bool \<Rightarrow> jsvalue" where
  "js_bool value = (if value then TAG_TRUE else TAG_FALSE)"

definition js_number :: "f64 \<Rightarrow> jsvalue" where
  "js_number value = value"

text \<open>An \<open>i32\<close> is an integer; \<open>value as u32 as u64\<close> is its residue.\<close>

definition js_int32 :: "int \<Rightarrow> jsvalue" where
  "js_int32 value = INT32_TAG OR ucast (word_of_int value :: u32)"

definition js_pointer :: "addr \<Rightarrow> jsvalue" where
  "js_pointer ptr = POINTER_TAG OR (ptr AND POINTER_MASK)"

definition is_number :: "jsvalue \<Rightarrow> bool" where
  "is_number v = (let tag = v AND TAG_MASK in \<not> (SHORT_STRING_TAG \<le> tag \<and> tag \<le> STRING_TAG))"

definition is_undefined :: "jsvalue \<Rightarrow> bool" where
  "is_undefined v = (v = TAG_UNDEFINED)"

definition is_null :: "jsvalue \<Rightarrow> bool" where
  "is_null v = (v = TAG_NULL)"

definition is_bool :: "jsvalue \<Rightarrow> bool" where
  "is_bool v = (v = TAG_TRUE \<or> v = TAG_FALSE)"

definition is_int32 :: "jsvalue \<Rightarrow> bool" where
  "is_int32 v = (v AND NOT INT32_MASK = INT32_TAG)"

definition is_pointer :: "jsvalue \<Rightarrow> bool" where
  "is_pointer v = (v AND NOT POINTER_MASK = POINTER_TAG)"

definition is_string :: "jsvalue \<Rightarrow> bool" where
  "is_string v = (v AND NOT POINTER_MASK = STRING_TAG)"

definition is_any_string :: "jsvalue \<Rightarrow> bool" where
  "is_any_string v = (let tag = v AND TAG_MASK in tag = STRING_TAG \<or> tag = SHORT_STRING_TAG)"

definition is_short_string :: "jsvalue \<Rightarrow> bool" where
  "is_short_string v = (v AND TAG_MASK = SHORT_STRING_TAG)"

definition is_bigint :: "jsvalue \<Rightarrow> bool" where
  "is_bigint v = (v AND NOT POINTER_MASK = BIGINT_TAG)"

definition is_js_handle :: "jsvalue \<Rightarrow> bool" where
  "is_js_handle v = (v AND TAG_MASK = JS_HANDLE_TAG)"

definition as_number :: "jsvalue \<Rightarrow> f64" where
  "as_number v = v"

definition as_bool :: "jsvalue \<Rightarrow> bool" where
  "as_bool v = (v = TAG_TRUE)"

definition as_int32 :: "jsvalue \<Rightarrow> int" where
  "as_int32 v = sint (ucast (v AND INT32_MASK) :: u32)"

definition as_pointer :: "jsvalue \<Rightarrow> addr" where
  "as_pointer v = v AND POINTER_MASK"

definition to_number :: "jsvalue \<Rightarrow> f64" where
  "to_number v =
     (if is_number v then as_number v
      else if is_int32 v then f64_of_int (as_int32 v)
      else if is_bool v then (if as_bool v then f64_of_int 1 else f64_of_int 0)
      else if is_null v then f64_of_int 0
      else if is_undefined v then f64_NAN
      else f64_NAN)"

definition to_bool :: "jsvalue \<Rightarrow> bool" where
  "to_bool v =
     (if is_bool v then as_bool v
      else if is_number v then
        (let n = as_number v in \<not> f64_eq n 0 \<and> \<not> f64_is_nan n)
      else if is_int32 v then as_int32 v \<noteq> 0
      else if is_null v \<or> is_undefined v then False
      else True)"

definition js_string_ptr :: "addr \<Rightarrow> jsvalue" where
  "js_string_ptr ptr = STRING_TAG OR (ptr AND POINTER_MASK)"

fun short_string_payload :: "nat \<Rightarrow> u8 list \<Rightarrow> u64 \<Rightarrow> u64" where
  "short_string_payload i [] payload = payload"
| "short_string_payload i (b # bytes) payload =
     short_string_payload (Suc i) bytes (payload OR push_bit (i * 8) (ucast b))"

definition try_short_string :: "u8 list \<Rightarrow> jsvalue option" where
  "try_short_string bytes =
     (if length bytes > SHORT_STRING_MAX_LEN then None
      else
        let payload = short_string_payload 0 bytes 0;
            len_bits = push_bit SHORT_STRING_LEN_SHIFT (of_nat (length bytes))
        in Some (SHORT_STRING_TAG OR len_bits OR payload))"

definition short_string_len :: "jsvalue \<Rightarrow> nat" where
  "short_string_len v = unat (drop_bit SHORT_STRING_LEN_SHIFT (v AND SHORT_STRING_LEN_MASK))"

text \<open>
  The bytes \<open>short_string_to_buf\<close> writes; writing past the five-byte buffer panics, the value
  \<open>None\<close>.
\<close>

definition short_string_to_buf :: "jsvalue \<Rightarrow> u8 list option" where
  "short_string_to_buf v =
     (let len = short_string_len v;
          data = v AND SHORT_STRING_DATA_MASK
      in if len > SHORT_STRING_MAX_LEN then None
         else Some (map (\<lambda>i. ucast (drop_bit (i * 8) data AND 0xFF)) [0..<len]))"

definition as_string_ptr :: "jsvalue \<Rightarrow> addr" where
  "as_string_ptr v = v AND POINTER_MASK"

definition js_bigint_ptr :: "addr \<Rightarrow> jsvalue" where
  "js_bigint_ptr ptr = BIGINT_TAG OR (ptr AND POINTER_MASK)"

definition as_bigint_ptr :: "jsvalue \<Rightarrow> addr" where
  "as_bigint_ptr v = v AND POINTER_MASK"

subsection \<open>Pack and unpack helpers\<close>

definition js_nanbox_pointer :: "u64 \<Rightarrow> jsvalue" where
  "js_nanbox_pointer ptr =
     (if ptr = 0 then TAG_NULL
      else if ptr AND 0xFFF0000000000000 \<ge> 0x7FF0000000000000 then ptr
      else js_pointer ptr)"

definition nanbox_string_key :: "addr \<Rightarrow> jsvalue" where
  "nanbox_string_key ptr = js_string_ptr ptr"

definition js_nanbox_bigint :: "addr \<Rightarrow> jsvalue" where
  "js_nanbox_bigint ptr = js_bigint_ptr ptr"

definition js_nanbox_is_bigint :: "jsvalue \<Rightarrow> int" where
  "js_nanbox_is_bigint v = (if is_bigint v then 1 else 0)"

definition js_nanbox_get_bigint :: "jsvalue \<Rightarrow> u64" where
  "js_nanbox_get_bigint v =
     (if is_bigint v then as_bigint_ptr v else if f64_is_nan v then 0 else v)"

definition js_nanbox_is_pointer :: "jsvalue \<Rightarrow> int" where
  "js_nanbox_is_pointer v = (if is_pointer v then 1 else 0)"

definition js_nanbox_get_pointer :: "jsvalue \<Rightarrow> u64" where
  "js_nanbox_get_pointer v =
     (if is_pointer v then as_pointer v
      else if is_string v then as_string_ptr v
      else if is_bigint v then as_bigint_ptr v
      else if v AND TAG_MASK = JS_HANDLE_TAG then v AND POINTER_MASK
      else if v \<noteq> 0 \<and> v \<le> POINTER_MASK then
        (let upper = drop_bit 48 v
         in if upper = 0 \<or> (upper > 0 \<and> upper < 0x7FF0) then v else 0)
      else 0)"

definition js_nanbox_get_string_pointer :: "jsvalue \<Rightarrow> u64" where
  "js_nanbox_get_string_pointer v = (if is_string v then as_string_ptr v else 0)"

definition js_nanbox_is_string :: "jsvalue \<Rightarrow> int" where
  "js_nanbox_is_string v = (if is_string v then 1 else 0)"

text \<open>The guard of the native field writes.\<close>

definition int_roundtrips_exact :: "f64 \<Rightarrow> int \<Rightarrow> int \<Rightarrow> bool" where
  "int_roundtrips_exact number min_inclusive max_exclusive =
     (if \<not> f64_is_finite number
         \<or> f64_units number < min_inclusive * 2 ^ 1074
         \<or> f64_units number \<ge> max_exclusive * 2 ^ 1074
         \<or> \<not> f64_is_integer number then False
      else if f64_units number = 0 \<and> f64_sign number then False
      else True)"

definition uint_roundtrips_exact :: "f64 \<Rightarrow> int \<Rightarrow> bool" where
  "uint_roundtrips_exact number max_exclusive =
     (if \<not> f64_is_finite number
         \<or> f64_units number < 0
         \<or> f64_units number \<ge> max_exclusive * 2 ^ 1074
         \<or> \<not> f64_is_integer number then False
      else if f64_units number = 0 \<and> f64_sign number then False
      else True)"

text \<open>
  \<open>number as f32 as f64\<close> rounds the magnitude to 24 significant bits (fewer below the normal
  range of \<open>f32\<close>), ties to even, and overflows to infinity; the sign is kept.
\<close>

definition round_half_even :: "nat \<Rightarrow> nat \<Rightarrow> nat" where
  "round_half_even n shift =
     (let kept = n div 2 ^ shift; rest = n mod 2 ^ shift
      in if 2 * rest > 2 ^ shift \<or> (2 * rest = 2 ^ shift \<and> odd kept) then kept + 1 else kept)"

definition f32_round_mag :: "nat \<Rightarrow> nat option" where
  "f32_round_mag n =
     (let shift = max (floor_log2 n - 23) 925;
          v = round_half_even n shift * 2 ^ shift
      in if v \<ge> 2 ^ 1202 then None else Some v)"

definition f32_roundtrips_exact :: "f64 \<Rightarrow> bool" where
  "f32_roundtrips_exact number =
     (if f64_is_nan number then False
      else if \<not> f64_is_finite number then True
      else f32_round_mag (f64_mag number) = Some (f64_mag number))"

definition js_pod_scalar_write_compatible :: "jsvalue \<Rightarrow> int \<Rightarrow> int" where
  "js_pod_scalar_write_compatible v native_rep =
     (if \<not> is_number v then 0
      else
        let number = as_number v;
            compatible =
              (if native_rep = 11 then int_roundtrips_exact number (- (2 ^ 7)) (2 ^ 7)
               else if native_rep = 12 then int_roundtrips_exact number (- (2 ^ 15)) (2 ^ 15)
               else if native_rep = 10 then uint_roundtrips_exact number 256
               else if native_rep = 13 then uint_roundtrips_exact number 65536
               else if native_rep = 1 then int_roundtrips_exact number (- (2 ^ 31)) (2 ^ 31)
               else if native_rep = 2 then int_roundtrips_exact number (- (2 ^ 63)) (2 ^ 63)
               else if native_rep = 14 then int_roundtrips_exact number (- (2 ^ 63)) (2 ^ 63)
               else if native_rep = 3 \<or> native_rep = 8 then uint_roundtrips_exact number (2 ^ 32)
               else if native_rep = 4 \<or> native_rep = 5 \<or> native_rep = 9 then uint_roundtrips_exact number (2 ^ 64)
               else if native_rep = 6 then True
               else if native_rep = 7 then f32_roundtrips_exact number
               else False)
        in if compatible then 1 else 0)"

subsection \<open>The abstract reading\<close>

datatype js_view =
    VNumber f64
  | VUndefined
  | VNull
  | VBool bool
  | VInt32 int
  | VPointer addr
  | VString addr
  | VShort nat u64
  | VBigInt addr
  | VHandle addr
  | VReserved u64

text \<open>The reading is by the top sixteen bits alone, in the order of the tag table.\<close>

definition js_view :: "jsvalue \<Rightarrow> js_view" where
  "js_view v =
     (let tag = unat (drop_bit 48 v); payload = v AND POINTER_MASK
      in if tag < 0x7FF9 \<or> tag > 0x7FFF then VNumber v
         else if tag = 0x7FF9 then VShort (unat (drop_bit 40 payload)) (take_bit 40 v)
         else if tag = 0x7FFA then VBigInt payload
         else if tag = 0x7FFB then VHandle payload
         else if tag = 0x7FFC then
           (if payload = 1 then VUndefined else if payload = 2 then VNull
            else if payload = 3 then VBool False else if payload = 4 then VBool True else VReserved payload)
         else if tag = 0x7FFD then VPointer payload
         else if tag = 0x7FFE then
           (if drop_bit 32 payload = 0 then VInt32 (sint (ucast payload :: u32)) else VReserved v)
         else VString payload)"

subsection \<open>Tags as the top sixteen bits\<close>

definition tag16 :: "jsvalue \<Rightarrow> nat" where
  "tag16 v = unat (drop_bit 48 v)"

lemma bit_unat: "bit (unat (w :: u64)) n \<longleftrightarrow> bit w n"
  by (simp add: bit_unsigned_iff)

lemma tag_mask_not: "TAG_MASK = NOT (mask 48)" "NOT POINTER_MASK = NOT (mask 48)" "POINTER_MASK = mask 48"
  "INT32_MASK = mask 32" "SHORT_STRING_DATA_MASK = mask 40"
  by (simp_all add: tag_defs mask_eq_exp_minus_1)

lemma unat_and_not_mask: "unat (v AND NOT (mask k) :: u64) = unat v div 2 ^ k * 2 ^ k"
proof -
  have "v AND NOT (mask k) = push_bit k (drop_bit k v)"
    by (rule bit_word_eqI) (auto simp: bit_and_iff bit_not_iff bit_mask_iff bit_push_bit_iff bit_drop_bit_eq)
  moreover have "unat v div 2 ^ k * 2 ^ k < 2 ^ 64"
    using le_less_trans [OF _ unsigned_less [of v], of "unat v div 2 ^ k * 2 ^ k"] by simp
  ultimately show ?thesis
    by (simp only: unsigned_push_bit_eq)
      (simp add: unat_drop_bit_div take_bit_nat_eq_self push_bit_eq_mult)
qed

lemma unat_tag: "unat (v AND TAG_MASK) = tag16 v * 2 ^ 48" "unat (v AND NOT POINTER_MASK) = tag16 v * 2 ^ 48"
  unfolding tag_mask_not unat_and_not_mask by (simp_all add: tag16_def unat_drop_bit_div)

lemma tag_eq_iff:
  "v AND TAG_MASK = c \<longleftrightarrow> tag16 v * 2 ^ 48 = unat c"
  "v AND NOT POINTER_MASK = c \<longleftrightarrow> tag16 v * 2 ^ 48 = unat c"
  by (simp_all only: word_unat_eq_iff unat_tag)

lemma is_tag16:
  "is_number v \<longleftrightarrow> tag16 v < 0x7FF9 \<or> tag16 v > 0x7FFF"
  "is_pointer v \<longleftrightarrow> tag16 v = 0x7FFD"
  "is_string v \<longleftrightarrow> tag16 v = 0x7FFF"
  "is_any_string v \<longleftrightarrow> tag16 v = 0x7FFF \<or> tag16 v = 0x7FF9"
  "is_short_string v \<longleftrightarrow> tag16 v = 0x7FF9"
  "is_bigint v \<longleftrightarrow> tag16 v = 0x7FFA"
  "is_js_handle v \<longleftrightarrow> tag16 v = 0x7FFB"
proof -
  have "(0x7FF9 :: nat) * 2 ^ 48 \<le> t * 2 ^ 48 \<longleftrightarrow> 0x7FF9 \<le> t" "t * 2 ^ 48 \<le> (0x7FFF :: nat) * 2 ^ 48 \<longleftrightarrow> t \<le> 0x7FFF" for t
    by (simp_all only: mult_le_cancel2) simp_all
  then show "is_number v \<longleftrightarrow> tag16 v < 0x7FF9 \<or> tag16 v > 0x7FFF"
    unfolding is_number_def Let_def word_le_nat_alt unat_tag by (auto simp: SHORT_STRING_TAG_def STRING_TAG_def)
  have eq: "t * 2 ^ 48 = (c :: nat) * 2 ^ 48 \<longleftrightarrow> t = c" for t c by simp
  show "is_pointer v \<longleftrightarrow> tag16 v = 0x7FFD"
    unfolding is_pointer_def tag_eq_iff using eq [of "tag16 v" "0x7FFD"] by (simp add: POINTER_TAG_def)
  show "is_string v \<longleftrightarrow> tag16 v = 0x7FFF"
    unfolding is_string_def tag_eq_iff using eq [of "tag16 v" "0x7FFF"] by (simp add: STRING_TAG_def)
  show "is_any_string v \<longleftrightarrow> tag16 v = 0x7FFF \<or> tag16 v = 0x7FF9"
    unfolding is_any_string_def Let_def tag_eq_iff using eq [of "tag16 v" "0x7FFF"] eq [of "tag16 v" "0x7FF9"]
    by (simp add: STRING_TAG_def SHORT_STRING_TAG_def)
  show "is_short_string v \<longleftrightarrow> tag16 v = 0x7FF9"
    unfolding is_short_string_def tag_eq_iff using eq [of "tag16 v" "0x7FF9"] by (simp add: SHORT_STRING_TAG_def)
  show "is_bigint v \<longleftrightarrow> tag16 v = 0x7FFA"
    unfolding is_bigint_def tag_eq_iff using eq [of "tag16 v" "0x7FFA"] by (simp add: BIGINT_TAG_def)
  show "is_js_handle v \<longleftrightarrow> tag16 v = 0x7FFB"
    unfolding is_js_handle_def tag_eq_iff using eq [of "tag16 v" "0x7FFB"] by (simp add: JS_HANDLE_TAG_def)
qed

lemma jsvalue_eq_iff: "v = w \<longleftrightarrow> tag16 v = tag16 w \<and> v AND POINTER_MASK = w AND POINTER_MASK"
proof
  assume a: "tag16 v = tag16 w \<and> v AND POINTER_MASK = w AND POINTER_MASK"
  have "v = push_bit 48 (drop_bit 48 v) OR (v AND POINTER_MASK)" for v :: jsvalue
    unfolding tag_mask_not
    by (rule bit_word_eqI) (auto simp: bit_or_iff bit_push_bit_iff bit_drop_bit_eq bit_and_iff bit_mask_iff not_less)
  moreover have "drop_bit 48 v = drop_bit 48 w" using a by (simp add: tag16_def word_unat_eq_iff)
  ultimately show "v = w" using a by metis
qed simp

lemma is_singleton:
  "is_undefined v \<longleftrightarrow> tag16 v = 0x7FFC \<and> v AND POINTER_MASK = 1"
  "is_null v \<longleftrightarrow> tag16 v = 0x7FFC \<and> v AND POINTER_MASK = 2"
  "v = TAG_FALSE \<longleftrightarrow> tag16 v = 0x7FFC \<and> v AND POINTER_MASK = 3"
  "v = TAG_TRUE \<longleftrightarrow> tag16 v = 0x7FFC \<and> v AND POINTER_MASK = 4"
  unfolding is_undefined_def is_null_def
  by (subst jsvalue_eq_iff; simp add: tag16_def tag_defs)+

lemma is_int32_iff: "is_int32 v \<longleftrightarrow> tag16 v = 0x7FFE \<and> drop_bit 32 (v AND POINTER_MASK) = 0"
proof -
  define h where "h = unat v div 2 ^ 32"
  have "is_int32 v \<longleftrightarrow> h * 2 ^ 32 = 0x7FFE0000 * 2 ^ 32"
    unfolding is_int32_def tag_mask_not word_unat_eq_iff unat_and_not_mask h_def by (simp add: INT32_TAG_def)
  also have "\<dots> \<longleftrightarrow> h = 0x7FFE0000" by simp
  also have "\<dots> \<longleftrightarrow> h div 2 ^ 16 = 0x7FFE \<and> h mod 2 ^ 16 = 0"
    using div_mult_mod_eq [of h "2 ^ 16"] by auto
  also have "h div 2 ^ 16 = tag16 v"
    by (simp add: h_def tag16_def unat_drop_bit_div div_mult2_eq [symmetric])
  also have "h mod 2 ^ 16 = 0 \<longleftrightarrow> drop_bit 32 (v AND POINTER_MASK) = 0"
  proof -
    have "drop_bit 32 (v AND POINTER_MASK) = take_bit 16 (drop_bit 32 v)"
      unfolding tag_mask_not
      by (rule bit_word_eqI) (auto simp: bit_and_iff bit_mask_iff bit_drop_bit_eq bit_take_bit_iff)
    then have "unat (drop_bit 32 (v AND POINTER_MASK)) = h mod 2 ^ 16"
      by (simp add: unat_take_bit_mod unat_drop_bit_div h_def)
    then show ?thesis by (metis unat_eq_zero)
  qed
  finally show ?thesis .
qed

lemma as_int32_payload: "as_int32 v = sint (ucast (v AND POINTER_MASK) :: u32)"
proof -
  have "(ucast (v AND INT32_MASK) :: u32) = ucast (v AND POINTER_MASK)"
    unfolding tag_mask_not by (rule bit_word_eqI) (auto simp: bit_ucast_iff bit_and_iff bit_mask_iff)
  then show ?thesis by (simp add: as_int32_def)
qed

lemmas view_simps = js_view_def Let_def tag16_def [symmetric]

text \<open>The predicates and accessors of \<open>JSValue\<close> are the discriminators and selectors of the reading.\<close>

lemma predicates_view:
  "is_number v \<longleftrightarrow> js_view v = VNumber v"
  "is_undefined v \<longleftrightarrow> js_view v = VUndefined"
  "is_null v \<longleftrightarrow> js_view v = VNull"
  "is_bool v \<longleftrightarrow> js_view v = VBool (as_bool v)"
  "is_int32 v \<longleftrightarrow> js_view v = VInt32 (as_int32 v)"
  "is_pointer v \<longleftrightarrow> js_view v = VPointer (as_pointer v)"
  "is_string v \<longleftrightarrow> js_view v = VString (as_string_ptr v)"
  "is_bigint v \<longleftrightarrow> js_view v = VBigInt (as_bigint_ptr v)"
  "is_js_handle v \<longleftrightarrow> js_view v = VHandle (v AND POINTER_MASK)"
  unfolding is_tag16 is_singleton is_bool_def is_int32_iff as_bool_def as_int32_payload as_pointer_def
    as_string_ptr_def as_bigint_ptr_def view_simps
  by (auto simp del: drop_bit_and)

subsection \<open>Constructors\<close>

lemma tag_or_payload:
  assumes "c = push_bit 48 (of_nat k)" "k < 2 ^ 16"
  shows "tag16 (c OR (p AND POINTER_MASK)) = k" "(c OR (p AND POINTER_MASK)) AND POINTER_MASK = p AND POINTER_MASK"
proof -
  have "drop_bit 48 (c OR (p AND POINTER_MASK)) = of_nat k"
  proof (rule bit_word_eqI)
    fix n assume "n < LENGTH(64)"
    have "bit (of_nat k :: u64) m \<Longrightarrow> m < 16" for m
      using assms(2) bit_take_bit_iff [of 16 k m] bit_unat [of "of_nat k" m]
      by (simp add: take_bit_nat_eq_self unat_of_nat)
    then show "bit (drop_bit 48 (c OR (p AND POINTER_MASK))) n \<longleftrightarrow> bit (of_nat k :: u64) n"
      unfolding tag_mask_not assms(1)
      by (auto simp: bit_drop_bit_eq bit_or_iff bit_and_iff bit_mask_iff bit_push_bit_iff)
  qed
  then show "tag16 (c OR (p AND POINTER_MASK)) = k" using assms(2) by (simp add: tag16_def unat_of_nat)
  show "(c OR (p AND POINTER_MASK)) AND POINTER_MASK = p AND POINTER_MASK"
    unfolding tag_mask_not assms(1)
    by (rule bit_word_eqI) (auto simp: bit_or_iff bit_and_iff bit_mask_iff bit_push_bit_iff)
qed

lemma tags_push_bit:
  "POINTER_TAG = push_bit 48 (of_nat 0x7FFD)" "STRING_TAG = push_bit 48 (of_nat 0x7FFF)"
  "BIGINT_TAG = push_bit 48 (of_nat 0x7FFA)" "INT32_TAG = push_bit 48 (of_nat 0x7FFE)"
  "SHORT_STRING_TAG = push_bit 48 (of_nat 0x7FF9)"
  by (simp_all add: tag_defs)

lemma bit_short_string_tag: "bit SHORT_STRING_TAG n \<Longrightarrow> 48 \<le> n"
  unfolding tags_push_bit bit_push_bit_iff by (erule conjunct1)

lemma view_pointer: "js_view (js_pointer p) = VPointer (p AND POINTER_MASK)"
  unfolding js_pointer_def view_simps using tag_or_payload [OF tags_push_bit(1), of p] by simp

lemma view_string_ptr: "js_view (js_string_ptr p) = VString (p AND POINTER_MASK)"
  unfolding js_string_ptr_def view_simps using tag_or_payload [OF tags_push_bit(2), of p] by simp

lemma view_bigint_ptr: "js_view (js_bigint_ptr p) = VBigInt (p AND POINTER_MASK)"
  unfolding js_bigint_ptr_def view_simps using tag_or_payload [OF tags_push_bit(3), of p] by simp

lemma view_int32:
  assumes "- (2 ^ 31) \<le> z" "z < 2 ^ 31"
  shows "js_view (js_int32 z) = VInt32 z"
proof -
  define p where "p = (ucast (word_of_int z :: u32) :: u64)"
  have mask: "p AND POINTER_MASK = p"
    unfolding tag_mask_not p_def by (rule bit_word_eqI) (auto simp: bit_and_iff bit_mask_iff bit_ucast_iff dest: bit_imp_le_length)
  have "drop_bit 32 p = 0"
    unfolding p_def by (rule bit_word_eqI) (auto simp: bit_drop_bit_eq bit_ucast_iff dest: bit_imp_le_length)
  moreover have "sint (ucast p :: u32) = z"
  proof -
    have "(ucast p :: u32) = word_of_int z"
      unfolding p_def by (rule bit_word_eqI) (simp add: bit_ucast_iff)
    then show ?thesis using assms by (simp add: signed_of_int signed_take_bit_int_eq_self)
  qed
  ultimately show ?thesis
    unfolding js_int32_def p_def [symmetric] view_simps
    using tag_or_payload [OF tags_push_bit(4), of p] mask by simp
qed

lemma view_number: "\<not> f64_is_nan n \<or> n = f64_NAN \<Longrightarrow> js_view (js_number n) = VNumber n"
proof -
  assume n: "\<not> f64_is_nan n \<or> n = f64_NAN"
  have "f64_is_nan n" if t: "0x7FF9 \<le> tag16 n" "tag16 n \<le> 0x7FFF"
  proof -
    define u where "u = unat n"
    have hi: "u div 2 ^ 48 = tag16 n" by (simp add: u_def tag16_def unat_drop_bit_div)
    have "u div 2 ^ 52 = tag16 n div 2 ^ 4" unfolding hi [symmetric] by (simp add: div_mult2_eq [symmetric])
    also have "\<dots> = 0x7FF" using t by (intro div_nat_eqI) simp_all
    finally have "f64_exp n = 2047" by (simp add: f64_exp_def u_def)
    moreover have "u mod 2 ^ 52 \<noteq> 0"
    proof
      assume "u mod 2 ^ 52 = 0"
      then have "u = 2 ^ 52 * 0x7FF" using \<open>u div 2 ^ 52 = tag16 n div 2 ^ 4\<close> \<open>tag16 n div 2 ^ 4 = 0x7FF\<close>
          mult_div_mod_eq [of "2 ^ 52" u] by simp
      then show False using hi t by simp
    qed
    ultimately show ?thesis by (simp add: f64_is_nan_def f64_mant_def u_def)
  qed
  moreover have "tag16 f64_NAN = 0x7FF8" by (simp add: tag16_def f64_NAN_def)
  ultimately show ?thesis using n unfolding js_number_def view_simps by fastforce
qed

lemma view_singletons:
  "js_view js_undefined = VUndefined" "js_view js_null = VNull" "js_view (js_bool b) = VBool b"
  using predicates_view(2) [of js_undefined] predicates_view(3) [of js_null] predicates_view(4) [of "js_bool b"]
  by (auto simp: js_undefined_def is_undefined_def js_null_def is_null_def js_bool_def is_bool_def as_bool_def tag_defs)

subsection \<open>Short strings\<close>

lemma bit_short_string_payload:
  "n < 64 \<Longrightarrow> bit (short_string_payload i bytes p) n
    \<longleftrightarrow> bit p n \<or> (i \<le> n div 8 \<and> n div 8 < i + length bytes \<and> bit (bytes ! (n div 8 - i)) (n mod 8))"
proof (induction i bytes p rule: short_string_payload.induct)
  case (2 i b bytes p)
  have b: "bit b k \<Longrightarrow> k < 8" for k using bit_imp_le_length [of b k] by simp
  have "bit (push_bit (i * 8) (ucast b) :: u64) n \<longleftrightarrow> n div 8 = i \<and> bit b (n mod 8)"
  proof (cases "n div 8 = i")
    case True
    then have "n = i * 8 + n mod 8" by (metis div_mult_mod_eq)
    then have "i * 8 \<le> n" "n - i * 8 = n mod 8" by linarith+
    moreover have "n mod 8 < 64" using mod_less_divisor [of 8 n] by linarith
    ultimately show ?thesis using True "2.prems" by (simp add: bit_push_bit_iff bit_ucast_iff)
  next
    case False
    have "\<not> (i * 8 \<le> n \<and> n - i * 8 < 8)"
    proof
      assume "i * 8 \<le> n \<and> n - i * 8 < 8"
      then have "i * 8 \<le> n" "n < i * 8 + 8" by linarith+
      then have "n div 8 = i" by (intro div_nat_eqI) simp_all
      with False show False ..
    qed
    then show ?thesis using False b [of "n - i * 8"] by (auto simp: bit_push_bit_iff bit_ucast_iff)
  qed
  then show ?case
    using "2.IH" "2.prems"
    by (cases "n div 8 = i") (auto simp: bit_or_iff nth_Cons' Suc_diff_le split: if_splits)
qed auto

lemma short_string_bits:
  assumes "try_short_string bytes = Some v" "n < 64"
  shows "bit v n \<longleftrightarrow> (if n < 40 then n div 8 < length bytes \<and> bit (bytes ! (n div 8)) (n mod 8)
    else if n < 48 then bit (length bytes) (n - 40) else bit SHORT_STRING_TAG n)"
proof -
  have len: "length bytes \<le> 5" using assms(1) by (auto simp: try_short_string_def SHORT_STRING_MAX_LEN_def split: if_splits)
  have v: "v = SHORT_STRING_TAG OR push_bit 40 (of_nat (length bytes)) OR short_string_payload 0 bytes 0"
    using assms(1) by (auto simp: try_short_string_def SHORT_STRING_LEN_SHIFT_def Let_def split: if_splits)
  have pay: "bit (short_string_payload 0 bytes 0) n \<longleftrightarrow> n div 8 < length bytes \<and> bit (bytes ! (n div 8)) (n mod 8)"
    using bit_short_string_payload [OF assms(2), of 0 bytes 0] by simp
  have pay_high: "\<not> (n div 8 < length bytes)" if "40 \<le> n"
    using that len div_le_mono [of 40 n 8] by simp
  have ln: "bit (of_nat (length bytes) :: u64) k \<longleftrightarrow> bit (length bytes) k" for k
    using bit_unat [of "of_nat (length bytes)" k] len by (simp add: unat_of_nat)
  have ln8: "\<not> bit (length bytes) k" if "8 \<le> k" for k
    using that len bit_take_bit_iff [of 8 "length bytes" k] by (simp add: take_bit_nat_eq_self)
  note tg = bit_short_string_tag [of n]
  show ?thesis
    unfolding v bit_or_iff pay bit_push_bit_iff ln using pay_high ln8 [of "n - 40"] tg assms(2) by auto
qed

lemma short_string_len_eq:
  assumes "try_short_string bytes = Some v"
  shows "short_string_len v = length bytes"
proof -
  have len: "length bytes \<le> 5" using assms by (auto simp: try_short_string_def SHORT_STRING_MAX_LEN_def split: if_splits)
  have m: "SHORT_STRING_LEN_MASK = push_bit 40 (mask 8)" by (simp add: tag_defs mask_eq_exp_minus_1)
  have ln8: "bit (length bytes) k \<Longrightarrow> k < 8" for k
    using len bit_take_bit_iff [of 8 "length bytes" k] by (simp add: take_bit_nat_eq_self)
  have "unat (drop_bit 40 (v AND SHORT_STRING_LEN_MASK)) = length bytes"
  proof (rule bit_eqI)
    fix k
    have small: "bit v (40 + k) \<Longrightarrow> 40 + k < 64" using bit_imp_le_length [of v "40 + k"] by simp
    show "bit (unat (drop_bit 40 (v AND SHORT_STRING_LEN_MASK))) k \<longleftrightarrow> bit (length bytes) k"
      unfolding bit_unat m using short_string_bits [OF assms, of "40 + k"] small ln8 [of k]
      by (auto simp: bit_drop_bit_eq bit_and_iff bit_push_bit_iff bit_mask_iff simp del: drop_bit_and)
  qed
  then show ?thesis by (simp add: short_string_len_def SHORT_STRING_LEN_SHIFT_def)
qed

lemma short_string_roundtrip:
  assumes "try_short_string bytes = Some v"
  shows "short_string_to_buf v = Some bytes" "is_short_string v"
proof -
  have len: "length bytes \<le> 5" using assms by (auto simp: try_short_string_def SHORT_STRING_MAX_LEN_def split: if_splits)
  have byte: "ucast (drop_bit (i * 8) (v AND SHORT_STRING_DATA_MASK) AND 0xFF) = bytes ! i" if i: "i < length bytes" for i
  proof (rule bit_word_eqI)
    fix k assume "k < LENGTH(8)"
    then have k: "k < 8" by simp
    have m: "(0xFF :: u64) = mask 8" by (simp add: mask_eq_exp_minus_1)
    have "i * 8 + k < 40" "(i * 8 + k) div 8 = i" "(i * 8 + k) mod 8 = k" using i len k by simp_all
    then have "bit v (i * 8 + k) \<longleftrightarrow> bit (bytes ! i) k"
      using short_string_bits [OF assms, of "i * 8 + k"] i by simp
    then show "bit (ucast (drop_bit (i * 8) (v AND SHORT_STRING_DATA_MASK) AND 0xFF) :: u8) k \<longleftrightarrow> bit (bytes ! i) k"
      unfolding m tag_mask_not using k \<open>i * 8 + k < 40\<close>
      by (simp add: bit_ucast_iff bit_and_iff bit_drop_bit_eq bit_mask_iff del: drop_bit_and)
  qed
  show "short_string_to_buf v = Some bytes"
    unfolding short_string_to_buf_def Let_def short_string_len_eq [OF assms] SHORT_STRING_MAX_LEN_def
    using len byte by (auto intro: nth_equalityI)
  show "is_short_string v"
    unfolding is_short_string_def tag_mask_not
  proof (rule bit_word_eqI)
    fix n assume "n < LENGTH(64)"
    then show "bit (v AND NOT (mask 48)) n \<longleftrightarrow> bit SHORT_STRING_TAG n"
      using short_string_bits [OF assms, of n] bit_short_string_tag [of n]
      by (auto simp: bit_and_iff bit_not_iff bit_mask_iff)
  qed
qed

subsection \<open>Properties\<close>


lemma and_pointer_mask: "p \<le> POINTER_MASK \<Longrightarrow> p AND POINTER_MASK = p"
proof -
  assume "p \<le> POINTER_MASK"
  then have "unat p < 2 ^ 48" by (simp add: word_le_nat_alt POINTER_MASK_def)
  then have "take_bit 48 p = p"
    unfolding word_unat_eq_iff unat_take_bit_mod by simp
  then show ?thesis unfolding tag_mask_not by (simp add: take_bit_eq_mask)
qed

lemma constructors_read_back:
  assumes "p \<le> POINTER_MASK" "- (2 ^ 31) \<le> z" "z < 2 ^ 31" "\<not> f64_is_nan n \<or> n = f64_NAN"
  shows "is_pointer (js_pointer p) \<and> as_pointer (js_pointer p) = p"
    and "is_string (js_string_ptr p) \<and> as_string_ptr (js_string_ptr p) = p"
    and "is_bigint (js_bigint_ptr p) \<and> as_bigint_ptr (js_bigint_ptr p) = p"
    and "is_int32 (js_int32 z) \<and> as_int32 (js_int32 z) = z"
    and "is_number (js_number n) \<and> as_number (js_number n) = n"
    and "is_bool (js_bool b) \<and> as_bool (js_bool b) = b"
    and "is_undefined js_undefined \<and> is_null js_null"
proof -
  show "is_pointer (js_pointer p) \<and> as_pointer (js_pointer p) = p"
    using view_pointer [of p] and_pointer_mask [OF assms(1)] predicates_view(6) [of "js_pointer p"]
    by (auto simp: is_tag16 view_simps split: if_splits)
  show "is_string (js_string_ptr p) \<and> as_string_ptr (js_string_ptr p) = p"
    using view_string_ptr [of p] and_pointer_mask [OF assms(1)] predicates_view(7) [of "js_string_ptr p"]
    by (auto simp: is_tag16 view_simps split: if_splits)
  show "is_bigint (js_bigint_ptr p) \<and> as_bigint_ptr (js_bigint_ptr p) = p"
    using view_bigint_ptr [of p] and_pointer_mask [OF assms(1)] predicates_view(8) [of "js_bigint_ptr p"]
    by (auto simp: is_tag16 view_simps split: if_splits)
  show "is_int32 (js_int32 z) \<and> as_int32 (js_int32 z) = z"
    using view_int32 [OF assms(2,3)] predicates_view(5) [of "js_int32 z"]
    by (auto simp: is_int32_iff view_simps as_int32_payload split: if_splits)
  show "is_number (js_number n) \<and> as_number (js_number n) = n"
    using view_number [OF assms(4)] predicates_view(1) [of n] by (simp add: js_number_def as_number_def)
  show "is_bool (js_bool b) \<and> as_bool (js_bool b) = b"
    by (auto simp: js_bool_def is_bool_def as_bool_def tag_defs)
  show "is_undefined js_undefined \<and> is_null js_null"
    by (simp add: js_undefined_def is_undefined_def js_null_def is_null_def)
qed

text \<open>
  Boxing loses nothing: every value packed by a constructor is read back by the matching test
  and accessor. Addresses fit in 48 bits, an int32 is in its range, and a number is a non-NaN double
  or the canonical NaN.
\<close>

theorem nanbox_roundtrip:
  assumes "p \<le> POINTER_MASK" "- (2 ^ 31) \<le> z" "z < 2 ^ 31" "\<not> f64_is_nan n \<or> n = f64_NAN"
  shows "is_pointer (js_pointer p) \<and> as_pointer (js_pointer p) = p
    \<and> is_string (js_string_ptr p) \<and> as_string_ptr (js_string_ptr p) = p
    \<and> is_bigint (js_bigint_ptr p) \<and> as_bigint_ptr (js_bigint_ptr p) = p
    \<and> is_int32 (js_int32 z) \<and> as_int32 (js_int32 z) = z
    \<and> is_number (js_number n) \<and> as_number (js_number n) = n
    \<and> is_bool (js_bool b) \<and> as_bool (js_bool b) = b
    \<and> is_undefined js_undefined \<and> is_null js_null"
  using constructors_read_back [OF assms] by simp

theorem nanbox_roundtrip_witness:
  "is_pointer (js_pointer 0x10000) \<and> as_pointer (js_pointer 0x10000) = 0x10000
   \<and> is_int32 (js_int32 (- 5)) \<and> as_int32 (js_int32 (- 5)) = - 5
   \<and> is_number (js_number f64_NAN)"
  using nanbox_roundtrip [of "0x10000" "- 5" f64_NAN] by (simp add: POINTER_MASK_def)

text \<open>
  A string of at most five bytes is boxed inline, without loss and canonically: the bytes and the
  length are read back, and two inline strings are the same bits exactly when they are the same
  bytes. A longer one is refused.
\<close>

theorem short_string_canonical:
  assumes "try_short_string bytes = Some v" "try_short_string bytes' = Some v'"
  shows "is_short_string v \<and> is_any_string v \<and> short_string_len v = length bytes
    \<and> short_string_to_buf v = Some bytes \<and> (v = v' \<longleftrightarrow> bytes = bytes')"
proof -
  have "bytes = bytes'" if "v = v'"
    using short_string_roundtrip(1) [OF assms(1)] short_string_roundtrip(1) [OF assms(2)] that by simp
  moreover have "is_any_string v"
    using short_string_roundtrip(2) [OF assms(1)] by (simp add: is_short_string_def is_any_string_def)
  ultimately show ?thesis
    using assms short_string_roundtrip [OF assms(1)] short_string_len_eq [OF assms(1)] by auto
qed

theorem short_string_canonical_witness:
  "short_string_to_buf 0x7FF9020000006968 = Some [0x68, 0x69]
   \<and> try_short_string [1, 2, 3, 4, 5, 6] = None"
proof
  have "try_short_string [0x68, 0x69] = Some 0x7FF9020000006968"
    by (simp add: try_short_string_def SHORT_STRING_MAX_LEN_def SHORT_STRING_LEN_SHIFT_def SHORT_STRING_TAG_def)
  from short_string_canonical [OF this this]
  show "short_string_to_buf 0x7FF9020000006968 = Some [0x68, 0x69]" by simp
  show "try_short_string [1, 2, 3, 4, 5, 6] = None" by (simp add: try_short_string_def SHORT_STRING_MAX_LEN_def)
qed

text \<open>
  The pointer helpers of the generated code invert each other on every address of the 48-bit
  space, a null address becomes the value \<open>null\<close> and not a tagged null pointer, a value that is
  already boxed is left alone, and \<open>js_nanbox_get_pointer\<close> returns no address for a number
  outside the raw pointer range, a boolean, \<open>null\<close>, \<open>undefined\<close>, an int32 or an inline
  string.
\<close>

theorem nanbox_pointer_helpers:
  "(ptr \<noteq> 0 \<and> ptr \<le> POINTER_MASK \<longrightarrow>
      js_nanbox_get_pointer (js_nanbox_pointer ptr) = ptr \<and> js_nanbox_is_pointer (js_nanbox_pointer ptr) = 1)
   \<and> js_nanbox_pointer 0 = TAG_NULL \<and> js_nanbox_get_pointer TAG_NULL = 0
   \<and> (\<not> is_number v \<longrightarrow> js_nanbox_pointer v = v)
   \<and> js_nanbox_pointer (js_nanbox_pointer ptr) = js_nanbox_pointer ptr
   \<and> (POINTER_MASK < v \<and> (is_number v \<or> is_bool v \<or> is_null v \<or> is_undefined v \<or> is_int32 v \<or> is_short_string v)
        \<longrightarrow> js_nanbox_get_pointer v = 0)"
proof -
  define T where "T = (0x7FF0000000000000 :: u64)"
  have band: "b AND 0xFFF0000000000000 \<ge> T \<longleftrightarrow> 0x7FF0 \<le> tag16 b" for b :: u64
  proof -
    have m: "(0xFFF0000000000000 :: u64) = NOT (mask 52)" by (simp add: mask_eq_exp_minus_1)
    have "tag16 b div 2 ^ 4 = unat b div 2 ^ 52"
      by (simp add: tag16_def unat_drop_bit_div div_mult2_eq [symmetric])
    moreover have "T \<le> b AND 0xFFF0000000000000 \<longleftrightarrow> 0x7FF * 2 ^ 52 \<le> unat b div 2 ^ 52 * 2 ^ 52"
      unfolding m word_le_nat_alt unat_and_not_mask by (simp add: T_def)
    moreover have "(0x7FF :: nat) * 2 ^ 52 \<le> k * 2 ^ 52 \<longleftrightarrow> 0x7FF \<le> k" for k by simp
    moreover have "0x7FF \<le> tag16 b div 2 ^ 4 \<longleftrightarrow> 0x7FF * 2 ^ 4 \<le> tag16 b" by (rule less_eq_div_iff_mult_less_eq) simp
    ultimately show ?thesis by simp
  qed
  have pt: "is_pointer (js_pointer ptr)" "tag16 (js_pointer ptr) = 0x7FFD"
    "js_pointer ptr AND POINTER_MASK = ptr AND POINTER_MASK"
    unfolding is_tag16 js_pointer_def using tag_or_payload [OF tags_push_bit(1), of ptr] by simp_all
  have small: "tag16 p = 0" if "p \<le> POINTER_MASK" for p
    using that by (simp add: tag16_def unat_drop_bit_div word_le_nat_alt POINTER_MASK_def)
  have pk: "js_nanbox_pointer q = (if q = 0 then TAG_NULL else if 0x7FF0 \<le> tag16 q then q else js_pointer q)" for q
    using band [of q] by (simp add: js_nanbox_pointer_def T_def)
  have tn: "tag16 TAG_NULL = 0x7FFC" "TAG_NULL \<noteq> 0" by (simp_all add: tag16_def TAG_NULL_def)
  have 1: "js_nanbox_get_pointer (js_nanbox_pointer ptr) = ptr \<and> js_nanbox_is_pointer (js_nanbox_pointer ptr) = 1"
    if "ptr \<noteq> 0" "ptr \<le> POINTER_MASK"
    using that pt small [of ptr] and_pointer_mask [of ptr]
    by (simp add: pk js_nanbox_get_pointer_def js_nanbox_is_pointer_def as_pointer_def)
  have 2: "js_nanbox_get_pointer TAG_NULL = 0"
    by (simp add: js_nanbox_get_pointer_def is_tag16 tn) (simp add: tag_defs)
  have 3: "js_nanbox_pointer v = v" if "\<not> is_number v"
    using that by (auto simp: pk is_tag16 tag16_def)
  have 4: "js_nanbox_pointer (js_nanbox_pointer ptr) = js_nanbox_pointer ptr"
  proof -
    have "js_pointer ptr \<noteq> 0" using pt(2) by (auto simp: tag16_def)
    then show ?thesis using pt(2) tn by (simp add: pk)
  qed
  have 5: "js_nanbox_get_pointer v = 0"
    if "POINTER_MASK < v" "is_number v \<or> is_bool v \<or> is_null v \<or> is_undefined v \<or> is_int32 v \<or> is_short_string v"
  proof -
    have "tag16 v \<noteq> 0x7FFD" "tag16 v \<noteq> 0x7FFF" "tag16 v \<noteq> 0x7FFA" "tag16 v \<noteq> 0x7FFB"
      using that(2) unfolding is_bool_def is_tag16 is_singleton is_int32_iff by auto
    then show ?thesis
      using that(1) [unfolded not_le [symmetric]] unfolding js_nanbox_get_pointer_def is_js_handle_def [symmetric] is_tag16 by simp
  qed
  show ?thesis using 1 2 3 4 5 by (simp add: pk)
qed

theorem nanbox_pointer_helpers_witness:
  "js_nanbox_get_pointer (js_nanbox_pointer 0x10008) = 0x10008 \<and> js_nanbox_pointer 0 = TAG_NULL
   \<and> js_nanbox_get_pointer (f64_of_int 1) = 0"
proof -
  have one: "f64_of_int 1 = 0x3FF0000000000000" by (subst f64_of_int_def, subst floor_log2.simps) simp
  then show ?thesis
    using nanbox_pointer_helpers [of "0x10008" "f64_of_int 1"]
    unfolding one by (simp add: POINTER_MASK_def is_number_def tag_defs)
qed

text \<open>
  The ranges of the integer representations of \<open>js_pod_scalar_write_compatible\<close>: i8, i16, u8, u16,
  i32, u32 (and buffer lengths), i64 and isize, and u64, usize and handle ids.
\<close>

definition pod_int_range :: "int \<Rightarrow> (int \<times> int) option" where
  "pod_int_range rep =
     map_of [(11, - (2 ^ 7), 2 ^ 7), (12, - (2 ^ 15), 2 ^ 15), (10, 0, 2 ^ 8), (13, 0, 2 ^ 16),
             (1, - (2 ^ 31), 2 ^ 31), (3, 0, 2 ^ 32), (8, 0, 2 ^ 32), (2, - (2 ^ 63), 2 ^ 63),
             (14, - (2 ^ 63), 2 ^ 63), (4, 0, 2 ^ 64), (5, 0, 2 ^ 64), (9, 0, 2 ^ 64)] rep"

definition f64_holds_int :: "f64 \<Rightarrow> int \<Rightarrow> bool" where
  "f64_holds_int x z \<longleftrightarrow> f64_is_finite x \<and> f64_units x = z * 2 ^ 1074 \<and> \<not> (z = 0 \<and> f64_sign x)"

lemma scale_le: "z * 2 ^ 1074 \<le> w * (2 :: int) ^ 1074 \<longleftrightarrow> z \<le> w"
  by (rule mult_le_cancel_right_pos) (rule zero_less_power, simp)

lemma int_roundtrips_exact_iff:
  "int_roundtrips_exact x lo hi \<longleftrightarrow> (\<exists>z. lo \<le> z \<and> z < hi \<and> f64_holds_int x z)"
proof
  assume r: "int_roundtrips_exact x lo hi"
  then have "2 ^ 1074 dvd f64_units x" and fin: "f64_is_finite x"
    unfolding int_roundtrips_exact_def f64_is_integer_def by (auto split: if_splits)
  then obtain z where z: "f64_units x = z * 2 ^ 1074" by (metis dvd_def mult.commute)
  have "lo \<le> z" "\<not> hi \<le> z" "\<not> (z = 0 \<and> f64_sign x)"
    using r scale_le [of lo z] scale_le [of hi z] unfolding int_roundtrips_exact_def z by (auto split: if_splits)
  then show "\<exists>z. lo \<le> z \<and> z < hi \<and> f64_holds_int x z"
    using z fin unfolding f64_holds_int_def by (intro exI [of _ z]) linarith
next
  assume "\<exists>z. lo \<le> z \<and> z < hi \<and> f64_holds_int x z"
  then obtain z where z: "lo \<le> z" "z < hi" "f64_is_finite x" "f64_units x = z * 2 ^ 1074" "\<not> (z = 0 \<and> f64_sign x)"
    unfolding f64_holds_int_def by blast
  have "lo * 2 ^ 1074 \<le> z * 2 ^ 1074" "\<not> hi * 2 ^ 1074 \<le> z * 2 ^ 1074"
    using z(1,2) scale_le [of lo z] scale_le [of hi z] by (blast, linarith)
  moreover have "z * 2 ^ 1074 = 0 \<longleftrightarrow> z = 0" by (metis mult_eq_0_iff power_not_zero zero_neq_numeral)
  ultimately show "int_roundtrips_exact x lo hi"
    using z(3,5) unfolding int_roundtrips_exact_def f64_is_integer_def z(4) by (auto simp del: power_numeral)
qed

lemma uint_roundtrips_exact_iff: "uint_roundtrips_exact x hi \<longleftrightarrow> int_roundtrips_exact x 0 hi"
  unfolding uint_roundtrips_exact_def int_roundtrips_exact_def by simp

lemma finite_is_number: "f64_is_finite x \<Longrightarrow> is_number x"
  using view_number [of x] predicates_view(1) [of x] by (simp add: f64_is_finite_def f64_is_nan_def js_number_def)

text \<open>
  A native integer field accepts exactly the numbers it can hold without loss: the write guard
  answers 1 for an integer representation precisely when the value is a finite double, other than
  negative zero, that equals an integer of the representation's range. For the ranges up to 32 bits
  these are the doubles of the integers themselves, bit for bit.
\<close>

theorem pod_scalar_write_exact:
  assumes "pod_int_range rep = Some (lo, hi)"
  shows "(js_pod_scalar_write_compatible v rep = 1 \<longleftrightarrow> (\<exists>z. lo \<le> z \<and> z < hi \<and> f64_holds_int v z))
    \<and> (hi \<le> 2 ^ 32 \<longrightarrow>
        (js_pod_scalar_write_compatible v rep = 1 \<longleftrightarrow> (\<exists>z. lo \<le> z \<and> z < hi \<and> v = f64_of_int z)))"
proof -
  have 1: "js_pod_scalar_write_compatible v rep = 1 \<longleftrightarrow> is_number v \<and> int_roundtrips_exact v lo hi"
    using assms unfolding js_pod_scalar_write_compatible_def as_number_def Let_def
    by (auto simp: pod_int_range_def uint_roundtrips_exact_iff split: if_splits)
  have 2: "is_number v \<and> int_roundtrips_exact v lo hi \<longleftrightarrow> (\<exists>z. lo \<le> z \<and> z < hi \<and> f64_holds_int v z)"
    using finite_is_number [of v] by (auto simp: int_roundtrips_exact_iff f64_holds_int_def)
  have 3: "f64_holds_int v z \<longleftrightarrow> v = f64_of_int z" if h: "hi \<le> 2 ^ 32" and z: "lo \<le> z" "z < hi" for z
  proof
    have "- (2 ^ 31) \<le> lo"
      using assms h by (auto simp: pod_int_range_def split: if_splits)
    then have "\<bar>z\<bar> < 2 ^ 53" using h z by simp
    note u = f64_of_int_units [OF this]
    show "v = f64_of_int z" if f: "f64_holds_int v z"
    proof (cases "z = 0")
      case True
      then have "f64_mag v = 0" "\<not> f64_sign v" using f by (auto simp: f64_holds_int_def f64_units_def)
      then show ?thesis using True by (auto simp: f64_mag_0_iff f64_of_int_def f64_sign_def)
    next
      case False
      then have "z * 2 ^ 1074 \<noteq> 0" by (metis mult_eq_0_iff power_not_zero zero_neq_numeral)
      then show ?thesis using f u by (intro f64_units_inject) (simp_all only: f64_holds_int_def simp_thms)
    qed
    show "f64_holds_int v z" if "v = f64_of_int z"
      using u that unfolding f64_holds_int_def by (auto simp: f64_of_int_def f64_sign_def)
  qed
  show ?thesis using 1 2 3 by blast
qed

theorem pod_scalar_write_exact_witness:
  "js_pod_scalar_write_compatible (f64_of_int 200) 10 = 1 \<and> js_pod_scalar_write_compatible (f64_of_int 256) 10 \<noteq> 1"
proof -
  have inj: "f64_of_int 256 = f64_of_int z \<Longrightarrow> 0 \<le> z \<Longrightarrow> z < 256 \<Longrightarrow> False" for z
    using f64_of_int_units(1) [of 256] f64_of_int_units(1) [of z] scale_le [of 256 z] by force
  have r: "pod_int_range 10 = Some (0, 256)" by (simp add: pod_int_range_def)
  have "\<exists>z. 0 \<le> z \<and> z < 256 \<and> f64_of_int 200 = f64_of_int z" by (rule exI [of _ 200]) simp
  then show ?thesis
    using pod_scalar_write_exact [OF r, of "f64_of_int 200"] pod_scalar_write_exact [OF r, of "f64_of_int 256"] inj
    by auto
qed

end
