(* ===== verification/Value_Ops.thy ===== *)
theory Value_Ops
  imports NaN_Box BigInt_Bitwise
begin

text \<open>
  Operations on whole values: the classification of addresses (\<open>value/addr_class.rs\<close>), truthiness
  (\<open>value/truthy.rs\<close>) and strict equality (\<open>value/equality.rs\<close>). The heap these read is the
  record \<open>rt_heap\<close>: the BigInt headers, the string headers with their bytes, the collector's
  header in front of every object, the first word of every payload (where a moved object leaves its
  new address), and the two allocator registries that say which addresses are allocations.
\<close>

subsection \<open>The heap\<close>

record gc_header =
  obj_type :: u8
  gc_flags :: u8
  alloc_size :: u32

record string_header =
  utf16_len :: u32
  str_data :: "u8 list"

record rt_heap =
  bigints :: bigint_mem
  strings :: "addr \<Rightarrow> string_header"
  gc_headers :: "addr \<Rightarrow> gc_header"
  first_word :: "addr \<Rightarrow> addr"
  arena_range_base :: "addr \<Rightarrow> addr option"
  malloc_tracked :: "addr \<Rightarrow> bool"
  small_buf_slab :: "addr \<Rightarrow> bool"

definition GC_HEADER_SIZE :: u64 where "GC_HEADER_SIZE = 8"
definition GC_FLAG_ARENA :: u8 where "GC_FLAG_ARENA = 0x02"
definition GC_FLAG_FORWARDED :: u8 where "GC_FLAG_FORWARDED = 0x80"
definition GC_TYPE_MAX :: u8 where "GC_TYPE_MAX = 20"

text \<open>\<open>gc_type_info\<close> has an entry for every type id from 1 to the largest one.\<close>

definition gc_type_known :: "u8 \<Rightarrow> bool" where
  "gc_type_known ty \<longleftrightarrow> ty \<noteq> 0 \<and> ty \<le> GC_TYPE_MAX"

definition gc_malloc_header_is_tracked :: "rt_heap \<Rightarrow> addr \<Rightarrow> bool" where
  "gc_malloc_header_is_tracked h header = (if header = 0 then False else malloc_tracked h header)"

definition forwarding_address :: "rt_heap \<Rightarrow> addr \<Rightarrow> addr" where
  "forwarding_address h header = first_word h (header + GC_HEADER_SIZE)"

subsection \<open>Address classification\<close>

definition HANDLE_BAND_MAX :: u64 where "HANDLE_BAND_MAX = 0x100000"
definition COMMON_HANDLE_BAND_END :: u64 where "COMMON_HANDLE_BAND_END = 0x40000"
definition FETCH_HANDLE_BAND_START :: u64 where "FETCH_HANDLE_BAND_START = 0x40000"
definition FETCH_HANDLE_BAND_END :: u64 where "FETCH_HANDLE_BAND_END = 0xE0000"
definition ZLIB_HANDLE_BAND_START :: u64 where "ZLIB_HANDLE_BAND_START = 0xE0000"
definition ZLIB_HANDLE_BAND_END :: u64 where "ZLIB_HANDLE_BAND_END = 0xF0000"
definition PROXY_ID_BAND_START :: u64 where "PROXY_ID_BAND_START = 0xF0000"
definition STREAM_ID_BAND_START :: u64 where "STREAM_ID_BAND_START = 0x100000"
definition STREAM_ID_BAND_END :: u64 where "STREAM_ID_BAND_END = 0x200000"

lemmas band_defs = HANDLE_BAND_MAX_def COMMON_HANDLE_BAND_END_def FETCH_HANDLE_BAND_START_def
  FETCH_HANDLE_BAND_END_def ZLIB_HANDLE_BAND_START_def ZLIB_HANDLE_BAND_END_def PROXY_ID_BAND_START_def
  STREAM_ID_BAND_START_def STREAM_ID_BAND_END_def

definition is_handle_band :: "addr \<Rightarrow> bool" where
  "is_handle_band addr \<longleftrightarrow> addr < HANDLE_BAND_MAX"

definition is_small_handle :: "addr \<Rightarrow> bool" where
  "is_small_handle addr \<longleftrightarrow> 1 \<le> addr \<and> addr < HANDLE_BAND_MAX"

definition is_above_handle_band :: "addr \<Rightarrow> bool" where
  "is_above_handle_band addr \<longleftrightarrow> addr \<ge> HANDLE_BAND_MAX"

definition is_proxy_id_band :: "addr \<Rightarrow> bool" where
  "is_proxy_id_band addr \<longleftrightarrow> PROXY_ID_BAND_START \<le> addr \<and> addr < HANDLE_BAND_MAX"

definition is_stream_id_band :: "addr \<Rightarrow> bool" where
  "is_stream_id_band id' \<longleftrightarrow> STREAM_ID_BAND_START \<le> id' \<and> id' < STREAM_ID_BAND_END"

text \<open>
  The bounds of the heap depend on the compilation target: whether it is one of the named operating
  systems, and whether it is 64-bit ARM Linux or Android.
\<close>

record target =
  named_os :: bool
  aarch64_linux :: bool

definition HEAP_MIN :: "target \<Rightarrow> u64" where
  "HEAP_MIN t = (if named_os t then 0x1000 else 0x20000000000)"

definition HEAP_MAX :: "target \<Rightarrow> u64" where
  "HEAP_MAX t = (if aarch64_linux t then 0x1000000000000 else 0x800000000000)"

definition is_valid_obj_ptr :: "target \<Rightarrow> addr \<Rightarrow> bool" where
  "is_valid_obj_ptr t addr \<longleftrightarrow> HEAP_MIN t \<le> addr \<and> addr < HEAP_MAX t"

definition is_plausible_heap_addr :: "target \<Rightarrow> addr \<Rightarrow> bool" where
  "is_plausible_heap_addr t addr \<longleftrightarrow> is_above_handle_band addr \<and> is_valid_obj_ptr t addr"

text \<open>
  The two accessors dereference a header, which is only defined where memory is mapped. The memory is a
  partial function from header addresses; reading where it is undefined is a fault. The result is the
  address of the header, \<open>None\<close> when the accessor refuses.
\<close>

datatype mem_fault = Unmapped addr

type_synonym header_mem = "addr \<Rightarrow> gc_header option"

definition read_header :: "header_mem \<Rightarrow> addr \<Rightarrow> mem_fault + gc_header" where
  "read_header mem p = (case mem p of None \<Rightarrow> Inl (Unmapped p) | Some hdr \<Rightarrow> Inr hdr)"

definition read_gc_header :: "target \<Rightarrow> rt_heap \<Rightarrow> header_mem \<Rightarrow> addr \<Rightarrow> mem_fault + addr option" where
  "read_gc_header t h mem addr =
     (if \<not> is_plausible_heap_addr t addr then Inr None
      else if small_buf_slab h addr then Inr None
      else case read_header mem (addr - GC_HEADER_SIZE) of
             Inl fault \<Rightarrow> Inl fault
           | Inr _ \<Rightarrow> Inr (Some (addr - GC_HEADER_SIZE)))"

datatype TrackedGcStorage = Arena | Malloc

text \<open>\<open>checked_sub\<close>: \<open>None\<close> where the subtraction would wrap.\<close>

definition checked_sub :: "u64 \<Rightarrow> u64 \<Rightarrow> u64 option" where
  "checked_sub a b = (if b \<le> a then Some (a - b) else None)"

definition classify_tracked_gc_header_with ::
    "addr \<Rightarrow> (addr \<Rightarrow> addr option) \<Rightarrow> (addr \<Rightarrow> bool) \<Rightarrow> (addr \<times> TrackedGcStorage) option" where
  "classify_tracked_gc_header_with addr range_base header_is_tracked =
     (if is_handle_band addr then None
      else case checked_sub addr GC_HEADER_SIZE of
        None \<Rightarrow> None
      | Some header_addr \<Rightarrow>
          (case range_base addr of
             Some base \<Rightarrow> if header_addr \<ge> base then Some (header_addr, Arena) else None
           | None \<Rightarrow> if header_is_tracked header_addr then Some (header_addr, Malloc) else None))"

definition read_tracked_gc_header :: "rt_heap \<Rightarrow> header_mem \<Rightarrow> addr \<Rightarrow> mem_fault + addr option" where
  "read_tracked_gc_header h mem addr =
     (case classify_tracked_gc_header_with addr (arena_range_base h) (gc_malloc_header_is_tracked h) of
        None \<Rightarrow> Inr None
      | Some (header_addr, storage) \<Rightarrow>
          if unat header_addr mod 4 \<noteq> 0 then Inr None
          else if header_addr = 0 then Inr None
          else case read_header mem header_addr of
                 Inl fault \<Rightarrow> Inl fault
               | Inr hdr \<Rightarrow>
                   if \<not> gc_type_known (obj_type hdr) then Inr None
                   else if ucast (alloc_size hdr) < GC_HEADER_SIZE then Inr None
                   else if (gc_flags hdr AND GC_FLAG_ARENA \<noteq> 0) \<noteq> (storage = Arena) then Inr None
                   else Inr (Some header_addr))"

text \<open>
  The operations on values take the heap as readable everywhere, so that the accessors are functions of
  it.
\<close>

definition heap_mem :: "rt_heap \<Rightarrow> header_mem" where
  "heap_mem h p = Some (gc_headers h p)"

definition try_read_gc_header :: "target \<Rightarrow> rt_heap \<Rightarrow> addr \<Rightarrow> addr option" where
  "try_read_gc_header t h addr = (case read_gc_header t h (heap_mem h) addr of Inl _ \<Rightarrow> None | Inr r \<Rightarrow> r)"

definition try_read_tracked_gc_header :: "rt_heap \<Rightarrow> addr \<Rightarrow> addr option" where
  "try_read_tracked_gc_header h addr = (case read_tracked_gc_header h (heap_mem h) addr of Inl _ \<Rightarrow> None | Inr r \<Rightarrow> r)"

lemma try_read_gc_header_eq:
  "try_read_gc_header t h addr =
     (if \<not> is_plausible_heap_addr t addr \<or> small_buf_slab h addr then None else Some (addr - GC_HEADER_SIZE))"
  by (simp add: try_read_gc_header_def read_gc_header_def read_header_def heap_mem_def)

subsection \<open>Truthiness\<close>

definition is_valid_string_ptr :: "addr \<Rightarrow> bool" where
  "is_valid_string_ptr p \<longleftrightarrow> p \<noteq> 0 \<and> p \<ge> 0x1000"

definition js_string_length :: "rt_heap \<Rightarrow> addr \<Rightarrow> u32" where
  "js_string_length h s = (if \<not> is_valid_string_ptr s then 0 else utf16_len (strings h s))"

definition js_is_truthy :: "rt_heap \<Rightarrow> f64 \<Rightarrow> int" where
  "js_is_truthy h bits =
     (if bits = TAG_UNDEFINED \<or> bits = TAG_NULL \<or> bits = TAG_FALSE then 0
      else if bits = TAG_TRUE then 1
      else if bits AND TAG_MASK = STRING_TAG then
        (let str_ptr = bits AND POINTER_MASK
         in if str_ptr = 0 then 0 else if js_string_length h str_ptr = 0 then 0 else 1)
      else if bits AND TAG_MASK = POINTER_TAG then
        (if bits AND POINTER_MASK = 0 then 0 else 1)
      else if bits AND NOT POINTER_MASK = BIGINT_TAG then
        (let ptr = bits AND POINTER_MASK
         in if ptr = 0 then 0 else if js_bigint_is_zero (bigints h) ptr \<noteq> 0 then 0 else 1)
      else if bits AND TAG_MASK = JS_HANDLE_TAG then 1
      else if bits AND TAG_MASK = INT32_TAG then
        (let int_val = sint (ucast (bits AND INT32_MASK) :: u32) in if int_val = 0 then 0 else 1)
      else if bits AND TAG_MASK = SHORT_STRING_TAG then
        (let len = drop_bit SHORT_STRING_LEN_SHIFT (bits AND SHORT_STRING_LEN_MASK) in if len = 0 then 0 else 1)
      else if is_above_handle_band bits \<and> bits < 0x0001000000000000 \<and> bits AND 7 = 0 then
        (if js_string_length h bits = 0 then 0 else 1)
      else if f64_eq bits 0 \<or> f64_is_nan bits then 0
      else 1)"

subsection \<open>Strict equality\<close>

definition is_number_nan :: "u64 \<Rightarrow> bool" where
  "is_number_nan bits \<longleftrightarrow> is_number bits \<and> f64_is_nan bits"

definition normalize_raw_object_bits :: "u64 \<Rightarrow> u64" where
  "normalize_raw_object_bits bits =
     (if drop_bit 48 bits = 0 \<and> bits \<ge> 0x10000 then POINTER_TAG OR bits else bits)"

definition is_plain_number :: "u64 \<Rightarrow> bool" where
  "is_plain_number bits = (let tag = drop_bit 48 bits in \<not> (0x7FF8 \<le> tag \<and> tag \<le> 0x7FFF))"

text \<open>
  The bytes of a string value: those of the inline form, or of the header. Writing an inline string
  of more than five bytes into the scratch buffer panics.
\<close>

definition str_bytes_from_jsvalue :: "rt_heap \<Rightarrow> f64 \<Rightarrow> js_throw + u8 list option" where
  "str_bytes_from_jsvalue h v =
     (if is_short_string v then
        (case short_string_to_buf v of
           None \<Rightarrow> Inl (Panic ''index out of bounds'')
         | Some bytes \<Rightarrow> Inr (Some bytes))
      else if is_string v then
        (let hdr = as_string_ptr v
         in Inr (Some (if hdr = 0 then [] else str_data (strings h hdr))))
      else Inr None)"

text \<open>The forwarding walk stops after 65 steps, so a corrupted cycle cannot hang it.\<close>

function resolve_forwarding_loop :: "rt_heap \<Rightarrow> nat \<Rightarrow> addr \<Rightarrow> addr" where
  "resolve_forwarding_loop h steps addr =
     (case try_read_tracked_gc_header h addr of
        None \<Rightarrow> addr
      | Some header \<Rightarrow>
          if gc_flags (gc_headers h header) AND GC_FLAG_FORWARDED = 0 then addr
          else
            let new_user = forwarding_address h header
            in if new_user = 0 \<or> new_user = addr then addr
               else if steps + 1 > 64 then new_user
               else resolve_forwarding_loop h (steps + 1) new_user)"
  by pat_completeness auto
termination
  by (relation "measure (\<lambda>(h, steps, addr). 65 - steps)") auto

declare resolve_forwarding_loop.simps [simp del]

definition resolve_forwarding :: "rt_heap \<Rightarrow> addr \<Rightarrow> addr" where
  "resolve_forwarding h addr = resolve_forwarding_loop h 0 addr"

definition js_jsvalue_equals :: "rt_heap \<Rightarrow> f64 \<Rightarrow> f64 \<Rightarrow> js_throw + int" where
  "js_jsvalue_equals h a b =
     (let a = normalize_raw_object_bits a; b = normalize_raw_object_bits b in
      if is_number_nan a \<or> is_number_nan b then Inr 0
      else if a = b then Inr 1
      else if is_bigint a \<and> is_bigint b then
        Inr (js_bigint_eq (bigints h) (as_bigint_ptr a) (as_bigint_ptr b))
      else if is_any_string a \<and> is_any_string b then
        (if is_short_string a \<and> is_short_string b then Inr (if a = b then 1 else 0)
         else
           case str_bytes_from_jsvalue h a of
             Inl e \<Rightarrow> Inl e
           | Inr a_view \<Rightarrow>
               (case str_bytes_from_jsvalue h b of
                  Inl e \<Rightarrow> Inl e
                | Inr b_view \<Rightarrow>
                    (case (a_view, b_view) of
                       (Some a_bytes, Some b_bytes) \<Rightarrow>
                         if length a_bytes \<noteq> length b_bytes then Inr 0
                         else if a_bytes = [] then Inr 1
                         else Inr (if a_bytes = b_bytes then 1 else 0)
                     | _ \<Rightarrow> Inr 0)))
      else if is_int32 a \<or> is_int32 b then
        (if \<not> is_int32 a \<and> \<not> is_plain_number a then Inr 0
         else if \<not> is_int32 b \<and> \<not> is_plain_number b then Inr 0
         else
           let af = (if is_int32 a then f64_of_int (as_int32 a) else a);
               bf = (if is_int32 b then f64_of_int (as_int32 b) else b)
           in Inr (if f64_eq af bf then 1 else 0))
      else if is_plain_number a \<and> is_plain_number b then Inr (if f64_eq a b then 1 else 0)
      else if is_pointer a \<and> is_pointer b then
        (let ra = resolve_forwarding h (a AND POINTER_MASK);
             rb = resolve_forwarding h (b AND POINTER_MASK)
         in if ra \<noteq> 0 \<and> ra = rb then Inr 1 else Inr 0)
      else Inr 0)"

definition js_jsvalue_same_value_zero :: "rt_heap \<Rightarrow> f64 \<Rightarrow> f64 \<Rightarrow> js_throw + int" where
  "js_jsvalue_same_value_zero h a b =
     (if is_number_nan a \<and> is_number_nan b then Inr 1 else js_jsvalue_equals h a b)"

subsection \<open>What a value denotes\<close>

datatype js_val =
    JUndefined
  | JNull
  | JBool bool
  | JNumber f64
  | JString "u8 list"
  | JBigInt int
  | JObject addr
  | JHandle addr
  | JReserved u64

definition string_bytes :: "rt_heap \<Rightarrow> addr \<Rightarrow> u8 list" where
  "string_bytes h p = (if p = 0 then [] else str_data (strings h p))"

text \<open>
  The JavaScript value of a bit pattern: an int32 is a number, both forms of string are their bytes,
  a BigInt is its integer, and an object is identified by where it lives now.
\<close>

definition js_denote :: "rt_heap \<Rightarrow> jsvalue \<Rightarrow> js_val" where
  "js_denote h v =
     (case js_view v of
        VNumber n \<Rightarrow> JNumber n
      | VInt32 z \<Rightarrow> JNumber (f64_of_int z)
      | VUndefined \<Rightarrow> JUndefined
      | VNull \<Rightarrow> JNull
      | VBool b \<Rightarrow> JBool b
      | VString p \<Rightarrow> JString (string_bytes h p)
      | VShort _ _ \<Rightarrow> JString (case short_string_to_buf v of None \<Rightarrow> [] | Some bytes \<Rightarrow> bytes)
      | VBigInt p \<Rightarrow> JBigInt (bigint_value (bigints h) p)
      | VPointer p \<Rightarrow> JObject (resolve_forwarding h p)
      | VHandle p \<Rightarrow> JHandle p
      | VReserved w \<Rightarrow> JReserved w)"

text \<open>Inline strings are in the form \<open>try_short_string\<close> gives them; BigInt payloads are addresses.\<close>

definition value_ok :: "jsvalue \<Rightarrow> bool" where
  "value_ok v \<longleftrightarrow>
     (is_short_string v \<longrightarrow> (case short_string_to_buf v of None \<Rightarrow> False | Some bytes \<Rightarrow> try_short_string bytes = Some v))
     \<and> (is_bigint v \<longrightarrow> clean_bigint_ptr (as_bigint_ptr v) \<noteq> 0)"

text \<open>The algorithm IsStrictlyEqual of ECMA-262 on denotations.\<close>

definition strict_equals :: "js_val \<Rightarrow> js_val \<Rightarrow> bool" where
  "strict_equals x y = (case (x, y) of (JNumber m, JNumber n) \<Rightarrow> f64_eq m n | _ \<Rightarrow> x = y)"

lemma js_view_cases:
  "is_number v \<longleftrightarrow> (\<exists>n. js_view v = VNumber n)"
  "is_bigint v \<longleftrightarrow> (\<exists>p. js_view v = VBigInt p)"
  "is_string v \<longleftrightarrow> (\<exists>p. js_view v = VString p)"
  "is_pointer v \<longleftrightarrow> (\<exists>p. js_view v = VPointer p)"
  "is_int32 v \<longleftrightarrow> (\<exists>z. js_view v = VInt32 z)"
  "is_short_string v \<longleftrightarrow> (\<exists>n w. js_view v = VShort n w)"
  "is_any_string v \<longleftrightarrow> is_string v \<or> is_short_string v"
  unfolding is_tag16 is_int32_iff view_simps by (auto split: if_splits simp del: drop_bit_and)

lemma js_view_payload:
  "js_view v = VNumber n \<Longrightarrow> n = v"
  "js_view v = VBigInt p \<Longrightarrow> as_bigint_ptr v = p"
  "js_view v = VString p \<Longrightarrow> as_string_ptr v = p"
  "js_view v = VPointer p \<Longrightarrow> v AND POINTER_MASK = p"
  "js_view v = VInt32 z \<Longrightarrow> as_int32 v = z"
  unfolding as_int32_payload as_bigint_ptr_def as_string_ptr_def view_simps
  by (auto split: if_splits)

text \<open>The reading loses nothing: the tag and the payload are functions of it.\<close>

definition view_tag :: "js_view \<Rightarrow> nat" where
  "view_tag w =
     (case w of VNumber n \<Rightarrow> tag16 n | VShort _ _ \<Rightarrow> 0x7FF9 | VBigInt _ \<Rightarrow> 0x7FFA | VHandle _ \<Rightarrow> 0x7FFB
      | VPointer _ \<Rightarrow> 0x7FFD | VInt32 _ \<Rightarrow> 0x7FFE | VString _ \<Rightarrow> 0x7FFF
      | VReserved r \<Rightarrow> (if tag16 r = 0 then 0x7FFC else tag16 r) | _ \<Rightarrow> 0x7FFC)"

definition view_payload :: "js_view \<Rightarrow> u64" where
  "view_payload w =
     (case w of VNumber n \<Rightarrow> n AND POINTER_MASK | VShort l d \<Rightarrow> push_bit 40 (of_nat l) OR d
      | VUndefined \<Rightarrow> 1 | VNull \<Rightarrow> 2 | VBool b \<Rightarrow> (if b then 4 else 3)
      | VBigInt p \<Rightarrow> p | VHandle p \<Rightarrow> p | VPointer p \<Rightarrow> p | VString p \<Rightarrow> p
      | VInt32 z \<Rightarrow> ucast (word_of_int z :: u32) | VReserved r \<Rightarrow> r AND POINTER_MASK)"

lemma tag16_payload: "tag16 (v AND POINTER_MASK) = 0"
proof -
  have "drop_bit 48 (v AND POINTER_MASK) = 0"
    unfolding tag_mask_not
    by (rule bit_word_eqI) (auto simp: bit_drop_bit_eq bit_and_iff bit_mask_iff simp del: drop_bit_and)
  then show ?thesis by (simp only: tag16_def) simp
qed

lemma tag16_view: "tag16 v = view_tag (js_view v)"
  unfolding view_tag_def view_simps using tag16_payload [of v] by (auto simp del: drop_bit_and)

lemma payload_short:
  "push_bit 40 (drop_bit 40 (v AND POINTER_MASK)) OR take_bit 40 v = v AND POINTER_MASK"
  unfolding tag_mask_not
  by (rule bit_word_eqI)
    (auto simp: bit_or_iff bit_push_bit_iff bit_drop_bit_eq bit_and_iff bit_mask_iff bit_take_bit_iff simp del: drop_bit_and)

lemma payload_int32:
  assumes "drop_bit 32 (v AND POINTER_MASK) = 0"
  shows "(ucast (ucast (v AND POINTER_MASK) :: u32) :: u64) = v AND POINTER_MASK"
proof (rule bit_word_eqI)
  fix n assume "n < LENGTH(64)"
  have "\<not> bit (drop_bit 32 (v AND POINTER_MASK)) (n - 32)" using assms by simp
  then show "bit (ucast (ucast (v AND POINTER_MASK) :: u32) :: u64) n = bit (v AND POINTER_MASK) n"
    using \<open>n < LENGTH(64)\<close>
    by (cases "n < 32") (simp_all add: bit_drop_bit_eq bit_ucast_iff del: drop_bit_and)
qed

lemma payload_view: "v AND POINTER_MASK = view_payload (js_view v)"
  using payload_short [of v] payload_int32 [of v] unfolding view_payload_def view_simps
  by (simp del: drop_bit_and)

lemma js_view_inject: "js_view a = js_view b \<Longrightarrow> a = b"
  unfolding jsvalue_eq_iff [of a b] by (simp only: tag16_view payload_view)

lemma plain_number_iff: "\<not> is_number_nan v \<Longrightarrow> is_plain_number v \<longleftrightarrow> is_number v"
proof -
  assume n: "\<not> is_number_nan v"
  have "f64_is_nan v" if t: "tag16 v = 0x7FF8"
  proof -
    define u where "u = unat v"
    have hi: "u div 2 ^ 48 = 0x7FF8" using t by (simp add: u_def tag16_def unat_drop_bit_div)
    have "u div 2 ^ 52 = u div 2 ^ 48 div 2 ^ 4" by (simp add: div_mult2_eq [symmetric])
    then have e: "u div 2 ^ 52 = 0x7FF" unfolding hi by simp
    have "u mod 2 ^ 52 \<noteq> 0"
    proof
      assume "u mod 2 ^ 52 = 0"
      then have "u = 0x7FF * 2 ^ 52" using e div_mult_mod_eq [of u "2 ^ 52"] by simp
      then show False using hi by simp
    qed
    then show ?thesis using e by (simp add: f64_is_nan_def f64_exp_def f64_mant_def u_def)
  qed
  moreover have "is_plain_number v \<longleftrightarrow> \<not> (0x7FF8 \<le> tag16 v \<and> tag16 v \<le> 0x7FFF)"
    by (simp add: is_plain_number_def Let_def tag16_def word_le_nat_alt)
  ultimately show ?thesis using n unfolding is_number_nan_def is_tag16 by force
qed

lemma resolve_forwarding_loop_0: "resolve_forwarding_loop h steps addr = 0 \<Longrightarrow> addr = 0"
proof (induction h steps addr rule: resolve_forwarding_loop.induct)
  case (1 h steps addr)
  then show ?case
    by (subst (asm) (2) resolve_forwarding_loop.simps) (auto simp: Let_def split: option.splits if_splits)
qed

lemma view_tests:
  "js_view v = VNumber n \<Longrightarrow> is_number v \<and> \<not> is_bigint v \<and> \<not> is_string v \<and> \<not> is_short_string v \<and> \<not> is_int32 v \<and> \<not> is_pointer v"
  "js_view v = VInt32 z \<Longrightarrow> \<not> is_number v \<and> \<not> is_bigint v \<and> \<not> is_string v \<and> \<not> is_short_string v \<and> is_int32 v \<and> \<not> is_pointer v"
  "js_view v = VPointer p \<Longrightarrow> \<not> is_number v \<and> \<not> is_bigint v \<and> \<not> is_string v \<and> \<not> is_short_string v \<and> \<not> is_int32 v \<and> is_pointer v"
  "js_view v = VString p \<Longrightarrow> \<not> is_number v \<and> \<not> is_bigint v \<and> is_string v \<and> \<not> is_short_string v \<and> \<not> is_int32 v \<and> \<not> is_pointer v"
  "js_view v = VShort l d \<Longrightarrow> \<not> is_number v \<and> \<not> is_bigint v \<and> \<not> is_string v \<and> is_short_string v \<and> \<not> is_int32 v \<and> \<not> is_pointer v"
  "js_view v = VBigInt p \<Longrightarrow> \<not> is_number v \<and> is_bigint v \<and> \<not> is_string v \<and> \<not> is_short_string v \<and> \<not> is_int32 v \<and> \<not> is_pointer v"
  "js_view v \<in> {VUndefined, VNull, VBool b, VHandle p, VReserved w} \<Longrightarrow>
    \<not> is_number v \<and> \<not> is_bigint v \<and> \<not> is_string v \<and> \<not> is_short_string v \<and> \<not> is_int32 v \<and> \<not> is_pointer v"
  by (auto simp: js_view_cases)

lemma value_ok_short:
  assumes "value_ok v" "js_view v = VShort l d"
  obtains bytes where "short_string_to_buf v = Some bytes" "try_short_string bytes = Some v"
  using assms by (auto simp: value_ok_def js_view_cases split: option.splits)

lemma str_bytes_denote:
  assumes "value_ok v" "is_any_string v"
  obtains bytes where "str_bytes_from_jsvalue h v = Inr (Some bytes)" "js_denote h v = JString bytes"
proof (cases "is_short_string v")
  case True
  then obtain l d where "js_view v = VShort l d" by (auto simp: js_view_cases)
  moreover from value_ok_short [OF assms(1) this] obtain bytes where "short_string_to_buf v = Some bytes" by blast
  ultimately show ?thesis using that [of bytes] True by (simp add: str_bytes_from_jsvalue_def js_denote_def)
next
  case False
  then have s: "is_string v" using assms(2) by (simp add: js_view_cases(7))
  then obtain p where p: "js_view v = VString p" by (auto simp: js_view_cases)
  show ?thesis
    using that [of "string_bytes h p"] s False js_view_payload(3) [OF p] p
    by (simp add: str_bytes_from_jsvalue_def js_denote_def string_bytes_def)
qed

lemma f64_of_int32:
  assumes "js_view v = VInt32 z"
  shows "\<not> f64_is_nan (f64_of_int z)" "f64_eq (f64_of_int z) (f64_of_int z)"
proof -
  have "z = sint (ucast (v AND POINTER_MASK) :: u32)"
    using js_view_payload(5) [OF assms] as_int32_payload [of v] by simp
  then have "\<bar>z\<bar> < 2 ^ 53"
    using sint_ge [of "ucast (v AND POINTER_MASK) :: u32"] sint_lt [of "ucast (v AND POINTER_MASK) :: u32"] by simp
  then have "f64_is_finite (f64_of_int z)" by (rule f64_of_int_units)
  then show "\<not> f64_is_nan (f64_of_int z)" by (simp add: f64_is_finite_def f64_is_nan_def)
  then show "f64_eq (f64_of_int z) (f64_of_int z)" by (simp add: f64_eq_def)
qed

lemma strict_equals_refl:
  assumes "\<not> is_number_nan v"
  shows "strict_equals (js_denote h v) (js_denote h v)"
  using assms f64_of_int32 [of v]
  by (cases "js_view v")
    (auto simp: js_denote_def strict_equals_def is_number_nan_def f64_eq_def js_view_cases dest: js_view_payload(1))

lemma strict_equals_nan:
  assumes "is_number_nan v"
  shows "\<not> strict_equals (js_denote h v) x" "\<not> strict_equals x (js_denote h v)"
proof -
  have "js_denote h v = JNumber v"
    using assms predicates_view(1) [of v] by (simp add: is_number_nan_def js_denote_def)
  moreover have "f64_is_nan v" using assms by (simp add: is_number_nan_def)
  ultimately show "\<not> strict_equals (js_denote h v) x" "\<not> strict_equals x (js_denote h v)"
    by (cases x; simp add: strict_equals_def f64_eq_def)+
qed

text \<open>Each branch of the comparison, on distinct bit patterns neither of which is NaN.\<close>

lemma equals_bigint:
  assumes "bigint_mem_ok (bigints h)" "value_ok a" "value_ok b" "is_bigint a" "is_bigint b"
  shows "js_bigint_eq (bigints h) (as_bigint_ptr a) (as_bigint_ptr b)
    = (if strict_equals (js_denote h a) (js_denote h b) then 1 else 0)"
proof -
  obtain p q where v: "js_view a = VBigInt p" "js_view b = VBigInt q" using assms(4,5) by (auto simp: js_view_cases)
  note w = js_view_payload(2) [OF v(1)] js_view_payload(2) [OF v(2)]
  have "clean_bigint_ptr p \<noteq> 0" "clean_bigint_ptr q \<noteq> 0" using assms(2-5) w by (simp_all add: value_ok_def)
  from js_bigint_eq_iff [OF assms(1) this]
  show ?thesis unfolding w by (simp add: js_denote_def v strict_equals_def)
qed

lemma equals_string:
  assumes "value_ok a" "value_ok b" "is_any_string a" "is_any_string b" "a \<noteq> b"
  shows "(if is_short_string a \<and> is_short_string b then Inr (if a = b then 1 else 0)
      else
        case str_bytes_from_jsvalue h a of
          Inl e \<Rightarrow> Inl e
        | Inr a_view \<Rightarrow>
            (case str_bytes_from_jsvalue h b of
               Inl e \<Rightarrow> Inl e
             | Inr b_view \<Rightarrow>
                 (case (a_view, b_view) of
                    (Some a_bytes, Some b_bytes) \<Rightarrow>
                      if length a_bytes \<noteq> length b_bytes then Inr 0
                      else if a_bytes = [] then Inr 1
                      else Inr (if a_bytes = b_bytes then 1 else 0)
                  | _ \<Rightarrow> Inr 0)))
    = (Inr (if strict_equals (js_denote h a) (js_denote h b) then 1 else 0) :: js_throw + int)"
proof -
  obtain as where as: "str_bytes_from_jsvalue h a = Inr (Some as)" "js_denote h a = JString as"
    using str_bytes_denote [OF assms(1,3)] .
  obtain bs where bs: "str_bytes_from_jsvalue h b = Inr (Some bs)" "js_denote h b = JString bs"
    using str_bytes_denote [OF assms(2,4)] .
  have short: "as \<noteq> bs" if s: "is_short_string a" "is_short_string b"
  proof -
    obtain l d l' d' where "js_view a = VShort l d" "js_view b = VShort l' d'"
      using s unfolding js_view_cases by blast
    then obtain x y where "short_string_to_buf a = Some x" "try_short_string x = Some a"
        "short_string_to_buf b = Some y" "try_short_string y = Some b"
      using value_ok_short [OF assms(1)] value_ok_short [OF assms(2)] by metis
    then show ?thesis using as(1) bs(1) s assms(5) by (auto simp: str_bytes_from_jsvalue_def)
  qed
  show ?thesis
    using short assms(5) by (cases "is_short_string a \<and> is_short_string b") (simp_all add: as bs strict_equals_def)
qed

lemma equals_numeric:
  assumes "\<not> is_number_nan a" "\<not> is_number_nan b" "is_number a \<or> is_int32 a" "is_number b \<or> is_int32 b"
  shows "strict_equals (js_denote h a) (js_denote h b)
    \<longleftrightarrow> f64_eq (if is_int32 a then f64_of_int (as_int32 a) else a) (if is_int32 b then f64_of_int (as_int32 b) else b)"
proof -
  have "js_denote h v = JNumber (if is_int32 v then f64_of_int (as_int32 v) else v)" if "is_number v \<or> is_int32 v" for v
    using that by (auto simp: js_denote_def js_view_cases dest: js_view_payload)
  then show ?thesis using assms by (simp add: strict_equals_def)
qed

lemma equals_pointer:
  assumes "is_pointer a" "is_pointer b" "a \<noteq> b"
  shows "(let ra = resolve_forwarding h (a AND POINTER_MASK);
              rb = resolve_forwarding h (b AND POINTER_MASK)
          in if ra \<noteq> 0 \<and> ra = rb then Inr 1 else Inr 0)
    = (Inr (if strict_equals (js_denote h a) (js_denote h b) then 1 else 0) :: js_throw + int)"
proof -
  obtain p q where v: "js_view a = VPointer p" "js_view b = VPointer q" using assms(1,2) by (auto simp: js_view_cases)
  note w = js_view_payload(4) [OF v(1)] js_view_payload(4) [OF v(2)]
  have "p \<noteq> q" using v assms(3) js_view_inject [of a b] by auto
  then have "resolve_forwarding h p = resolve_forwarding h q \<Longrightarrow> resolve_forwarding h p \<noteq> 0"
    using resolve_forwarding_loop_0 [of h 0 p] resolve_forwarding_loop_0 [of h 0 q]
    by (auto simp: resolve_forwarding_def)
  then show ?thesis unfolding w by (auto simp: js_denote_def v strict_equals_def Let_def)
qed

lemma js_denote_cases:
  "js_denote h v = JNumber n \<Longrightarrow> is_number v \<or> is_int32 v"
  "js_denote h v = JString s \<Longrightarrow> is_any_string v"
  "js_denote h v = JBigInt z \<Longrightarrow> is_bigint v"
  "js_denote h v = JObject p \<Longrightarrow> is_pointer v"
  "js_denote h v = JUndefined \<Longrightarrow> js_view v = VUndefined"
  "js_denote h v = JNull \<Longrightarrow> js_view v = VNull"
  "js_denote h v = JBool b \<Longrightarrow> js_view v = VBool b"
  "js_denote h v = JHandle p \<Longrightarrow> js_view v = VHandle p"
  "js_denote h v = JReserved w \<Longrightarrow> js_view v = VReserved w"
  unfolding js_denote_def js_view_cases by (cases "js_view v"; simp)+

lemma equals_other:
  assumes "a \<noteq> b" "\<not> (is_bigint a \<and> is_bigint b)" "\<not> (is_any_string a \<and> is_any_string b)"
    "\<not> ((is_number a \<or> is_int32 a) \<and> (is_number b \<or> is_int32 b))" "\<not> (is_pointer a \<and> is_pointer b)"
  shows "\<not> strict_equals (js_denote h a) (js_denote h b)"
proof
  assume eq: "strict_equals (js_denote h a) (js_denote h b)"
  have view: "js_view a \<noteq> js_view b" using assms(1) js_view_inject by blast
  show False
  proof (cases "js_denote h a")
    case (JNumber m)
    then obtain n where "js_denote h b = JNumber n"
      using eq by (cases "js_denote h b") (simp_all add: strict_equals_def)
    then show False using JNumber js_denote_cases(1) assms(4) by blast
  next
    case JUndefined
    then have "js_denote h b = JUndefined" using eq by (simp add: strict_equals_def)
    then show False using JUndefined view js_denote_cases(5) by metis
  next
    case JNull
    then have "js_denote h b = JNull" using eq by (simp add: strict_equals_def)
    then show False using JNull view js_denote_cases(6) by metis
  qed (use eq view assms(2,3,5) js_denote_cases in \<open>(simp add: strict_equals_def, metis)+\<close>)
qed

text \<open>Strict equality of the runtime is that of the language.\<close>

lemma js_jsvalue_equals_eq:
  assumes "bigint_mem_ok (bigints h)"
    "value_ok (normalize_raw_object_bits a)" "value_ok (normalize_raw_object_bits b)"
  shows "js_jsvalue_equals h a b =
    Inr (if strict_equals (js_denote h (normalize_raw_object_bits a)) (js_denote h (normalize_raw_object_bits b)) then 1 else 0)"
proof -
  define x y where "x = normalize_raw_object_bits a" and "y = normalize_raw_object_bits b"
  have ok: "value_ok x" "value_ok y" using assms(2,3) by (simp_all only: x_def y_def)
  note unf = js_jsvalue_equals_def Let_def [of "normalize_raw_object_bits _"] x_def [symmetric] y_def [symmetric]
  consider "is_number_nan x \<or> is_number_nan y" | "\<not> is_number_nan x" "\<not> is_number_nan y" "x = y"
    | "\<not> is_number_nan x" "\<not> is_number_nan y" "x \<noteq> y" by blast
  then show ?thesis
  proof cases
    case 1
    then show ?thesis unfolding unf using strict_equals_nan by auto
  next
    case 2
    then show ?thesis unfolding unf using strict_equals_refl [OF 2(1)] by simp
  next
    case 3
    note p = plain_number_iff [OF 3(1)] plain_number_iff [OF 3(2)]
    consider "is_bigint x \<and> is_bigint y" | "is_any_string x \<and> is_any_string y" 
      | "(is_number x \<or> is_int32 x) \<and> (is_number y \<or> is_int32 y)" | "is_pointer x \<and> is_pointer y"
      | "\<not> (is_bigint x \<and> is_bigint y)" "\<not> (is_any_string x \<and> is_any_string y)"
        "\<not> ((is_number x \<or> is_int32 x) \<and> (is_number y \<or> is_int32 y))" "\<not> (is_pointer x \<and> is_pointer y)"
      by blast
    then show ?thesis
    proof cases
      case 1
      then show ?thesis unfolding unf using 3 equals_bigint [OF assms(1) ok] by simp
    next
      case 2
      then have "\<not> (is_bigint x \<and> is_bigint y)" by (auto simp: js_view_cases)
      then show ?thesis unfolding unf using 3 2 equals_string [OF ok _ _ 3(3), of h] by auto
    next
      case c: 3
      then have "\<not> (is_bigint x \<and> is_bigint y)" "\<not> (is_any_string x \<and> is_any_string y)" by (auto simp: js_view_cases)
      then show ?thesis unfolding unf using 3 c equals_numeric [OF 3(1,2), of h] by (auto simp: p)
    next
      case 4
      then have "\<not> is_bigint x" "\<not> is_any_string x" "\<not> is_int32 x" "\<not> is_int32 y" "\<not> is_number x" by (auto simp: js_view_cases)
      then show ?thesis unfolding unf using 3 4 equals_pointer [OF _ _ 3(3), of h] by (simp add: p)
    next
      case 5
      have "\<not> is_int32 x \<or> \<not> is_number x" "\<not> is_int32 y \<or> \<not> is_number y" by (auto simp: js_view_cases)
      then show ?thesis unfolding unf using 3 5 equals_other [OF 3(3) 5, of h] by (auto simp: p)
    qed
  qed
qed

text \<open>SameValueZero differs from strict equality on NaN only.\<close>

definition same_value_zero :: "js_val \<Rightarrow> js_val \<Rightarrow> bool" where
  "same_value_zero x y =
     (case (x, y) of (JNumber m, JNumber n) \<Rightarrow> f64_eq m n \<or> (f64_is_nan m \<and> f64_is_nan n) | _ \<Rightarrow> x = y)"

lemma same_value_zero_equiv:
  "same_value_zero x x"
  "same_value_zero x y \<longleftrightarrow> same_value_zero y x"
  "same_value_zero x y \<Longrightarrow> same_value_zero y z \<Longrightarrow> same_value_zero x z"
  by (cases x; cases y; cases z; auto simp: same_value_zero_def f64_eq_def)+

lemma number_not_normalized: "is_number_nan (normalize_raw_object_bits v) \<longleftrightarrow> is_number_nan v"
proof (cases "drop_bit 48 v = 0 \<and> v \<ge> 0x10000")
  case True
  then have t: "tag16 v = 0" by (simp add: tag16_def)
  then have "v AND POINTER_MASK = v"
    using jsvalue_eq_iff [of "v AND POINTER_MASK" v] tag16_payload [of v] by simp
  then have "normalize_raw_object_bits v = js_pointer v"
    using True by (simp add: normalize_raw_object_bits_def js_pointer_def)
  then have "is_pointer (normalize_raw_object_bits v)"
    using view_pointer [of v] by (simp add: js_view_cases)
  then have "\<not> is_number_nan (normalize_raw_object_bits v)" by (auto simp: is_number_nan_def js_view_cases)
  moreover have "\<not> f64_is_nan v"
  proof -
    have "unat v div 2 ^ 52 = tag16 v div 2 ^ 4" by (simp add: tag16_def unat_drop_bit_div div_mult2_eq [symmetric])
    then show ?thesis using t by (simp add: f64_is_nan_def f64_exp_def)
  qed
  ultimately show ?thesis by (simp add: is_number_nan_def)
next
  case False
  then show ?thesis unfolding normalize_raw_object_bits_def by (simp only: if_False)
qed

lemma js_jsvalue_same_value_zero_eq:
  assumes "bigint_mem_ok (bigints h)"
    "value_ok (normalize_raw_object_bits a)" "value_ok (normalize_raw_object_bits b)"
  shows "js_jsvalue_same_value_zero h a b =
    Inr (if same_value_zero (js_denote h (normalize_raw_object_bits a)) (js_denote h (normalize_raw_object_bits b)) then 1 else 0)"
proof -
  define x y where "x = normalize_raw_object_bits a" and "y = normalize_raw_object_bits b"
  have nan: "is_number_nan a = is_number_nan x" "is_number_nan b = is_number_nan y"
    by (simp_all add: x_def y_def number_not_normalized)
  have d: "js_denote h v = JNumber v \<and> f64_is_nan v" if "is_number_nan v" for v
    using that predicates_view(1) [of v] by (simp add: is_number_nan_def js_denote_def)
  have n: "\<not> f64_is_nan m" if "js_denote h v = JNumber m" "\<not> is_number_nan v" for v m
    using that f64_of_int32 [of v]
    by (cases "js_view v") (auto simp: js_denote_def is_number_nan_def js_view_cases dest: js_view_payload(1))
  have "same_value_zero (js_denote h x) (js_denote h y)
      \<longleftrightarrow> is_number_nan x \<and> is_number_nan y \<or> strict_equals (js_denote h x) (js_denote h y)"
    using d [of x] d [of y] n [of x] n [of y]
    by (auto simp: same_value_zero_def strict_equals_def split: js_val.splits)
  then show ?thesis
    using js_jsvalue_equals_eq [OF assms] unfolding js_jsvalue_same_value_zero_def nan x_def [symmetric] y_def [symmetric]
    by simp
qed

lemma resolve_forwarding_eq_0_iff: "resolve_forwarding h p = 0 \<longleftrightarrow> p = 0"
proof
  assume "p = 0"
  then show "resolve_forwarding h p = 0"
    by (simp add: resolve_forwarding_def resolve_forwarding_loop.simps try_read_tracked_gc_header_def read_tracked_gc_header_def
        classify_tracked_gc_header_with_def is_handle_band_def HANDLE_BAND_MAX_def)
qed (use resolve_forwarding_loop_0 in \<open>auto simp: resolve_forwarding_def\<close>)

subsection \<open>Truthiness\<close>

definition js_truthy :: "js_val \<Rightarrow> bool" where
  "js_truthy x =
     (case x of JUndefined \<Rightarrow> False | JNull \<Rightarrow> False | JBool b \<Rightarrow> b
      | JNumber n \<Rightarrow> \<not> f64_is_nan n \<and> f64_mag n \<noteq> 0
      | JString s \<Rightarrow> s \<noteq> [] | JBigInt z \<Rightarrow> z \<noteq> 0 | JObject p \<Rightarrow> p \<noteq> 0 | JHandle p \<Rightarrow> True | JReserved w \<Rightarrow> False)"

definition strings_ok :: "rt_heap \<Rightarrow> bool" where
  "strings_ok h \<longleftrightarrow> (\<forall>p. utf16_len (strings h p) = 0 \<longleftrightarrow> str_data (strings h p) = [])"

text \<open>The subnormal doubles the legacy path reads as addresses of string headers.\<close>

definition raw_string_pointer :: "u64 \<Rightarrow> bool" where
  "raw_string_pointer v \<longleftrightarrow> is_above_handle_band v \<and> v < 0x0001000000000000 \<and> v AND 7 = 0"

lemma bigint_is_zero_iff:
  assumes "bigint_mem_ok mem" "clean_bigint_ptr p \<noteq> 0"
  shows "js_bigint_is_zero mem p \<noteq> 0 \<longleftrightarrow> bigint_value mem p = 0"
proof -
  have wf: "wf_limbs (mem (clean_bigint_ptr p))" using assms(1) by (simp add: bigint_mem_ok_def)
  have "list_all (\<lambda>l. l = 0) limbs \<longleftrightarrow> limbs = ZERO_LIMBS" if "wf_limbs limbs" for limbs
    using that by (auto simp: wf_limbs_def ZERO_LIMBS_def list_all_iff intro: replicate_eqI)
  from this [OF wf] eq_ZERO_LIMBS_iff [OF wf] show ?thesis
    using assms(2)
    by (auto simp: js_bigint_is_zero_def Let_def bigint_value_def bigint_limbs_or_zero_def list_all_iff list_ex_iff)
qed

lemma short_len_payload: "drop_bit SHORT_STRING_LEN_SHIFT (v AND SHORT_STRING_LEN_MASK) = drop_bit 40 (v AND POINTER_MASK)"
proof -
  have m: "SHORT_STRING_LEN_MASK = push_bit 40 (mask 8)" by (simp add: tag_defs mask_eq_exp_minus_1)
  show ?thesis
    unfolding m tag_mask_not SHORT_STRING_LEN_SHIFT_def
    by (rule bit_word_eqI) (auto simp: bit_drop_bit_eq bit_and_iff bit_push_bit_iff bit_mask_iff simp del: drop_bit_and)
qed

lemma value_tags:
  "v AND TAG_MASK = STRING_TAG \<longleftrightarrow> tag16 v = 0x7FFF" "v AND TAG_MASK = POINTER_TAG \<longleftrightarrow> tag16 v = 0x7FFD"
    "v AND NOT POINTER_MASK = BIGINT_TAG \<longleftrightarrow> tag16 v = 0x7FFA" "v AND TAG_MASK = JS_HANDLE_TAG \<longleftrightarrow> tag16 v = 0x7FFB"
    "v AND TAG_MASK = SHORT_STRING_TAG \<longleftrightarrow> tag16 v = 0x7FF9" "v AND TAG_MASK = INT32_TAG \<longleftrightarrow> tag16 v = 0x7FFE"
proof -
    have m: "TAG_MASK = NOT POINTER_MASK" by (simp only: tag_mask_not)
    show "v AND TAG_MASK = STRING_TAG \<longleftrightarrow> tag16 v = 0x7FFF" "v AND TAG_MASK = POINTER_TAG \<longleftrightarrow> tag16 v = 0x7FFD"
      using is_tag16(2,3) [of v] by (simp_all only: is_pointer_def is_string_def m)
    show "v AND NOT POINTER_MASK = BIGINT_TAG \<longleftrightarrow> tag16 v = 0x7FFA" "v AND TAG_MASK = JS_HANDLE_TAG \<longleftrightarrow> tag16 v = 0x7FFB"
      "v AND TAG_MASK = SHORT_STRING_TAG \<longleftrightarrow> tag16 v = 0x7FF9"
      using is_tag16(5-7) [of v] by (simp_all only: is_bigint_def is_js_handle_def is_short_string_def)
    have "tag16 v * 2 ^ 48 = (0x7FFE :: nat) * 2 ^ 48 \<longleftrightarrow> tag16 v = 0x7FFE" by simp
    then show "v AND TAG_MASK = INT32_TAG \<longleftrightarrow> tag16 v = 0x7FFE"
      unfolding tag_eq_iff by (simp add: INT32_TAG_def)
qed

lemma value_singletons:
  "v = TAG_UNDEFINED \<longleftrightarrow> tag16 v = 0x7FFC \<and> v AND POINTER_MASK = 1"
    "v = TAG_NULL \<longleftrightarrow> tag16 v = 0x7FFC \<and> v AND POINTER_MASK = 2"
    using is_singleton(1,2) [of v] by (simp_all only: is_undefined_def is_null_def)

lemma int32_payload:
  "sint (ucast (v AND INT32_MASK) :: u32) = sint (ucast (v AND POINTER_MASK) :: u32)"
    using as_int32_payload [of v] by (simp add: as_int32_def)

lemma js_is_truthy_tag16:
  assumes "\<not> raw_string_pointer v"
  shows "js_is_truthy h v =
     (if tag16 v = 0x7FFC \<and> v AND POINTER_MASK = 1 \<or> tag16 v = 0x7FFC \<and> v AND POINTER_MASK = 2
        \<or> tag16 v = 0x7FFC \<and> v AND POINTER_MASK = 3 then 0
      else if tag16 v = 0x7FFC \<and> v AND POINTER_MASK = 4 then 1
      else if tag16 v = 0x7FFF then
        (if v AND POINTER_MASK = 0 then 0 else if js_string_length h (v AND POINTER_MASK) = 0 then 0 else 1)
      else if tag16 v = 0x7FFD then (if v AND POINTER_MASK = 0 then 0 else 1)
      else if tag16 v = 0x7FFA then
        (if v AND POINTER_MASK = 0 then 0 else if js_bigint_is_zero (bigints h) (v AND POINTER_MASK) \<noteq> 0 then 0 else 1)
      else if tag16 v = 0x7FFB then 1
      else if tag16 v = 0x7FFE then (if sint (ucast (v AND POINTER_MASK) :: u32) = 0 then 0 else 1)
      else if tag16 v = 0x7FF9 then (if drop_bit 40 (v AND POINTER_MASK) = 0 then 0 else 1)
      else if f64_eq v 0 \<or> f64_is_nan v then 0 else 1)"
proof -
  have raw: "(is_above_handle_band v \<and> v < 0x0001000000000000 \<and> v AND 7 = 0) = False"
    using assms by (simp add: raw_string_pointer_def)
  show ?thesis
    unfolding js_is_truthy_def raw value_tags value_singletons is_singleton(3,4) int32_payload short_len_payload Let_def if_False ..
qed

lemma js_is_truthy_view:
  assumes "\<not> raw_string_pointer v" "\<And>w. js_view v \<noteq> VReserved w"
  shows "js_is_truthy h v =
    (case js_view v of VNumber n \<Rightarrow> if f64_eq n 0 \<or> f64_is_nan n then 0 else 1
     | VUndefined \<Rightarrow> 0 | VNull \<Rightarrow> 0 | VBool b \<Rightarrow> if b then 1 else 0
     | VInt32 z \<Rightarrow> if z = 0 then 0 else 1 | VPointer p \<Rightarrow> if p = 0 then 0 else 1
     | VString p \<Rightarrow> if p = 0 \<or> js_string_length h p = 0 then 0 else 1
     | VShort l d \<Rightarrow> if l = 0 then 0 else 1
     | VBigInt p \<Rightarrow> if p = 0 \<or> js_bigint_is_zero (bigints h) p \<noteq> 0 then 0 else 1
     | VHandle p \<Rightarrow> 1 | VReserved w \<Rightarrow> 0)"
proof -
  have len: "unat (drop_bit 40 (v AND POINTER_MASK)) = 0 \<longleftrightarrow> drop_bit 40 (v AND POINTER_MASK) = 0"
    by (rule unat_eq_zero)
  note unf = js_is_truthy_tag16 [OF assms(1), of h]
  show ?thesis
  proof (cases "js_view v")
    case (VReserved w)
    then show ?thesis using assms(2) by blast
  next
    case (VNumber n)
    then have "n = v" "is_number v" by (auto simp: js_view_cases dest: js_view_payload)
    then have "tag16 v < 0x7FF9 \<or> 0x7FFF < tag16 v" "n = v" unfolding is_tag16 by simp_all
    then have "tag16 v \<noteq> 0x7FF9" "tag16 v \<noteq> 0x7FFA" "tag16 v \<noteq> 0x7FFB" "tag16 v \<noteq> 0x7FFC"
      "tag16 v \<noteq> 0x7FFD" "tag16 v \<noteq> 0x7FFE" "tag16 v \<noteq> 0x7FFF" by linarith+
    then show ?thesis unfolding unf VNumber using \<open>n = v\<close> by simp
  next
    case (VInt32 z)
    then have "tag16 v = 0x7FFE" by (simp add: tag16_view [of v] view_tag_def)
    then show ?thesis
      unfolding unf using VInt32 js_view_payload(5) [OF VInt32] as_int32_payload [of v] by simp
  next
    case (VShort l d)
    then have "tag16 v = 0x7FF9" by (simp add: tag16_view [of v] view_tag_def)
    moreover have "l = unat (drop_bit 40 (v AND POINTER_MASK))"
      using VShort by (auto simp: view_simps split: if_splits simp del: drop_bit_and)
    ultimately show ?thesis unfolding unf VShort using len by simp
  qed (simp_all add: unf tag16_view [of v] payload_view [of v] view_tag_def view_payload_def)
qed

text \<open>What the runtime's truthiness test relies on: string payloads are null or real addresses.\<close>

definition truthy_ok :: "rt_heap \<Rightarrow> jsvalue \<Rightarrow> bool" where
  "truthy_ok h v \<longleftrightarrow> bigint_mem_ok (bigints h) \<and> strings_ok h \<and> value_ok v \<and> \<not> raw_string_pointer v
     \<and> (is_string v \<longrightarrow> as_string_ptr v = 0 \<or> 0x1000 \<le> as_string_ptr v)
     \<and> (case js_view v of VReserved w \<Rightarrow> False | _ \<Rightarrow> True)"

lemma js_is_truthy_eq:
  assumes "truthy_ok h v"
  shows "js_is_truthy h v = (if js_truthy (js_denote h v) then 1 else 0)"
proof -
  have res: "\<And>w. js_view v \<noteq> VReserved w" and raw: "\<not> raw_string_pointer v" and ok: "value_ok v"
    using assms by (auto simp: truthy_ok_def)
  note t = js_is_truthy_view [OF raw res, of h]
  show ?thesis
  proof (cases "js_view v")
    case (VNumber n)
    then show ?thesis by (simp add: t js_denote_def js_truthy_def f64_eq_iff f64_mag_0_iff f64_is_nan_def f64_exp_def)
  next
    case (VString p)
    then have "p = 0 \<or> is_valid_string_ptr p"
      using assms js_view_payload(3) [OF VString] by (auto simp: truthy_ok_def js_view_cases is_valid_string_ptr_def)
    moreover have "utf16_len (strings h p) = 0 \<longleftrightarrow> str_data (strings h p) = []"
      using assms by (simp add: truthy_ok_def strings_ok_def)
    ultimately show ?thesis
      using VString by (auto simp: t js_denote_def js_truthy_def string_bytes_def js_string_length_def)
  next
    case (VShort l d)
    then obtain bytes where b: "short_string_to_buf v = Some bytes" "try_short_string bytes = Some v"
      using value_ok_short [OF ok] by blast
    have "l = unat (drop_bit 40 (v AND POINTER_MASK))"
      using VShort by (auto simp: view_simps split: if_splits simp del: drop_bit_and)
    then have "l = length bytes"
      using short_string_len_eq [OF b(2)] short_len_payload [of v] by (simp add: short_string_len_def del: drop_bit_and)
    then show ?thesis using VShort b(1) by (simp add: t js_denote_def js_truthy_def)
  next
    case (VBigInt p)
    then have c: "clean_bigint_ptr p \<noteq> 0" using ok js_view_payload(2) [OF VBigInt] by (simp add: value_ok_def js_view_cases)
    then have "p \<noteq> 0" by (auto simp: clean_bigint_ptr_def Let_def)
    then show ?thesis
      using VBigInt c assms bigint_is_zero_iff [of "bigints h" p] by (simp add: t js_denote_def js_truthy_def truthy_ok_def)
  next
    case (VInt32 z)
    have "z = 0 \<longleftrightarrow> f64_mag (f64_of_int z) = 0"
    proof -
      have "z = sint (ucast (v AND POINTER_MASK) :: u32)"
        using js_view_payload(5) [OF VInt32] as_int32_payload [of v] by simp
      then have "\<bar>z\<bar> < 2 ^ 53"
        using sint_ge [of "ucast (v AND POINTER_MASK) :: u32"] sint_lt [of "ucast (v AND POINTER_MASK) :: u32"] by simp
      then have "f64_units (f64_of_int z) = z * 2 ^ 1074" by (rule f64_of_int_units)
      moreover have "f64_units (f64_of_int z) = 0 \<longleftrightarrow> f64_mag (f64_of_int z) = 0" by (simp add: f64_units_def)
      moreover have "z * 2 ^ 1074 = 0 \<longleftrightarrow> z = 0" by (metis mult_eq_0_iff power_not_zero zero_neq_numeral)
      ultimately show ?thesis by metis
    qed
    then show ?thesis using VInt32 f64_of_int32(1) [OF VInt32] by (simp add: t js_denote_def js_truthy_def)
  next
    case (VReserved w)
    then show ?thesis using res by blast
  qed (simp_all add: t js_denote_def js_truthy_def resolve_forwarding_eq_0_iff)
qed

subsection \<open>Forwarding chains\<close>

text \<open>One forwarding hop, where the collector or an array growth has moved the object.\<close>

definition forward_step :: "rt_heap \<Rightarrow> addr \<Rightarrow> addr option" where
  "forward_step h addr =
     (case try_read_tracked_gc_header h addr of
        None \<Rightarrow> None
      | Some header \<Rightarrow>
          if gc_flags (gc_headers h header) AND GC_FLAG_FORWARDED = 0 then None
          else if forwarding_address h header = 0 \<or> forwarding_address h header = addr then None
          else Some (forwarding_address h header))"

fun forward_steps :: "rt_heap \<Rightarrow> nat \<Rightarrow> addr \<Rightarrow> addr option" where
  "forward_steps h 0 addr = Some addr"
| "forward_steps h (Suc n) addr = (case forward_step h addr of None \<Rightarrow> None | Some a \<Rightarrow> forward_steps h n a)"

lemma resolve_forwarding_loop_step:
  "resolve_forwarding_loop h steps addr =
     (case forward_step h addr of
        None \<Rightarrow> addr
      | Some a \<Rightarrow> if steps + 1 > 64 then a else resolve_forwarding_loop h (steps + 1) a)"
  by (subst resolve_forwarding_loop.simps) (auto simp: forward_step_def Let_def split: option.splits)

lemma resolve_forwarding_loop_steps:
  assumes "steps \<le> 64"
  shows "\<exists>n. n \<le> 65 - steps \<and> forward_steps h n addr = Some (resolve_forwarding_loop h steps addr)
    \<and> (n < 65 - steps \<longrightarrow> forward_step h (resolve_forwarding_loop h steps addr) = None)"
  using assms
proof (induction "64 - steps" arbitrary: steps addr)
  case 0
  then have "steps = 64" by simp
  then show ?case
  proof (cases "forward_step h addr")
    case None
    then show ?thesis by (intro exI [of _ 0]) (simp add: resolve_forwarding_loop_step)
  next
    case (Some a)
    then show ?thesis using \<open>steps = 64\<close> by (intro exI [of _ "Suc 0"]) (simp add: resolve_forwarding_loop_step)
  qed
next
  case (Suc k)
  show ?case
  proof (cases "forward_step h addr")
    case None
    then show ?thesis by (intro exI [of _ 0]) (simp add: resolve_forwarding_loop_step)
  next
    case (Some a)
    then have eq: "resolve_forwarding_loop h steps addr = resolve_forwarding_loop h (steps + 1) a"
    proof -
      have "\<not> steps + 1 > 64" using Suc.hyps(2) by linarith
      then show ?thesis by (subst resolve_forwarding_loop_step) (simp only: Some option.case if_False)
    qed
    have "k = 64 - (steps + 1)" "steps + 1 \<le> 64" using Suc.hyps(2) by simp_all
    from Suc.hyps(1) [OF this, of a] obtain n where
      "n \<le> 65 - (steps + 1)" "forward_steps h n a = Some (resolve_forwarding_loop h (steps + 1) a)"
      "n < 65 - (steps + 1) \<longrightarrow> forward_step h (resolve_forwarding_loop h (steps + 1) a) = None" by blast
    then show ?thesis using Some eq \<open>steps + 1 \<le> 64\<close> by (intro exI [of _ "Suc n"]) auto
  qed
qed

subsection \<open>Properties\<close>

text \<open>A heap for the witnesses: two BigInt headers, one string, one moved object.\<close>

definition sample_heap :: rt_heap where
  "sample_heap =
     \<lparr>bigints = sample_mem 1 1,
      strings = (\<lambda>p. if p = 0x5000 then \<lparr>utf16_len = 1, str_data = [0x61]\<rparr> else \<lparr>utf16_len = 0, str_data = []\<rparr>),
      gc_headers = (\<lambda>p. if p = 0x2000000 then \<lparr>obj_type = 1, gc_flags = 0x82, alloc_size = 64\<rparr>
                        else \<lparr>obj_type = 1, gc_flags = 0x02, alloc_size = 64\<rparr>),
      first_word = (\<lambda>p. if p = 0x2000008 then 0x3000008 else 0),
      arena_range_base = (\<lambda>p. if 0x2000000 \<le> p \<and> p < 0x4000000 then Some 0x2000000 else None),
      malloc_tracked = (\<lambda>p. False),
      small_buf_slab = (\<lambda>p. False)\<rparr>"

lemma sample_heap_ok: "bigint_mem_ok (bigints sample_heap)" "strings_ok sample_heap"
  using sample_ok(1) by (simp_all add: sample_heap_def strings_ok_def)

lemma sample_forward: "resolve_forwarding sample_heap 0x2000008 = 0x3000008" "resolve_forwarding sample_heap 0x3000008 = 0x3000008"
proof -
  have "forward_step sample_heap 0x2000008 = Some 0x3000008" "forward_step sample_heap 0x3000008 = None"
    by (simp_all add: forward_step_def try_read_tracked_gc_header_def read_tracked_gc_header_def read_header_def heap_mem_def classify_tracked_gc_header_with_def is_handle_band_def
        band_defs checked_sub_def sample_heap_def GC_HEADER_SIZE_def gc_type_known_def GC_TYPE_MAX_def GC_FLAG_ARENA_def
        GC_FLAG_FORWARDED_def forwarding_address_def Let_def)
  then show "resolve_forwarding sample_heap 0x2000008 = 0x3000008" "resolve_forwarding sample_heap 0x3000008 = 0x3000008"
    by (simp_all add: resolve_forwarding_def resolve_forwarding_loop_step)
qed

text \<open>
  C7. Strict equality refines the language's: on values whose inline strings and BigInt pointers are
  well formed, \<open>js_jsvalue_equals\<close> never panics and answers 1 exactly when the denoted JavaScript
  values are strictly equal. Numbers compare by IEEE equality across the int32 and double forms,
  strings by content across the inline and heap forms, BigInts by value, and objects by identity
  after following forwarding pointers, whether the pointer is boxed or raw.
\<close>

theorem js_jsvalue_equals_correct:
  assumes "bigint_mem_ok (bigints h)"
    "value_ok (normalize_raw_object_bits a)" "value_ok (normalize_raw_object_bits b)"
  shows "js_jsvalue_equals h a b =
    Inr (if strict_equals (js_denote h (normalize_raw_object_bits a)) (js_denote h (normalize_raw_object_bits b)) then 1 else 0)"
  by (rule js_jsvalue_equals_eq [OF assms])

lemma sample_values_denote:
  "normalize_raw_object_bits 0x7FFF000000005000 = 0x7FFF000000005000"
  "normalize_raw_object_bits 0x7FF9010000000061 = 0x7FF9010000000061"
  "value_ok 0x7FFF000000005000" "value_ok 0x7FF9010000000061"
  "js_denote sample_heap 0x7FFF000000005000 = JString [0x61]"
  "js_denote sample_heap 0x7FF9010000000061 = JString [0x61]"
proof -
  have buf: "short_string_to_buf 0x7FF9010000000061 = Some [0x61]"
    by (simp add: short_string_to_buf_def short_string_len_def SHORT_STRING_LEN_SHIFT_def SHORT_STRING_MAX_LEN_def tag_defs Let_def)
  have mk: "try_short_string [0x61] = Some 0x7FF9010000000061"
    by (simp add: try_short_string_def SHORT_STRING_MAX_LEN_def SHORT_STRING_LEN_SHIFT_def SHORT_STRING_TAG_def)
  show "normalize_raw_object_bits 0x7FFF000000005000 = 0x7FFF000000005000"
    "normalize_raw_object_bits 0x7FF9010000000061 = 0x7FF9010000000061"
    by (simp_all add: normalize_raw_object_bits_def)
  show "value_ok 0x7FFF000000005000"
    by (simp add: value_ok_def is_short_string_def is_bigint_def tag_defs)
  show "value_ok 0x7FF9010000000061"
    using buf mk by (simp add: value_ok_def) (simp add: is_bigint_def tag_defs)
  show "js_denote sample_heap 0x7FFF000000005000 = JString [0x61]"
    by (simp add: js_denote_def js_view_def Let_def POINTER_MASK_def string_bytes_def sample_heap_def)
  show "js_denote sample_heap 0x7FF9010000000061 = JString [0x61]"
    using buf by (simp add: js_denote_def js_view_def Let_def POINTER_MASK_def)
qed

theorem js_jsvalue_equals_correct_witness:
  "js_jsvalue_equals sample_heap 0x7FFF000000005000 0x7FF9010000000061 = Inr 1"
  using js_jsvalue_equals_correct [OF sample_heap_ok(1), of "0x7FFF000000005000" "0x7FF9010000000061"]
  by (simp add: sample_values_denote strict_equals_def)

text \<open>
  SameValueZero, by which maps and sets compare keys, is an equivalence relation on well-formed
  values, NaN included, and coincides with strict equality except that NaN equals NaN.
\<close>

theorem same_value_zero_equivalence:
  assumes "bigint_mem_ok (bigints h)" "value_ok (normalize_raw_object_bits a)"
    "value_ok (normalize_raw_object_bits b)" "value_ok (normalize_raw_object_bits c)"
  shows "js_jsvalue_same_value_zero h a a = Inr 1
    \<and> js_jsvalue_same_value_zero h a b = js_jsvalue_same_value_zero h b a
    \<and> (js_jsvalue_same_value_zero h a b = Inr 1 \<longrightarrow> js_jsvalue_same_value_zero h b c = Inr 1
         \<longrightarrow> js_jsvalue_same_value_zero h a c = Inr 1)
    \<and> js_jsvalue_same_value_zero h a b
        = (if is_number_nan a \<and> is_number_nan b then Inr 1 else js_jsvalue_equals h a b)"
proof -
  define d where "d v = js_denote h (normalize_raw_object_bits v)" for v
  have eq: "js_jsvalue_same_value_zero h x y = Inr (if same_value_zero (d x) (d y) then 1 else 0)"
    if "x \<in> {a, b, c}" "y \<in> {a, b, c}" for x y
    unfolding d_def using assms that by (intro js_jsvalue_same_value_zero_eq) auto
  have one: "js_jsvalue_same_value_zero h x y = Inr 1 \<longleftrightarrow> same_value_zero (d x) (d y)"
    if "x \<in> {a, b, c}" "y \<in> {a, b, c}" for x y
    using eq [OF that] by simp
  have "js_jsvalue_same_value_zero h a a = Inr 1" by (simp only: one insert_iff simp_thms same_value_zero_equiv(1))
  moreover have "js_jsvalue_same_value_zero h a b = js_jsvalue_same_value_zero h b a"
    by (simp only: eq insert_iff simp_thms same_value_zero_equiv(2) [of "d a" "d b"])
  moreover have "js_jsvalue_same_value_zero h a c = Inr 1"
    if "js_jsvalue_same_value_zero h a b = Inr 1" "js_jsvalue_same_value_zero h b c = Inr 1"
    using that same_value_zero_equiv(3) [of "d a" "d b" "d c"] by (simp only: one insert_iff simp_thms)
  ultimately show ?thesis using js_jsvalue_same_value_zero_def [of h a b] by blast
qed

theorem same_value_zero_equivalence_witness:
  "js_jsvalue_same_value_zero sample_heap 0x7FF8000000000000 0x7FF8000000000000 = Inr 1"
  using same_value_zero_equivalence [OF sample_heap_ok(1), of "0x7FF8000000000000" "0x7FF8000000000000" "0x7FF8000000000000"]
  by (simp add: value_ok_def normalize_raw_object_bits_def is_short_string_def is_bigint_def tag_defs)

text \<open>
  C31. Truthiness: outside the raw string pointers of the legacy path, \<open>js_is_truthy\<close> answers 0
  exactly for \<open>undefined\<close>, \<open>null\<close>, \<open>false\<close>, the zeros and NaN in either number form, the
  empty string in either string form, the BigInt zero, and a null object pointer.
\<close>

theorem js_is_truthy_correct:
  assumes "truthy_ok h v"
  shows "js_is_truthy h v = (if js_truthy (js_denote h v) then 1 else 0)"
  by (rule js_is_truthy_eq [OF assms])

theorem js_is_truthy_correct_witness:
  "js_is_truthy sample_heap 0x7FFF000000005000 = 1"
proof -
  have "truthy_ok sample_heap 0x7FFF000000005000"
    using sample_heap_ok sample_values_denote(3)
    by (simp add: truthy_ok_def raw_string_pointer_def js_view_def Let_def as_string_ptr_def POINTER_MASK_def)
  from js_is_truthy_correct [OF this] show ?thesis by (simp add: sample_values_denote js_truthy_def)
qed

text \<open>
  The headers an allocator vouches for: aligned, and in the registered arena range that also holds the
  payload behind them, or in the malloc registry.
\<close>

definition owned_header :: "rt_heap \<Rightarrow> addr \<Rightarrow> bool" where
  "owned_header h p \<longleftrightarrow> p \<noteq> 0 \<and> unat p mod 4 = 0 \<and>
     (case arena_range_base h (p + GC_HEADER_SIZE) of Some base \<Rightarrow> base \<le> p | None \<Rightarrow> malloc_tracked h p)"

lemma classify_tracked_Some:
  assumes "classify_tracked_gc_header_with addr (arena_range_base h) (gc_malloc_header_is_tracked h) = Some (p, storage)"
    "p \<noteq> 0" "unat p mod 4 = 0"
  shows "HANDLE_BAND_MAX \<le> addr" "unat p + 8 = unat addr" "owned_header h p" "storage = Arena \<longleftrightarrow> arena_range_base h addr \<noteq> None"
proof -
  have band: "HANDLE_BAND_MAX \<le> addr" and p: "p = addr - 8"
    and st: "case arena_range_base h addr of Some base \<Rightarrow> base \<le> p \<and> storage = Arena | None \<Rightarrow> malloc_tracked h p \<and> storage = Malloc"
    using assms(1) unfolding classify_tracked_gc_header_with_def checked_sub_def gc_malloc_header_is_tracked_def is_handle_band_def
      GC_HEADER_SIZE_def by (auto simp: not_less split: option.splits if_splits)
  show "HANDLE_BAND_MAX \<le> addr" by (rule band)
  have "8 \<le> addr" using band by (simp add: word_le_nat_alt HANDLE_BAND_MAX_def)
  then show "unat p + 8 = unat addr" using p by (simp add: unat_sub word_le_nat_alt)
  show "owned_header h p" using st assms(2,3) p by (auto simp: owned_header_def GC_HEADER_SIZE_def split: option.splits)
  show "storage = Arena \<longleftrightarrow> arena_range_base h addr \<noteq> None" using st by (auto split: option.splits)
qed

lemma read_tracked_fault:
  assumes "read_tracked_gc_header h mem addr = Inl (Unmapped p)"
  shows "owned_header h p \<and> mem p = None"
  using assms classify_tracked_Some(3) [of addr h]
  by (auto simp: read_tracked_gc_header_def read_header_def split: option.splits prod.splits if_splits)

lemma read_tracked_Some:
  assumes "read_tracked_gc_header h mem addr = Inr (Some p)"
  shows "HANDLE_BAND_MAX \<le> addr \<and> unat p + 8 = unat addr \<and> owned_header h p \<and>
    (\<exists>hdr. mem p = Some hdr \<and> gc_type_known (obj_type hdr) \<and> 8 \<le> unat (alloc_size hdr) \<and>
       (gc_flags hdr AND GC_FLAG_ARENA \<noteq> 0 \<longleftrightarrow> arena_range_base h addr \<noteq> None))"
proof -
  obtain storage hdr where c: "classify_tracked_gc_header_with addr (arena_range_base h) (gc_malloc_header_is_tracked h) = Some (p, storage)"
    "p \<noteq> 0" "unat p mod 4 = 0" and hdr: "mem p = Some hdr" "gc_type_known (obj_type hdr)" "\<not> ucast (alloc_size hdr) < GC_HEADER_SIZE"
      "(gc_flags hdr AND GC_FLAG_ARENA \<noteq> 0) = (storage = Arena)"
    using assms by (auto simp: read_tracked_gc_header_def read_header_def split: option.splits prod.splits if_splits)
  have "unat (alloc_size hdr) < 2 ^ 32" using unsigned_less [of "alloc_size hdr"] by simp
  then have "unat (ucast (alloc_size hdr) :: u64) = unat (alloc_size hdr)" by (simp add: unat_ucast_mod)
  then have "8 \<le> unat (alloc_size hdr)" using hdr(3) by (simp add: word_less_nat_alt GC_HEADER_SIZE_def)
  then show ?thesis using classify_tracked_Some [OF c] hdr by blast
qed

text \<open>
  C32. The checked accessor dereferences owned memory only. In every memory in which the headers the
  allocators vouch for are mapped, and nothing else need be, \<open>try_read_tracked_gc_header\<close> does not fault
  at any address: the ownership, the alignment and the distance from the handle bands are decided
  before the first byte of a header is read. A header it returns lies just before the address without
  wrapping, is owned, has a valid type id and size, and its arena flag agrees with the allocator that
  owns it. On an id of the handle bands neither accessor touches memory at all. The unchecked
  \<open>try_read_gc_header\<close> can fault, but only at an address in the heap's range outside the small-buffer
  slabs.
\<close>

theorem gc_header_access_safe:
  assumes "\<forall>p. owned_header h p \<longrightarrow> mem p \<noteq> None"
  shows "(\<exists>r. read_tracked_gc_header h mem addr = Inr r \<and>
      (case r of None \<Rightarrow> True
       | Some p \<Rightarrow> HANDLE_BAND_MAX \<le> addr \<and> unat p + 8 = unat addr \<and> owned_header h p \<and>
           (\<exists>hdr. mem p = Some hdr \<and> gc_type_known (obj_type hdr) \<and> 8 \<le> unat (alloc_size hdr) \<and>
              (gc_flags hdr AND GC_FLAG_ARENA \<noteq> 0 \<longleftrightarrow> arena_range_base h addr \<noteq> None))))
    \<and> (is_handle_band addr \<longrightarrow> (\<forall>mem'. read_tracked_gc_header h mem' addr = Inr None \<and> read_gc_header t h mem' addr = Inr None))
    \<and> (\<forall>mem' p. read_gc_header t h mem' addr = Inl (Unmapped p) \<longrightarrow>
         is_plausible_heap_addr t addr \<and> \<not> small_buf_slab h addr \<and> p = addr - GC_HEADER_SIZE \<and> mem' p = None)"
proof (intro conjI impI allI)
  obtain r where r: "read_tracked_gc_header h mem addr = Inr r"
  proof (cases "read_tracked_gc_header h mem addr")
    case (Inl fault)
    then show thesis using assms read_tracked_fault [of h mem addr] by (cases fault) auto
  qed
  then show "\<exists>r. read_tracked_gc_header h mem addr = Inr r \<and>
      (case r of None \<Rightarrow> True
       | Some p \<Rightarrow> HANDLE_BAND_MAX \<le> addr \<and> unat p + 8 = unat addr \<and> owned_header h p \<and>
           (\<exists>hdr. mem p = Some hdr \<and> gc_type_known (obj_type hdr) \<and> 8 \<le> unat (alloc_size hdr) \<and>
              (gc_flags hdr AND GC_FLAG_ARENA \<noteq> 0 \<longleftrightarrow> arena_range_base h addr \<noteq> None)))"
    using read_tracked_Some [of h mem addr] by (cases r) simp_all
qed (auto simp: read_tracked_gc_header_def classify_tracked_gc_header_with_def read_gc_header_def read_header_def
    is_plausible_heap_addr_def is_above_handle_band_def is_handle_band_def split: if_splits option.splits)

theorem gc_header_access_safe_witness:
  "read_tracked_gc_header sample_heap (\<lambda>p. if owned_header sample_heap p then Some (gc_headers sample_heap p) else None) 0x2000008 = Inr (Some 0x2000000)
   \<and> (\<exists>r. read_tracked_gc_header sample_heap (\<lambda>p. if owned_header sample_heap p then Some (gc_headers sample_heap p) else None) 0x5000008 = Inr r)"
proof
  let ?mem = "\<lambda>p. if owned_header sample_heap p then Some (gc_headers sample_heap p) else None"
  have "owned_header sample_heap 0x2000000" by (simp add: owned_header_def sample_heap_def GC_HEADER_SIZE_def)
  then have "read_header ?mem 0x2000000 = Inr \<lparr>obj_type = 1, gc_flags = 0x82, alloc_size = 64\<rparr>"
    by (simp add: read_header_def) (simp add: sample_heap_def)
  moreover have "classify_tracked_gc_header_with 0x2000008 (arena_range_base sample_heap) (gc_malloc_header_is_tracked sample_heap) = Some (0x2000000, Arena)"
    by (simp add: classify_tracked_gc_header_with_def is_handle_band_def band_defs checked_sub_def GC_HEADER_SIZE_def sample_heap_def)
  ultimately show "read_tracked_gc_header sample_heap ?mem 0x2000008 = Inr (Some 0x2000000)"
    by (simp add: read_tracked_gc_header_def GC_HEADER_SIZE_def gc_type_known_def GC_TYPE_MAX_def GC_FLAG_ARENA_def)
  show "\<exists>r. read_tracked_gc_header sample_heap ?mem 0x5000008 = Inr r"
    using gc_header_access_safe [where h = sample_heap and mem = ?mem and addr = "0x5000008" and t = "\<lparr>named_os = True, aarch64_linux = False\<rparr>"] by force
qed

text \<open>
  C33. The forwarding walk always ends, after at most 65 hops, also on a corrupted cycle: its result is
  reached from the address by forwarding hops only, and unless the cap was hit it is an address that
  is not forwarded any further, so two references to one moved object resolve alike.
\<close>

theorem resolve_forwarding_bounded:
  "\<exists>n \<le> 65. forward_steps h n addr = Some (resolve_forwarding h addr)
     \<and> (n < 65 \<longrightarrow> forward_step h (resolve_forwarding h addr) = None)"
  using resolve_forwarding_loop_steps [of 0 h addr] unfolding resolve_forwarding_def by auto

theorem resolve_forwarding_bounded_witness:
  "resolve_forwarding sample_heap 0x2000008 = 0x3000008
   \<and> (\<exists>n \<le> 65. forward_steps sample_heap n 0x2000008 = Some 0x3000008)"
  using resolve_forwarding_bounded [of sample_heap "0x2000008"] by (auto simp: sample_forward)

end
