(* ===== verification/Keyed_Table.thy ===== *)
theory Keyed_Table
  imports Prelude "HOL-Library.Multiset"
begin

text \<open>
  The multimap from promise addresses to parked reactions, \<open>PromiseKeyedTable\<close>
  (\<open>promise/keyed_table.rs\<close>). It keeps a dense vector that the collector traverses and
  rewrites in place, beside a hash map from keys to positions that makes lookups constant time. The
  hash map is a partial function, the dense vector a list. The locales \<open>fifo_multimap\<close> and
  \<open>gc_multimap\<close> state what the promise machinery relies on, and are interpreted on the table.
\<close>

subsection \<open>\<open>PromiseKeyedTable\<close>\<close>

record 'v kt_entry =
  e_key :: u64
  e_seq :: nat
  e_slot :: nat
  e_value :: 'v

datatype Slots = One nat | Many "nat list"

text \<open>Positions and offsets are \<open>u32\<close>: the conversions \<open>as u32\<close> keep the residue.\<close>

fun slots_push :: "Slots \<Rightarrow> nat \<Rightarrow> Slots \<times> nat" where
  "slots_push (One first) position = (Many [first, position], 1)"
| "slots_push (Many positions) position =
     (let positions = positions @ [position] in (Many positions, (length positions - 1) mod 2 ^ 32))"

fun slots_as_slice :: "Slots \<Rightarrow> nat list" where
  "slots_as_slice (One first) = [first]"
| "slots_as_slice (Many positions) = positions"

fun slots_relocate :: "Slots \<Rightarrow> nat \<Rightarrow> nat \<Rightarrow> Slots" where
  "slots_relocate (One first) offset new_position = One new_position"
| "slots_relocate (Many positions) offset new_position =
     (if offset < length positions then Many (positions[offset := new_position]) else Many positions)"

record 'v keyed_table =
  kt_entries :: "'v kt_entry list"
  kt_index :: "u64 \<rightharpoonup> Slots"
  kt_index_dirty :: bool
  kt_next_seq :: nat

definition kt_new :: "'v keyed_table" where
  "kt_new = \<lparr>kt_entries = [], kt_index = Map.empty, kt_index_dirty = False, kt_next_seq = 0\<rparr>"

definition kt_is_empty :: "'v keyed_table \<Rightarrow> bool" where
  "kt_is_empty t = (kt_entries t = [])"

definition kt_len :: "'v keyed_table \<Rightarrow> nat" where
  "kt_len t = length (kt_entries t)"

definition index_slot_for :: "(u64 \<rightharpoonup> Slots) \<Rightarrow> u64 \<Rightarrow> nat \<Rightarrow> (u64 \<rightharpoonup> Slots) \<times> nat" where
  "index_slot_for index key position =
     (case index key of
        Some slots \<Rightarrow> (let (slots, offset) = slots_push slots position in (index(key \<mapsto> slots), offset))
      | None \<Rightarrow> (index(key \<mapsto> One position), 0))"

text \<open>\<open>next_seq += 1\<close> on a \<open>u64\<close>: the sum wraps.\<close>

definition kt_push :: "u64 \<Rightarrow> 'v \<Rightarrow> 'v keyed_table \<Rightarrow> 'v keyed_table" where
  "kt_push key v t =
     (let position = length (kt_entries t) mod 2 ^ 32;
          seq = kt_next_seq t;
          (index, slot) =
            (if kt_index_dirty t then (kt_index t, 0) else index_slot_for (kt_index t) key position)
      in t\<lparr>kt_next_seq := (kt_next_seq t + 1) mod 2 ^ 64,
           kt_index := index,
           kt_entries := kt_entries t @ [\<lparr>e_key = key, e_seq = seq, e_slot = slot, e_value = v\<rparr>]\<rparr>)"

definition kt_entry_at :: "'v keyed_table \<Rightarrow> nat \<Rightarrow> 'v kt_entry option" where
  "kt_entry_at t i = (if i < length (kt_entries t) then Some (kt_entries t ! i) else None)"

definition kt_note_key_rewritten :: "'v keyed_table \<Rightarrow> 'v keyed_table" where
  "kt_note_key_rewritten t = t\<lparr>kt_index_dirty := True\<rparr>"

fun rebuild_loop :: "nat list \<Rightarrow> (u64 \<rightharpoonup> Slots) \<Rightarrow> 'v kt_entry list \<Rightarrow> (u64 \<rightharpoonup> Slots) \<times> 'v kt_entry list" where
  "rebuild_loop [] index entries = (index, entries)"
| "rebuild_loop (position # order) index entries =
     (let (index, slot) = index_slot_for index (e_key (entries ! position)) position
      in rebuild_loop order index (entries[position := (entries ! position)\<lparr>e_slot := slot\<rparr>]))"

definition ensure_index :: "'v keyed_table \<Rightarrow> 'v keyed_table" where
  "ensure_index t =
     (if \<not> kt_index_dirty t then t
      else
        let order = sort_key (\<lambda>position. e_seq (kt_entries t ! position)) [0..<length (kt_entries t) mod 2 ^ 32];
            (index, entries) = rebuild_loop order Map.empty (kt_entries t)
        in t\<lparr>kt_index := index, kt_entries := entries, kt_index_dirty := False\<rparr>)"

text \<open>\<open>Vec::swap_remove\<close>: the last element fills the hole; an index out of range panics.\<close>

definition swap_remove :: "nat \<Rightarrow> 'a list \<Rightarrow> js_throw + ('a \<times> 'a list)" where
  "swap_remove i xs =
     (if i < length xs then Inr (xs ! i, butlast (xs[i := last xs]))
      else Inl (Panic ''swap_remove index out of bounds''))"

fun drain_loop ::
    "nat list \<Rightarrow> 'v keyed_table \<Rightarrow> 'v kt_entry list \<Rightarrow> js_throw + ('v kt_entry list \<times> 'v keyed_table)" where
  "drain_loop [] t drained = Inr (drained, t)"
| "drain_loop (position # positions) t drained =
     (case swap_remove position (kt_entries t) of
        Inl e \<Rightarrow> Inl e
      | Inr (entry, entries) \<Rightarrow>
          let index =
                (if position < length entries then
                   (let moved = entries ! position
                    in case kt_index t (e_key moved) of
                         Some slots \<Rightarrow> (kt_index t)(e_key moved \<mapsto> slots_relocate slots (e_slot moved) position)
                       | None \<Rightarrow> kt_index t)
                 else kt_index t)
          in drain_loop positions (t\<lparr>kt_entries := entries, kt_index := index\<rparr>) (drained @ [entry]))"

definition kt_take_all :: "u64 \<Rightarrow> 'v keyed_table \<Rightarrow> js_throw + ('v list \<times> 'v keyed_table)" where
  "kt_take_all key t =
     (if kt_entries t = [] then Inr ([], t)
      else
        let t = ensure_index t
        in case kt_index t key of
             None \<Rightarrow> Inr ([], t)
           | Some slots \<Rightarrow>
               (case drain_loop (rev (sort (slots_as_slice slots))) (t\<lparr>kt_index := (kt_index t)(key := None)\<rparr>) [] of
                  Inl e \<Rightarrow> Inl e
                | Inr (drained, t) \<Rightarrow> Inr (map e_value (sort_key e_seq drained), t)))"

definition kt_remove_key :: "u64 \<Rightarrow> 'v keyed_table \<Rightarrow> js_throw + 'v keyed_table" where
  "kt_remove_key key t =
     (if kt_entries t = [] then Inr t
      else case kt_take_all key t of Inl e \<Rightarrow> Inl e | Inr (_, t) \<Rightarrow> Inr t)"

text \<open>
  The callback of \<open>retain_mut\<close> may rewrite the key and the value of an entry and keeps it or not:
  it is a function of key and value with an optional result.
\<close>

definition kt_retain_mut :: "(u64 \<Rightarrow> 'v \<Rightarrow> (u64 \<times> 'v) option) \<Rightarrow> 'v keyed_table \<Rightarrow> 'v keyed_table" where
  "kt_retain_mut keep t =
     (if kt_entries t = [] then t
      else t\<lparr>kt_entries :=
              concat (map (\<lambda>e. case keep (e_key e) (e_value e) of
                                 None \<Rightarrow> []
                               | Some (k, v) \<Rightarrow> [e\<lparr>e_key := k, e_value := v\<rparr>]) (kt_entries t)),
             kt_index_dirty := True\<rparr>)"

text \<open>
  A root scan (\<open>iter_mut\<close> in \<open>promise/reactions.rs\<close>): the visitor gives the new key of an
  entry whose promise has moved and rewrites the pointers inside the values, and the index is marked
  dirty if some key was rewritten.
\<close>

definition kt_scan :: "(u64 \<Rightarrow> u64 option) \<Rightarrow> ('v \<Rightarrow> 'v) \<Rightarrow> 'v keyed_table \<Rightarrow> 'v keyed_table" where
  "kt_scan visit_key visit_value t =
     (let rekeyed = list_ex (\<lambda>e. visit_key (e_key e) \<noteq> None) (kt_entries t);
          t = t\<lparr>kt_entries :=
                map (\<lambda>e. e\<lparr>e_key := (case visit_key (e_key e) of None \<Rightarrow> e_key e | Some k \<Rightarrow> k),
                              e_value := visit_value (e_value e)\<rparr>) (kt_entries t)\<rparr>
      in if rekeyed then kt_note_key_rewritten t else t)"

subsection \<open>The index invariant\<close>

definition slices :: "(u64 \<rightharpoonup> Slots) \<Rightarrow> u64 \<Rightarrow> nat list" where
  "slices idx k = (case idx k of None \<Rightarrow> [] | Some s \<Rightarrow> slots_as_slice s)"

text \<open>
  The index describes the entries at the positions \<open>P\<close>: every listed position holds that key and
  knows its offset in the list, every position of \<open>P\<close> is listed, and each list is in registration
  order.
\<close>

definition index_ok :: "'v kt_entry list \<Rightarrow> (u64 \<rightharpoonup> Slots) \<Rightarrow> nat set \<Rightarrow> bool" where
  "index_ok es idx P \<longleftrightarrow>
     (\<forall>k j. j < length (slices idx k) \<longrightarrow>
        slices idx k ! j \<in> P \<and> e_key (es ! (slices idx k ! j)) = k \<and> e_slot (es ! (slices idx k ! j)) = j)
     \<and> (\<forall>p\<in>P. e_slot (es ! p) < length (slices idx (e_key (es ! p)))
          \<and> slices idx (e_key (es ! p)) ! e_slot (es ! p) = p)
     \<and> (\<forall>k. sorted_wrt (<) (map (\<lambda>p. e_seq (es ! p)) (slices idx k)))"

lemma index_okD:
  assumes "index_ok es idx P"
  shows "j < length (slices idx k) \<Longrightarrow> slices idx k ! j \<in> P"
    "j < length (slices idx k) \<Longrightarrow> e_key (es ! (slices idx k ! j)) = k"
    "j < length (slices idx k) \<Longrightarrow> e_slot (es ! (slices idx k ! j)) = j"
    "p \<in> P \<Longrightarrow> e_slot (es ! p) < length (slices idx (e_key (es ! p)))"
    "p \<in> P \<Longrightarrow> slices idx (e_key (es ! p)) ! e_slot (es ! p) = p"
    "sorted_wrt (<) (map (\<lambda>p. e_seq (es ! p)) (slices idx k))"
  using assms by (simp_all add: index_ok_def)

lemma slices_distinct: "index_ok es idx P \<Longrightarrow> distinct (slices idx k)"
  unfolding distinct_conv_nth by (metis index_okD(3))

lemma slices_subset: "index_ok es idx P \<Longrightarrow> set (slices idx k) \<subseteq> P"
  by (auto simp: in_set_conv_nth index_okD(1))

lemma slices_length: "index_ok es idx P \<Longrightarrow> finite P \<Longrightarrow> length (slices idx k) \<le> card P"
  using distinct_card [OF slices_distinct] card_mono [OF _ slices_subset] by metis

lemma set_slices: "index_ok es idx P \<Longrightarrow> set (slices idx k) = {p \<in> P. e_key (es ! p) = k}"
proof
  assume i: "index_ok es idx P"
  show "set (slices idx k) \<subseteq> {p \<in> P. e_key (es ! p) = k}"
    using index_okD(1,2) [OF i] by (auto simp: in_set_conv_nth)
  show "{p \<in> P. e_key (es ! p) = k} \<subseteq> set (slices idx k)"
    using index_okD(4,5) [OF i] by (force simp: in_set_conv_nth)
qed

lemma index_slot_for_slices:
  assumes "index_slot_for idx k p = (idx', off)" "length (slices idx k) < 2 ^ 32"
  shows "slices idx' = (slices idx)(k := slices idx k @ [p])" "off = length (slices idx k)"
proof -
  have "slices idx' = (slices idx)(k := slices idx k @ [p]) \<and> off = length (slices idx k)"
  proof (cases "idx k")
    case None
    then show ?thesis using assms by (auto simp: index_slot_for_def slices_def)
  next
    case (Some s)
    then show ?thesis
      using assms by (cases s) (auto simp: index_slot_for_def slices_def Let_def)
  qed
  then show "slices idx' = (slices idx)(k := slices idx k @ [p])" "off = length (slices idx k)" by blast+
qed

lemma index_ok_insert:
  assumes i: "index_ok es idx P" and p: "p \<notin> P"
    and sl: "slices idx' = (slices idx)(e_key (es' ! p) := slices idx (e_key (es' ! p)) @ [p])"
    and slot: "e_slot (es' ! p) = length (slices idx (e_key (es' ! p)))"
    and same: "\<And>q. q \<in> P \<Longrightarrow> es' ! q = es ! q"
    and seq: "\<And>q. q \<in> P \<Longrightarrow> e_seq (es ! q) < e_seq (es' ! p)"
  shows "index_ok es' idx' (insert p P)"
  unfolding index_ok_def
proof (intro conjI allI ballI impI)
  fix k j assume j: "j < length (slices idx' k)"
  have "slices idx' k ! j \<in> insert p P \<and> e_key (es' ! (slices idx' k ! j)) = k \<and> e_slot (es' ! (slices idx' k ! j)) = j"
  proof (cases "k = e_key (es' ! p) \<and> j = length (slices idx k)")
    case True
    then show ?thesis using slot by (simp add: sl)
  next
    case False
    then have j': "j < length (slices idx k)" and eq: "slices idx' k ! j = slices idx k ! j"
      using j by (auto simp: sl nth_append split: if_splits)
    show ?thesis using index_okD(1-3) [OF i j'] same unfolding eq by simp
  qed
  then show "slices idx' k ! j \<in> insert p P" "e_key (es' ! (slices idx' k ! j)) = k" "e_slot (es' ! (slices idx' k ! j)) = j"
    by blast+
next
  fix q assume q: "q \<in> insert p P"
  have "e_slot (es' ! q) < length (slices idx' (e_key (es' ! q))) \<and> slices idx' (e_key (es' ! q)) ! e_slot (es' ! q) = q"
  proof (cases "q = p")
    case True
    then show ?thesis using slot by (simp add: sl)
  next
    case False
    then have "q \<in> P" using q by simp
    then show ?thesis
      using same [OF \<open>q \<in> P\<close>] index_okD(4,5) [OF i \<open>q \<in> P\<close>]
      by (cases "e_key (es ! q) = e_key (es' ! p)") (simp_all add: sl nth_append)
  qed
  then show "e_slot (es' ! q) < length (slices idx' (e_key (es' ! q)))" "slices idx' (e_key (es' ! q)) ! e_slot (es' ! q) = q"
    by blast+
next
  fix k
  have eq: "map (\<lambda>p. e_seq (es' ! p)) (slices idx k) = map (\<lambda>p. e_seq (es ! p)) (slices idx k)"
    by (rule map_cong [OF refl]) (use same slices_subset [OF i, of k] in auto)
  show "sorted_wrt (<) (map (\<lambda>p. e_seq (es' ! p)) (slices idx' k))"
  proof -
    have "sorted_wrt (<) (map (\<lambda>p. e_seq (es' ! p)) (slices idx k))" unfolding eq by (rule index_okD(6) [OF i])
    moreover have "\<forall>q\<in>set (slices idx k). e_seq (es' ! q) < e_seq (es' ! p)"
      using slices_subset [OF i, of k] same seq by auto
    ultimately show ?thesis by (auto simp: sl sorted_wrt_append)
  qed
qed

lemma index_ok_empty: "index_ok es Map.empty {}"
  by (simp add: index_ok_def slices_def)

subsection \<open>Rebuilding the index\<close>

definition core :: "'v kt_entry \<Rightarrow> u64 \<times> nat \<times> 'v" where
  "core e = (e_key e, e_seq e, e_value e)"

lemma core_eq_nth:
  assumes "map core es' = map core es" "p < length es"
  shows "e_key (es' ! p) = e_key (es ! p)" "e_seq (es' ! p) = e_seq (es ! p)"
proof -
  have "core (es' ! p) = core (es ! p)" using assms by (metis length_map nth_map)
  then show "e_key (es' ! p) = e_key (es ! p)" "e_seq (es' ! p) = e_seq (es ! p)" by (simp_all add: core_def)
qed

lemma rebuild_loop_ok:
  assumes "index_ok es idx P" "distinct order" "set order \<inter> P = {}" "set order \<union> P \<subseteq> {..<length es}"
    "sorted_wrt (<) (map (\<lambda>p. e_seq (es ! p)) order)"
    "\<And>p q. p \<in> set order \<Longrightarrow> q \<in> P \<Longrightarrow> e_seq (es ! q) < e_seq (es ! p)" "length es < 2 ^ 32"
  shows "index_ok (snd (rebuild_loop order idx es)) (fst (rebuild_loop order idx es)) (P \<union> set order)
    \<and> map core (snd (rebuild_loop order idx es)) = map core es"
  using assms
proof (induction order idx es arbitrary: P rule: rebuild_loop.induct)
  case (2 p order idx es)
  obtain idx' off where s: "index_slot_for idx (e_key (es ! p)) p = (idx', off)" by fastforce
  define es' where "es' = es[p := (es ! p)\<lparr>e_slot := off\<rparr>]"
  have pl: "p < length es" "p \<notin> P" "finite P" using "2.prems"(3,4) finite_subset [of P "{..<length es}"] by auto
  have "card P \<le> length es" using card_mono [of "{..<length es}" P] "2.prems"(4) by auto
  then have small: "length (slices idx (e_key (es ! p))) < 2 ^ 32"
    using slices_length [OF "2.prems"(1) pl(3), of "e_key (es ! p)"] "2.prems"(7) by linarith
  note sl = index_slot_for_slices [OF s small]
  have at: "es' ! p = (es ! p)\<lparr>e_slot := off\<rparr>" "\<And>q. q \<noteq> p \<Longrightarrow> es' ! q = es ! q" using pl by (simp_all add: es'_def)
  have seqs: "e_seq (es' ! q) = e_seq (es ! q)" for q using at by (cases "q = p") simp_all
  have ok: "index_ok es' idx' (insert p P)"
    using "2.prems"(1) pl(2) by (rule index_ok_insert) (use sl at pl "2.prems"(6) in auto)
  have mc: "map core es' = map core es"
  proof (rule nth_equalityI)
    fix i assume "i < length (map core es')"
    then show "map core es' ! i = map core es ! i" using at by (cases "i = p") (simp_all add: es'_def core_def)
  qed (simp add: es'_def)
  have "index_ok (snd (rebuild_loop order idx' es')) (fst (rebuild_loop order idx' es')) (insert p P \<union> set order)
    \<and> map core (snd (rebuild_loop order idx' es')) = map core es'"
  proof (rule "2.IH" [OF s [symmetric] refl, of "insert p P", folded es'_def])
    show "sorted_wrt (<) (map (\<lambda>p. e_seq (es' ! p)) order)" using "2.prems"(5) by (simp add: seqs)
    show "e_seq (es' ! q) < e_seq (es' ! r)" if "r \<in> set order" "q \<in> insert p P" for r q
      using that "2.prems"(5,6) by (auto simp: seqs)
  qed (use ok "2.prems" pl in \<open>auto simp: es'_def\<close>)
  then show ?case using s mc by (simp add: es'_def [symmetric])
qed simp

subsection \<open>Draining one key\<close>

lemma swap_remove_Inr:
  assumes "i < length xs"
  obtains ys where "swap_remove i xs = Inr (xs ! i, ys)" "length ys = length xs - 1"
    "\<And>j. j < length ys \<Longrightarrow> ys ! j = (if j = i then last xs else xs ! j)" "mset xs = add_mset (xs ! i) (mset ys)"
proof -
  define ys where "ys = butlast (xs[i := last xs])"
  have ne: "xs \<noteq> []" using assms by auto
  have nth: "ys ! j = (if j = i then last xs else xs ! j)" if "j < length ys" for j
    using that by (simp add: ys_def nth_butlast)
  have "mset (xs[i := last xs]) = add_mset (last (xs[i := last xs])) (mset ys)"
    using ne by (metis append_butlast_last_id list_update_nonempty mset.simps(2) mset_append mset_rev rev.simps(2) union_mset_add_mset_right ys_def add.right_neutral mset.simps(1))
  moreover have "last (xs[i := last xs]) = last xs"
    using ne assms by (simp add: last_conv_nth nth_list_update)
  moreover have "mset (xs[i := last xs]) = add_mset (last xs) (mset xs - {#xs ! i#})" using assms by (simp add: mset_update)
  ultimately have "mset ys = mset xs - {#xs ! i#}" by simp
  then have "mset xs = add_mset (xs ! i) (mset ys)" using assms by (simp add: insert_DiffM)
  then show ?thesis using that [of ys] assms nth by (simp add: swap_remove_def ys_def)
qed

definition drain_inv :: "u64 \<Rightarrow> nat list \<Rightarrow> 'v kt_entry list \<Rightarrow> (u64 \<rightharpoonup> Slots) \<Rightarrow> bool" where
  "drain_inv k ps es idx \<longleftrightarrow> sorted_wrt (>) ps \<and> set ps = {p. p < length es \<and> e_key (es ! p) = k}
     \<and> index_ok es idx {p. p < length es \<and> e_key (es ! p) \<noteq> k}"

lemma slices_relocate:
  assumes "idx k = Some s" "j < length (slices idx k)"
  shows "slices (idx(k \<mapsto> slots_relocate s j p)) = (slices idx)(k := (slices idx k)[j := p])"
  using assms by (cases s) (auto simp: slices_def fun_eq_iff)

text \<open>Moving the last entry into the hole, with its own list repointed, keeps the index right.\<close>

lemma index_ok_move:
  assumes i: "index_ok es idx P" and n: "n \<in> P" and p: "p \<notin> P"
    and sl: "slices idx' = (slices idx)(e_key (es ! n) := (slices idx (e_key (es ! n)))[e_slot (es ! n) := p])"
    and at: "es' ! p = es ! n" "\<And>q. q \<in> P \<Longrightarrow> q \<noteq> n \<Longrightarrow> es' ! q = es ! q"
  shows "index_ok es' idx' (insert p (P - {n}))"
  unfolding index_ok_def
proof (intro conjI allI ballI impI)
  note d = index_okD [OF i]
  fix k j assume j: "j < length (slices idx' k)"
  have jl: "j < length (slices idx k)" using j by (auto simp: sl split: if_splits)
  have "slices idx' k ! j \<in> insert p (P - {n}) \<and> e_key (es' ! (slices idx' k ! j)) = k \<and> e_slot (es' ! (slices idx' k ! j)) = j"
  proof (cases "k = e_key (es ! n) \<and> j = e_slot (es ! n)")
    case True
    then have "slices idx' k ! j = p" using jl by (simp add: sl)
    then show ?thesis using True at(1) by simp
  next
    case False
    then have eq: "slices idx' k ! j = slices idx k ! j" using jl by (auto simp: sl nth_list_update)
    have "slices idx k ! j \<noteq> n" using False d(2,3) [OF jl] by auto
    then show ?thesis using d(1-3) [OF jl] at(2) unfolding eq by simp
  qed
  then show "slices idx' k ! j \<in> insert p (P - {n})" "e_key (es' ! (slices idx' k ! j)) = k" "e_slot (es' ! (slices idx' k ! j)) = j"
    by blast+
next
  note d = index_okD [OF i]
  fix q assume q: "q \<in> insert p (P - {n})"
  have "e_slot (es' ! q) < length (slices idx' (e_key (es' ! q))) \<and> slices idx' (e_key (es' ! q)) ! e_slot (es' ! q) = q"
  proof (cases "q = p")
    case True
    then show ?thesis using d(4) [OF n] at(1) by (simp add: sl)
  next
    case False
    then have q': "q \<in> P" "q \<noteq> n" using q by auto
    have "\<not> (e_key (es ! q) = e_key (es ! n) \<and> e_slot (es ! q) = e_slot (es ! n))"
      using d(5) [OF q'(1)] d(5) [OF n] q'(2) by metis
    then show ?thesis
      using d(4,5) [OF q'(1)] at(2) [OF q'] by (cases "e_key (es ! q) = e_key (es ! n)") (auto simp: sl nth_list_update)
  qed
  then show "e_slot (es' ! q) < length (slices idx' (e_key (es' ! q)))" "slices idx' (e_key (es' ! q)) ! e_slot (es' ! q) = q"
    by blast+
next
  note d = index_okD [OF i]
  fix k
  have "map (\<lambda>p. e_seq (es' ! p)) (slices idx' k) = map (\<lambda>p. e_seq (es ! p)) (slices idx k)"
  proof (rule nth_equalityI)
    show "length (map (\<lambda>p. e_seq (es' ! p)) (slices idx' k)) = length (map (\<lambda>p. e_seq (es ! p)) (slices idx k))"
      by (simp add: sl)
    fix j assume "j < length (map (\<lambda>p. e_seq (es' ! p)) (slices idx' k))"
    then have j: "j < length (slices idx k)" by (auto simp: sl split: if_splits)
    show "map (\<lambda>p. e_seq (es' ! p)) (slices idx' k) ! j = map (\<lambda>p. e_seq (es ! p)) (slices idx k) ! j"
    proof (cases "k = e_key (es ! n) \<and> j = e_slot (es ! n)")
      case True
      then show ?thesis using j at(1) d(5) [OF n] by (simp add: sl)
    next
      case False
      then have "slices idx k ! j \<noteq> n" using d(2,3) [OF j] by auto
      then show ?thesis using False j at(2) [OF d(1) [OF j]] by (auto simp: sl nth_list_update)
    qed
  qed
  then show "sorted_wrt (<) (map (\<lambda>p. e_seq (es' ! p)) (slices idx' k))" by (simp only: d(6))
qed

lemma index_ok_cong_fields:
  assumes "index_ok es idx P" "\<And>q. q \<in> P \<Longrightarrow> e_key (es' ! q) = e_key (es ! q)"
    "\<And>q. q \<in> P \<Longrightarrow> e_slot (es' ! q) = e_slot (es ! q)" "\<And>q. q \<in> P \<Longrightarrow> e_seq (es' ! q) = e_seq (es ! q)"
  shows "index_ok es' idx P"
proof -
  have "map (\<lambda>p. e_seq (es' ! p)) (slices idx k) = map (\<lambda>p. e_seq (es ! p)) (slices idx k)" for k
    by (rule map_cong [OF refl]) (use assms(4) slices_subset [OF assms(1), of k] in auto)
  then have "sorted_wrt (<) (map (\<lambda>p. e_seq (es' ! p)) (slices idx k))" for k
    by (simp only: index_okD(6) [OF assms(1)])
  then show ?thesis
    using index_okD(1-5) [OF assms(1)] assms(2,3) by (simp add: index_ok_def)
qed

lemma index_ok_cong: "index_ok es idx P \<Longrightarrow> (\<And>q. q \<in> P \<Longrightarrow> es' ! q = es ! q) \<Longrightarrow> index_ok es' idx P"
  by (rule index_ok_cong_fields) simp_all

text \<open>The positions of a key, and of the others, when its highest position is swap-removed.\<close>

lemma swap_positions:
  fixes K :: "nat \<Rightarrow> bool"
  assumes "insert p S = {q. q < Suc n \<and> K q}" "\<forall>q\<in>S. q < p" "\<forall>j<n. K' j = (if j = p then K n else K j)"
  shows "S = {q. q < n \<and> K' q}" "p < n \<Longrightarrow> \<not> K n"
    "{q. q < n \<and> \<not> K' q} = (if p = n then {q. q < Suc n \<and> \<not> K q} else insert p ({q. q < Suc n \<and> \<not> K q} - {n}))"
proof -
  have p: "p < Suc n" "K p" using assms(1) by auto
  have S: "q \<in> S \<longleftrightarrow> q < Suc n \<and> K q \<and> q \<noteq> p" for q using assms(1,2) by blast
  show last: "\<not> K n" if "p < n"
  proof
    assume "K n"
    then have "n \<in> S" using S [of n] that by simp
    then show False using assms(2) that by auto
  qed
  have "q \<in> S \<longleftrightarrow> q < n \<and> K' q" for q
  proof (cases "q < n")
    case True
    then show ?thesis using S [of q] assms(3) True last by (cases "q = p") auto
  next
    case False
    then show ?thesis using S [of q] assms(2) p(1) by auto
  qed
  then show "S = {q. q < n \<and> K' q}" by blast
  have "q < n \<and> \<not> K' q \<longleftrightarrow> (if p = n then q < Suc n \<and> \<not> K q else q = p \<or> (q < Suc n \<and> \<not> K q \<and> q \<noteq> n))" for q
  proof (cases "q < n")
    case True
    then show ?thesis using assms(3) True last p by (cases "q = p") auto
  next
    case False
    then show ?thesis using p by (cases "p = n") (auto simp: less_Suc_eq)
  qed
  then show "{q. q < n \<and> \<not> K' q} = (if p = n then {q. q < Suc n \<and> \<not> K q} else insert p ({q. q < Suc n \<and> \<not> K q} - {n}))"
    by (cases "p = n") (simp_all add: set_eq_iff)
qed

lemma drain_step:
  assumes inv: "drain_inv k (p # ps) (kt_entries t) (kt_index t)"
  obtains entries index where
    "drain_loop (p # ps) t dr = drain_loop ps (t\<lparr>kt_entries := entries, kt_index := index\<rparr>) (dr @ [kt_entries t ! p])"
    "drain_inv k ps entries index" "e_key (kt_entries t ! p) = k"
    "mset (kt_entries t) = add_mset (kt_entries t ! p) (mset entries)"
proof -
  define es idx n where "es = kt_entries t" and "idx = kt_index t" and "n = length es - 1"
  have p: "p < length es" "e_key (es ! p) = k" and ps: "sorted_wrt (>) ps" "\<forall>q\<in>set ps. q < p"
    and set_ps: "insert p (set ps) = {q. q < length es \<and> e_key (es ! q) = k}"
    and ok: "index_ok es idx {q. q < length es \<and> e_key (es ! q) \<noteq> k}"
    using inv by (auto simp: drain_inv_def es_def idx_def)
  obtain ys where ys: "swap_remove p es = Inr (es ! p, ys)" "length ys = length es - 1"
    "\<And>j. j < length ys \<Longrightarrow> ys ! j = (if j = p then last es else es ! j)" "mset es = add_mset (es ! p) (mset ys)"
    using swap_remove_Inr [OF p(1)] by blast
  define idx' where "idx' = (if p < length ys then
      (case idx (e_key (ys ! p)) of Some slots \<Rightarrow> idx(e_key (ys ! p) \<mapsto> slots_relocate slots (e_slot (ys ! p)) p) | None \<Rightarrow> idx)
      else idx)"
  have step: "drain_loop (p # ps) t dr = drain_loop ps (t\<lparr>kt_entries := ys, kt_index := idx'\<rparr>) (dr @ [kt_entries t ! p])"
    using ys(1) unfolding idx'_def idx_def es_def by (simp add: Let_def)
  have len: "length es = Suc n" "length ys = n" using p(1) ys(2) by (auto simp: n_def)
  have "last es = es ! n" using p(1) by (subst last_conv_nth) (auto simp: n_def)
  then have nth: "ys ! j = (if j = p then es ! n else es ! j)" if "j < n" for j using ys(3) that len by simp
  have K': "\<forall>j<n. (e_key (ys ! j) = k) = (if j = p then e_key (es ! n) = k else e_key (es ! j) = k)"
    using nth by simp
  note sw = swap_positions [where K = "\<lambda>q. e_key (es ! q) = k" and K' = "\<lambda>q. e_key (ys ! q) = k",
      OF set_ps [unfolded len(1)] ps(2) K']
  have pos: "set ps = {q. q < length ys \<and> e_key (ys ! q) = k}" using sw(1) len(2) by simp
  have "index_ok ys idx' {q. q < n \<and> e_key (ys ! q) \<noteq> k}"
  proof (cases "p = n")
    case True
    have "index_ok ys idx {q. q < Suc n \<and> e_key (es ! q) \<noteq> k}"
      using ok [unfolded len(1)]
    proof (rule index_ok_cong)
      fix q assume "q \<in> {q. q < Suc n \<and> e_key (es ! q) \<noteq> k}"
      then have "q < n" "q \<noteq> p" using True p(2) less_antisym by blast+
      then show "ys ! q = es ! q" using nth by simp
    qed
    moreover have "idx' = idx" using True len by (simp add: idx'_def)
    ultimately show ?thesis using True sw(3) by simp
  next
    case False
    then have pn: "p < n" using p(1) len(1) by simp
    have n_in: "n \<in> {q. q < Suc n \<and> e_key (es ! q) \<noteq> k}" using sw(2) [OF pn] by simp
    note ok' = ok [unfolded len(1)]
    have yp: "ys ! p = es ! n" using nth [OF pn] by simp
    note d = index_okD(4) [OF ok' n_in]
    then obtain s where s: "idx (e_key (es ! n)) = Some s" by (cases "idx (e_key (es ! n))") (auto simp: slices_def)
    have "idx' = idx(e_key (es ! n) \<mapsto> slots_relocate s (e_slot (es ! n)) p)" using pn len(2) s by (simp add: idx'_def yp)
    then have sl: "slices idx' = (slices idx)(e_key (es ! n) := (slices idx (e_key (es ! n)))[e_slot (es ! n) := p])"
      using slices_relocate [OF s d] by simp
    have "index_ok ys idx' (insert p ({q. q < Suc n \<and> e_key (es ! q) \<noteq> k} - {n}))"
    proof (rule index_ok_move [OF ok' n_in _ sl yp])
      fix q assume "q \<in> {q. q < Suc n \<and> e_key (es ! q) \<noteq> k}" "q \<noteq> n"
      then have "q < n" "q \<noteq> p" using p(2) by auto
      then show "ys ! q = es ! q" using nth by simp
    qed (use p(2) in simp)
    then show ?thesis using sw(3) False by simp
  qed
  then have "drain_inv k ps ys idx'" using ps(1) pos len(2) by (simp add: drain_inv_def)
  then show ?thesis using that [OF step] p(2) ys(4) by (simp add: es_def)
qed

lemma drain_loop_ok:
  assumes "drain_inv k ps (kt_entries t) (kt_index t)"
  shows "\<exists>ds entries index.
    drain_loop ps t dr = Inr (dr @ ds, t\<lparr>kt_entries := entries, kt_index := index\<rparr>)
    \<and> mset ds = filter_mset (\<lambda>e. e_key e = k) (mset (kt_entries t))
    \<and> mset entries = filter_mset (\<lambda>e. e_key e \<noteq> k) (mset (kt_entries t))
    \<and> index_ok entries index {..<length entries}"
  using assms
proof (induction ps arbitrary: t dr)
  case Nil
  then have none: "\<forall>e\<in>set (kt_entries t). e_key e \<noteq> k" by (auto simp: drain_inv_def in_set_conv_nth)
  then have "{p. p < length (kt_entries t) \<and> e_key (kt_entries t ! p) \<noteq> k} = {..<length (kt_entries t)}" by auto
  then have "index_ok (kt_entries t) (kt_index t) {..<length (kt_entries t)}" using Nil by (simp add: drain_inv_def)
  moreover have "filter_mset (\<lambda>e. e_key e = k) (mset (kt_entries t)) = {#}"
    "filter_mset (\<lambda>e. e_key e \<noteq> k) (mset (kt_entries t)) = mset (kt_entries t)"
    using none by (simp_all flip: mset_filter)
  ultimately show ?case by (intro exI [of _ "[]"] exI [of _ "kt_entries t"] exI [of _ "kt_index t"]) simp
next
  case (Cons p ps)
  obtain entries index where st:
    "drain_loop (p # ps) t dr = drain_loop ps (t\<lparr>kt_entries := entries, kt_index := index\<rparr>) (dr @ [kt_entries t ! p])"
    "drain_inv k ps entries index" "e_key (kt_entries t ! p) = k"
    "mset (kt_entries t) = add_mset (kt_entries t ! p) (mset entries)"
    using drain_step [OF Cons.prems] .
  define t' where "t' = t\<lparr>kt_entries := entries, kt_index := index\<rparr>"
  have "drain_inv k ps (kt_entries t') (kt_index t')" using st(2) by (simp add: t'_def)
  from Cons.IH [OF this, of "dr @ [kt_entries t ! p]"] obtain ds es' idx' where ih:
    "drain_loop ps t' (dr @ [kt_entries t ! p]) = Inr ((dr @ [kt_entries t ! p]) @ ds, t'\<lparr>kt_entries := es', kt_index := idx'\<rparr>)"
    "mset ds = filter_mset (\<lambda>e. e_key e = k) (mset entries)" "mset es' = filter_mset (\<lambda>e. e_key e \<noteq> k) (mset entries)"
    "index_ok es' idx' {..<length es'}"
    by (auto simp: t'_def)
  then show ?case
    using st by (intro exI [of _ "kt_entries t ! p # ds"] exI [of _ es'] exI [of _ idx']) (simp add: t'_def)
qed

subsection \<open>The table refines a list in registration order\<close>

definition kt_inv :: "'v keyed_table \<Rightarrow> bool" where
  "kt_inv t \<longleftrightarrow> distinct (map e_seq (kt_entries t)) \<and> (\<forall>e\<in>set (kt_entries t). e_seq e < kt_next_seq t)
     \<and> length (kt_entries t) < 2 ^ 32 \<and> kt_next_seq t < 2 ^ 64
     \<and> (\<not> kt_index_dirty t \<longrightarrow> index_ok (kt_entries t) (kt_index t) {..<length (kt_entries t)})"

text \<open>Room for one more entry: the position fits in 32 bits and the counter does not wrap.\<close>

definition kt_room :: "'v keyed_table \<Rightarrow> bool" where
  "kt_room t \<longleftrightarrow> length (kt_entries t) + 1 < 2 ^ 32 \<and> kt_next_seq t + 1 < 2 ^ 64"

definition kt_abs :: "'v keyed_table \<Rightarrow> (u64 \<times> 'v) list" where
  "kt_abs t = map (\<lambda>(k, s, v). (k, v)) (sort_key (\<lambda>(k, s, v). s) (map core (kt_entries t)))"

lemma kt_inv_new: "kt_inv kt_new" "kt_abs kt_new = []"
  by (simp_all add: kt_inv_def kt_new_def kt_abs_def index_ok_def slices_def)

lemma sort_core: "sort_key (\<lambda>(k, s, v). s) (map core es) = map core (sort_key e_seq es)"
proof -
  have "insort_key (\<lambda>(k, s, v). s) (core e) (map core xs) = map core (insort_key e_seq e xs)" for e :: "'a kt_entry" and xs
    by (induction xs) (simp_all add: core_def)
  then show ?thesis by (induction es) (simp_all add: sort_key_def)
qed

lemma kt_abs_sort: "kt_abs t = map (\<lambda>e. (e_key e, e_value e)) (sort_key e_seq (kt_entries t))"
  by (simp add: kt_abs_def sort_core comp_def core_def)

lemma seq_inj: "distinct (map e_seq es) \<Longrightarrow> inj_on e_seq (set es)"
  by (simp add: distinct_map)

lemma sort_filter_mset:
  assumes "distinct (map e_seq es)" "mset ds = filter_mset P (mset es)"
  shows "sort_key e_seq ds = filter P (sort_key e_seq es)"
proof -
  have "set ds \<subseteq> set es" using assms(2) by (metis filter_is_subset mset_eq_setD mset_filter)
  then have inj: "inj_on e_seq (set ds)" using seq_inj [OF assms(1)] by (rule inj_on_subset [rotated])
  have "mset ds = mset (filter P (sort_key e_seq es))" using assms(2) by (simp add: mset_filter)
  then show ?thesis using inj by (intro sort_key_inj_key_eq) (simp_all add: sorted_filter)
qed

lemma ensure_index_ok:
  assumes "kt_inv t"
  shows "kt_inv (ensure_index t)" "map core (kt_entries (ensure_index t)) = map core (kt_entries t)"
    "\<not> kt_index_dirty (ensure_index t)" "kt_next_seq (ensure_index t) = kt_next_seq t"
proof -
  define es where "es = kt_entries t"
  define order where "order = sort_key (\<lambda>p. e_seq (es ! p)) [0..<length es]"
  have len: "length es mod 2 ^ 32 = length es" and small: "length es < 2 ^ 32" and dist: "distinct (map e_seq es)"
    using assms by (simp_all add: kt_inv_def es_def)
  have inj: "inj_on (\<lambda>p. e_seq (es ! p)) {..<length es}"
    using dist by (auto simp: inj_on_def distinct_conv_nth)
  have set: "set order = {..<length es}" by (simp add: order_def atLeast0LessThan)
  have d: "distinct order" by (simp add: order_def)
  have "sorted (map (\<lambda>p. e_seq (es ! p)) order)" by (simp add: order_def)
  moreover have "distinct (map (\<lambda>p. e_seq (es ! p)) order)" using d inj set by (simp add: distinct_map)
  ultimately have s: "sorted_wrt (<) (map (\<lambda>p. e_seq (es ! p)) order)" by (simp add: strict_sorted_iff)
  have rb: "index_ok (snd (rebuild_loop order Map.empty es)) (fst (rebuild_loop order Map.empty es)) ({} \<union> set order)
    \<and> map core (snd (rebuild_loop order Map.empty es)) = map core es"
    by (rule rebuild_loop_ok [OF index_ok_empty d _ _ s]) (use small set in auto)
  have core: "map core (kt_entries (ensure_index t)) = map core es"
    and dirty: "\<not> kt_index_dirty (ensure_index t)" and ns: "kt_next_seq (ensure_index t) = kt_next_seq t"
    and ok: "index_ok (kt_entries (ensure_index t)) (kt_index (ensure_index t)) {..<length es}"
    using rb assms len unfolding ensure_index_def
    by (auto simp: Let_def es_def [symmetric] order_def [symmetric] set kt_inv_def split: prod.splits)
  have eqs: "map e_seq xs = map (fst \<circ> snd) (map core xs)" for xs :: "'a kt_entry list" by (simp add: core_def)
  have len': "length (kt_entries (ensure_index t)) = length es" using core by (metis length_map)
  have seqs: "map e_seq (kt_entries (ensure_index t)) = map e_seq es" unfolding eqs core ..
  have "e_seq e < kt_next_seq t" if "e \<in> set (kt_entries (ensure_index t))" for e
  proof -
    have "e_seq e \<in> e_seq ` set es" using that seqs by (metis image_eqI list.set_map)
    then show ?thesis using assms by (auto simp: kt_inv_def es_def)
  qed
  then show "kt_inv (ensure_index t)" using assms dist ok seqs ns len' by (simp add: kt_inv_def es_def)
  show "map core (kt_entries (ensure_index t)) = map core (kt_entries t)" using core by (simp add: es_def)
  show "\<not> kt_index_dirty (ensure_index t)" "kt_next_seq (ensure_index t) = kt_next_seq t" by (fact dirty, fact ns)
qed

lemma kt_push_ok:
  assumes "kt_inv t" "kt_room t"
  shows "kt_inv (kt_push k v t)" "kt_abs (kt_push k v t) = kt_abs t @ [(k, v)]"
    "kt_next_seq (kt_push k v t) = kt_next_seq t + 1" "length (kt_entries (kt_push k v t)) = length (kt_entries t) + 1"
proof -
  define es n where "es = kt_entries t" and "n = length es"
  have room: "n + 1 < 2 ^ 32" "kt_next_seq t + 1 < 2 ^ 64" using assms(2) by (simp_all add: kt_room_def es_def n_def)
  have seqs: "\<And>e. e \<in> set es \<Longrightarrow> e_seq e < kt_next_seq t" and dist: "distinct (map e_seq es)"
    using assms(1) by (auto simp: kt_inv_def es_def)
  obtain idx off where s: "(if kt_index_dirty t then (kt_index t, 0) else index_slot_for (kt_index t) k n) = (idx, off)" by fastforce
  define e where "e = \<lparr>e_key = k, e_seq = kt_next_seq t, e_slot = off, e_value = v\<rparr>"
  have t': "kt_push k v t = t\<lparr>kt_next_seq := kt_next_seq t + 1, kt_index := idx, kt_entries := es @ [e]\<rparr>"
    using room s by (simp add: kt_push_def Let_def es_def [symmetric] n_def [symmetric] e_def)
  have ok: "index_ok (es @ [e]) idx {..<Suc n}" if "\<not> kt_index_dirty t"
  proof -
    have i: "index_ok es (kt_index t) {..<n}" using assms(1) that by (simp add: kt_inv_def es_def n_def)
    have "length (slices (kt_index t) k) < 2 ^ 32" using slices_length [OF i, of k] room by simp
    note sl = index_slot_for_slices [OF _ this, of n idx off]
    have "index_slot_for (kt_index t) k n = (idx, off)" using s that by simp
    note sl = sl [OF this]
    have "index_ok (es @ [e]) idx (insert n {..<n})"
      using i by (rule index_ok_insert) (use sl seqs in \<open>auto simp: nth_append n_def e_def\<close>)
    then show ?thesis by (simp add: lessThan_Suc)
  qed
  have "distinct (map e_seq (es @ [e]))" using dist seqs by (force simp: e_def)
  then show "kt_inv (kt_push k v t)"
    using room seqs ok assms(1) unfolding t' by (auto simp: kt_inv_def n_def e_def less_Suc_eq)
  have "sort_key e_seq (es @ [e]) = sort_key e_seq es @ [e]"
  proof (rule sort_key_inj_key_eq)
    show "inj_on e_seq (set (es @ [e]))" using \<open>distinct (map e_seq (es @ [e]))\<close> by (rule seq_inj)
    show "sorted (map e_seq (sort_key e_seq es @ [e]))" using seqs by (auto simp: sorted_append e_def less_imp_le)
  qed simp
  then show "kt_abs (kt_push k v t) = kt_abs t @ [(k, v)]" by (simp add: kt_abs_sort t' es_def e_def)
  show "kt_next_seq (kt_push k v t) = kt_next_seq t + 1" "length (kt_entries (kt_push k v t)) = length (kt_entries t) + 1"
    by (simp_all add: t' es_def)
qed

definition values_of :: "'k \<Rightarrow> ('k \<times> 'v) list \<Rightarrow> 'v list" where
  "values_of k kvs = map snd (filter (\<lambda>kv. fst kv = k) kvs)"

definition drop_key :: "'k \<Rightarrow> ('k \<times> 'v) list \<Rightarrow> ('k \<times> 'v) list" where
  "drop_key k kvs = filter (\<lambda>kv. fst kv \<noteq> k) kvs"

lemma drain_inv_start:
  assumes "index_ok es idx {..<length es}"
  shows "drain_inv k (rev (sort (slices idx k))) es (idx(k := None))"
proof -
  have set: "set (slices idx k) = {p. p < length es \<and> e_key (es ! p) = k}"
    using set_slices [OF assms, of k] by auto
  have sl: "slices (idx(k := None)) = (slices idx)(k := [])" by (auto simp: slices_def)
  have "index_ok es (idx(k := None)) {p. p < length es \<and> e_key (es ! p) \<noteq> k}"
    using index_okD [OF assms] by (simp add: index_ok_def sl)
  moreover have "sorted_wrt (>) (rev (sort (slices idx k)))"
    using slices_distinct [OF assms, of k] by (simp add: sorted_wrt_rev strict_sorted_iff)
  ultimately show ?thesis using set by (simp add: drain_inv_def)
qed

lemma kt_take_all_ok:
  assumes "kt_inv t"
  shows "\<exists>t'. kt_take_all k t = Inr (values_of k (kt_abs t), t') \<and> kt_inv t' \<and> kt_abs t' = drop_key k (kt_abs t)
    \<and> kt_next_seq t' = kt_next_seq t \<and> length (kt_entries t') \<le> length (kt_entries t)"
proof (cases "kt_entries t = []")
  case True
  then show ?thesis using assms by (simp add: kt_take_all_def kt_abs_def values_of_def drop_key_def)
next
  case False
  define u where "u = ensure_index t"
  define es where "es = kt_entries u"
  note e = ensure_index_ok [OF assms, folded u_def]
  have abs: "kt_abs t = kt_abs u" using e(2) by (simp add: kt_abs_def)
  have len: "length (kt_entries t) = length es" using e(2) unfolding es_def by (metis length_map)
  have ok: "index_ok es (kt_index u) {..<length es}" and dist: "distinct (map e_seq es)" using e(1,3) by (simp_all add: kt_inv_def es_def)
  show ?thesis
  proof (cases "kt_index u k")
    case None
    then have "slices (kt_index u) k = []" by (simp add: slices_def)
    then have "\<forall>e\<in>set es. e_key e \<noteq> k" using set_slices [OF ok, of k] by (auto simp: in_set_conv_nth)
    then have "\<forall>kv\<in>set (kt_abs u). fst kv \<noteq> k" by (auto simp: kt_abs_sort es_def)
    then have "values_of k (kt_abs u) = [] \<and> drop_key k (kt_abs u) = kt_abs u" by (simp add: values_of_def drop_key_def)
    then show ?thesis using None False e(1,4) abs len by (simp add: kt_take_all_def u_def [symmetric] es_def)
  next
    case (Some s)
    then have sl: "slots_as_slice s = slices (kt_index u) k" by (simp add: slices_def)
    define w where "w = u\<lparr>kt_index := (kt_index u)(k := None)\<rparr>"
    have "drain_inv k (rev (sort (slices (kt_index u) k))) (kt_entries w) (kt_index w)"
      using drain_inv_start [OF ok, of k] by (simp add: w_def es_def)
    from drain_loop_ok [OF this, of "[]"] obtain ds es' idx' where
      r: "drain_loop (rev (sort (slices (kt_index u) k))) w [] = Inr (ds, w\<lparr>kt_entries := es', kt_index := idx'\<rparr>)"
      and ds: "mset ds = filter_mset (\<lambda>e. e_key e = k) (mset es)"
      and es': "mset es' = filter_mset (\<lambda>e. e_key e \<noteq> k) (mset es)" and ok': "index_ok es' idx' {..<length es'}"
      by (auto simp: w_def es_def)
    define t' where "t' = w\<lparr>kt_entries := es', kt_index := idx'\<rparr>"
    have run: "kt_take_all k t = Inr (map e_value (sort_key e_seq ds), t')"
      using False Some r by (simp add: kt_take_all_def Let_def u_def [symmetric] sl w_def [symmetric] t'_def)
    have vals: "map e_value (sort_key e_seq ds) = values_of k (kt_abs u)"
      unfolding sort_filter_mset [OF dist ds] by (simp add: values_of_def kt_abs_sort es_def filter_map comp_def)
    have abs': "kt_abs t' = drop_key k (kt_abs u)"
      unfolding kt_abs_sort drop_key_def by (simp add: t'_def sort_filter_mset [OF dist es'] es_def filter_map comp_def)
    have set': "set es' \<subseteq> set es" using es' by (metis filter_is_subset mset_eq_setD mset_filter)
    have same: "distinct (map e_seq (sort_key e_seq xs)) = distinct (map e_seq xs)" for xs :: "'a kt_entry list"
      by (rule mset_eq_imp_distinct_iff) (simp add: mset_map)
    have "distinct (map e_seq (sort_key e_seq es'))"
      unfolding sort_filter_mset [OF dist es'] using dist same by (intro distinct_map_filter) blast
    then have "distinct (map e_seq es')" by (simp only: same)
    moreover have len': "length es' \<le> length es" using es' by (metis size_filter_mset_lesseq size_mset)
    ultimately have "kt_inv t'"
      using e(1) ok' set' by (auto simp: kt_inv_def t'_def w_def es_def)
    then show ?thesis using run vals abs' abs len len' e(4) by (auto simp: t'_def w_def)
  qed
qed

lemma kt_remove_key_ok:
  assumes "kt_inv t"
  shows "\<exists>t'. kt_remove_key k t = Inr t' \<and> kt_inv t' \<and> kt_abs t' = drop_key k (kt_abs t)
    \<and> kt_next_seq t' = kt_next_seq t \<and> length (kt_entries t') \<le> length (kt_entries t)"
proof (cases "kt_entries t = []")
  case True
  then show ?thesis using assms by (simp add: kt_remove_key_def kt_abs_def drop_key_def)
next
  case False
  then show ?thesis using kt_take_all_ok [OF assms, of k] by (auto simp: kt_remove_key_def)
qed

text \<open>The collector's passes: dropping and rekeying entries, and rewriting them in place.\<close>

definition retain_kv :: "('k \<Rightarrow> 'v \<Rightarrow> ('k \<times> 'v) option) \<Rightarrow> ('k \<times> 'v) list \<Rightarrow> ('k \<times> 'v) list" where
  "retain_kv keep kvs = concat (map (\<lambda>(k, v). case keep k v of None \<Rightarrow> [] | Some kv \<Rightarrow> [kv]) kvs)"

lemma sort_concat_map:
  fixes f :: "'v kt_entry \<Rightarrow> 'v kt_entry list"
  assumes dist: "distinct (map e_seq es)" and f: "\<And>e. f e = [] \<or> (\<exists>e'. f e = [e'] \<and> e_seq e' = e_seq e)"
  shows "sort_key e_seq (concat (map f es)) = concat (map f (sort_key e_seq es))"
    "distinct (map e_seq (concat (map f es)))" "length (concat (map f es)) \<le> length es"
    "e_seq ` set (concat (map f es)) \<subseteq> e_seq ` set es"
proof -
  have seqs: "map e_seq (concat (map f xs)) = map e_seq (filter (\<lambda>e. f e \<noteq> []) xs)" for xs
  proof (induction xs)
    case (Cons e xs)
    then show ?case using f [of e] by auto
  qed simp
  show dist': "distinct (map e_seq (concat (map f es)))" unfolding seqs using dist by (rule distinct_map_filter)
  have "length (map e_seq (concat (map f es))) \<le> length es" unfolding seqs by simp
  then show "length (concat (map f es)) \<le> length es" by (simp only: length_map)
  have "set (map e_seq (concat (map f es))) \<subseteq> e_seq ` set es" unfolding seqs by auto
  then show "e_seq ` set (concat (map f es)) \<subseteq> e_seq ` set es" by (simp only: set_map)
  have mset: "mset (concat (map f xs)) = (\<Sum>\<^sub># (image_mset (\<lambda>e. mset (f e)) (mset xs)))" for xs
    by (induction xs) simp_all
  show "sort_key e_seq (concat (map f es)) = concat (map f (sort_key e_seq es))"
  proof (rule sort_key_inj_key_eq)
    show "mset (concat (map f es)) = mset (concat (map f (sort_key e_seq es)))" by (simp only: mset mset_sort)
    show "inj_on e_seq (set (concat (map f es)))" using dist' by (rule seq_inj)
    show "sorted (map e_seq (concat (map f (sort_key e_seq es))))" unfolding seqs by (rule sorted_filter) simp
  qed
qed

definition retain_entry :: "(u64 \<Rightarrow> 'v \<Rightarrow> (u64 \<times> 'v) option) \<Rightarrow> 'v kt_entry \<Rightarrow> 'v kt_entry list" where
  "retain_entry keep e = (case keep (e_key e) (e_value e) of None \<Rightarrow> [] | Some (k, v) \<Rightarrow> [e\<lparr>e_key := k, e_value := v\<rparr>])"

lemma retain_entry_seq: "retain_entry keep e = [] \<or> (\<exists>e'. retain_entry keep e = [e'] \<and> e_seq e' = e_seq e)"
  by (simp add: retain_entry_def split: option.split)

lemma retain_entry_kv:
  "map (\<lambda>e. (e_key e, e_value e)) (retain_entry keep e) = (case keep (e_key e) (e_value e) of None \<Rightarrow> [] | Some kv \<Rightarrow> [kv])"
  by (simp add: retain_entry_def split: option.split)

lemma kt_retain_mut_eq:
  "kt_retain_mut keep t = (if kt_entries t = [] then t
     else t\<lparr>kt_entries := concat (map (retain_entry keep) (kt_entries t)), kt_index_dirty := True\<rparr>)"
  by (simp add: kt_retain_mut_def retain_entry_def [abs_def])

lemma kt_retain_mut_ok:
  assumes "kt_inv t"
  shows "kt_inv (kt_retain_mut keep t)" "kt_abs (kt_retain_mut keep t) = retain_kv keep (kt_abs t)"
    "kt_next_seq (kt_retain_mut keep t) = kt_next_seq t" "length (kt_entries (kt_retain_mut keep t)) \<le> length (kt_entries t)"
proof -
  have dist: "distinct (map e_seq (kt_entries t))" and lt: "\<forall>e\<in>set (kt_entries t). e_seq e < kt_next_seq t"
    using assms by (simp_all add: kt_inv_def)
  note s = sort_concat_map [OF dist retain_entry_seq [of keep]]
  have kv: "map (\<lambda>e. (e_key e, e_value e)) (concat (map (retain_entry keep) xs))
      = retain_kv keep (map (\<lambda>e. (e_key e, e_value e)) xs)" for xs
    by (induction xs) (simp_all add: retain_kv_def retain_entry_kv)
  show "kt_abs (kt_retain_mut keep t) = retain_kv keep (kt_abs t)"
  proof (cases "kt_entries t = []")
    case True
    then show ?thesis by (simp add: kt_abs_def kt_retain_mut_eq retain_kv_def)
  next
    case False
    then have "kt_entries (kt_retain_mut keep t) = concat (map (retain_entry keep) (kt_entries t))"
      by (simp add: kt_retain_mut_eq)
    then show ?thesis by (simp only: kt_abs_sort s(1) kv)
  qed
  show "kt_next_seq (kt_retain_mut keep t) = kt_next_seq t" by (simp add: kt_retain_mut_eq)
  show "length (kt_entries (kt_retain_mut keep t)) \<le> length (kt_entries t)" using s(3) by (simp add: kt_retain_mut_eq)
  define es where "es = concat (map (retain_entry keep) (kt_entries t))"
  have es: "e_seq e < kt_next_seq t" if "e \<in> set es" for e
  proof -
    have "e_seq e \<in> e_seq ` set (kt_entries t)" using s(4) that unfolding es_def by (rule subsetD [OF _ imageI])
    then show ?thesis using lt by (elim imageE) simp
  qed
  show "kt_inv (kt_retain_mut keep t)"
  proof (cases "kt_entries t = []")
    case False
    have "kt_inv (t\<lparr>kt_entries := es, kt_index_dirty := True\<rparr>)"
      using s(2,3) es assms by (simp add: kt_inv_def es_def [symmetric])
    then show ?thesis using False by (simp add: kt_retain_mut_eq es_def)
  qed (simp add: kt_retain_mut_eq assms)
qed

definition scan_kv :: "('k \<Rightarrow> 'k option) \<Rightarrow> ('v \<Rightarrow> 'v) \<Rightarrow> ('k \<times> 'v) list \<Rightarrow> ('k \<times> 'v) list" where
  "scan_kv vk vv kvs = map (\<lambda>(k, v). (case vk k of None \<Rightarrow> k | Some k' \<Rightarrow> k', vv v)) kvs"

lemma kt_scan_ok:
  assumes "kt_inv t"
  shows "kt_inv (kt_scan vk vv t)" "kt_abs (kt_scan vk vv t) = scan_kv vk vv (kt_abs t)"
    "kt_next_seq (kt_scan vk vv t) = kt_next_seq t" "length (kt_entries (kt_scan vk vv t)) = length (kt_entries t)"
proof -
  define g :: "'a kt_entry \<Rightarrow> 'a kt_entry" where
    "g e = e\<lparr>e_key := (case vk (e_key e) of None \<Rightarrow> e_key e | Some k \<Rightarrow> k), e_value := vv (e_value e)\<rparr>" for e
  define es where "es = kt_entries t"
  have es': "kt_entries (kt_scan vk vv t) = map g es"
    by (simp add: kt_scan_def Let_def kt_note_key_rewritten_def g_def es_def)
  have seqs: "map e_seq (map g xs) = map e_seq xs" for xs by (simp add: g_def)
  have dist: "distinct (map e_seq es)" using assms by (simp add: kt_inv_def es_def)
  have "e_seq (g e) = e_seq e" for e by (simp add: g_def)
  then have "sort_key e_seq (map g es) = map g (sort_key e_seq es)"
    using sort_concat_map(1) [OF dist, of "\<lambda>e. [g e]"] by (simp add: concat_map_singleton)
  then show "kt_abs (kt_scan vk vv t) = scan_kv vk vv (kt_abs t)"
    unfolding kt_abs_sort es' by (simp add: scan_kv_def g_def es_def)
  show ns: "kt_next_seq (kt_scan vk vv t) = kt_next_seq t" by (simp add: kt_scan_def Let_def kt_note_key_rewritten_def)
  show "length (kt_entries (kt_scan vk vv t)) = length (kt_entries t)" by (simp add: es' es_def)
  have ok: "index_ok (map g es) (kt_index (kt_scan vk vv t)) {..<length es}" if d: "\<not> kt_index_dirty (kt_scan vk vv t)"
  proof -
    have "\<forall>e\<in>set es. vk (e_key e) = None" and dirty: "\<not> kt_index_dirty t"
      using d by (auto simp: kt_scan_def Let_def kt_note_key_rewritten_def es_def list_ex_iff split: if_splits)
    then have same: "e_key (map g es ! p) = e_key (es ! p)" "e_slot (map g es ! p) = e_slot (es ! p)"
      "e_seq (map g es ! p) = e_seq (es ! p)" if "p < length es" for p using that by (simp_all add: g_def)
    have i: "index_ok es (kt_index t) {..<length es}" using assms dirty by (simp add: kt_inv_def es_def)
    have idx: "kt_index (kt_scan vk vv t) = kt_index t" by (simp add: kt_scan_def Let_def kt_note_key_rewritten_def)
    show ?thesis unfolding idx using i by (rule index_ok_cong_fields) (use same in simp_all)
  qed
  have "\<forall>e\<in>set (map g es). e_seq e < kt_next_seq t" using assms by (simp add: kt_inv_def es_def g_def)
  moreover have "distinct (map e_seq (map g es))" unfolding seqs by (rule dist)
  ultimately show "kt_inv (kt_scan vk vv t)" using assms ok by (simp add: kt_inv_def es' ns es_def del: map_map)
qed

subsection \<open>The contract of the side tables\<close>

text \<open>
  What the promise machinery relies on: parking appends, draining a key returns its values in
  registration order and nothing else changes. The lemmas hold for every such table.
\<close>

locale fifo_multimap =
  fixes new :: 't
    and push :: "'k \<Rightarrow> 'v \<Rightarrow> 't \<Rightarrow> 't"
    and take_all :: "'k \<Rightarrow> 't \<Rightarrow> js_throw + ('v list \<times> 't)"
    and remove_key :: "'k \<Rightarrow> 't \<Rightarrow> js_throw + 't"
    and invar :: "'t \<Rightarrow> bool"
    and room :: "nat \<Rightarrow> 't \<Rightarrow> bool"
    and abs :: "'t \<Rightarrow> ('k \<times> 'v) list"
  assumes new_law: "invar new \<and> abs new = []"
    and push_law: "invar t \<Longrightarrow> room (Suc n) t \<Longrightarrow>
      invar (push k v t) \<and> abs (push k v t) = abs t @ [(k, v)] \<and> room n (push k v t)"
    and take_law: "invar t \<Longrightarrow>
      \<exists>t'. take_all k t = Inr (values_of k (abs t), t') \<and> invar t' \<and> abs t' = drop_key k (abs t)
        \<and> (\<forall>n. room n t \<longrightarrow> room n t')"
    and remove_law: "invar t \<Longrightarrow>
      \<exists>t'. remove_key k t = Inr t' \<and> invar t' \<and> abs t' = drop_key k (abs t) \<and> (\<forall>n. room n t \<longrightarrow> room n t')"
begin

text \<open>Parking a sequence of reactions and draining a key replays that key's, first in first out.\<close>

lemma push_list:
  "invar t \<Longrightarrow> room (length kvs) t \<Longrightarrow>
    invar (fold (\<lambda>(k, v). push k v) kvs t) \<and> abs (fold (\<lambda>(k, v). push k v) kvs t) = abs t @ kvs"
  by (induction kvs arbitrary: t) (auto simp: push_law)

lemma fifo:
  assumes "room (length kvs) new"
  shows "\<exists>t'. take_all k (fold (\<lambda>(k, v). push k v) kvs new) = Inr (values_of k kvs, t')
    \<and> (k' \<noteq> k \<longrightarrow> (\<exists>t''. take_all k' t' = Inr (values_of k' kvs, t''))) \<and> (\<exists>t''. take_all k t' = Inr ([], t''))"
proof -
  define t where "t = fold (\<lambda>(k, v). push k v) kvs new"
  have t: "invar t" "abs t = kvs" using push_list [of new kvs] new_law assms by (simp_all add: t_def)
  from take_law [OF t(1), of k] obtain t' where
    t': "take_all k t = Inr (values_of k kvs, t')" "invar t'" "abs t' = drop_key k kvs" using t(2) by auto
  have "values_of k (drop_key k kvs) = []" by (simp add: values_of_def drop_key_def filter_empty_conv)
  moreover have "values_of k' (drop_key k kvs) = values_of k' kvs" if "k' \<noteq> k"
    using that by (auto simp: values_of_def drop_key_def conj_commute intro!: arg_cong [where f = "map snd"] filter_cong)
  ultimately show ?thesis
    using t' take_law [OF t'(2), of k] take_law [OF t'(2), of k'] by (auto simp: t_def [symmetric])
qed

end

text \<open>A table with the two collector passes beside.\<close>

locale gc_multimap = fifo_multimap new push take_all remove_key invar room abs
  for new :: 't and push :: "'k \<Rightarrow> 'v \<Rightarrow> 't \<Rightarrow> 't" and take_all remove_key invar room abs +
  fixes retain :: "('k \<Rightarrow> 'v \<Rightarrow> ('k \<times> 'v) option) \<Rightarrow> 't \<Rightarrow> 't"
    and scan :: "('k \<Rightarrow> 'k option) \<Rightarrow> ('v \<Rightarrow> 'v) \<Rightarrow> 't \<Rightarrow> 't"
  assumes retain_law: "invar t \<Longrightarrow> invar (retain keep t) \<and> abs (retain keep t) = retain_kv keep (abs t)
      \<and> (\<forall>n. room n t \<longrightarrow> room n (retain keep t))"
    and scan_law: "invar t \<Longrightarrow> invar (scan vk vv t) \<and> abs (scan vk vv t) = scan_kv vk vv (abs t)
      \<and> (\<forall>n. room n t \<longrightarrow> room n (scan vk vv t))"
begin

text \<open>A promise that is moved keeps its reactions, in order, under its new address.\<close>

lemma scan_moves:
  assumes "invar t" "vk k = Some k'" "\<And>q. q \<in> fst ` set (abs t) \<Longrightarrow> q \<noteq> k \<Longrightarrow> (case vk q of None \<Rightarrow> q | Some p \<Rightarrow> p) \<noteq> k'"
  shows "\<exists>t'. take_all k' (scan vk vv t) = Inr (map vv (values_of k (abs t)), t')"
proof -
  have "values_of k' (scan_kv vk vv xs) = map vv (values_of k xs)"
    if "\<And>q. q \<in> fst ` set xs \<Longrightarrow> q \<noteq> k \<Longrightarrow> (case vk q of None \<Rightarrow> q | Some p \<Rightarrow> p) \<noteq> k'" for xs
    using that assms(2)
  proof (induction xs)
    case (Cons kv xs)
    then show ?case by (cases kv) (auto simp: values_of_def scan_kv_def)
  qed (simp add: values_of_def scan_kv_def)
  from this [OF assms(3)] show ?thesis
    using scan_law [OF assms(1), of vk vv] take_law [of "scan vk vv t" k'] by auto
qed

end

definition kt_room_for :: "nat \<Rightarrow> 'v keyed_table \<Rightarrow> bool" where
  "kt_room_for n t \<longleftrightarrow> length (kt_entries t) + n < 2 ^ 32 \<and> kt_next_seq t + n < 2 ^ 64"

interpretation kt: gc_multimap kt_new kt_push kt_take_all kt_remove_key kt_inv kt_room_for kt_abs kt_retain_mut kt_scan
proof unfold_locales
  show "kt_inv kt_new \<and> kt_abs kt_new = []" by (simp add: kt_inv_new)
  fix t :: "'a keyed_table" and n k v
  assume t: "kt_inv t"
  show "kt_inv (kt_push k v t) \<and> kt_abs (kt_push k v t) = kt_abs t @ [(k, v)] \<and> kt_room_for n (kt_push k v t)"
    if "kt_room_for (Suc n) t"
  proof -
    have "kt_room t" using that by (simp add: kt_room_for_def kt_room_def)
    then show ?thesis using kt_push_ok [OF t] that by (simp add: kt_room_for_def)
  qed
  show "\<exists>t'. kt_take_all k t = Inr (values_of k (kt_abs t), t') \<and> kt_inv t' \<and> kt_abs t' = drop_key k (kt_abs t)
      \<and> (\<forall>n. kt_room_for n t \<longrightarrow> kt_room_for n t')"
    using kt_take_all_ok [OF t, of k] by (fastforce simp: kt_room_for_def)
  show "\<exists>t'. kt_remove_key k t = Inr t' \<and> kt_inv t' \<and> kt_abs t' = drop_key k (kt_abs t)
      \<and> (\<forall>n. kt_room_for n t \<longrightarrow> kt_room_for n t')"
    using kt_remove_key_ok [OF t, of k] by (fastforce simp: kt_room_for_def)
next
  fix t :: "'a keyed_table" and keep vk vv
  assume t: "kt_inv t"
  show "kt_inv (kt_retain_mut keep t) \<and> kt_abs (kt_retain_mut keep t) = retain_kv keep (kt_abs t)
      \<and> (\<forall>n. kt_room_for n t \<longrightarrow> kt_room_for n (kt_retain_mut keep t))"
    using kt_retain_mut_ok [OF t, of keep] by (auto simp: kt_room_for_def)
  show "kt_inv (kt_scan vk vv t) \<and> kt_abs (kt_scan vk vv t) = scan_kv vk vv (kt_abs t)
      \<and> (\<forall>n. kt_room_for n t \<longrightarrow> kt_room_for n (kt_scan vk vv t))"
    using kt_scan_ok [OF t, of vk vv] by (auto simp: kt_room_for_def)
qed

subsection \<open>Sequences of operations\<close>

datatype 'v kt_op =
    Park u64 'v
  | Drain u64
  | Dead u64
  | Cleanup "u64 \<Rightarrow> 'v \<Rightarrow> (u64 \<times> 'v) option"
  | Scan "u64 \<Rightarrow> u64 option" "'v \<Rightarrow> 'v"

fun kt_step :: "'v kt_op \<Rightarrow> 'v keyed_table \<Rightarrow> js_throw + ('v list \<times> 'v keyed_table)" where
  "kt_step (Park k v) t = Inr ([], kt_push k v t)"
| "kt_step (Drain k) t = kt_take_all k t"
| "kt_step (Dead k) t = (case kt_remove_key k t of Inl e \<Rightarrow> Inl e | Inr t \<Rightarrow> Inr ([], t))"
| "kt_step (Cleanup keep) t = Inr ([], kt_retain_mut keep t)"
| "kt_step (Scan vk vv) t = Inr ([], kt_scan vk vv t)"

fun kt_run :: "'v kt_op list \<Rightarrow> 'v keyed_table \<Rightarrow> js_throw + ('v list list \<times> 'v keyed_table)" where
  "kt_run [] t = Inr ([], t)"
| "kt_run (op # ops) t =
     (case kt_step op t of
        Inl e \<Rightarrow> Inl e
      | Inr (out, t) \<Rightarrow> (case kt_run ops t of Inl e \<Rightarrow> Inl e | Inr (outs, t) \<Rightarrow> Inr (out # outs, t)))"

text \<open>The same operations on a list of key and value in registration order.\<close>

fun kv_step :: "'v kt_op \<Rightarrow> (u64 \<times> 'v) list \<Rightarrow> 'v list \<times> (u64 \<times> 'v) list" where
  "kv_step (Park k v) kvs = ([], kvs @ [(k, v)])"
| "kv_step (Drain k) kvs = (values_of k kvs, drop_key k kvs)"
| "kv_step (Dead k) kvs = ([], drop_key k kvs)"
| "kv_step (Cleanup keep) kvs = ([], retain_kv keep kvs)"
| "kv_step (Scan vk vv) kvs = ([], scan_kv vk vv kvs)"

fun kv_run :: "'v kt_op list \<Rightarrow> (u64 \<times> 'v) list \<Rightarrow> 'v list list \<times> (u64 \<times> 'v) list" where
  "kv_run [] kvs = ([], kvs)"
| "kv_run (op # ops) kvs =
     (let (out, kvs) = kv_step op kvs; (outs, kvs) = kv_run ops kvs in (out # outs, kvs))"

lemma kt_step_sim:
  assumes "kt_inv t" "kt_room_for (Suc n) t"
  obtains out t' where "kt_step op t = Inr (out, t')" "kt_inv t'" "kt_room_for n t'" "(out, kt_abs t') = kv_step op (kt_abs t)"
proof -
  have weak: "kt_room_for n u" if "kt_room_for (Suc n) u" for u :: "'a keyed_table" using that by (simp add: kt_room_for_def)
  have "\<exists>out t'. kt_step op t = Inr (out, t') \<and> kt_inv t' \<and> kt_room_for n t' \<and> (out, kt_abs t') = kv_step op (kt_abs t)"
  proof (cases op)
    case (Park k v)
    then show ?thesis using kt.push_law [OF assms, of k v] by simp
  next
    case (Drain k)
    then show ?thesis using kt.take_law [OF assms(1), of k] assms(2) weak by auto
  next
    case (Dead k)
    then show ?thesis using kt.remove_law [OF assms(1), of k] assms(2) weak by auto
  next
    case (Cleanup keep)
    then show ?thesis using kt.retain_law [OF assms(1), of keep] assms(2) weak by auto
  next
    case (Scan vk vv)
    then show ?thesis using kt.scan_law [OF assms(1), of vk vv] assms(2) weak by auto
  qed
  then show ?thesis using that by blast
qed

lemma kt_run_sim:
  assumes "kt_inv t" "kt_room_for (length ops) t"
  shows "\<exists>outs t'. kt_run ops t = Inr (outs, t') \<and> kt_inv t' \<and> (outs, kt_abs t') = kv_run ops (kt_abs t)"
  using assms
proof (induction ops arbitrary: t)
  case (Cons op ops)
  obtain out t' where s: "kt_step op t = Inr (out, t')" "kt_inv t'" "kt_room_for (length ops) t'"
    "(out, kt_abs t') = kv_step op (kt_abs t)"
    using kt_step_sim [OF Cons.prems(1), of "length ops" op] Cons.prems(2) by auto
  from Cons.IH [OF s(2,3)] obtain outs t'' where
    "kt_run ops t' = Inr (outs, t'')" "kt_inv t''" "(outs, kt_abs t'') = kv_run ops (kt_abs t')" by blast
  then show ?case using s by (auto simp: Let_def split: prod.splits)
qed simp

subsection \<open>Properties of the keyed table\<close>

text \<open>
  C5. The promise side table refines a plain list: run from the empty table, any sequence of fewer than
  \<open>2 ^ 32\<close> operations (parking a reaction, draining or dropping a promise, the collector's cleanup
  and root scan, which rewrite keys in place) never panics and returns exactly what the same operations
  return on a list kept in registration order, with the invariant of index and entries restored.
\<close>

theorem keyed_table_simulation:
  assumes "length ops < 2 ^ 32"
  shows "\<exists>outs t. kt_run ops kt_new = Inr (outs, t) \<and> kt_inv t \<and> (outs, kt_abs t) = kv_run ops []"
proof -
  have "kt_room_for (length ops) kt_new" using assms by (simp add: kt_room_for_def kt_new_def)
  from kt_run_sim [OF kt_inv_new(1) this] show ?thesis by (simp add: kt_inv_new)
qed

theorem keyed_table_simulation_witness:
  "\<exists>t. kt_run [Park 1 ''a1'', Park 2 ''b1'', Park 1 ''a2'', Scan [1 \<mapsto> 7] id, Drain 1, Drain 7] kt_new
    = Inr ([[], [], [], [], [], [''a1'', ''a2'']], t)"
  using keyed_table_simulation [of "[Park 1 ''a1'', Park 2 ''b1'', Park 1 ''a2'', Scan [1 \<mapsto> 7] id, Drain 1, Drain 7]"]
  by (auto simp: values_of_def drop_key_def scan_kv_def)

text \<open>
  Reactions replay first in, first out: after parking any sequence of reactions, draining a promise
  returns its reactions in the order they were parked, leaves the reactions of every other promise in
  theirs, and a second drain finds nothing.
\<close>

theorem keyed_table_fifo:
  assumes "length kvs < 2 ^ 32"
  shows "\<exists>t'. kt_take_all k (fold (\<lambda>(k, v). kt_push k v) kvs kt_new) = Inr (values_of k kvs, t')
    \<and> (k' \<noteq> k \<longrightarrow> (\<exists>t''. kt_take_all k' t' = Inr (values_of k' kvs, t''))) \<and> (\<exists>t''. kt_take_all k t' = Inr ([], t''))"
  by (rule kt.fifo) (use assms in \<open>simp add: kt_room_for_def kt_new_def\<close>)

theorem keyed_table_fifo_witness:
  "\<exists>t'. kt_take_all 5 (fold (\<lambda>(k, v). kt_push k v) [(5, ''x''), (6, ''y''), (5, ''z'')] kt_new) = Inr ([''x'', ''z''], t')"
  using keyed_table_fifo [of "[(5, ''x''), (6, ''y''), (5, ''z'')]" 5 6] by (auto simp: values_of_def)

end
