(* ===== verification/Context_Store.thy ===== *)
theory Context_Store
  imports Keyed_Table
begin

text \<open>
  The map from promise addresses to async contexts, \<open>PromiseContextStore\<close> of
  \<open>promise/mod.rs\<close>: a hash map from the key to the snapshot and its position in a dense key
  vector, which is what the collector traverses. A failed \<open>expect\<close> and an index out of range
  panic.
\<close>

record 'c context_store =
  cs_entries :: "u64 \<rightharpoonup> 'c \<times> nat"
  cs_keys :: "u64 list"

definition cs_empty :: "'c context_store" where
  "cs_empty = \<lparr>cs_entries = Map.empty, cs_keys = []\<rparr>"

definition cs_insert :: "u64 \<Rightarrow> 'c \<Rightarrow> 'c context_store \<Rightarrow> 'c context_store" where
  "cs_insert key snapshot s =
     (case cs_entries s key of
        Some (existing, position) \<Rightarrow> s\<lparr>cs_entries := (cs_entries s)(key \<mapsto> (snapshot, position))\<rparr>
      | None \<Rightarrow>
          let position = length (cs_keys s)
          in s\<lparr>cs_keys := cs_keys s @ [key], cs_entries := (cs_entries s)(key \<mapsto> (snapshot, position))\<rparr>)"

definition cs_get :: "u64 \<Rightarrow> 'c context_store \<Rightarrow> 'c option" where
  "cs_get key s = map_option fst (cs_entries s key)"

definition cs_key_at :: "nat \<Rightarrow> 'c context_store \<Rightarrow> u64 option" where
  "cs_key_at index s = (if index < length (cs_keys s) then Some (cs_keys s ! index) else None)"

text \<open>The tail shared by \<open>remove\<close> and \<open>rekey\<close>: the key that filled the hole learns its position.\<close>

definition cs_fill_hole :: "nat \<Rightarrow> (u64 \<rightharpoonup> 'c \<times> nat) \<Rightarrow> u64 list \<Rightarrow> js_throw + 'c context_store" where
  "cs_fill_hole position entries keys =
     (case swap_remove position keys of
        Inl e \<Rightarrow> Inl e
      | Inr (removed_key, keys) \<Rightarrow>
          if position < length keys then
            (case entries (keys ! position) of
               None \<Rightarrow> Inl (Panic ''PromiseContextStore key vector and map must agree'')
             | Some (c, _) \<Rightarrow>
                 Inr \<lparr>cs_entries = entries(keys ! position \<mapsto> (c, position)), cs_keys = keys\<rparr>)
          else Inr \<lparr>cs_entries = entries, cs_keys = keys\<rparr>)"

definition cs_remove :: "u64 \<Rightarrow> 'c context_store \<Rightarrow> js_throw + ('c option \<times> 'c context_store)" where
  "cs_remove key s =
     (case cs_entries s key of
        None \<Rightarrow> Inr (None, s)
      | Some (snapshot, position) \<Rightarrow>
          (case cs_fill_hole position ((cs_entries s)(key := None)) (cs_keys s) of
             Inl e \<Rightarrow> Inl e
           | Inr s \<Rightarrow> Inr (Some snapshot, s)))"

text \<open>
  The loop of \<open>retain\<close>; the callback may change the snapshot and says whether to keep it. A key
  that the map lacks is not removed from the vector, and the loop then does not advance: it is a
  partial function, shown to return on consistent stores.
\<close>

partial_function (option) cs_retain_loop ::
    "(u64 \<Rightarrow> 'c \<Rightarrow> 'c \<times> bool) \<Rightarrow> nat \<Rightarrow> 'c context_store \<Rightarrow> (js_throw + 'c context_store) option" where
  "cs_retain_loop keep index s =
     (if index < length (cs_keys s) then
        let key = cs_keys s ! index;
            (s, retain) =
              (case cs_entries s key of
                 None \<Rightarrow> (s, False)
               | Some (snapshot, position) \<Rightarrow>
                   (let (snapshot, r) = keep key snapshot
                    in (s\<lparr>cs_entries := (cs_entries s)(key \<mapsto> (snapshot, position))\<rparr>, r)))
        in if retain then cs_retain_loop keep (index + 1) s
           else
             case cs_remove key s of
               Inl e \<Rightarrow> Some (Inl e)
             | Inr (removed, s) \<Rightarrow> cs_retain_loop keep index s
      else Some (Inr s))"

definition cs_retain ::
    "(u64 \<Rightarrow> 'c \<Rightarrow> 'c \<times> bool) \<Rightarrow> 'c context_store \<Rightarrow> (js_throw + 'c context_store) option" where
  "cs_retain keep s = cs_retain_loop keep 0 s"

definition cs_rekey :: "u64 \<Rightarrow> u64 \<Rightarrow> 'c context_store \<Rightarrow> js_throw + 'c context_store" where
  "cs_rekey old_key new_key s =
     (if old_key = new_key then Inr s
      else case cs_entries s old_key of
        None \<Rightarrow> Inr s
      | Some (context, old_position) \<Rightarrow>
          let entries = (cs_entries s)(old_key := None)
          in if entries new_key \<noteq> None then
               (case cs_fill_hole old_position entries (cs_keys s) of
                  Inl e \<Rightarrow> Inl e
                | Inr s \<Rightarrow>
                    (case cs_entries s new_key of
                       None \<Rightarrow> Inl (Panic ''rekey collision target must remain present'')
                     | Some (_, p) \<Rightarrow> Inr (s\<lparr>cs_entries := (cs_entries s)(new_key \<mapsto> (context, p))\<rparr>)))
             else if old_position < length (cs_keys s) then
               Inr \<lparr>cs_entries = entries(new_key \<mapsto> (context, old_position)),
                    cs_keys = (cs_keys s)[old_position := new_key]\<rparr>
             else Inl (Panic ''index out of bounds''))"

subsection \<open>Keys and map agree\<close>

definition cs_inv :: "'c context_store \<Rightarrow> bool" where
  "cs_inv s \<longleftrightarrow> (\<forall>k c p. cs_entries s k = Some (c, p) \<longrightarrow> p < length (cs_keys s) \<and> cs_keys s ! p = k)
     \<and> (\<forall>p < length (cs_keys s). \<exists>c. cs_entries s (cs_keys s ! p) = Some (c, p))"

definition cs_abs :: "'c context_store \<Rightarrow> u64 \<rightharpoonup> 'c" where
  "cs_abs s k = map_option fst (cs_entries s k)"

lemma cs_invD:
  assumes "cs_inv s"
  shows "cs_entries s k = Some (c, p) \<Longrightarrow> p < length (cs_keys s)" "cs_entries s k = Some (c, p) \<Longrightarrow> cs_keys s ! p = k"
    "p < length (cs_keys s) \<Longrightarrow> \<exists>c. cs_entries s (cs_keys s ! p) = Some (c, p)"
  using assms by (auto simp: cs_inv_def)

lemma cs_inv_distinct: "cs_inv s \<Longrightarrow> distinct (cs_keys s)"
  unfolding distinct_conv_nth by (metis cs_invD(3) option.inject prod.inject)

lemma cs_empty_ok: "cs_inv cs_empty" "cs_abs cs_empty = Map.empty"
  by (auto simp: cs_inv_def cs_empty_def cs_abs_def)

lemma cs_insert_ok:
  assumes "cs_inv s"
  shows "cs_inv (cs_insert k c s)" "cs_abs (cs_insert k c s) = (cs_abs s)(k \<mapsto> c)"
proof -
  show "cs_abs (cs_insert k c s) = (cs_abs s)(k \<mapsto> c)"
    by (auto simp: cs_insert_def cs_abs_def fun_eq_iff Let_def split: option.split)
  show "cs_inv (cs_insert k c s)"
  proof (cases "cs_entries s k")
    case None
    have "k \<noteq> cs_keys s ! p" if "p < length (cs_keys s)" for p using cs_invD(3) [OF assms that] None by auto
    then show ?thesis
      using cs_invD [OF assms] None by (fastforce simp: cs_inv_def cs_insert_def Let_def nth_append less_Suc_eq)
  next
    case (Some cp)
    then show ?thesis using cs_invD [OF assms] by (cases cp) (fastforce simp: cs_inv_def cs_insert_def)
  qed
qed

lemma cs_fill_hole_ok:
  assumes "cs_inv s" "cs_entries s k = Some (c, p)"
  shows "\<exists>s'. cs_fill_hole p ((cs_entries s)(k := None)) (cs_keys s) = Inr s' \<and> cs_inv s' \<and> cs_abs s' = (cs_abs s)(k := None)
    \<and> length (cs_keys s') = length (cs_keys s) - 1
    \<and> (\<forall>j < length (cs_keys s'). cs_keys s' ! j = (if j = p then last (cs_keys s) else cs_keys s ! j))"
proof -
  define ks n where "ks = cs_keys s" and "n = length ks - 1"
  note d = cs_invD [OF assms(1), folded ks_def]
  have p: "p < length ks" "ks ! p = k" using d(1,2) [OF assms(2)] by simp_all
  obtain ys where ys: "swap_remove p ks = Inr (ks ! p, ys)" "length ys = length ks - 1"
    "\<And>j. j < length ys \<Longrightarrow> ys ! j = (if j = p then last ks else ks ! j)"
    using swap_remove_Inr [OF p(1)] by metis
  have len: "length ks = Suc n" "length ys = n" using p(1) ys(2) by (auto simp: n_def)
  have last: "last ks = ks ! n" using p(1) by (subst last_conv_nth) (auto simp: n_def)
  have nth: "ys ! j = (if j = p then ks ! n else ks ! j)" if "j < n" for j using ys(3) that len last by simp
  define s' where "s' = (if p < n then \<lparr>cs_entries = (cs_entries s)(k := None, ks ! n \<mapsto> (fst (the (cs_entries s (ks ! n))), p)), cs_keys = ys\<rparr>
    else \<lparr>cs_entries = (cs_entries s)(k := None), cs_keys = ys\<rparr>)"
  obtain cn where cn: "cs_entries s (ks ! n) = Some (cn, n)" using d(3) [of n] len by auto
  have kn: "p < n \<Longrightarrow> ks ! n \<noteq> k" using cn assms(2) by auto
  have run: "cs_fill_hole p ((cs_entries s)(k := None)) ks = Inr s'"
    using ys(1) len nth [of p] kn cn by (auto simp: cs_fill_hole_def s'_def)
  have "cs_inv s'"
    unfolding cs_inv_def
  proof (intro conjI allI impI)
    fix k' c' q assume e: "cs_entries s' k' = Some (c', q)"
    have "q < n \<and> ys ! q = k'"
    proof (cases "p < n \<and> k' = ks ! n")
      case True
      then show ?thesis using e nth [of p] by (auto simp: s'_def)
    next
      case False
      then have e': "cs_entries s k' = Some (c', q)" "k' \<noteq> k" using e by (auto simp: s'_def split: if_splits)
      have q: "q < Suc n" "ks ! q = k'" "q \<noteq> p" using d(1,2) [OF e'(1)] p(2) e'(2) len by auto
      have "q \<noteq> n" using q False p(1) len by (cases "p < n") auto
      then show ?thesis using q nth [of q] by simp
    qed
    then show "q < length (cs_keys s')" "cs_keys s' ! q = k'" using len by (simp_all add: s'_def)
  next
    fix q assume "q < length (cs_keys s')"
    then have q: "q < n" using len by (simp add: s'_def split: if_splits)
    obtain cq where cq: "cs_entries s (ks ! q) = Some (cq, q)" using d(3) [of q] q len by auto
    show "\<exists>c. cs_entries s' (cs_keys s' ! q) = Some (c, q)"
    proof (cases "q = p")
      case True
      then show ?thesis using q nth [of q] by (simp add: s'_def)
    next
      case False
      then have "ks ! q \<noteq> k" using cq assms(2) by auto
      moreover have "ks ! q \<noteq> ks ! n" using cq cn q by auto
      ultimately show ?thesis using False q nth [of q] cq by (simp add: s'_def)
    qed
  qed
  moreover have "cs_abs s' = (cs_abs s)(k := None)"
    using kn cn by (auto simp: s'_def cs_abs_def fun_eq_iff)
  ultimately show ?thesis using run len last nth by (simp add: ks_def [symmetric] s'_def)
qed

lemma cs_remove_ok:
  assumes "cs_inv s"
  shows "\<exists>s'. cs_remove k s = Inr (cs_abs s k, s') \<and> cs_inv s' \<and> cs_abs s' = (cs_abs s)(k := None)"
proof (cases "cs_entries s k")
  case None
  then show ?thesis using assms by (auto simp: cs_remove_def cs_abs_def fun_eq_iff)
next
  case (Some cp)
  then obtain c p where e: "cs_entries s k = Some (c, p)" by (cases cp) simp
  then show ?thesis using cs_fill_hole_ok [OF assms e] by (auto simp: cs_remove_def cs_abs_def)
qed

lemma cs_rekey_ok:
  assumes "cs_inv s"
  shows "\<exists>s'. cs_rekey old new s = Inr s' \<and> cs_inv s'
    \<and> cs_abs s' = (case cs_abs s old of None \<Rightarrow> cs_abs s | Some c \<Rightarrow> (cs_abs s)(old := None, new \<mapsto> c))"
proof (cases "old = new \<or> cs_entries s old = None")
  case True
  then show ?thesis using assms by (auto simp: cs_rekey_def cs_abs_def fun_eq_iff split: option.split)
next
  case False
  then obtain c p where e: "cs_entries s old = Some (c, p)" and ne: "old \<noteq> new" by auto
  note d = cs_invD [OF assms]
  have p: "p < length (cs_keys s)" "cs_keys s ! p = old" using d(1,2) [OF e] by simp_all
  show ?thesis
  proof (cases "cs_entries s new")
    case None
    define s' where "s' = \<lparr>cs_entries = (cs_entries s)(old := None, new \<mapsto> (c, p)), cs_keys = (cs_keys s)[p := new]\<rparr>"
    have run: "cs_rekey old new s = Inr s'" using e ne None p by (simp add: cs_rekey_def Let_def s'_def)
    have "cs_inv s'"
      unfolding cs_inv_def
    proof (intro conjI allI impI)
      fix k c' q assume k: "cs_entries s' k = Some (c', q)"
      show "q < length (cs_keys s')" using k d(1) p by (auto simp: s'_def split: if_splits)
      show "cs_keys s' ! q = k"
      proof (cases "k = new")
        case True
        then show ?thesis using k p by (simp add: s'_def)
      next
        case False
        then have "cs_entries s k = Some (c', q)" "k \<noteq> old" using k by (auto simp: s'_def split: if_splits)
        then show ?thesis using d(2) p(2) by (metis context_store.select_convs(2) nth_list_update_neq s'_def)
      qed
    next
      fix q assume "q < length (cs_keys s')"
      then have q: "q < length (cs_keys s)" by (simp add: s'_def)
      show "\<exists>c. cs_entries s' (cs_keys s' ! q) = Some (c, q)"
      proof (cases "q = p")
        case True
        then show ?thesis using q by (simp add: s'_def)
      next
        case False
        obtain cq where cq: "cs_entries s (cs_keys s ! q) = Some (cq, q)" using d(3) [OF q] by blast
        then have "cs_keys s ! q \<noteq> old" "cs_keys s ! q \<noteq> new" using e False None by auto
        then show ?thesis using False cq by (simp add: s'_def)
      qed
    qed
    moreover have "cs_abs s' = (cs_abs s)(old := None, new \<mapsto> c)" by (simp add: s'_def cs_abs_def fun_eq_iff)
    ultimately show ?thesis using run e by (simp add: cs_abs_def)
  next
    case (Some cq)
    from cs_fill_hole_ok [OF assms e] obtain t where t: "cs_fill_hole p ((cs_entries s)(old := None)) (cs_keys s) = Inr t"
      "cs_inv t" "cs_abs t = (cs_abs s)(old := None)" by blast
    have "cs_abs t new \<noteq> None" using t(3) Some ne by (simp add: cs_abs_def)
    then obtain c' q where q: "cs_entries t new = Some (c', q)" by (auto simp: cs_abs_def)
    define s' where "s' = t\<lparr>cs_entries := (cs_entries t)(new \<mapsto> (c, q))\<rparr>"
    have run: "cs_rekey old new s = Inr s'" using e ne Some t(1) q by (simp add: cs_rekey_def Let_def s'_def)
    have "cs_inv s'" using cs_invD [OF t(2)] q by (fastforce simp: cs_inv_def s'_def)
    moreover have "cs_abs s' = (cs_abs t)(new \<mapsto> c)" by (auto simp: s'_def cs_abs_def)
    ultimately show ?thesis using run e t(3) by (simp add: cs_abs_def [of s old])
  qed
qed

lemma cs_remove_keys:
  assumes "cs_inv s" "i < length (cs_keys s)"
  obtains c s' where "cs_remove (cs_keys s ! i) s = Inr (Some c, s')" "cs_inv s'" "cs_abs s' = (cs_abs s)(cs_keys s ! i := None)"
    "length (cs_keys s') = length (cs_keys s) - 1" "\<And>j. j < i \<Longrightarrow> cs_keys s' ! j = cs_keys s ! j"
proof -
  obtain c where c: "cs_entries s (cs_keys s ! i) = Some (c, i)" using cs_invD(3) [OF assms] by blast
  from cs_fill_hole_ok [OF assms(1) c] show ?thesis
    using that [of c] c assms(2) by (auto simp: cs_remove_def)
qed

definition retained :: "(u64 \<Rightarrow> 'c \<Rightarrow> 'c \<times> bool) \<Rightarrow> (u64 \<rightharpoonup> 'c) \<Rightarrow> u64 \<rightharpoonup> 'c" where
  "retained keep m k = (case m k of None \<Rightarrow> None | Some c \<Rightarrow> if snd (keep k c) then Some (fst (keep k c)) else None)"

lemma cs_retain_loop_ok:
  assumes "cs_inv s"
  shows "\<exists>s'. cs_retain_loop keep i s = Some (Inr s') \<and> cs_inv s'
    \<and> (\<forall>k. cs_abs s' k = (if k \<in> set (take i (cs_keys s)) then cs_abs s k else retained keep (cs_abs s) k))"
  using assms
proof (induction "length (cs_keys s) - i" arbitrary: i s rule: less_induct)
  case less
  show ?case
  proof (cases "i < length (cs_keys s)")
    case False
    have "cs_abs s k = (if k \<in> set (take i (cs_keys s)) then cs_abs s k else retained keep (cs_abs s) k)" for k
    proof (cases "cs_entries s k")
      case (Some cp)
      then have "k \<in> set (cs_keys s)" using cs_invD(1,2) [OF less.prems] by (cases cp) (metis nth_mem)
      then show ?thesis using False by simp
    qed (simp add: cs_abs_def retained_def)
    then show ?thesis using False less.prems by (subst cs_retain_loop.simps) auto
  next
    case True
    define key where "key = cs_keys s ! i"
    obtain c where c: "cs_entries s key = Some (c, i)" using cs_invD(3) [OF less.prems True] by (auto simp: key_def)
    obtain c' r where kp: "keep key c = (c', r)" by fastforce
    define u where "u = s\<lparr>cs_entries := (cs_entries s)(key \<mapsto> (c', i))\<rparr>"
    have inv: "cs_inv u" using cs_invD [OF less.prems] c by (fastforce simp: cs_inv_def u_def)
    have keys: "cs_keys u = cs_keys s" and abs: "cs_abs u = (cs_abs s)(key \<mapsto> c')" by (auto simp: u_def cs_abs_def)
    have key_u: "key = cs_keys u ! i" by (simp add: keys key_def)
    have new: "key \<notin> set (take i (cs_keys s))"
      using cs_inv_distinct [OF less.prems] True by (auto simp: key_def in_set_conv_nth nth_eq_iff_index_eq)
    have run: "cs_retain_loop keep i s = (if r then cs_retain_loop keep (i + 1) u
      else case cs_remove key u of Inl e \<Rightarrow> Some (Inl e) | Inr (removed, s) \<Rightarrow> cs_retain_loop keep i s)"
      using True c kp by (subst cs_retain_loop.simps) (simp add: key_def [symmetric] u_def)
    have ret: "retained keep (cs_abs s) key = (if r then Some c' else None)"
      using c kp by (simp add: retained_def cs_abs_def)
    have other: "retained keep m k = retained keep (cs_abs s) k" if "m k = cs_abs s k" for m k using that by (simp add: retained_def)
    show ?thesis
    proof (cases r)
      case r: True
      have "length (cs_keys u) - (i + 1) < length (cs_keys s) - i" using True by (simp add: keys)
      from less.hyps [OF this inv] obtain s' where s': "cs_retain_loop keep (i + 1) u = Some (Inr s')" "cs_inv s'"
        "\<And>k. cs_abs s' k = (if k \<in> set (take (i + 1) (cs_keys u)) then cs_abs u k else retained keep (cs_abs u) k)" by blast
      have "set (take (i + 1) (cs_keys u)) = insert key (set (take i (cs_keys s)))"
        using True by (simp add: keys take_Suc_conv_app_nth key_def)
      then have "cs_abs s' k = (if k \<in> set (take i (cs_keys s)) then cs_abs s k else retained keep (cs_abs s) k)" for k
        using s'(3) [of k] ret r new other [of "cs_abs u" k] by (cases "k = key") (simp_all add: abs)
      then show ?thesis using run r s' by auto
    next
      case r: False
      obtain c2 s2 where s2: "cs_remove key u = Inr (Some c2, s2)" "cs_inv s2" "cs_abs s2 = (cs_abs u)(key := None)"
        "length (cs_keys s2) = length (cs_keys u) - 1" "\<And>j. j < i \<Longrightarrow> cs_keys s2 ! j = cs_keys u ! j"
        using cs_remove_keys [OF inv, of i] True keys key_u by metis
      have "length (cs_keys s2) - i < length (cs_keys s) - i" using s2(4) True by (simp add: keys)
      from less.hyps [OF this s2(2)] obtain s' where s': "cs_retain_loop keep i s2 = Some (Inr s')" "cs_inv s'"
        "\<And>k. cs_abs s' k = (if k \<in> set (take i (cs_keys s2)) then cs_abs s2 k else retained keep (cs_abs s2) k)" by blast
      have take: "take i (cs_keys s2) = take i (cs_keys s)"
        by (rule nth_equalityI) (use s2(4,5) True keys in auto)
      have abs2: "cs_abs s2 k = (if k = key then None else cs_abs s k)" for k using s2(3) abs by simp
      have "cs_abs s' k = (if k \<in> set (take i (cs_keys s)) then cs_abs s k else retained keep (cs_abs s) k)" for k
        using s'(3) [of k] ret r new abs2 [of k] other [of "cs_abs s2" k]
        by (cases "k = key") (simp_all add: take, simp add: retained_def)
      then show ?thesis using run r s' s2(1) by auto
    qed
  qed
qed

subsection \<open>The contract\<close>

locale snapshot_map =
  fixes empty :: 's
    and insert :: "'k \<Rightarrow> 'c \<Rightarrow> 's \<Rightarrow> 's"
    and get :: "'k \<Rightarrow> 's \<Rightarrow> 'c option"
    and remove :: "'k \<Rightarrow> 's \<Rightarrow> js_throw + ('c option \<times> 's)"
    and rekey :: "'k \<Rightarrow> 'k \<Rightarrow> 's \<Rightarrow> js_throw + 's"
    and retain :: "('k \<Rightarrow> 'c \<Rightarrow> 'c \<times> bool) \<Rightarrow> 's \<Rightarrow> (js_throw + 's) option"
    and invar :: "'s \<Rightarrow> bool"
    and lookup :: "'s \<Rightarrow> 'k \<Rightarrow> 'c option"
  assumes empty_law: "invar empty \<and> lookup empty = Map.empty"
    and get_law: "invar s \<Longrightarrow> get k s = lookup s k"
    and insert_law: "invar s \<Longrightarrow> invar (insert k c s) \<and> lookup (insert k c s) = (lookup s)(k \<mapsto> c)"
    and remove_law: "invar s \<Longrightarrow> \<exists>s'. remove k s = Inr (lookup s k, s') \<and> invar s' \<and> lookup s' = (lookup s)(k := None)"
    and rekey_law: "invar s \<Longrightarrow> \<exists>s'. rekey k k' s = Inr s' \<and> invar s'
      \<and> lookup s' = (case lookup s k of None \<Rightarrow> lookup s | Some c \<Rightarrow> (lookup s)(k := None, k' \<mapsto> c))"
    and retain_law: "invar s \<Longrightarrow> \<exists>s'. retain keep s = Some (Inr s') \<and> invar s'
      \<and> lookup s' = (\<lambda>k. case lookup s k of None \<Rightarrow> None | Some c \<Rightarrow> if snd (keep k c) then Some (fst (keep k c)) else None)"
begin

text \<open>A context follows its promise through any number of moves to fresh addresses.\<close>

lemma get_after_rekey:
  assumes "invar s" "lookup s k = Some c"
  shows "\<exists>s'. rekey k k' s = Inr s' \<and> get k' s' = Some c \<and> (k' \<noteq> k \<longrightarrow> get k s' = None)
    \<and> (\<forall>q. q \<noteq> k \<longrightarrow> q \<noteq> k' \<longrightarrow> get q s' = get q s)"
  using rekey_law [OF assms(1), of k k'] get_law assms by force

lemma remove_after_insert:
  assumes "invar s"
  shows "\<exists>s'. remove k (insert k c s) = Inr (Some c, s') \<and> get k s' = None \<and> (\<forall>q. q \<noteq> k \<longrightarrow> get q s' = get q s)"
  using insert_law [OF assms, of k c] remove_law [of "insert k c s" k] get_law assms by force

end

interpretation cs: snapshot_map cs_empty cs_insert cs_get cs_remove cs_rekey cs_retain cs_inv cs_abs
proof unfold_locales
  fix s :: "'a context_store" and keep
  assume s: "cs_inv s"
  from cs_retain_loop_ok [OF s, of keep 0] show "\<exists>s'. cs_retain keep s = Some (Inr s') \<and> cs_inv s'
      \<and> cs_abs s' = (\<lambda>k. case cs_abs s k of None \<Rightarrow> None | Some c \<Rightarrow> if snd (keep k c) then Some (fst (keep k c)) else None)"
    by (auto simp: cs_retain_def retained_def fun_eq_iff)
qed (simp_all add: cs_empty_ok cs_insert_ok cs_remove_ok cs_rekey_ok cs_get_def cs_abs_def [symmetric])

subsection \<open>Properties\<close>

text \<open>
  C13. The context store is a map from promises to contexts through every operation: from a consistent
  store, insertion, removal, rekeying onto a fresh or an occupied address and the collector's filter
  never panic and never loop, act on the denoted map as the names say, and leave key vector and hash
  map consistent.
\<close>

theorem context_store_refines_map:
  assumes "cs_inv s"
  shows "cs_inv (cs_insert k c s) \<and> cs_abs (cs_insert k c s) = (cs_abs s)(k \<mapsto> c)
    \<and> (\<exists>s'. cs_remove k s = Inr (cs_abs s k, s') \<and> cs_inv s' \<and> cs_abs s' = (cs_abs s)(k := None))
    \<and> (\<exists>s'. cs_rekey k k' s = Inr s' \<and> cs_inv s'
         \<and> cs_abs s' = (case cs_abs s k of None \<Rightarrow> cs_abs s | Some c \<Rightarrow> (cs_abs s)(k := None, k' \<mapsto> c)))
    \<and> (\<exists>s'. cs_retain keep s = Some (Inr s') \<and> cs_inv s' \<and> cs_abs s' = retained keep (cs_abs s))"
  using cs.insert_law [OF assms, of k c] cs.remove_law [OF assms, of k] cs.rekey_law [OF assms, of k k']
    cs.retain_law [OF assms, of keep] unfolding retained_def [abs_def] by blast

theorem context_store_refines_map_witness:
  "\<exists>s'. cs_rekey 8 16 (cs_insert 16 ''stale'' (cs_insert 8 ''moved'' cs_empty)) = Inr s' \<and> cs_abs s' = [16 \<mapsto> ''moved'']"
proof -
  have i: "cs_inv (cs_insert 16 ''stale'' (cs_insert 8 ''moved'' cs_empty))"
    by (simp add: cs_insert_ok cs_empty_ok)
  have "cs_abs (cs_insert 16 ''stale'' (cs_insert 8 ''moved'' cs_empty)) = [8 \<mapsto> ''moved'', 16 \<mapsto> ''stale'']"
    by (simp add: cs_insert_ok cs_empty_ok)
  then show ?thesis
    using context_store_refines_map [OF i, of 8 _ 16] by (auto simp: fun_upd_twist)
qed

end
