(* ===== verification/Promise_Rejection.thy ===== *)
theory Promise_Rejection
  imports Prelude "HOL-Library.Multiset"
begin

text \<open>
  The tracker of unhandled promise rejections (\<open>promise/rejection.rs\<close>): the four sets of the
  \<open>RejectionTracker\<close>, the operations of the promise machinery on them, and the checkpoint
  \<open>process_rejections\<close>. What the tracker reads of a promise (its state and whether a reaction is
  wired onto it) is the record \<open>promise_view\<close>, looked up in the state's \<open>promises\<close>. The listeners the checkpoint calls are user code:
  they are parameters, functions on the tracker's state. A listener that exits the process ends the
  run and is not a value of the model.
\<close>

datatype PromiseState = Pending | Fulfilled | Rejected

record promise_view =
  pv_state :: PromiseState
  pv_on_rejected :: u64
  pv_next :: u64

record rejection_tracker =
  unhandled :: "u64 list"
  reported :: "u64 list"
  pending_handled :: "u64 list"
  internally_handled :: "u64 set"
  processing :: bool
  promises :: "u64 \<Rightarrow> promise_view"

definition MAX_REPORTED_REJECTIONS :: nat where
  "MAX_REPORTED_REJECTIONS = 1024"

definition tracker_default :: "(u64 \<Rightarrow> promise_view) \<Rightarrow> rejection_tracker" where
  "tracker_default heap =
     \<lparr>unhandled = [], reported = [], pending_handled = [], internally_handled = {}, processing = False, promises = heap\<rparr>"

definition track_unhandled_rejection :: "u64 \<Rightarrow> rejection_tracker \<Rightarrow> rejection_tracker" where
  "track_unhandled_rejection promise t =
     (if promise = 0 then t else t\<lparr>unhandled := unhandled t @ [promise]\<rparr>)"

text \<open>\<open>position\<close> and \<open>remove\<close>: the first occurrence goes.\<close>

definition mark_rejection_handled :: "u64 \<Rightarrow> rejection_tracker \<Rightarrow> rejection_tracker" where
  "mark_rejection_handled promise t =
     (if promise = 0 then t
      else
        let t = t\<lparr>unhandled := filter (\<lambda>p. p \<noteq> promise) (unhandled t)\<rparr>
        in if promise \<in> set (reported t) then
             t\<lparr>reported := remove1 promise (reported t), pending_handled := pending_handled t @ [promise]\<rparr>
           else t)"

definition js_promise_mark_internally_handled :: "u64 \<Rightarrow> rejection_tracker \<Rightarrow> rejection_tracker" where
  "js_promise_mark_internally_handled promise t =
     (if promise = 0 then t
      else mark_rejection_handled promise (t\<lparr>internally_handled := insert promise (internally_handled t)\<rparr>))"

definition is_internally_handled :: "u64 \<Rightarrow> rejection_tracker \<Rightarrow> bool" where
  "is_internally_handled promise t \<longleftrightarrow> promise \<in> internally_handled t"

definition scan_unhandled_rejection_roots :: "(u64 \<Rightarrow> u64) \<Rightarrow> rejection_tracker \<Rightarrow> rejection_tracker" where
  "scan_unhandled_rejection_roots visit t =
     t\<lparr>unhandled := map visit (unhandled t), reported := map visit (reported t),
       pending_handled := map visit (pending_handled t)\<rparr>"

definition still_unhandled :: "promise_view \<Rightarrow> bool" where
  "still_unhandled pv \<longleftrightarrow> pv_state pv = Rejected \<and> pv_on_rejected pv = 0 \<and> pv_next pv = 0"

fun take_next_unhandled_loop ::
    "(u64 \<Rightarrow> promise_view) \<Rightarrow> u64 list \<Rightarrow> u64 list \<Rightarrow> u64 option \<times> u64 list \<times> u64 list" where
  "take_next_unhandled_loop heap [] rep = (None, [], rep)"
| "take_next_unhandled_loop heap (addr # rest) rep =
     (if \<not> still_unhandled (heap addr) then take_next_unhandled_loop heap rest rep
      else
        let rep = (if length rep \<ge> MAX_REPORTED_REJECTIONS then tl rep else rep)
        in (Some addr, rest, rep @ [addr]))"

definition take_next_unhandled ::
    "rejection_tracker \<Rightarrow> u64 option \<times> rejection_tracker" where
  "take_next_unhandled t =
     (let (r, un, rep) = take_next_unhandled_loop (promises t) (unhandled t) (reported t)
      in (r, t\<lparr>unhandled := un, reported := rep\<rparr>))"

definition take_pending_handled :: "rejection_tracker \<Rightarrow> u64 option \<times> rejection_tracker" where
  "take_pending_handled t =
     (case pending_handled t of
        [] \<Rightarrow> (None, t)
      | p # ps \<Rightarrow> (Some p, t\<lparr>pending_handled := ps\<rparr>))"

text \<open>
  The checkpoint. \<open>on_handled\<close> is what the listeners of \<open>rejectionHandled\<close> do to the tracker,
  \<open>on_report\<close> those of \<open>unhandledRejection\<close>, \<open>microtasks\<close> the drain between two rounds.
  Each emitted event is recorded. Listeners may go on producing work, so the loops are partial.
\<close>

datatype rejection_event = RejectionHandled u64 | UnhandledRejection u64

partial_function (option) drain_handled ::
    "(u64 \<Rightarrow> rejection_tracker \<Rightarrow> rejection_tracker) \<Rightarrow> rejection_tracker \<Rightarrow> rejection_event list
      \<Rightarrow> (rejection_event list \<times> rejection_tracker) option" where
  "drain_handled on_handled t out =
     (case take_pending_handled t of
        (None, t) \<Rightarrow> Some (out, t)
      | (Some p, t) \<Rightarrow> drain_handled on_handled (on_handled p t) (out @ [RejectionHandled p]))"

fun report_loop ::
    "(u64 \<Rightarrow> rejection_tracker \<Rightarrow> rejection_tracker) \<Rightarrow> nat \<Rightarrow> rejection_tracker
      \<Rightarrow> rejection_event list \<Rightarrow> rejection_event list \<times> rejection_tracker" where
  "report_loop on_report 0 t out = (out, t)"
| "report_loop on_report (Suc budget) t out =
     (case take_next_unhandled t of
        (None, t) \<Rightarrow> (out, t)
      | (Some p, t) \<Rightarrow> report_loop on_report budget (on_report p t) (out @ [UnhandledRejection p]))"

partial_function (option) rejection_rounds ::
    "(u64 \<Rightarrow> rejection_tracker \<Rightarrow> rejection_tracker)
      \<Rightarrow> (u64 \<Rightarrow> rejection_tracker \<Rightarrow> rejection_tracker) \<Rightarrow> (rejection_tracker \<Rightarrow> rejection_tracker)
      \<Rightarrow> rejection_tracker \<Rightarrow> rejection_event list \<Rightarrow> (rejection_event list \<times> rejection_tracker) option" where
  "rejection_rounds on_handled on_report microtasks t out =
     (case drain_handled on_handled t [] of
        None \<Rightarrow> None
      | Some (handled, t) \<Rightarrow>
          let (events, t) = report_loop on_report (length (unhandled t)) t handled
          in if events = [] then Some (out, t)
             else rejection_rounds on_handled on_report microtasks (microtasks t) (out @ events))"

definition process_rejections ::
    "(u64 \<Rightarrow> rejection_tracker \<Rightarrow> rejection_tracker)
      \<Rightarrow> (u64 \<Rightarrow> rejection_tracker \<Rightarrow> rejection_tracker) \<Rightarrow> (rejection_tracker \<Rightarrow> rejection_tracker)
      \<Rightarrow> rejection_tracker \<Rightarrow> (rejection_event list \<times> rejection_tracker) option" where
  "process_rejections on_handled on_report microtasks t =
     (if processing t then Some ([], t)
      else
        case rejection_rounds on_handled on_report microtasks (t\<lparr>processing := True\<rparr>) [] of
          None \<Rightarrow> None
        | Some (events, t) \<Rightarrow> Some (events, t\<lparr>processing := False\<rparr>))"

subsection \<open>Runs of the tracker\<close>

text \<open>
  One step per operation the runtime performs on the tracker, in any order: the checkpoint's two
  operations interleave with those of promises and listeners. The label is what is observable.
\<close>

datatype rejection_label =
    Track u64
  | Attach u64
  | Internal u64
  | Report u64
  | Handled u64
  | Quiet

inductive rejection_run :: "rejection_tracker \<Rightarrow> rejection_label list \<Rightarrow> rejection_tracker \<Rightarrow> bool" for s0 where
  start: "rejection_run s0 [] s0"
| track: "rejection_run s0 ls s \<Longrightarrow> rejection_run s0 (ls @ [Track p]) (track_unhandled_rejection p s)"
| attach: "rejection_run s0 ls s \<Longrightarrow> rejection_run s0 (ls @ [Attach p]) (mark_rejection_handled p s)"
| internal: "rejection_run s0 ls s \<Longrightarrow> rejection_run s0 (ls @ [Internal p]) (js_promise_mark_internally_handled p s)"
| settle: "rejection_run s0 ls s \<Longrightarrow> rejection_run s0 (ls @ [Quiet]) (s\<lparr>promises := heap\<rparr>)"
| report: "rejection_run s0 ls s \<Longrightarrow> take_next_unhandled s = (Some p, s') \<Longrightarrow> rejection_run s0 (ls @ [Report p]) s'"
| idle: "rejection_run s0 ls s \<Longrightarrow> take_next_unhandled s = (None, s') \<Longrightarrow> rejection_run s0 (ls @ [Quiet]) s'"
| handled: "rejection_run s0 ls s \<Longrightarrow> take_pending_handled s = (Some p, s') \<Longrightarrow> rejection_run s0 (ls @ [Handled p]) s'"

inductive_cases rejection_run_snocE: "rejection_run s0 (ls @ [l]) s"

lemma take_next_loop_Some:
  "take_next_unhandled_loop heap un rep = (Some p, un', rep') \<Longrightarrow>
    \<exists>skipped. un = skipped @ p # un' \<and> (\<forall>q\<in>set skipped. \<not> still_unhandled (heap q)) \<and> still_unhandled (heap p)
      \<and> rep' = (if length rep \<ge> MAX_REPORTED_REJECTIONS then tl rep else rep) @ [p]"
proof (induction heap un rep rule: take_next_unhandled_loop.induct)
  case (2 heap addr rest rep)
  show ?case
  proof (cases "still_unhandled (heap addr)")
    case True
    then show ?thesis using "2.prems" by (intro exI [of _ "[]"]) (auto simp: Let_def)
  next
    case False
    then obtain skipped where "rest = skipped @ p # un'" "\<forall>q\<in>set skipped. \<not> still_unhandled (heap q)" "still_unhandled (heap p)"
      "rep' = (if length rep \<ge> MAX_REPORTED_REJECTIONS then tl rep else rep) @ [p]"
      using 2 by auto
    then show ?thesis using False by (intro exI [of _ "addr # skipped"]) auto
  qed
qed simp

lemma take_next_loop_None:
  "take_next_unhandled_loop heap un rep = (None, un', rep') \<Longrightarrow>
    un' = [] \<and> rep' = rep \<and> (\<forall>q\<in>set un. \<not> still_unhandled (heap q))"
  by (induction heap un rep rule: take_next_unhandled_loop.induct) (auto simp: Let_def split: if_splits)

lemma take_next_Some:
  assumes "take_next_unhandled s = (Some p, s')"
  obtains skipped where "unhandled s = skipped @ p # unhandled s'" "still_unhandled (promises s p)"
    "\<forall>q\<in>set skipped. \<not> still_unhandled (promises s q)"
    "reported s' = (if length (reported s) \<ge> MAX_REPORTED_REJECTIONS then tl (reported s) else reported s) @ [p]"
    "pending_handled s' = pending_handled s" "promises s' = promises s" "processing s' = processing s"
  using assms take_next_loop_Some [of "promises s" "unhandled s" "reported s" p]
  by (auto simp: take_next_unhandled_def split: prod.splits)

lemma take_next_None:
  assumes "take_next_unhandled s = (None, s')"
  shows "s' = s\<lparr>unhandled := []\<rparr> \<and> (\<forall>q\<in>set (unhandled s). \<not> still_unhandled (promises s q))"
  using assms take_next_loop_None [of "promises s" "unhandled s" "reported s"]
  by (auto simp: take_next_unhandled_def split: prod.splits)

lemma take_pending_Some:
  assumes "take_pending_handled s = (Some p, s')"
  shows "pending_handled s = p # pending_handled s'" "s' = s\<lparr>pending_handled := pending_handled s'\<rparr>"
  using assms by (auto simp: take_pending_handled_def split: list.splits)

lemma count_filter_neq: "count_list (filter (\<lambda>q. q \<noteq> p) xs) r = (if r = p then 0 else count_list xs r)"
  by (induction xs) auto

lemma count_remove1: "count_list (remove1 p xs) r = (if r = p then count_list xs r - 1 else count_list xs r)"
proof (induction xs)
  case (Cons x xs)
  have "count_list xs p = 0" if "p \<notin> set xs" using that by (simp add: count_notin)
  moreover have "0 < count_list xs p" if "p \<in> set xs" using that by (metis count_list_0_iff neq0_conv)
  ultimately show ?case using Cons by auto
qed simp

lemma count_tl_le: "count_list (tl xs) r \<le> count_list xs r"
  by (cases xs) auto

text \<open>The accounting invariant: every report uses up one track, every late event one report.\<close>

definition rejection_inv :: "rejection_label list \<Rightarrow> rejection_tracker \<Rightarrow> bool" where
  "rejection_inv ls s \<longleftrightarrow> length (reported s) \<le> MAX_REPORTED_REJECTIONS
     \<and> (\<forall>p. count_list ls (Report p) + count_list (unhandled s) p \<le> count_list ls (Track p)
          \<and> count_list ls (Handled p) + count_list (pending_handled s) p + count_list (reported s) p \<le> count_list ls (Report p))"

lemma mark_handled_inv:
  assumes "rejection_inv ls s"
  shows "rejection_inv ls (mark_rejection_handled p s)"
proof -
  have pos: "0 < count_list (reported s) p" if "p \<in> set (reported s)" using that by (metis count_list_0_iff neq0_conv)
  have c: "count_list (unhandled (mark_rejection_handled p s)) q \<le> count_list (unhandled s) q
    \<and> count_list (pending_handled (mark_rejection_handled p s)) q + count_list (reported (mark_rejection_handled p s)) q
      = count_list (pending_handled s) q + count_list (reported s) q" for q
    using pos by (auto simp: mark_rejection_handled_def Let_def count_filter_neq count_remove1)
  have "length (reported (mark_rejection_handled p s)) \<le> length (reported s)"
    by (auto simp: mark_rejection_handled_def Let_def length_remove1)
  then have len: "length (reported (mark_rejection_handled p s)) \<le> MAX_REPORTED_REJECTIONS"
    using assms by (simp add: rejection_inv_def)
  have "count_list ls (Report q) + count_list (unhandled (mark_rejection_handled p s)) q \<le> count_list ls (Track q)
    \<and> count_list ls (Handled q) + count_list (pending_handled (mark_rejection_handled p s)) q
        + count_list (reported (mark_rejection_handled p s)) q \<le> count_list ls (Report q)" for q
    using c [of q] assms unfolding rejection_inv_def by (metis (no_types, lifting) add.assoc add_left_mono le_trans)
  then show ?thesis using len by (simp add: rejection_inv_def)
qed

lemma rejection_inv_quiet:
  assumes "rejection_inv ls s" "\<And>p. l \<noteq> Track p" "\<And>p. l \<noteq> Report p" "\<And>p. l \<noteq> Handled p"
  shows "rejection_inv (ls @ [l]) s"
  using assms by (simp add: rejection_inv_def)

lemma rejection_run_inv:
  assumes "rejection_run (tracker_default heap) ls s"
  shows "rejection_inv ls s"
  using assms
proof (induction rule: rejection_run.induct)
  case start
  then show ?case by (simp add: rejection_inv_def tracker_default_def)
next
  case (track ls s p)
  have b: "count_list (unhandled (track_unhandled_rejection p s)) q \<le> count_list (unhandled s) q + (if q = p then 1 else 0)" for q
    by (simp add: track_unhandled_rejection_def)
  have f: "reported (track_unhandled_rejection p s) = reported s"
    "pending_handled (track_unhandled_rejection p s) = pending_handled s" by (simp_all add: track_unhandled_rejection_def)
  have "count_list ls (Report q) + count_list (unhandled (track_unhandled_rejection p s)) q
      \<le> count_list (ls @ [Track p]) (Track q)" for q
  proof -
    have "count_list ls (Report q) + count_list (unhandled s) q \<le> count_list ls (Track q)"
      using track.IH by (simp add: rejection_inv_def)
    then show ?thesis using b [of q] by (cases "q = p") (simp_all)
  qed
  then show ?case using track.IH f by (simp add: rejection_inv_def)
next
  case (attach ls s p)
  then show ?case by (intro rejection_inv_quiet mark_handled_inv) simp_all
next
  case (internal ls s p)
  have "rejection_inv ls (s\<lparr>internally_handled := insert p (internally_handled s)\<rparr>)" using internal.IH by (simp add: rejection_inv_def)
  then have "rejection_inv ls (js_promise_mark_internally_handled p s)"
    using internal.IH by (simp add: js_promise_mark_internally_handled_def mark_handled_inv)
  then show ?case by (rule rejection_inv_quiet) simp_all
next
  case (settle ls s heap)
  then show ?case by (simp add: rejection_inv_def)
next
  case (report ls s p s')
  obtain skipped where s': "unhandled s = skipped @ p # unhandled s'"
    "reported s' = (if length (reported s) \<ge> MAX_REPORTED_REJECTIONS then tl (reported s) else reported s) @ [p]"
    "pending_handled s' = pending_handled s"
    using take_next_Some [OF report.hyps(2)] by metis
  have u: "count_list (unhandled s') q + (if q = p then 1 else 0) \<le> count_list (unhandled s) q" for q using s'(1) by auto
  have r: "count_list (reported s') q \<le> count_list (reported s) q + (if q = p then 1 else 0)" for q
    using s'(2) count_tl_le [of "reported s" q] by (auto split: if_splits)
  have "length (reported s') \<le> MAX_REPORTED_REJECTIONS"
    using report.IH s'(2) by (auto simp: rejection_inv_def MAX_REPORTED_REJECTIONS_def)
  moreover have "count_list (ls @ [Report p]) (Report q) + count_list (unhandled s') q \<le> count_list (ls @ [Report p]) (Track q)" for q
  proof -
    have "count_list ls (Report q) + count_list (unhandled s) q \<le> count_list ls (Track q)"
      using report.IH by (simp add: rejection_inv_def)
    then show ?thesis using u [of q] by (auto split: if_splits)
  qed
  moreover have "count_list (ls @ [Report p]) (Handled q) + count_list (pending_handled s') q + count_list (reported s') q
      \<le> count_list (ls @ [Report p]) (Report q)" for q
  proof -
    have "count_list ls (Handled q) + count_list (pending_handled s) q + count_list (reported s) q \<le> count_list ls (Report q)"
      using report.IH by (simp add: rejection_inv_def)
    then show ?thesis using r [of q] s'(3) by (auto split: if_splits)
  qed
  ultimately show ?case unfolding rejection_inv_def by blast
next
  case (idle ls s s')
  then show ?case using take_next_None [OF idle.hyps(2)] by (auto simp: rejection_inv_def intro: add_leD1)
next
  case (handled ls s p s')
  note t = take_pending_Some [OF handled.hyps(2)]
  have "reported s' = reported s" "unhandled s' = unhandled s" by (subst t(2), simp)+
  moreover have "count_list (ls @ [Handled p]) (Handled q) + count_list (pending_handled s') q + count_list (reported s) q
      \<le> count_list ls (Report q)" for q
  proof -
    have "count_list ls (Handled q) + count_list (pending_handled s) q + count_list (reported s) q \<le> count_list ls (Report q)"
      using handled.IH by (simp add: rejection_inv_def)
    then show ?thesis using t(1) by (cases "p = q") simp_all
  qed
  ultimately show ?case using handled.IH by (simp add: rejection_inv_def)
qed

text \<open>A promise outside the unhandled set is not reported until it is tracked again.\<close>

lemma rejection_run_not_tracked:
  assumes "rejection_run s0 ls s" "p \<notin> set (unhandled s0)" "Track p \<notin> set ls"
  shows "p \<notin> set (unhandled s) \<and> Report p \<notin> set ls"
  using assms
proof (induction rule: rejection_run.induct)
  case (report ls s q s')
  then show ?case using take_next_Some [OF report.hyps(2)]
    by (metis Un_iff append_is_Nil_conv in_set_conv_decomp list.set_intros(1) list.set_intros(2) rejection_label.inject(4) rotate1.simps(2) set_append set_rotate1 set_ConsD)
next
  case (idle ls s s')
  then show ?case using take_next_None [OF idle.hyps(2)] by auto
next
  case (handled ls s q s')
  have "unhandled s' = unhandled s" by (subst take_pending_Some(2) [OF handled.hyps(2)]) simp
  then show ?case using handled by auto
qed (auto simp: track_unhandled_rejection_def mark_rejection_handled_def js_promise_mark_internally_handled_def Let_def split: if_splits)

lemma rejection_run_append:
  assumes "rejection_run s0 (as @ bs) s"
  shows "\<exists>m. rejection_run s0 as m \<and> rejection_run m bs s"
  using assms
proof (induction bs arbitrary: s rule: rev_induct)
  case Nil
  then show ?case using rejection_run.start by auto
next
  case (snoc b bs)
  from snoc.prems have "rejection_run s0 ((as @ bs) @ [b]) s" by simp
  then show ?case
    by (cases rule: rejection_run_snocE) (use snoc.IH in \<open>blast intro: rejection_run.intros\<close>)+
qed

lemma attach_not_unhandled: "p \<noteq> 0 \<Longrightarrow> p \<notin> set (unhandled (mark_rejection_handled p s))"
  by (auto simp: mark_rejection_handled_def Let_def)

subsection \<open>Checkpoints\<close>

lemma drain_handled_quiet:
  "drain_handled (\<lambda>p t. t) t out = Some (out @ map RejectionHandled (pending_handled t), t\<lparr>pending_handled := []\<rparr>)"
proof (induction "pending_handled t" arbitrary: t out)
  case Nil
  then show ?case by (subst drain_handled.simps) (simp add: take_pending_handled_def)
next
  case (Cons p ps)
  have "drain_handled (\<lambda>p t. t) t out = drain_handled (\<lambda>p t. t) (t\<lparr>pending_handled := ps\<rparr>) (out @ [RejectionHandled p])"
    by (subst drain_handled.simps) (simp add: take_pending_handled_def Cons.hyps(2) [symmetric])
  then show ?case using Cons.hyps(1) [of "t\<lparr>pending_handled := ps\<rparr>"] Cons.hyps(2) [symmetric] by simp
qed

lemma report_loop_quiet:
  assumes "length (unhandled t) \<le> n"
  shows "\<exists>rep. report_loop (\<lambda>p t. t) n t out
    = (out @ map UnhandledRejection (filter (\<lambda>p. still_unhandled (promises t p)) (unhandled t)), t\<lparr>unhandled := [], reported := rep\<rparr>)"
  using assms
proof (induction n arbitrary: t out)
  case 0
  then show ?case by (intro exI [of _ "reported t"]) simp
next
  case (Suc n)
  obtain r t' where tk: "take_next_unhandled t = (r, t')" by fastforce
  show ?case
  proof (cases r)
    case None
    note n = take_next_None [OF tk [unfolded None]]
    then have "filter (\<lambda>p. still_unhandled (promises t p)) (unhandled t) = []" by (simp add: filter_empty_conv)
    then show ?thesis using tk None n by (intro exI [of _ "reported t"]) simp
  next
    case (Some p)
    obtain skipped where s: "unhandled t = skipped @ p # unhandled t'" "still_unhandled (promises t p)"
      "\<forall>q\<in>set skipped. \<not> still_unhandled (promises t q)" "promises t' = promises t"
      using take_next_Some [OF tk [unfolded Some]] by metis
    have eq: "t' = t\<lparr>unhandled := unhandled t', reported := reported t'\<rparr>"
      using tk by (auto simp: take_next_unhandled_def split: prod.splits)
    have "length (unhandled t') \<le> n" using s(1) Suc.prems by simp
    from Suc.IH [OF this, of "out @ [UnhandledRejection p]"] obtain rep where
      "report_loop (\<lambda>p t. t) n t' (out @ [UnhandledRejection p])
        = ((out @ [UnhandledRejection p]) @ map UnhandledRejection (filter (\<lambda>p. still_unhandled (promises t' p)) (unhandled t')),
           t'\<lparr>unhandled := [], reported := rep\<rparr>)" by blast
    moreover have "t'\<lparr>unhandled := [], reported := rep\<rparr> = t\<lparr>unhandled := [], reported := rep\<rparr>" by (subst eq) simp
    moreover have "filter (\<lambda>p. still_unhandled (promises t p)) skipped = []" using s(3) by (simp add: filter_empty_conv)
    ultimately show ?thesis using tk Some s by (intro exI [of _ rep]) simp
  qed
qed

lemma rejection_rounds_quiet:
  "\<exists>rep. rejection_rounds (\<lambda>p t. t) (\<lambda>p t. t) (\<lambda>t. t) t out
    = Some (out @ map RejectionHandled (pending_handled t)
              @ map UnhandledRejection (filter (\<lambda>p. still_unhandled (promises t p)) (unhandled t)),
            t\<lparr>unhandled := [], reported := rep, pending_handled := []\<rparr>)"
proof -
  define u where "u = t\<lparr>pending_handled := []\<rparr>"
  define ev where "ev = map RejectionHandled (pending_handled t)
    @ map UnhandledRejection (filter (\<lambda>p. still_unhandled (promises t p)) (unhandled t))"
  obtain rep where rl: "report_loop (\<lambda>p t. t) (length (unhandled u)) u (map RejectionHandled (pending_handled t))
    = (ev, u\<lparr>unhandled := [], reported := rep\<rparr>)"
    using report_loop_quiet [of u "length (unhandled u)"] by (auto simp: u_def ev_def)
  define w where "w = u\<lparr>unhandled := [], reported := rep\<rparr>"
  have step: "rejection_rounds (\<lambda>p t. t) (\<lambda>p t. t) (\<lambda>t. t) t out
    = (if ev = [] then Some (out, w) else rejection_rounds (\<lambda>p t. t) (\<lambda>p t. t) (\<lambda>t. t) w (out @ ev))"
    using rl by (subst rejection_rounds.simps) (simp add: drain_handled_quiet u_def [symmetric] w_def)
  have last: "rejection_rounds (\<lambda>p t. t) (\<lambda>p t. t) (\<lambda>t. t) w out' = Some (out', w)" for out'
    by (subst rejection_rounds.simps) (simp add: drain_handled_quiet w_def u_def)
  have "w = t\<lparr>unhandled := [], reported := rep, pending_handled := []\<rparr>" by (simp add: w_def u_def)
  then show ?thesis using step last by (auto simp: ev_def)
qed

subsection \<open>Properties\<close>

text \<open>
  C15. The accounting of rejections, over every interleaving of promises, listeners and checkpoints: a
  promise is reported as unhandled at most as often as it was tracked, the late event
  \<open>rejectionHandled\<close> is emitted at most as often as it was reported, a handler attached before the
  checkpoint suppresses the report until the promise is tracked again, and the set of reported
  promises never outgrows its cap.
\<close>

theorem rejection_events_sound:
  assumes "rejection_run (tracker_default heap) ls s"
  shows "count_list ls (Handled p) \<le> count_list ls (Report p) \<and> count_list ls (Report p) \<le> count_list ls (Track p)
    \<and> length (reported s) \<le> MAX_REPORTED_REJECTIONS
    \<and> (\<forall>pre post. ls = pre @ Attach p # post \<and> p \<noteq> 0 \<and> Track p \<notin> set post \<longrightarrow> Report p \<notin> set post)"
proof -
  have "Report p \<notin> set post" if "ls = pre @ Attach p # post" "p \<noteq> 0" "Track p \<notin> set post" for pre post
  proof -
    have "rejection_run (tracker_default heap) ((pre @ [Attach p]) @ post) s" using assms that(1) by simp
    then obtain m where m: "rejection_run (tracker_default heap) (pre @ [Attach p]) m" "rejection_run m post s"
      using rejection_run_append by blast
    have "p \<notin> set (unhandled m)"
      using m(1) by (cases rule: rejection_run_snocE) (use attach_not_unhandled [OF that(2)] in auto)
    then show ?thesis using rejection_run_not_tracked [OF m(2)] that(3) by blast
  qed
  moreover have inv: "rejection_inv ls s" using assms by (rule rejection_run_inv)
  ultimately show ?thesis unfolding rejection_inv_def by (metis add_leD1 add.assoc)
qed

theorem rejection_events_sound_witness:
  "\<exists>s. rejection_run (tracker_default (\<lambda>p. \<lparr>pv_state = Rejected, pv_on_rejected = 0, pv_next = 0\<rparr>))
         [Track 8, Report 8, Attach 8, Handled 8] s
     \<and> count_list [Track 8, Report 8, Attach 8, Handled 8] (Handled 8)
       \<le> count_list [Track 8, Report 8, Attach 8, Handled 8] (Report 8)"
proof -
  define heap where "heap = (\<lambda>p :: u64. \<lparr>pv_state = Rejected, pv_on_rejected = 0, pv_next = 0\<rparr>)"
  let ?s1 = "track_unhandled_rejection 8 (tracker_default heap)"
  let ?s2 = "snd (take_next_unhandled ?s1)"
  let ?s3 = "mark_rejection_handled 8 ?s2"
  let ?s4 = "snd (take_pending_handled ?s3)"
  note defs = track_unhandled_rejection_def tracker_default_def take_next_unhandled_def mark_rejection_handled_def
    take_pending_handled_def still_unhandled_def heap_def MAX_REPORTED_REJECTIONS_def
  have "take_next_unhandled ?s1 = (Some 8, ?s2)" "take_pending_handled ?s3 = (Some 8, ?s4)" by (simp_all add: defs)
  then have "rejection_run (tracker_default heap) (((([] @ [Track 8]) @ [Report 8]) @ [Attach 8]) @ [Handled 8]) ?s4"
    by (rule rejection_run.handled [OF rejection_run.attach [OF rejection_run.report [OF rejection_run.track [OF rejection_run.start]]]])
  then have "rejection_run (tracker_default heap) [Track 8, Report 8, Attach 8, Handled 8] ?s4" by simp
  with rejection_events_sound [OF this, of 8] show ?thesis unfolding heap_def by blast
qed

text \<open>
  C34. A checkpoint with listeners that leave the tracker alone returns, after emitting
  \<open>rejectionHandled\<close> for every promise that was handled late and then \<open>unhandledRejection\<close> for
  exactly the tracked promises that still have no reaction, each in the order they came; it empties
  both queues and lifts the re-entrancy guard. A nested checkpoint does nothing.
\<close>

theorem process_rejections_checkpoint:
  "(if processing t then process_rejections (\<lambda>p t. t) (\<lambda>p t. t) (\<lambda>t. t) t = Some ([], t)
    else \<exists>t'. process_rejections (\<lambda>p t. t) (\<lambda>p t. t) (\<lambda>t. t) t
      = Some (map RejectionHandled (pending_handled t)
                @ map UnhandledRejection (filter (\<lambda>p. still_unhandled (promises t p)) (unhandled t)), t')
      \<and> unhandled t' = [] \<and> pending_handled t' = [] \<and> \<not> processing t')"
  using rejection_rounds_quiet [of "t\<lparr>processing := True\<rparr>" "[]"] by (auto simp: process_rejections_def)

end
