(* ===== verification/Utf8_Decoder.thy ===== *)
theory Utf8_Decoder
  imports Prelude "HOL-Library.Sublist"
begin

text \<open>
  The incremental UTF-8 decoder of streams (\<open>utf8_stream_decoder.rs\<close>). A string is its list of
  code points. The two standard library functions the code calls, \<open>str::from_utf8\<close> and
  \<open>String::from_utf8_lossy\<close>, are modelled by the table of well-formed byte sequences of the Unicode
  standard: \<open>utf8_next\<close> decodes one scalar value or one maximal ill-formed subpart.
\<close>

subsection \<open>UTF-8\<close>

definition is_cont :: "u8 \<Rightarrow> bool" where
  "is_cont b \<longleftrightarrow> b AND 0xC0 = 0x80"

definition cont_bits :: "u8 \<Rightarrow> nat" where
  "cont_bits b = unat b mod 64"

text \<open>The second byte of a three- or four-byte sequence is restricted after some lead bytes.\<close>

definition second_ok :: "nat \<Rightarrow> u8 \<Rightarrow> bool" where
  "second_ok lead b \<longleftrightarrow> is_cont b \<and>
     (if lead = 0xE0 then 0xA0 \<le> unat b else if lead = 0xED then unat b < 0xA0
      else if lead = 0xF0 then 0x90 \<le> unat b else if lead = 0xF4 then unat b < 0x90 else True)"

definition utf8_next :: "u8 list \<Rightarrow> nat option \<times> nat" where
  "utf8_next bytes =
     (let b0 = unat (hd bytes); at = (\<lambda>i. if i < length bytes then Some (bytes ! i) else None) in
      if b0 < 0x80 then (Some b0, 1)
      else if 0xC2 \<le> b0 \<and> b0 < 0xE0 then
        (case at 1 of
           Some b1 \<Rightarrow> if is_cont b1 then (Some ((b0 - 0xC0) * 64 + cont_bits b1), 2) else (None, 1)
         | None \<Rightarrow> (None, 1))
      else if 0xE0 \<le> b0 \<and> b0 < 0xF0 then
        (case at 1 of
           Some b1 \<Rightarrow>
             if \<not> second_ok b0 b1 then (None, 1)
             else (case at 2 of
                     Some b2 \<Rightarrow>
                       if is_cont b2 then (Some ((b0 - 0xE0) * 4096 + cont_bits b1 * 64 + cont_bits b2), 3) else (None, 2)
                   | None \<Rightarrow> (None, 2))
         | None \<Rightarrow> (None, 1))
      else if 0xF0 \<le> b0 \<and> b0 < 0xF5 then
        (case at 1 of
           Some b1 \<Rightarrow>
             if \<not> second_ok b0 b1 then (None, 1)
             else (case at 2 of
                     Some b2 \<Rightarrow>
                       if \<not> is_cont b2 then (None, 2)
                       else (case at 3 of
                               Some b3 \<Rightarrow>
                                 if is_cont b3 then
                                   (Some ((b0 - 0xF0) * 262144 + cont_bits b1 * 4096 + cont_bits b2 * 64 + cont_bits b3), 4)
                                 else (None, 3)
                             | None \<Rightarrow> (None, 3))
                   | None \<Rightarrow> (None, 2))
         | None \<Rightarrow> (None, 1))
      else (None, 1))"

lemma utf8_next_pos: "0 < snd (utf8_next bytes)"
  by (simp add: utf8_next_def Let_def split: option.split)

function utf8_items :: "u8 list \<Rightarrow> nat option list" where
  "utf8_items [] = []"
| "utf8_items (b # bytes) = fst (utf8_next (b # bytes)) # utf8_items (drop (snd (utf8_next (b # bytes))) (b # bytes))"
  by pat_completeness auto
termination
proof (relation "measure length")
  fix b bytes
  show "(drop (snd (utf8_next (b # bytes))) (b # bytes), b # bytes) \<in> measure length"
    using utf8_next_pos [of "b # bytes"] by (cases "snd (utf8_next (b # bytes))") auto
qed simp

definition REPLACEMENT :: nat where
  "REPLACEMENT = 0xFFFD"

definition from_utf8_lossy :: "u8 list \<Rightarrow> nat list" where
  "from_utf8_lossy bytes = map (\<lambda>i. case i of None \<Rightarrow> REPLACEMENT | Some c \<Rightarrow> c) (utf8_items bytes)"

definition from_utf8 :: "u8 list \<Rightarrow> nat list option" where
  "from_utf8 bytes =
     (if list_all (\<lambda>i. i \<noteq> None) (utf8_items bytes) then Some (from_utf8_lossy bytes) else None)"

subsection \<open>\<open>Utf8StreamDecoder\<close>\<close>

record utf8_decoder =
  last_need :: nat
  last_total :: nat
  last_char :: "u8 list"
  last_char_len :: nat

definition decoder_new :: utf8_decoder where
  "decoder_new = \<lparr>last_need = 0, last_total = 0, last_char = [0, 0, 0, 0], last_char_len = 0\<rparr>"

definition pending_bytes :: "utf8_decoder \<Rightarrow> u8 list" where
  "pending_bytes d = take (last_char_len d) (last_char d)"

definition has_pending :: "utf8_decoder \<Rightarrow> bool" where
  "has_pending d \<longleftrightarrow> last_need d > 0"

definition decoder_reset :: "utf8_decoder \<Rightarrow> utf8_decoder" where
  "decoder_reset d = \<lparr>last_need = 0, last_total = 0, last_char = [0, 0, 0, 0], last_char_len = 0\<rparr>"

text \<open>\<open>array[i..i + n].copy_from_slice(src)\<close>\<close>

definition copy_at :: "nat \<Rightarrow> 'a list \<Rightarrow> 'a list \<Rightarrow> 'a list" where
  "copy_at i src dst = take i dst @ src @ drop (i + length src) dst"

definition hold_back :: "nat \<Rightarrow> nat \<Rightarrow> u8 list \<Rightarrow> utf8_decoder \<Rightarrow> nat \<times> utf8_decoder" where
  "hold_back tot steps buf d =
     (if steps < tot then
        (steps, d\<lparr>last_need := tot - steps, last_total := tot, last_char_len := steps,
                  last_char := copy_at 0 (drop (length buf - steps) buf) (last_char d)\<rparr>)
      else (0, d))"

text \<open>The walk back from the end; \<open>walk\<close> counts the bytes still to be looked at.\<close>

fun check_incomplete_loop :: "nat \<Rightarrow> nat \<Rightarrow> u8 list \<Rightarrow> utf8_decoder \<Rightarrow> nat \<times> utf8_decoder" where
  "check_incomplete_loop 0 steps buf d = (0, d)"
| "check_incomplete_loop (Suc walk) steps buf d =
     (let steps = steps + 1; b = buf ! (length buf - steps)
      in if b AND 0xC0 = 0x80 then check_incomplete_loop walk steps buf d
         else if b AND 0xF8 = 0xF0 then hold_back 4 steps buf d
         else if b AND 0xF0 = 0xE0 then hold_back 3 steps buf d
         else if b AND 0xE0 = 0xC0 then hold_back 2 steps buf d
         else (0, d))"

definition utf8_check_incomplete :: "u8 list \<Rightarrow> utf8_decoder \<Rightarrow> nat \<times> utf8_decoder" where
  "utf8_check_incomplete buf d = check_incomplete_loop (if length buf \<ge> 3 then 3 else length buf) 0 buf d"

definition write_utf8_tail :: "u8 list \<Rightarrow> utf8_decoder \<Rightarrow> nat list \<times> utf8_decoder" where
  "write_utf8_tail bytes d =
     (if bytes = [] then ([], d)
      else
        let (trail, d) = utf8_check_incomplete bytes d
        in (from_utf8_lossy (take (length bytes - trail) bytes), d))"

text \<open>Slices out of range and the subtraction of a larger length panic.\<close>

definition write_utf8 :: "u8 list \<Rightarrow> utf8_decoder \<Rightarrow> js_throw + (nat list \<times> utf8_decoder)" where
  "write_utf8 bytes d =
     (if last_need d > 0 then
        (if length bytes < last_need d then
           (let new_len = last_char_len d + length bytes
            in if new_len \<le> 4 then
                 Inr ([], d\<lparr>last_char := copy_at (last_char_len d) bytes (last_char d),
                            last_char_len := new_len, last_need := last_need d - length bytes\<rparr>)
               else Inr ([], d\<lparr>last_need := 0, last_total := 0, last_char_len := 0\<rparr>))
         else if last_total d < last_char_len d \<or> 4 < last_char_len d \<or> length bytes < last_total d - last_char_len d then
           Inl (Panic ''slice index out of range'')
         else
           let take_new = last_total d - last_char_len d;
               cp = take (last_char_len d) (last_char d) @ take take_new bytes;
               out = (case from_utf8 cp of Some s \<Rightarrow> s | None \<Rightarrow> [REPLACEMENT]);
               d = d\<lparr>last_need := 0, last_total := 0, last_char_len := 0\<rparr>;
               (rest, d) = write_utf8_tail (drop take_new bytes) d
           in Inr (out @ rest, d))
      else Inr (write_utf8_tail bytes d))"

definition end_utf8 :: "u8 list option \<Rightarrow> utf8_decoder \<Rightarrow> js_throw + (nat list \<times> utf8_decoder)" where
  "end_utf8 bytes d =
     (case (case bytes of Some b \<Rightarrow> write_utf8 b d | None \<Rightarrow> Inr ([], d)) of
        Inl e \<Rightarrow> Inl e
      | Inr (out, d) \<Rightarrow>
          if last_need d > 0 then
            Inr (out @ [REPLACEMENT], d\<lparr>last_need := 0, last_total := 0, last_char_len := 0\<rparr>)
          else Inr (out, d))"

subsection \<open>Encoding\<close>

definition is_scalar :: "nat \<Rightarrow> bool" where
  "is_scalar c \<longleftrightarrow> c < 0xD800 \<or> (0xE000 \<le> c \<and> c < 0x110000)"

definition utf8_encode :: "nat \<Rightarrow> u8 list" where
  "utf8_encode c =
     (if c < 0x80 then [of_nat c]
      else if c < 0x800 then [of_nat (0xC0 + c div 64), of_nat (0x80 + c mod 64)]
      else if c < 0x10000 then
        [of_nat (0xE0 + c div 4096), of_nat (0x80 + c div 64 mod 64), of_nat (0x80 + c mod 64)]
      else
        [of_nat (0xF0 + c div 262144), of_nat (0x80 + c div 4096 mod 64), of_nat (0x80 + c div 64 mod 64),
         of_nat (0x80 + c mod 64)])"

definition utf8_text :: "nat list \<Rightarrow> u8 list" where
  "utf8_text cps = concat (map utf8_encode cps)"

lemma utf8_text_simps [simp]:
  "utf8_text [] = []" "utf8_text (c # cps) = utf8_encode c @ utf8_text cps" "utf8_text (xs @ ys) = utf8_text xs @ utf8_text ys"
  by (simp_all add: utf8_text_def)

lemma u8_and_not_mask: "unat (b AND NOT (mask k) :: u8) = unat b div 2 ^ k * 2 ^ k"
proof -
  have "b AND NOT (mask k) = push_bit k (drop_bit k b)"
    by (rule bit_word_eqI) (auto simp: bit_and_iff bit_not_iff bit_mask_iff bit_push_bit_iff bit_drop_bit_eq)
  moreover have "unat b div 2 ^ k * 2 ^ k < 2 ^ 8"
    using le_less_trans [OF _ unsigned_less [of b], of "unat b div 2 ^ k * 2 ^ k"] by simp
  ultimately show ?thesis
    by (simp only: unsigned_push_bit_eq)
      (simp add: unat_drop_bit_div take_bit_nat_eq_self push_bit_eq_mult)
qed

lemma div_mult_eq_iff: "0 < m \<Longrightarrow> (u :: nat) div m * m = q * m \<longleftrightarrow> q * m \<le> u \<and> u < (q + 1) * m"
proof -
  assume m: "0 < m"
  have "u div m = q \<longleftrightarrow> q * m \<le> u \<and> u < (q + 1) * m"
  proof
    assume "u div m = q"
    then show "q * m \<le> u \<and> u < (q + 1) * m" using m by (auto simp: dividend_less_div_times)
  qed (simp add: div_nat_eqI mult.commute)
  then show ?thesis using m by simp
qed

lemma byte_classes:
  "is_cont b \<longleftrightarrow> 0x80 \<le> unat b \<and> unat b < 0xC0"
  "b AND 0xF8 = 0xF0 \<longleftrightarrow> 0xF0 \<le> unat b \<and> unat b < 0xF8"
  "b AND 0xF0 = 0xE0 \<longleftrightarrow> 0xE0 \<le> unat b \<and> unat b < 0xF0"
  "b AND 0xE0 = 0xC0 \<longleftrightarrow> 0xC0 \<le> unat b \<and> unat b < 0xE0"
proof -
  have m: "(0xC0 :: u8) = NOT (mask 6)" "(0xF8 :: u8) = NOT (mask 3)" "(0xF0 :: u8) = NOT (mask 4)" "(0xE0 :: u8) = NOT (mask 5)"
    by (simp_all add: mask_eq_exp_minus_1)
  show "is_cont b \<longleftrightarrow> 0x80 \<le> unat b \<and> unat b < 0xC0"
    unfolding is_cont_def m(1) word_unat_eq_iff u8_and_not_mask using div_mult_eq_iff [of 64 "unat b" 2] by simp
  show "b AND 0xF8 = 0xF0 \<longleftrightarrow> 0xF0 \<le> unat b \<and> unat b < 0xF8"
    unfolding m(2) word_unat_eq_iff u8_and_not_mask using div_mult_eq_iff [of 8 "unat b" 30] by simp
  show "b AND 0xF0 = 0xE0 \<longleftrightarrow> 0xE0 \<le> unat b \<and> unat b < 0xF0"
    unfolding m(3) word_unat_eq_iff u8_and_not_mask using div_mult_eq_iff [of 16 "unat b" 14] by simp
  show "b AND 0xE0 = 0xC0 \<longleftrightarrow> 0xC0 \<le> unat b \<and> unat b < 0xE0"
    unfolding m(4) word_unat_eq_iff u8_and_not_mask using div_mult_eq_iff [of 32 "unat b" 6] by simp
qed

lemma unat_u8_of_nat: "n < 256 \<Longrightarrow> unat (of_nat n :: u8) = n"
  by (simp add: unat_of_nat)

text \<open>The length of a sequence, read off its lead byte.\<close>

definition lead_len :: "u8 \<Rightarrow> nat" where
  "lead_len b = (if unat b < 0x80 then 1 else if unat b < 0xE0 then 2 else if unat b < 0xF0 then 3 else 4)"

lemma utf8_encode_shape:
  assumes "is_scalar c"
  obtains l cs where "utf8_encode c = l # cs" "list_all is_cont cs" "\<not> is_cont l" "length (l # cs) = lead_len l" "unat l < 0xF8"
    "unat l < 0x80 \<or> 0xC0 \<le> unat l"
proof -
  have c: "c < 0x110000" using assms by (auto simp: is_scalar_def)
  have d: "c div 262144 < 5" "c < 0x10000 \<Longrightarrow> c div 4096 < 16" "c < 0x800 \<Longrightarrow> c div 64 < 32" using c by auto
  have m: "c mod 64 < 64" "c div 64 mod 64 < 64" "c div 4096 mod 64 < 64" by simp_all
  have cont: "is_cont (of_nat (0x80 + k))" if "k < 64" for k
    using that by (simp only: byte_classes unat_u8_of_nat) simp
  consider "c < 0x80" | "0x80 \<le> c" "c < 0x800" | "0x800 \<le> c" "c < 0x10000" | "0x10000 \<le> c" by linarith
  then show ?thesis
  proof cases
    case 1
    then show ?thesis
      using that [of "of_nat c" "[]"] by (simp add: utf8_encode_def byte_classes unat_u8_of_nat lead_len_def)
  next
    case 2
    have u: "unat (of_nat (0xC0 + c div 64) :: u8) = 0xC0 + c div 64" using d(3) [OF 2(2)] by (intro unat_u8_of_nat) simp
    show ?thesis
      by (rule that [of "of_nat (0xC0 + c div 64)" "[of_nat (0x80 + c mod 64)]"])
        (use 2 d(3) [OF 2(2)] cont [OF m(1)] in \<open>simp_all only: utf8_encode_def byte_classes lead_len_def u, simp_all\<close>)
  next
    case 3
    have u: "unat (of_nat (0xE0 + c div 4096) :: u8) = 0xE0 + c div 4096" using d(2) [OF 3(2)] by (intro unat_u8_of_nat) simp
    show ?thesis
      by (rule that [of "of_nat (0xE0 + c div 4096)" "[of_nat (0x80 + c div 64 mod 64), of_nat (0x80 + c mod 64)]"])
        (use 3 d(2) [OF 3(2)] cont [OF m(1)] cont [OF m(2)] in \<open>simp_all only: utf8_encode_def byte_classes lead_len_def u, simp_all\<close>)
  next
    case 4
    have u: "unat (of_nat (0xF0 + c div 262144) :: u8) = 0xF0 + c div 262144" using d(1) by (intro unat_u8_of_nat) simp
    show ?thesis
      by (rule that [of "of_nat (0xF0 + c div 262144)"
            "[of_nat (0x80 + c div 4096 mod 64), of_nat (0x80 + c div 64 mod 64), of_nat (0x80 + c mod 64)]"])
        (use 4 d(1) cont [OF m(1)] cont [OF m(2)] cont [OF m(3)] in \<open>simp_all only: utf8_encode_def byte_classes lead_len_def u, simp_all\<close>)
  qed
qed

lemma cont_of_nat:
  assumes "k < 64"
  shows "is_cont (of_nat (0x80 + k))" "cont_bits (of_nat (0x80 + k)) = k" "unat (of_nat (0x80 + k) :: u8) = 0x80 + k"
proof -
  show u: "unat (of_nat (0x80 + k) :: u8) = 0x80 + k" using assms by (intro unat_u8_of_nat) simp
  show "is_cont (of_nat (0x80 + k))" using assms by (simp only: byte_classes u) simp
  show "cont_bits (of_nat (0x80 + k)) = k" using assms mod_add_self2 [of "64 + k" 64] by (simp only: cont_bits_def u) (simp add: mod_if)
qed

lemma utf8_next_encode:
  assumes "is_scalar c"
  shows "utf8_next (utf8_encode c @ rest) = (Some c, length (utf8_encode c))"
proof -
  have c: "c < 0x110000" and sur: "\<not> (0xD800 \<le> c \<and> c < 0xE000)" using assms by (auto simp: is_scalar_def)
  have m: "c mod 64 < 64" "c div 64 mod 64 < 64" "c div 4096 mod 64 < 64" by simp_all
  note k = cont_of_nat [OF m(1)] cont_of_nat [OF m(2)] cont_of_nat [OF m(3)]
  have s1: "c div 64 * 64 + c mod 64 = c" by simp
  have s2: "c div 4096 * 64 + c div 64 mod 64 = c div 64"
    using div_mult_mod_eq [of "c div 64" 64] by (simp add: div_mult2_eq [symmetric])
  have s3: "c div 262144 * 64 + c div 4096 mod 64 = c div 4096"
    using div_mult_mod_eq [of "c div 4096" 64] by (simp add: div_mult2_eq [symmetric])
  consider "c < 0x80" | "0x80 \<le> c" "c < 0x800" | "0x800 \<le> c" "c < 0x10000" | "0x10000 \<le> c" by linarith
  then show ?thesis
  proof cases
    case 1
    then show ?thesis by (simp add: utf8_encode_def utf8_next_def unat_u8_of_nat)
  next
    case 2
    have d: "2 \<le> c div 64" "c div 64 < 32" using 2 by auto
    then have u: "unat (of_nat (0xC0 + c div 64) :: u8) = 0xC0 + c div 64" by (intro unat_u8_of_nat) simp
    have e: "utf8_encode c = [of_nat (0xC0 + c div 64), of_nat (0x80 + c mod 64)]" using 2 by (simp only: utf8_encode_def) simp
    show ?thesis unfolding e utf8_next_def
      using d s1 by (simp add: u k del: of_nat_add)
  next
    case 3
    have d: "c div 4096 < 16" "c div 4096 = 0 \<Longrightarrow> 32 \<le> c div 64 mod 64" "c div 4096 = 13 \<Longrightarrow> c div 64 mod 64 < 32"
    proof -
      show "c div 4096 < 16" using 3 by auto
      show "32 \<le> c div 64 mod 64" if "c div 4096 = 0" using that 3 s2 by auto
      show "c div 64 mod 64 < 32" if z: "c div 4096 = 13" using z sur s2 by (simp, linarith)
    qed
    have u: "unat (of_nat (0xE0 + c div 4096) :: u8) = 0xE0 + c div 4096" using d(1) by (intro unat_u8_of_nat) simp
    have e: "utf8_encode c = [of_nat (0xE0 + c div 4096), of_nat (0x80 + c div 64 mod 64), of_nat (0x80 + c mod 64)]"
      using 3 by (simp only: utf8_encode_def) simp
    have ok: "second_ok (0xE0 + c div 4096) (of_nat (0x80 + c div 64 mod 64))"
      unfolding second_ok_def k using d k by (auto simp del: of_nat_add)
    have v: "c div 4096 * 4096 + c div 64 mod 64 * 64 + c mod 64 = c" using s1 s2 by linarith
    show ?thesis unfolding e utf8_next_def
      using d(1) ok v by (simp add: u k del: of_nat_add)
  next
    case 4
    have d: "c div 262144 < 5" "c div 262144 = 0 \<Longrightarrow> 16 \<le> c div 4096 mod 64" "c div 262144 = 4 \<Longrightarrow> c div 4096 mod 64 < 16"
    proof -
      show "c div 262144 < 5" using c by auto
      show "16 \<le> c div 4096 mod 64" if "c div 262144 = 0" using that 4 s3 by auto
      show "c div 4096 mod 64 < 16" if z: "c div 262144 = 4"
      proof -
        have "c div 4096 < 272" using c by auto
        then show ?thesis using s3 unfolding z by linarith
      qed
    qed
    have u: "unat (of_nat (0xF0 + c div 262144) :: u8) = 0xF0 + c div 262144" using d(1) by (intro unat_u8_of_nat) simp
    have e: "utf8_encode c = [of_nat (0xF0 + c div 262144), of_nat (0x80 + c div 4096 mod 64), of_nat (0x80 + c div 64 mod 64),
         of_nat (0x80 + c mod 64)]"
      using 4 by (simp only: utf8_encode_def) simp
    have ok: "second_ok (0xF0 + c div 262144) (of_nat (0x80 + c div 4096 mod 64))"
      unfolding second_ok_def k using d k by (auto simp del: of_nat_add)
    have v: "c div 262144 * 262144 + c div 4096 mod 64 * 4096 + c div 64 mod 64 * 64 + c mod 64 = c" using s1 s2 s3 by linarith
    show ?thesis unfolding e utf8_next_def
      using d(1) ok v by (simp add: u k del: of_nat_add)
  qed
qed

lemma utf8_encode_nonempty: "utf8_encode c \<noteq> []"
  by (simp add: utf8_encode_def)

lemma utf8_items_encode:
  assumes "is_scalar c"
  shows "utf8_items (utf8_encode c @ rest) = Some c # utf8_items rest"
proof -
  obtain b bs where b: "utf8_encode c @ rest = b # bs" by (cases "utf8_encode c") (simp_all add: utf8_encode_nonempty)
  have n: "utf8_next (b # bs) = (Some c, length (utf8_encode c))" using utf8_next_encode [OF assms, of rest] b by simp
  have "utf8_items (b # bs) = Some c # utf8_items (drop (length (utf8_encode c)) (b # bs))" using n by (simp del: drop_Cons)
  then show ?thesis by (simp flip: b)
qed

lemma utf8_items_text: "list_all is_scalar cps \<Longrightarrow> utf8_items (utf8_text cps) = map Some cps"
  by (induction cps) (simp_all add: utf8_items_encode)

lemma from_utf8_text:
  assumes "list_all is_scalar cps"
  shows "from_utf8_lossy (utf8_text cps) = cps" "from_utf8 (utf8_text cps) = Some cps"
proof -
  show "from_utf8_lossy (utf8_text cps) = cps"
    using utf8_items_text [OF assms] by (simp add: from_utf8_lossy_def comp_def)
  then show "from_utf8 (utf8_text cps) = Some cps"
    using utf8_items_text [OF assms] by (simp add: from_utf8_def list_all_iff)
qed

subsection \<open>Holding back an incomplete sequence\<close>

lemma lead_len_le: "0 < lead_len l" "lead_len l \<le> 4"
  by (simp_all add: lead_len_def)

lemma check_incomplete_loop_lead:
  assumes "list_all is_cont cs" "\<not> is_cont l" "unat l < 0x80 \<or> 0xC0 \<le> unat l" "unat l < 0xF8" "k \<le> length cs"
  shows "check_incomplete_loop walk k (xs @ l # cs) d =
     (if walk \<le> length cs - k then (0, d) else hold_back (lead_len l) (Suc (length cs)) (xs @ l # cs) d)"
  using assms(5)
proof (induction walk arbitrary: k)
  case (Suc walk)
  show ?case
  proof (cases "k < length cs")
    case True
    have "(xs @ l # cs) ! (length (xs @ l # cs) - (k + 1)) = cs ! (length cs - (k + 1))"
    proof -
      have "length (xs @ l # cs) - (k + 1) = length (xs @ [l]) + (length cs - (k + 1))" using True by simp
      then show ?thesis using nth_append_length_plus [of "xs @ [l]" cs "length cs - (k + 1)"] by simp
    qed
    moreover have "is_cont (cs ! (length cs - (k + 1)))" using assms(1) True by (simp add: list_all_length)
    ultimately have "check_incomplete_loop (Suc walk) k (xs @ l # cs) d = check_incomplete_loop walk (k + 1) (xs @ l # cs) d"
      by (simp only: check_incomplete_loop.simps Let_def is_cont_def simp_thms if_True)
    then show ?thesis using Suc.IH [of "k + 1"] True by auto
  next
    case False
    then have k: "k = length cs" using Suc.prems by simp
    then have n: "(xs @ l # cs) ! (length (xs @ l # cs) - (k + 1)) = l" by (simp add: nth_append)
    have "lead_len l = 1 \<Longrightarrow> hold_back (lead_len l) (Suc k) (xs @ l # cs) d = (0, d)" by (simp add: hold_back_def)
    then show ?thesis
      using assms(2,3,4) k n
      by (simp only: check_incomplete_loop.simps Let_def byte_classes flip: is_cont_def) (auto simp: lead_len_def)
  qed
qed simp

lemma utf8_check_incomplete_lead:
  assumes "list_all is_cont cs" "\<not> is_cont l" "unat l < 0x80 \<or> 0xC0 \<le> unat l" "unat l < 0xF8"
  shows "utf8_check_incomplete (xs @ l # cs) d = hold_back (lead_len l) (Suc (length cs)) (xs @ l # cs) d"
proof -
  have "hold_back (lead_len l) (Suc (length cs)) (xs @ l # cs) d = (0, d)" if "3 \<le> length cs"
    using that lead_len_le(2) [of l] by (simp add: hold_back_def)
  then show ?thesis
    by (simp add: utf8_check_incomplete_def check_incomplete_loop_lead [OF assms le0])
qed

text \<open>A proper prefix of the encoding of one scalar value, and a decoder that holds it.\<close>

definition utf8_partial :: "u8 list \<Rightarrow> bool" where
  "utf8_partial p \<longleftrightarrow> (\<exists>c. is_scalar c \<and> strict_prefix p (utf8_encode c))"

definition decoder_holds :: "utf8_decoder \<Rightarrow> u8 list \<Rightarrow> bool" where
  "decoder_holds d p \<longleftrightarrow> length (last_char d) = 4 \<and> last_char_len d = length p \<and> take (length p) (last_char d) = p \<and>
     last_total d = (if p = [] then 0 else lead_len (hd p)) \<and>
     last_need d = (if p = [] then 0 else lead_len (hd p) - length p)"

lemma utf8_partial_Nil [simp]: "utf8_partial []"
  unfolding utf8_partial_def by (intro exI [of _ 0]) (simp add: is_scalar_def utf8_encode_def)

lemma utf8_partial_cases:
  assumes "utf8_partial p"
  obtains "p = []"
  | l cs where "p = l # cs" "list_all is_cont cs" "\<not> is_cont l" "length (l # cs) < lead_len l" "unat l < 0xF8"
    "unat l < 0x80 \<or> 0xC0 \<le> unat l"
proof -
  obtain c where c: "is_scalar c" "strict_prefix p (utf8_encode c)" using assms by (auto simp: utf8_partial_def)
  obtain l cs where e: "utf8_encode c = l # cs" "list_all is_cont cs" "\<not> is_cont l" "length (l # cs) = lead_len l"
    "unat l < 0xF8" "unat l < 0x80 \<or> 0xC0 \<le> unat l" using utf8_encode_shape [OF c(1)] .
  show thesis
  proof (cases p)
    case (Cons l' cs')
    have "strict_prefix (l' # cs') (l # cs)" using c(2) e(1) Cons by simp
    then have "l' = l" and s: "strict_prefix cs' cs" by simp_all
    moreover have "list_all is_cont cs'" using s e(2) by (auto simp: strict_prefix_def prefix_def)
    moreover have "length cs' < length cs" using s by (rule prefix_length_less)
    ultimately show thesis using that(2) [of l cs'] Cons e by simp
  qed (use that(1) in simp)
qed

lemma utf8_partial_less_4: "utf8_partial p \<Longrightarrow> length p < 4"
  by (erule utf8_partial_cases) (use lead_len_le(2) in \<open>simp, fastforce dest: less_le_trans\<close>)

lemma decoder_reset_holds: "length (last_char d) = 4 \<Longrightarrow> decoder_holds (d\<lparr>last_need := 0, last_total := 0, last_char_len := 0\<rparr>) []"
  by (simp add: decoder_holds_def)

lemma hold_back_partial:
  assumes "decoder_holds d []" "p = l # cs" "length p < lead_len l"
  shows "\<exists>d'. hold_back (lead_len l) (length p) (xs @ p) d = (length p, d') \<and> decoder_holds d' p"
proof -
  have "length p < 4" using assms(3) lead_len_le(2) [of l] by simp
  then show ?thesis using assms unfolding hold_back_def decoder_holds_def by (simp add: copy_at_def)
qed

text \<open>Decoding a chunk with nothing held: complete text is emitted, an incomplete end is held.\<close>

lemma utf8_check_incomplete_text:
  assumes "list_all is_scalar cps" "utf8_text cps \<noteq> []"
  shows "utf8_check_incomplete (utf8_text cps) d = (0, d)"
proof -
  obtain cps' c where s: "cps = cps' @ [c]" using assms(2) by (cases cps rule: rev_cases) auto
  then have c: "is_scalar c" using assms(1) by simp
  obtain l cs where e: "utf8_encode c = l # cs" "list_all is_cont cs" "\<not> is_cont l" "length (l # cs) = lead_len l"
    "unat l < 0xF8" "unat l < 0x80 \<or> 0xC0 \<le> unat l" using utf8_encode_shape [OF c] .
  have "utf8_text cps = utf8_text cps' @ l # cs" using s e(1) by simp
  then show ?thesis
    using utf8_check_incomplete_lead [OF e(2,3,6,5)] e(4) by (simp add: hold_back_def)
qed

lemma write_utf8_tail_step:
  assumes "decoder_holds d []" "list_all is_scalar cps" "utf8_partial p"
  shows "\<exists>d'. write_utf8_tail (utf8_text cps @ p) d = (cps, d') \<and> decoder_holds d' p"
  using assms(3)
proof (cases rule: utf8_partial_cases)
  case 1
  have "write_utf8_tail (utf8_text cps) d = (cps, d)"
  proof (cases "utf8_text cps = []")
    case True
    then have "cps = []" by (cases cps) (simp_all add: utf8_encode_nonempty)
    then show ?thesis by (simp add: write_utf8_tail_def)
  qed (simp add: write_utf8_tail_def utf8_check_incomplete_text assms(2) from_utf8_text(1))
  then show ?thesis using 1 assms(1) by simp
next
  case (2 l cs)
  have "utf8_check_incomplete (utf8_text cps @ p) d = hold_back (lead_len l) (length p) (utf8_text cps @ p) d"
    using utf8_check_incomplete_lead [OF 2(2,3,6,5)] 2(1) by simp
  moreover have "length p < lead_len l" using 2(1,4) by simp
  ultimately obtain d' where "utf8_check_incomplete (utf8_text cps @ p) d = (length p, d')" "decoder_holds d' p"
    using hold_back_partial [OF assms(1) 2(1), of "utf8_text cps"] by auto
  then show ?thesis using 2(1) by (simp add: write_utf8_tail_def from_utf8_text(1) assms(2))
qed

lemma decoder_holds_pending: "decoder_holds d p \<Longrightarrow> pending_bytes d = p"
  by (simp add: decoder_holds_def pending_bytes_def)

lemma lead_len_encode: "is_scalar c \<Longrightarrow> length (utf8_encode c) = lead_len (hd (utf8_encode c))"
  by (erule utf8_encode_shape [of c]) simp

lemma write_utf8_append_pending:
  assumes "decoder_holds d p" "p = l # cs" "length (p @ chunk) < lead_len l"
  shows "\<exists>d'. write_utf8 chunk d = Inr ([], d') \<and> decoder_holds d' (p @ chunk)"
proof -
  have le: "length (p @ chunk) < 4" using assms(3) lead_len_le(2) [of l] by linarith
  have n: "last_need d = lead_len l - length p" "last_total d = lead_len l" "last_char_len d = length p"
    "length (last_char d) = 4" "take (length p) (last_char d) = p"
    using assms(1,2) by (simp_all add: decoder_holds_def)
  have c: "take (length (p @ chunk)) (copy_at (length p) chunk (last_char d)) = p @ chunk"
    "length (copy_at (length p) chunk (last_char d)) = 4" using le n(4,5) by (simp_all add: copy_at_def)
  have need: "0 < last_need d" "length chunk < last_need d" using n(1) assms(3) by simp_all
  let ?d = "d\<lparr>last_char := copy_at (length p) chunk (last_char d), last_char_len := length p + length chunk,
      last_need := last_need d - length chunk\<rparr>"
  have "write_utf8 chunk d = Inr ([], ?d)" unfolding write_utf8_def Let_def using need n(3) le by simp
  moreover have "decoder_holds ?d (p @ chunk)"
    using c n(1,2) assms(2) unfolding decoder_holds_def by simp
  ultimately show ?thesis by blast
qed

lemma write_utf8_completes:
  assumes "decoder_holds d p" "p = l # cs" "length p < lead_len l" "lead_len l \<le> length (p @ chunk)"
  shows "\<exists>d0. decoder_holds d0 [] \<and>
     write_utf8 chunk d =
       (let take_new = lead_len l - length p; (out, d') = write_utf8_tail (drop take_new chunk) d0
        in Inr ((case from_utf8 (p @ take take_new chunk) of Some s \<Rightarrow> s | None \<Rightarrow> [REPLACEMENT]) @ out, d'))"
proof -
  let ?d = "d\<lparr>last_need := 0, last_total := 0, last_char_len := 0\<rparr>"
  have le: "lead_len l \<le> 4" by (rule lead_len_le)
  have n: "last_need d = lead_len l - length p" "last_total d = lead_len l" "last_char_len d = length p"
    "length (last_char d) = 4" "take (length p) (last_char d) = p"
    using assms(1,2) by (simp_all add: decoder_holds_def)
  have "0 < last_need d" "\<not> length chunk < last_need d"
    "\<not> (last_total d < last_char_len d \<or> 4 < last_char_len d \<or> length chunk < last_total d - last_char_len d)"
    using n(1-3) assms(3,4) le by auto
  then have "write_utf8 chunk d =
       (let take_new = lead_len l - length p; (out, d') = write_utf8_tail (drop take_new chunk) ?d
        in Inr ((case from_utf8 (p @ take take_new chunk) of Some s \<Rightarrow> s | None \<Rightarrow> [REPLACEMENT]) @ out, d'))"
    unfolding write_utf8_def Let_def by (simp add: n(2,3,5) split: prod.split)
  moreover have "decoder_holds ?d []" using n(4) by (rule decoder_reset_holds)
  ultimately show ?thesis by blast
qed

lemma write_utf8_step:
  assumes "decoder_holds d p" "utf8_partial p" "p @ chunk = utf8_text cps @ q" "list_all is_scalar cps" "utf8_partial q"
  shows "\<exists>d'. write_utf8 chunk d = Inr (cps, d') \<and> decoder_holds d' q"
  using assms(2)
proof (cases rule: utf8_partial_cases)
  case 1
  then have "chunk = utf8_text cps @ q" "last_need d = 0" using assms(1,3) by (simp_all add: decoder_holds_def)
  then show ?thesis using write_utf8_tail_step [OF assms(1) [unfolded 1] assms(4,5)] by (simp add: write_utf8_def)
next
  case (2 l cs)
  have p: "length p < lead_len l" using 2 by simp
  show ?thesis
  proof (cases cps)
    case Nil
    then have q: "q = p @ chunk" using assms(3) by simp
    have "length (p @ chunk) < lead_len l"
      using assms(5) by (cases rule: utf8_partial_cases) (use q 2(1) in simp_all)
    then show ?thesis using write_utf8_append_pending [OF assms(1) 2(1)] Nil q by simp
  next
    case (Cons c cps')
    have c: "is_scalar c" and cps': "list_all is_scalar cps'" using assms(4) Cons by simp_all
    have eq: "p @ chunk = utf8_encode c @ utf8_text cps' @ q" using assms(3) Cons by simp
    then have "hd (utf8_encode c) = l" using 2(1) utf8_encode_nonempty [of c] by (cases "utf8_encode c") simp_all
    then have len: "length (utf8_encode c) = lead_len l" using lead_len_encode [OF c] by simp
    define k where "k = lead_len l - length p"
    have "take (lead_len l) (p @ chunk) = utf8_encode c" "drop (lead_len l) (p @ chunk) = utf8_text cps' @ q"
      unfolding eq len [symmetric] by simp_all
    then have s: "p @ take k chunk = utf8_encode c" "drop k chunk = utf8_text cps' @ q"
      using p unfolding k_def by simp_all
    have "lead_len l \<le> length (p @ chunk)" unfolding eq using len by simp
    from write_utf8_completes [OF assms(1) 2(1) p this] obtain d0 where d0: "decoder_holds d0 []"
      "write_utf8 chunk d = (let (out, d') = write_utf8_tail (drop k chunk) d0
        in Inr ((case from_utf8 (p @ take k chunk) of Some s \<Rightarrow> s | None \<Rightarrow> [REPLACEMENT]) @ out, d'))"
      unfolding k_def Let_def by blast
    have "from_utf8 (utf8_encode c) = Some [c]" using from_utf8_text(2) [of "[c]"] c by simp
    then show ?thesis using d0(2) write_utf8_tail_step [OF d0(1) cps' assms(5)] Cons by (auto simp: s)
  qed
qed

lemma utf8_text_prefix:
  assumes "prefix r (utf8_text cps @ q)" "list_all is_scalar cps" "utf8_partial q"
  shows "\<exists>cs1 cs2 p. cps = cs1 @ cs2 \<and> r = utf8_text cs1 @ p \<and> utf8_partial p"
  using assms(1,2)
proof (induction cps arbitrary: r)
  case Nil
  obtain c where "is_scalar c" "strict_prefix q (utf8_encode c)" using assms(3) by (auto simp: utf8_partial_def)
  then have "utf8_partial r" using Nil(1) prefix_order.le_less_trans [of r q] by (auto simp: utf8_partial_def)
  then show ?case by simp
next
  case (Cons c cps)
  have "prefix r (utf8_encode c) \<or> (\<exists>r'. r = utf8_encode c @ r' \<and> prefix r' (utf8_text cps @ q))"
    using Cons.prems(1) prefix_append [of r "utf8_encode c" "utf8_text cps @ q"] by simp
  then consider "r = utf8_encode c" | "strict_prefix r (utf8_encode c)"
    | r' where "r = utf8_encode c @ r'" "prefix r' (utf8_text cps @ q)"
    unfolding strict_prefix_def by blast
  then show ?case
  proof cases
    case 1
    then show ?thesis by (intro exI [of _ "[c]"] exI [of _ cps] exI [of _ "[]"]) simp
  next
    case 2
    then have "utf8_partial r" using Cons.prems(2) by (auto simp: utf8_partial_def)
    then show ?thesis by (intro exI [of _ "[]"] exI [of _ "c # cps"] exI [of _ r]) simp
  next
    case 3
    then obtain cs1 cs2 p where "cps = cs1 @ cs2" "r' = utf8_text cs1 @ p" "utf8_partial p"
      using Cons.IH [of r'] Cons.prems(2) by auto
    then show ?thesis using 3 by (intro exI [of _ "c # cs1"] exI [of _ cs2] exI [of _ p]) simp
  qed
qed

text \<open>A whole stream: every chunk written, then the decoder ended.\<close>

fun decode_chunks :: "u8 list list \<Rightarrow> utf8_decoder \<Rightarrow> js_throw + (nat list \<times> utf8_decoder)" where
  "decode_chunks [] d = end_utf8 None d"
| "decode_chunks (chunk # chunks) d =
     (case write_utf8 chunk d of
        Inl e \<Rightarrow> Inl e
      | Inr (out, d) \<Rightarrow> (case decode_chunks chunks d of Inl e \<Rightarrow> Inl e | Inr (outs, d) \<Rightarrow> Inr (out @ outs, d)))"

lemma decode_chunks_text:
  assumes "decoder_holds d p" "utf8_partial p" "p @ concat chunks = utf8_text cps @ q" "list_all is_scalar cps" "utf8_partial q"
  shows "\<exists>d'. decode_chunks chunks d = Inr (cps @ (if q = [] then [] else [REPLACEMENT]), d') \<and> decoder_holds d' []"
  using assms(1-4)
proof (induction chunks arbitrary: d p cps)
  case Nil
  have cps: "cps = []" and q: "q = p"
  proof -
    show "cps = []"
    proof (rule ccontr)
      assume "cps \<noteq> []"
      then obtain c cps' where c: "cps = c # cps'" by (cases cps) auto
      then have "is_scalar c" "p = utf8_encode c @ utf8_text cps' @ q" using Nil.prems(3,4) by simp_all
      then show False using Nil.prems(2) lead_len_encode [of c] utf8_encode_nonempty [of c]
        by (elim utf8_partial_cases) (cases "utf8_encode c"; auto)+
    qed
    then show "q = p" using Nil.prems(3) by simp
  qed
  show ?case
  proof (cases p)
    case Nil
    then show ?thesis using Nil.prems(1) cps q by (simp add: end_utf8_def decoder_holds_def)
  next
    case (Cons l cs)
    have "0 < last_need d" using Nil.prems(1,2) Cons by (auto simp: decoder_holds_def elim!: utf8_partial_cases)
    moreover have "length (last_char d) = 4" using Nil.prems(1) by (simp add: decoder_holds_def)
    ultimately show ?thesis using decoder_reset_holds [of d] cps q Cons by (simp add: end_utf8_def)
  qed
next
  case (Cons chunk chunks)
  have pre: "prefix (p @ chunk) (utf8_text cps @ q)" unfolding Cons.prems(3) [symmetric] by simp
  obtain cs1 cs2 p' where s: "cps = cs1 @ cs2" "p @ chunk = utf8_text cs1 @ p'" "utf8_partial p'"
    using utf8_text_prefix [OF pre Cons.prems(4) assms(5)] by blast
  then have sc: "list_all is_scalar cs1" "list_all is_scalar cs2" using Cons.prems(4) by simp_all
  obtain d' where w: "write_utf8 chunk d = Inr (cs1, d')" "decoder_holds d' p'"
    using write_utf8_step [OF Cons.prems(1,2) s(2) sc(1) s(3)] by blast
  have "(p @ chunk) @ concat chunks = utf8_text cs1 @ utf8_text cs2 @ q" using Cons.prems(3) s(1) by simp
  then have "p' @ concat chunks = utf8_text cs2 @ q" unfolding s(2) by simp
  from Cons.IH [OF w(2) s(3) this sc(2)] show ?case using w(1) s(1) by auto
qed

subsection \<open>Arbitrary bytes\<close>

definition decoder_wf :: "utf8_decoder \<Rightarrow> bool" where
  "decoder_wf d \<longleftrightarrow> decoder_holds d (pending_bytes d) \<and>
     (pending_bytes d \<noteq> [] \<longrightarrow> length (pending_bytes d) < lead_len (hd (pending_bytes d)))"

lemma decoder_wf_Nil: "decoder_holds d [] \<Longrightarrow> decoder_wf d"
  by (simp add: decoder_wf_def decoder_holds_pending)

lemma decoder_wf_Cons: "decoder_holds d (l # cs) \<Longrightarrow> length (l # cs) < lead_len l \<Longrightarrow> decoder_wf d"
  by (simp add: decoder_wf_def decoder_holds_pending)

lemma check_incomplete_loop_cases:
  assumes "k + walk \<le> length buf"
  shows "check_incomplete_loop walk k buf d = (0, d) \<or>
    (\<exists>steps. 0 < steps \<and> steps \<le> length buf \<and>
       check_incomplete_loop walk k buf d = hold_back (lead_len (buf ! (length buf - steps))) steps buf d)"
  using assms
proof (induction walk arbitrary: k)
  case (Suc walk)
  let ?b = "buf ! (length buf - (k + 1))"
  consider "is_cont ?b" | tot where "\<not> is_cont ?b"
    "check_incomplete_loop (Suc walk) k buf d = hold_back tot (k + 1) buf d" "tot = lead_len ?b"
    | "check_incomplete_loop (Suc walk) k buf d = (0, d)"
    by (fastforce simp only: check_incomplete_loop.simps Let_def byte_classes lead_len_def is_cont_def [symmetric] split: if_splits)
  then show ?case
  proof cases
    case 1
    then have "check_incomplete_loop (Suc walk) k buf d = check_incomplete_loop walk (k + 1) buf d"
      by (simp add: is_cont_def Let_def)
    then show ?thesis using Suc by simp
  next
    case (2 tot)
    then show ?thesis using Suc.prems by (intro disjI2 exI [of _ "k + 1"]) simp
  qed simp
qed simp

lemma utf8_check_incomplete_wf:
  assumes "decoder_holds d []"
  shows "\<exists>n d'. utf8_check_incomplete buf d = (n, d') \<and> n \<le> length buf \<and> decoder_holds d' (drop (length buf - n) buf) \<and> decoder_wf d'"
proof -
  have "0 + (if length buf \<ge> 3 then 3 else length buf) \<le> length buf" by simp
  from check_incomplete_loop_cases [OF this, of d]
  consider "utf8_check_incomplete buf d = (0, d)"
    | steps where "0 < steps" "steps \<le> length buf"
      "utf8_check_incomplete buf d = hold_back (lead_len (buf ! (length buf - steps))) steps buf d"
    unfolding utf8_check_incomplete_def by blast
  then show ?thesis
  proof cases
    case 1
    then show ?thesis using assms decoder_wf_Nil by simp
  next
    case (2 steps)
    let ?p = "drop (length buf - steps) buf" and ?l = "buf ! (length buf - steps)"
    have p: "?p = ?l # drop (Suc (length buf - steps)) buf" using 2(1,2) by (intro Cons_nth_drop_Suc [symmetric]) simp
    have len: "length ?p = steps" using 2(2) by simp
    show ?thesis
    proof (cases "steps < lead_len ?l")
      case True
      then obtain d' where "utf8_check_incomplete buf d = (steps, d')" "decoder_holds d' ?p"
        using hold_back_partial [OF assms p, of "take (length buf - steps) buf"] 2(3) len by auto
      then show ?thesis using 2(2) True len decoder_wf_Cons [of d' ?l] p by auto
    next
      case False
      then show ?thesis using 2(3) assms decoder_wf_Nil by (simp add: hold_back_def)
    qed
  qed
qed

lemma write_utf8_tail_wf:
  assumes "decoder_holds d []"
  shows "decoder_wf (snd (write_utf8_tail bytes d))"
  using utf8_check_incomplete_wf [OF assms, of bytes] decoder_wf_Nil [OF assms] by (auto simp: write_utf8_tail_def)

lemma write_utf8_wf:
  assumes "decoder_wf d"
  shows "\<exists>out d'. write_utf8 bytes d = Inr (out, d') \<and> decoder_wf d'"
proof -
  define p where "p = pending_bytes d"
  have h: "decoder_holds d p" and len: "p \<noteq> [] \<Longrightarrow> length p < lead_len (hd p)"
    using assms by (simp_all add: decoder_wf_def p_def)
  show ?thesis
  proof (cases p)
    case Nil
    then have "last_need d = 0" "decoder_holds d []" using h by (simp_all add: decoder_holds_def)
    then show ?thesis using write_utf8_tail_wf [of d bytes] by (cases "write_utf8_tail bytes d") (simp add: write_utf8_def)
  next
    case (Cons l cs)
    then have l: "length p < lead_len l" using len by simp
    show ?thesis
    proof (cases "length (p @ bytes) < lead_len l")
      case True
      then show ?thesis using write_utf8_append_pending [OF h Cons, of bytes] Cons decoder_wf_Cons by fastforce
    next
      case False
      then have "lead_len l \<le> length (p @ bytes)" by simp
      then obtain d0 where d0: "decoder_holds d0 []"
        "write_utf8 bytes d = (let take_new = lead_len l - length p; (out, d') = write_utf8_tail (drop take_new bytes) d0
          in Inr ((case from_utf8 (p @ take take_new bytes) of Some s \<Rightarrow> s | None \<Rightarrow> [REPLACEMENT]) @ out, d'))"
        using write_utf8_completes [OF h Cons l] by blast
      then show ?thesis
        using write_utf8_tail_wf [OF d0(1), of "drop (lead_len l - length p) bytes"] by (auto simp: Let_def split: prod.split)
    qed
  qed
qed

lemma end_utf8_wf:
  assumes "decoder_wf d"
  shows "\<exists>out d'. end_utf8 bytes d = Inr (out, d') \<and> decoder_holds d' []"
proof -
  obtain out d1 where w: "(case bytes of Some b \<Rightarrow> write_utf8 b d | None \<Rightarrow> Inr ([], d)) = Inr (out, d1)" "decoder_wf d1"
  proof (cases bytes)
    case (Some b)
    then show thesis using write_utf8_wf [OF assms, of b] that by auto
  qed (use assms that in simp)
  have l: "length (last_char d1) = 4" using w(2) by (simp add: decoder_wf_def decoder_holds_def)
  have "decoder_holds d1 []" if "last_need d1 = 0"
    using w(2) that by (auto simp: decoder_wf_def decoder_holds_def split: if_splits)
  then show ?thesis using w(1) decoder_reset_holds [OF l] by (simp add: end_utf8_def)
qed

lemma decoder_new_holds: "decoder_holds decoder_new []"
  by (simp add: decoder_holds_def decoder_new_def)

lemma decode_chunks_total: "decoder_wf d \<Longrightarrow> \<exists>out d'. decode_chunks chunks d = Inr (out, d') \<and> decoder_holds d' []"
proof (induction chunks arbitrary: d)
  case Nil
  then show ?case using end_utf8_wf [of d None] by simp
next
  case (Cons chunk chunks)
  obtain out d1 where "write_utf8 chunk d = Inr (out, d1)" "decoder_wf d1" using write_utf8_wf [OF Cons.prems] by blast
  then show ?case using Cons.IH [of d1] by auto
qed

text \<open>C16.
  A UTF-8 text cut into chunks at arbitrary byte positions is decoded to exactly its code points: no chunk boundary
  inside a code point loses or mangles it. A text that ends inside a code point (a non-empty incomplete sequence
  \<open>q\<close>) yields one replacement character at the end of the stream. Nothing stays pending.\<close>

theorem utf8_stream_decodes_text:
  assumes "list_all is_scalar cps" "utf8_partial q" "concat chunks = utf8_text cps @ q"
  shows "\<exists>d'. decode_chunks chunks decoder_new = Inr (cps @ (if q = [] then [] else [REPLACEMENT]), d') \<and>
    \<not> has_pending d' \<and> pending_bytes d' = []"
proof -
  have "[] @ concat chunks = utf8_text cps @ q" using assms(3) by simp
  from decode_chunks_text [OF decoder_new_holds utf8_partial_Nil this assms(1,2)] show ?thesis
    by (auto simp: decoder_holds_pending decoder_holds_def has_pending_def)
qed

theorem utf8_stream_decodes_text_witness:
  "\<exists>d'. decode_chunks [[0x41, 0xE2], [0x82], [0xAC, 0xF0, 0x9F]] decoder_new = Inr ([0x41, 0x20AC] @ [REPLACEMENT], d') \<and>
    \<not> has_pending d' \<and> pending_bytes d' = []"
proof -
  have q: "utf8_partial [0xF0, 0x9F]"
    unfolding utf8_partial_def by (intro exI [of _ "0x1F600"]) (simp add: is_scalar_def utf8_encode_def strict_prefix_def)
  have s: "list_all is_scalar [0x41, 0x20AC]" by (simp add: is_scalar_def)
  have "concat [[0x41, 0xE2], [0x82], [0xAC, 0xF0, 0x9F]] = utf8_text [0x41, 0x20AC] @ [0xF0, 0x9F]"
    by (simp add: utf8_encode_def)
  from utf8_stream_decodes_text [OF s q this] show ?thesis by simp
qed

text \<open>C35.
  For any bytes whatsoever the decoder is total: no slice or subtraction goes out of range, the state stays well
  formed (at most three bytes held, fewer than their lead byte announces, and the \<open>lastNeed\<close>, \<open>lastTotal\<close> properties
  consistent with them), and ending the stream leaves nothing pending.\<close>

theorem utf8_decoder_total:
  "decoder_wf decoder_new \<and>
   (decoder_wf d \<longrightarrow>
      (\<exists>out d'. write_utf8 bytes d = Inr (out, d') \<and> decoder_wf d' \<and> length (pending_bytes d') \<le> 3 \<and>
         last_need d' + length (pending_bytes d') = last_total d') \<and>
      (\<exists>out d'. end_utf8 end_bytes d = Inr (out, d') \<and> decoder_wf d' \<and> \<not> has_pending d'))"
proof -
  have "length (pending_bytes d') \<le> 3 \<and> last_need d' + length (pending_bytes d') = last_total d'" if "decoder_wf d'" for d'
    using that lead_len_le(2) [of "hd (pending_bytes d')"] unfolding decoder_wf_def decoder_holds_def by auto
  then show ?thesis
    using decoder_wf_Nil [OF decoder_new_holds] write_utf8_wf [of d bytes] end_utf8_wf [of d end_bytes] decoder_wf_Nil
    by (fastforce simp: decoder_holds_def has_pending_def)
qed

theorem utf8_decoder_total_witness:
  "\<exists>out d'. write_utf8 [0xFF, 0xE2] decoder_new = Inr (out, d') \<and> decoder_wf d' \<and> length (pending_bytes d') \<le> 3 \<and>
     last_need d' + length (pending_bytes d') = last_total d'"
  using utf8_decoder_total [of decoder_new "[0xFF, 0xE2]" None] by blast

definition holding_E2 :: utf8_decoder where
  "holding_E2 = \<lparr>last_need = 2, last_total = 3, last_char = [0xE2, 0, 0, 0], last_char_len = 1\<rparr>"

lemma check_incomplete_loop_walk:
  "walk \<noteq> 0 \<Longrightarrow> check_incomplete_loop walk steps buf d =
     (let steps = steps + 1; b = buf ! (length buf - steps)
      in if b AND 0xC0 = 0x80 then check_incomplete_loop (walk - 1) steps buf d
         else if b AND 0xF8 = 0xF0 then hold_back 4 steps buf d
         else if b AND 0xF0 = 0xE0 then hold_back 3 steps buf d
         else if b AND 0xE0 = 0xC0 then hold_back 2 steps buf d
         else (0, d))"
  by (cases walk) (simp_all add: Let_def)

lemmas decoder_eval = check_incomplete_loop_walk
  write_utf8_def decoder_new_def holding_E2_def write_utf8_tail_def utf8_check_incomplete_def hold_back_def copy_at_def
  from_utf8_def from_utf8_lossy_def utf8_next_def second_ok_def is_cont_def pending_bytes_def

lemma decoder_evals:
  "write_utf8 [0xE2] decoder_new = Inr ([], holding_E2)"
  "pending_bytes holding_E2 = [0xE2]"
  "map_sum id fst (write_utf8 [0x41, 0x42, 0x43] holding_E2) = Inr [REPLACEMENT, 0x43]"
  "map_sum id fst (write_utf8 [0xE2, 0x41, 0x42, 0x43] decoder_new) = Inr [REPLACEMENT, 0x41, 0x42, 0x43]"
  by (simp_all add: decoder_eval)

text \<open>C36.
  The note on \<open>pending_bytes\<close> says that a caller may keep the held bytes and put them in front of the next chunk
  for a fresh decoder, which is equivalent. On text it is: both ways emit the same code points and hold the same
  bytes. On ill-formed input it is not: once a lead byte is held, the bytes that would complete its sequence are
  consumed whatever they are, so \<open>E2\<close> followed by the chunk \<open>ABC\<close> loses \<open>AB\<close>, which the re-prefixed chunk keeps.\<close>

theorem utf8_pending_reprefix:
  "(decoder_holds d p \<and> utf8_partial p \<and> list_all is_scalar cps \<and> utf8_partial q \<and> p @ chunk = utf8_text cps @ q \<longrightarrow>
     (\<exists>d' d''. write_utf8 chunk d = Inr (cps, d') \<and> write_utf8 (p @ chunk) decoder_new = Inr (cps, d'') \<and>
        pending_bytes d' = q \<and> pending_bytes d'' = q)) \<and>
   (\<exists>d. write_utf8 [0xE2] decoder_new = Inr ([], d) \<and> pending_bytes d = [0xE2] \<and>
      map_sum id fst (write_utf8 [0x41, 0x42, 0x43] d) = Inr [REPLACEMENT, 0x43] \<and>
      map_sum id fst (write_utf8 (pending_bytes d @ [0x41, 0x42, 0x43]) decoder_new) = Inr [REPLACEMENT, 0x41, 0x42, 0x43])"
proof (intro conjI impI)
  assume a: "decoder_holds d p \<and> utf8_partial p \<and> list_all is_scalar cps \<and> utf8_partial q \<and> p @ chunk = utf8_text cps @ q"
  then have "[] @ (p @ chunk) = utf8_text cps @ q" by simp
  then show "\<exists>d' d''. write_utf8 chunk d = Inr (cps, d') \<and> write_utf8 (p @ chunk) decoder_new = Inr (cps, d'') \<and>
        pending_bytes d' = q \<and> pending_bytes d'' = q"
    using a write_utf8_step [of d p chunk cps q] write_utf8_step [OF decoder_new_holds utf8_partial_Nil, of "p @ chunk" cps q]
      decoder_holds_pending by blast
next
  show "\<exists>d. write_utf8 [0xE2] decoder_new = Inr ([], d) \<and> pending_bytes d = [0xE2] \<and>
      map_sum id fst (write_utf8 [0x41, 0x42, 0x43] d) = Inr [REPLACEMENT, 0x43] \<and>
      map_sum id fst (write_utf8 (pending_bytes d @ [0x41, 0x42, 0x43]) decoder_new) = Inr [REPLACEMENT, 0x41, 0x42, 0x43]"
    by (intro exI [of _ holding_E2]) (simp add: decoder_evals)
qed

theorem utf8_pending_reprefix_witness:
  "\<exists>d' d''. write_utf8 [0x82, 0xAC, 0x41] holding_E2 = Inr ([0x20AC, 0x41], d') \<and>
     write_utf8 ([0xE2] @ [0x82, 0xAC, 0x41]) decoder_new = Inr ([0x20AC, 0x41], d'') \<and> pending_bytes d' = [] \<and> pending_bytes d'' = []"
proof -
  have "utf8_partial [0xE2]"
    unfolding utf8_partial_def by (intro exI [of _ "0x20AC"]) (simp add: is_scalar_def utf8_encode_def strict_prefix_def)
  moreover have "decoder_holds holding_E2 [0xE2]" by (simp add: holding_E2_def decoder_holds_def lead_len_def)
  moreover have "list_all is_scalar [0x20AC, 0x41]" by (simp add: is_scalar_def)
  moreover have "[0xE2] @ [0x82, 0xAC, 0x41] = utf8_text [0x20AC, 0x41] @ []" by (simp add: utf8_encode_def)
  ultimately show ?thesis
    using utf8_pending_reprefix [of holding_E2 "[0xE2]" "[0x20AC, 0x41]" "[]" "[0x82, 0xAC, 0x41]"] utf8_partial_Nil by blast
qed

end
