(* ===== verification/F64_Arith.thy ===== *)
theory F64_Arith
  imports F64
begin

text \<open>
  Rounded binary64 arithmetic. \<open>round_even n k\<close> is \<open>n / 2 ^ k\<close> to the nearest integer, ties to
  even; \<open>f64_round s n t\<close> is the double nearest to \<open>n * 2 ^ - (1074 + t)\<close> with sign \<open>s\<close>, ties to
  even, an overflow giving an infinity. Addition, multiplication and the conversion of a \<open>u64\<close> round
  the exact result once, as IEEE-754 asks.
\<close>

definition round_even :: "nat \<Rightarrow> nat \<Rightarrow> nat" where
  "round_even n k =
     (let kept = n div 2 ^ k; rest = n mod 2 ^ k
      in if 2 ^ k < 2 * rest \<or> 2 * rest = 2 ^ k \<and> odd kept then kept + 1 else kept)"

definition f64_round :: "bool \<Rightarrow> nat \<Rightarrow> nat \<Rightarrow> f64" where
  "f64_round s n t =
     (let k = max t (floor_log2 n - 52)
      in of_nat ((if s then 2 ^ 63 else 0) + min ((k - t) * 2 ^ 52 + round_even n k) (2047 * 2 ^ 52)))"

definition f64_inf :: "bool \<Rightarrow> f64" where
  "f64_inf s = of_nat ((if s then 2 ^ 63 else 0) + 2047 * 2 ^ 52)"

definition f64_is_inf :: "f64 \<Rightarrow> bool" where
  "f64_is_inf b \<longleftrightarrow> f64_exp b = 2047 \<and> f64_mant b = 0"

definition f64_neg :: "f64 \<Rightarrow> f64" where
  "f64_neg b = b XOR 0x8000000000000000"

definition f64_add :: "f64 \<Rightarrow> f64 \<Rightarrow> f64" where
  "f64_add a b =
     (if f64_is_nan a \<or> f64_is_nan b then f64_NAN
      else if f64_is_inf a then (if f64_is_inf b \<and> f64_sign a \<noteq> f64_sign b then f64_NAN else a)
      else if f64_is_inf b then b
      else
        let u = f64_units a + f64_units b
        in if u = 0 then (if f64_sign a \<and> f64_sign b then 0x8000000000000000 else 0)
           else f64_round (u < 0) (nat \<bar>u\<bar>) 0)"

definition f64_mul :: "f64 \<Rightarrow> f64 \<Rightarrow> f64" where
  "f64_mul a b =
     (let s = (f64_sign a \<noteq> f64_sign b)
      in if f64_is_nan a \<or> f64_is_nan b then f64_NAN
         else if f64_is_inf a \<or> f64_is_inf b then
           (if f64_mag a = 0 \<or> f64_mag b = 0 then f64_NAN else f64_inf s)
         else f64_round s (f64_mag a * f64_mag b) 1074)"

text \<open>\<open>n as f64\<close> for a \<open>u64\<close>.\<close>

definition f64_of_u64 :: "u64 \<Rightarrow> f64" where
  "f64_of_u64 n = f64_round False (unat n * 2 ^ 1074) 0"

text \<open>The powers of two in the normal range.\<close>

definition f64_pow2 :: "int \<Rightarrow> f64" where
  "f64_pow2 n = of_nat (nat (1023 + n) * 2 ^ 52)"

subsection \<open>Rounding to the nearest, ties to even\<close>

lemma round_even_exact [simp]: "round_even (q * 2 ^ k) k = q"
  by (simp add: round_even_def)

lemma round_even_0 [simp]: "round_even n 0 = n"
  by (simp add: round_even_def)

lemma round_even_shift: "round_even (n * 2 ^ j) (k + j) = round_even n k"
proof -
  have "n * 2 ^ j div 2 ^ (k + j) = n div 2 ^ k" by (simp add: power_add mult.commute [of _ "2 ^ j"])
  moreover have "n * 2 ^ j mod 2 ^ (k + j) = n mod 2 ^ k * 2 ^ j" by (simp add: power_add mod_mult_mult2)
  ultimately show ?thesis by (simp add: round_even_def Let_def power_add mult.assoc [symmetric])
qed

text \<open>
  Twice the distance to the result is at most one unit, so no integer is nearer, and on a tie the
  result is even.
\<close>

lemma round_even_nearest:
  "2 * \<bar>int (round_even n k) * 2 ^ k - int n\<bar> \<le> 2 ^ k"
  "2 * \<bar>int (round_even n k) * 2 ^ k - int n\<bar> = 2 ^ k \<Longrightarrow> even (round_even n k)"
proof -
  define q r p where "q = n div 2 ^ k" and "r = n mod 2 ^ k" and "p = (2 :: nat) ^ k"
  have p: "(2 :: int) ^ k = int p" by (simp add: p_def)
  have "n = q * p + r" unfolding q_def r_def p_def by (rule div_mult_mod_eq [symmetric])
  then have n: "int n = int q * int p + int r" by simp
  have r: "int r < int p" by (simp add: r_def p_def)
  have cases: "round_even n k = (if p < 2 * r \<or> 2 * r = p \<and> odd q then q + 1 else q)"
    by (simp only: round_even_def Let_def q_def r_def p_def)
  show "2 * \<bar>int (round_even n k) * 2 ^ k - int n\<bar> \<le> 2 ^ k"
    using n r unfolding p cases by (auto simp: algebra_simps)
  show "even (round_even n k)" if "2 * \<bar>int (round_even n k) * 2 ^ k - int n\<bar> = 2 ^ k"
    using n r that unfolding p cases by (auto simp: algebra_simps split: if_splits)
qed

lemma floor_log2_eqI: "2 ^ j \<le> n \<Longrightarrow> n < 2 ^ Suc j \<Longrightarrow> floor_log2 n = j"
proof -
  assume a: "2 ^ j \<le> n" "n < 2 ^ Suc j"
  then have "0 < n" by (auto intro: Nat.gr0I)
  note b = floor_log2_bounds [OF this]
  have "(2 :: nat) ^ j < 2 ^ Suc (floor_log2 n)" "(2 :: nat) ^ floor_log2 n < 2 ^ Suc j" using a b by linarith+
  then have "j < Suc (floor_log2 n)" "floor_log2 n < Suc j" by (simp_all only: power_strict_increasing_iff one_less_numeral_iff semiring_norm)
  then show ?thesis by simp
qed

lemma floor_log2_mult_power: "0 < n \<Longrightarrow> floor_log2 (n * 2 ^ j) = floor_log2 n + j"
  using floor_log2_bounds [of n] by (intro floor_log2_eqI) (simp_all add: power_add)

lemma floor_log2_small: "n < 2 ^ 53 \<Longrightarrow> floor_log2 n - 52 = 0"
proof (cases "n = 0")
  case False
  assume "n < 2 ^ 53"
  then have "(2 :: nat) ^ floor_log2 n < 2 ^ 53" using floor_log2_bounds [of n] False by linarith
  then have "floor_log2 n < 53" by (rule power_less_imp_less_exp [rotated]) simp
  then show ?thesis by simp
qed (simp add: floor_log2.simps)

text \<open>Rounding the value of a finite double gives it back.\<close>

lemma f64_round_value:
  assumes "f64_is_finite b"
  shows "f64_round (f64_sign b) (f64_mag b * 2 ^ t) t = b"
proof -
  have m: "f64_mant b < 2 ^ 52" by (rule f64_mant_less)
  have e: "f64_exp b < 2047" using assms f64_exp_less [of b] by (simp add: f64_is_finite_def)
  have "max t (floor_log2 (f64_mag b * 2 ^ t) - 52) = t + (f64_exp b - 1) \<and>
    round_even (f64_mag b * 2 ^ t) (t + (f64_exp b - 1)) = (if f64_exp b = 0 then 0 else 2 ^ 52) + f64_mant b"
  proof (cases "f64_exp b = 0")
    case True
    have "floor_log2 (f64_mant b * 2 ^ t) \<le> t + 52"
    proof (cases "f64_mant b = 0")
      case False
      have "floor_log2 (f64_mant b) - 52 = 0" using m by (intro floor_log2_small) simp
      then show ?thesis using False floor_log2_mult_power [of "f64_mant b" t] by simp
    qed (simp add: floor_log2.simps)
    then show ?thesis using True by (simp add: f64_mag_def)
  next
    case False
    then obtain e where e: "f64_exp b = Suc e" by (cases "f64_exp b") auto
    have "floor_log2 (2 ^ 52 + f64_mant b) = 52" using m by (intro floor_log2_eqI) simp_all
    then have "floor_log2 ((2 ^ 52 + f64_mant b) * 2 ^ (e + t)) = 52 + (e + t)"
      by (subst floor_log2_mult_power) simp_all
    moreover have "f64_mag b * 2 ^ t = (2 ^ 52 + f64_mant b) * 2 ^ (e + t)" by (simp add: f64_mag_def e power_add)
    ultimately show ?thesis using round_even_exact [of "2 ^ 52 + f64_mant b" "e + t"] by (simp add: e add.commute)
  qed
  then have k: "max t (floor_log2 (f64_mag b * 2 ^ t) - 52) = t + (f64_exp b - 1)"
    and r: "round_even (f64_mag b * 2 ^ t) (t + (f64_exp b - 1)) = (if f64_exp b = 0 then 0 else 2 ^ 52) + f64_mant b"
    by simp_all
  have s: "(t + (f64_exp b - 1) - t) * 2 ^ 52 + ((if f64_exp b = 0 then 0 else 2 ^ 52) + f64_mant b)
    = f64_exp b * 2 ^ 52 + f64_mant b" by (cases "f64_exp b") simp_all
  have "f64_round (f64_sign b) (f64_mag b * 2 ^ t) t =
     of_nat ((if f64_sign b then 2 ^ 63 else 0) + min (f64_exp b * 2 ^ 52 + f64_mant b) (2047 * 2 ^ 52))"
    by (simp only: f64_round_def Let_def k r s)
  also have "min (f64_exp b * 2 ^ 52 + f64_mant b) (2047 * 2 ^ 52) = f64_exp b * 2 ^ 52 + f64_mant b"
  proof -
    have "Suc (f64_exp b) * 2 ^ 52 \<le> 2047 * 2 ^ 52" using e by (intro mult_le_mono1) simp
    then show ?thesis using m by simp
  qed
  finally have "f64_round (f64_sign b) (f64_mag b * 2 ^ t) t = of_nat (unat b)"
    by (simp only: f64_decompose [of b] add.assoc)
  then show ?thesis by simp
qed

subsection \<open>Exact results\<close>

text \<open>A double with the given sign, magnitude below the infinities.\<close>

definition f64_is :: "f64 \<Rightarrow> bool \<Rightarrow> nat \<Rightarrow> bool" where
  "f64_is b s n \<longleftrightarrow> f64_sign b = s \<and> f64_mag b = n \<and> f64_is_finite b"

lemma f64_is_exists:
  assumes "q < 2 ^ 53" "j \<le> 2045"
  shows "\<exists>b. f64_is b s (q * 2 ^ j)"
proof -
  define L where "L = floor_log2 q"
  show ?thesis
  proof (cases "q = 0 \<or> j + L < 52")
    case True
    have lt: "q * 2 ^ j < 2 ^ 52"
    proof (cases "q = 0")
      case False
      then have "q < 2 ^ Suc L" "Suc L + j \<le> 52" using floor_log2_bounds [of q] True by (simp_all add: L_def)
      then have "q * 2 ^ j < 2 ^ Suc L * 2 ^ j" by simp
      also have "\<dots> \<le> 2 ^ 52" using \<open>Suc L + j \<le> 52\<close> unfolding power_add [symmetric] by (intro power_increasing) simp_all
      finally show ?thesis .
    qed simp
    let ?b = "of_nat ((if s then 2 ^ 63 else 0) + 0 * 2 ^ 52 + q * 2 ^ j) :: f64"
    note f = f64_fields [of 0 "q * 2 ^ j" s]
    have "f64_sign ?b = s" "f64_exp ?b = 0" "f64_mant ?b = q * 2 ^ j" using f lt by simp_all
    then show ?thesis unfolding f64_is_def f64_mag_def f64_is_finite_def by (intro exI [of _ ?b]) simp
  next
    case False
    then have q: "0 < q" by simp
    note b = floor_log2_bounds [OF q, folded L_def]
    have "(2 :: nat) ^ L < 2 ^ 53" using b assms(1) by linarith
    then have L: "L \<le> 52" using power_less_imp_less_exp [of "2 :: nat" L 53] by simp
    have pk: "(2 :: nat) ^ L * 2 ^ (52 - L) = 2 ^ 52" using L by (simp flip: power_add)
    define m where "m = q * 2 ^ (52 - L) - 2 ^ 52"
    have ge: "2 ^ 52 \<le> q * 2 ^ (52 - L)" using mult_le_mono1 [of "2 ^ L" q "2 ^ (52 - L)"] b pk by simp
    have "q * 2 ^ (52 - L) < 2 ^ Suc L * 2 ^ (52 - L)" using b by simp
    then have "q * 2 ^ (52 - L) < 2 * 2 ^ 52" unfolding power_Suc mult.assoc pk .
    then have m: "m < 2 ^ 52" using ge by (simp add: m_def)
    obtain e where e: "j + L = 52 + e" using False le_Suc_ex [of 52 "j + L"] by auto
    have e1: "e + 1 < 2047" using e L assms(2) by simp
    let ?b = "of_nat ((if s then 2 ^ 63 else 0) + (e + 1) * 2 ^ 52 + m) :: f64"
    have f: "f64_sign ?b = s" "f64_exp ?b = e + 1" "f64_mant ?b = m" using f64_fields [of "e + 1" m s] m e1 by simp_all
    have "(2 ^ 52 + m) * 2 ^ e = q * 2 ^ (52 - L + e)" using ge by (simp add: m_def power_add)
    also have "52 - L + e = j" using e L by linarith
    finally have "f64_mag ?b = q * 2 ^ j" unfolding f64_mag_def f by simp
    then show ?thesis unfolding f64_is_def f64_is_finite_def using f(1,2) e1 by (intro exI [of _ ?b]) simp
  qed
qed

lemma f64_round_is:
  assumes "n = q * 2 ^ (j + t)" "q < 2 ^ 53" "j \<le> 2045"
  shows "f64_is (f64_round s n t) s (q * 2 ^ j)"
proof -
  obtain b where b: "f64_is b s (q * 2 ^ j)" using f64_is_exists [OF assms(2,3)] by blast
  then have "f64_round s n t = b" using f64_round_value [of b t] by (simp add: f64_is_def assms(1) power_add mult.assoc)
  then show ?thesis using b by simp
qed

lemma f64_is_not_special: "f64_is b s n \<Longrightarrow> \<not> f64_is_nan b \<and> \<not> f64_is_inf b"
  by (simp add: f64_is_def f64_is_finite_def f64_is_nan_def f64_is_inf_def)

lemma f64_mul_is:
  assumes "f64_is a s m" "f64_is b t n" "m * n = q * 2 ^ (j + 1074)" "q < 2 ^ 53" "j \<le> 2045"
  shows "f64_is (f64_mul a b) (s \<noteq> t) (q * 2 ^ j)"
  using assms(1,2) f64_is_not_special [OF assms(1)] f64_is_not_special [OF assms(2)] f64_round_is [OF assms(3-5)]
  by (simp add: f64_mul_def f64_is_def Let_def)

lemma f64_add_is:
  assumes "f64_is a False m" "f64_is b False n" "m + n = q * 2 ^ j" "q < 2 ^ 53" "j \<le> 2045"
  shows "f64_is (f64_add a b) False (q * 2 ^ j)"
proof -
  have u: "f64_units a + f64_units b = int (m + n)" using assms(1,2) by (simp add: f64_is_def f64_units_def)
  have z: "f64_is 0 False 0" by (simp add: f64_is_def f64_sign_def f64_mag_def f64_exp_def f64_mant_def f64_is_finite_def)
  have r: "f64_is (f64_round False (m + n) 0) False (q * 2 ^ j)" using f64_round_is [of "m + n" q j 0 False] assms(3-5) by simp
  have "f64_add a b = (if m + n = 0 then 0 else f64_round False (m + n) 0)"
    using assms(1,2) f64_is_not_special [OF assms(1)] f64_is_not_special [OF assms(2)]
    unfolding f64_add_def Let_def u by (simp add: f64_is_def nat_add_distrib)
  then show ?thesis using z r assms(3) by simp
qed

lemma f64_of_u64_is: "unat x < 2 ^ 53 \<Longrightarrow> f64_is (f64_of_u64 x) False (unat x * 2 ^ 1074)"
  unfolding f64_of_u64_def by (rule f64_round_is) simp_all

lemma f64_pow2_is:
  assumes "- 1022 \<le> n" "n \<le> 1023"
  shows "f64_is (f64_pow2 n) False (2 ^ nat (1074 + n))"
proof -
  obtain e where e: "nat (1023 + n) = Suc e" using assms(1) by (cases "nat (1023 + n)") auto
  have f: "f64_sign (f64_pow2 n) = False" "f64_exp (f64_pow2 n) = Suc e" "f64_mant (f64_pow2 n) = 0"
    using f64_fields [of "Suc e" 0 False] assms e by (simp_all add: f64_pow2_def)
  have "nat (1074 + n) = 52 + e" using e assms(1) by linarith
  then show ?thesis using f e assms(2) by (simp add: f64_is_def f64_mag_def f64_is_finite_def power_add)
qed

lemma f64_neg_is: "f64_is b s n \<Longrightarrow> f64_is (f64_neg b) (\<not> s) n"
proof -
  assume b: "f64_is b s n"
  have bits: "bit (0x8000000000000000 :: int) i \<longleftrightarrow> i = 63" for i
    using bit_exp_iff [where ?'a = int, of 63 i] by simp
  have sign: "f64_sign (f64_neg b) \<longleftrightarrow> \<not> f64_sign b" by (simp add: f64_sign_def f64_neg_def bit_xor_iff bits)
  have "take_bit 63 (f64_neg b) = take_bit 63 b"
    by (rule bit_word_eqI) (auto simp: bit_take_bit_iff f64_neg_def bit_xor_iff bits)
  then have "unat (f64_neg b) mod 2 ^ 63 = unat b mod 2 ^ 63" by (metis unat_take_bit_mod)
  moreover have "f64_mant x = unat x mod 2 ^ 63 mod 2 ^ 52" "f64_exp x = unat x mod 2 ^ 63 div 2 ^ 52" for x
  proof -
    show "f64_mant x = unat x mod 2 ^ 63 mod 2 ^ 52" by (simp add: f64_mant_def mod_mod_cancel)
    show "f64_exp x = unat x mod 2 ^ 63 div 2 ^ 52"
      using mod_mult2_eq [of "unat x" "2 ^ 52" "2 ^ 11"] by (simp add: f64_exp_def)
  qed
  ultimately have "f64_mant (f64_neg b) = f64_mant b" "f64_exp (f64_neg b) = f64_exp b" by simp_all
  then show ?thesis using b sign by (simp only: f64_is_def f64_mag_def f64_is_finite_def) simp
qed

end
