(* ===== verification/Half_Float.thy ===== *)
theory Half_Float
  imports F64_Arith
begin

text \<open>
  The binary16 conversions of \<open>Float16Array\<close> (\<open>typedarray_half.rs\<close>). A half float is its 16 bits; every
  finite one is an integer multiple of \<open>2 ^ -24\<close>, its \<open>f16_units\<close>.
\<close>

definition half_round :: "u64 \<Rightarrow> nat \<Rightarrow> u64" where
  "half_round significand shift =
     (let kept = drop_bit shift significand;
          remainder = significand AND (push_bit shift 1 - 1);
          halfway = push_bit (shift - 1) 1
      in if remainder > halfway \<or> (remainder = halfway \<and> kept AND 1 = 1) then kept + 1 else kept)"

text \<open>\<open>exp\<close>, \<open>unbiased\<close> and \<open>half_exp\<close> are \<open>i32\<close> values far from their bounds.\<close>

definition f64_to_f16_bits :: "f64 \<Rightarrow> u16" where
  "f64_to_f16_bits bits =
     (let sign = (ucast (drop_bit 48 bits AND 0x8000) :: u16) AND 0x8000;
          exp = uint (drop_bit 52 bits AND 0x7FF);
          mantissa = bits AND 0x000FFFFFFFFFFFFF
      in if exp = 0x7FF then (if mantissa \<noteq> 0 then sign OR 0x7E00 else sign OR 0x7C00)
         else if exp = 0 then sign
         else
           let unbiased = exp - 1023; half_exp = unbiased + 15
           in if half_exp \<ge> 0x1F then sign OR 0x7C00
              else
                let significand = mantissa OR 0x0010000000000000
                in if half_exp \<le> 0 then
                     (let shift = nat (43 - half_exp)
                      in if shift \<ge> 64 then sign
                         else if shift = 0 then sign OR ucast significand
                         else sign OR ucast (half_round significand shift))
                   else
                     let rounded = half_round significand 42;
                         result = push_bit 10 (word_of_int half_exp - 1 :: u32) + ucast rounded
                     in if drop_bit 10 result \<ge> 0x1F then sign OR 0x7C00 else sign OR ucast result)"

text \<open>\<open>2f64.powi(n)\<close> is the power of two, exact in the range used; dividing by \<open>1024\<close> rounds the exact quotient.\<close>

definition f64_div_1024 :: "f64 \<Rightarrow> f64" where
  "f64_div_1024 a = f64_round (f64_sign a) (f64_mag a) 10"

definition f16_bits_to_f64 :: "u16 \<Rightarrow> f64" where
  "f16_bits_to_f64 bits =
     (let sign = (if bits AND 0x8000 \<noteq> 0 then f64_neg (f64_pow2 0) else f64_pow2 0);
          exp = uint (drop_bit 10 bits AND 0x1F);
          mantissa = f64_of_u64 (ucast (bits AND 0x03FF))
      in if exp = 0 then f64_mul (f64_mul sign mantissa) (f64_pow2 (- 24))
         else if exp = 0x1F then
           (if \<not> f64_eq mantissa 0 then f64_NAN else f64_mul sign f64_INFINITY)
         else f64_mul (f64_mul sign (f64_add (f64_pow2 0) (f64_div_1024 mantissa))) (f64_pow2 (exp - 15)))"

subsection \<open>The value of a half float\<close>

definition f16_sign :: "u16 \<Rightarrow> bool" where
  "f16_sign h \<longleftrightarrow> 0x8000 \<le> unat h"

text \<open>The lower fifteen bits, in the order of the magnitudes.\<close>

definition f16_code :: "u16 \<Rightarrow> nat" where
  "f16_code h = unat h mod 0x8000"

definition f16_code_mag :: "nat \<Rightarrow> nat" where
  "f16_code_mag c = (if c div 1024 = 0 then c mod 1024 else (1024 + c mod 1024) * 2 ^ (c div 1024 - 1))"

definition f16_units :: "u16 \<Rightarrow> int" where
  "f16_units h = (if f16_sign h then - int (f16_code_mag (f16_code h)) else int (f16_code_mag (f16_code h)))"

definition f16_is_finite :: "u16 \<Rightarrow> bool" where
  "f16_is_finite h \<longleftrightarrow> f16_code h < 0x7C00"

definition f16_is_nan :: "u16 \<Rightarrow> bool" where
  "f16_is_nan h \<longleftrightarrow> 0x7C00 < f16_code h"

text \<open>Rounding a magnitude in units of \<open>2 ^ -1074\<close> to a half float code; \<open>2 ^ -24\<close> is \<open>2 ^ 1050\<close> of them.\<close>

definition f16_round_code :: "nat \<Rightarrow> nat" where
  "f16_round_code n =
     (let k = max 1050 (floor_log2 n - 10) in min ((k - 1050) * 1024 + round_even n k) 0x7C00)"

lemma unat_half_round:
  assumes "0 < shift" "shift < 64" "unat s < 2 ^ 63"
  shows "unat (half_round s shift) = round_even (unat s) shift"
proof -
  define q r where "q = unat s div 2 ^ shift" and "r = unat s mod 2 ^ shift"
  have k: "unat (drop_bit shift s) = q" by (simp add: unat_drop_bit_div q_def)
  have "s AND (push_bit shift 1 - 1) = take_bit shift s"
    by (simp add: take_bit_eq_mask mask_eq_exp_minus_1 push_bit_eq_mult)
  then have r: "unat (s AND (push_bit shift 1 - 1)) = r" by (simp add: unat_take_bit_mod r_def)
  have h: "unat (push_bit (shift - 1) 1 :: u64) = 2 ^ (shift - 1)"
  proof -
    have "(2 :: nat) ^ (shift - 1) < 2 ^ 64" using assms(2) by (intro power_strict_increasing) simp_all
    then show ?thesis using assms(2) by (simp only: unsigned_push_bit_eq) (simp add: push_bit_eq_mult take_bit_nat_eq_self)
  qed
  have two: "(2 :: nat) ^ shift = 2 * 2 ^ (shift - 1)" using assms(1) by (cases shift) simp_all
  have odd: "drop_bit shift s AND 1 = 1 \<longleftrightarrow> odd q"
    using bit_unsigned_iff [where ?'a = nat, of "drop_bit shift s" 0] unfolding k
    by (simp add: and_one_eq bit_0 odd_iff_mod_2_eq_one)
  have q: "q < 2 ^ 63" using assms(3) unfolding q_def by (meson div_le_dividend le_less_trans)
  then have "unat (drop_bit shift s + 1) = q + 1" using k by (subst unat_plus_exact) simp_all
  then show ?thesis
    unfolding half_round_def round_even_def Let_def q_def [symmetric] r_def [symmetric] odd
    by (simp only: word_less_nat_alt word_unat_eq_iff r h two) (simp add: k)
qed

lemma bit_0x8000: "bit (0x8000 :: int) n \<longleftrightarrow> n = 15"
  using bit_exp_iff [where ?'a = int, of 15 n] by simp

lemma f16_fields_of_f64:
  "(ucast (drop_bit 48 (v :: f64) AND 0x8000) :: u16) AND 0x8000 = (if f64_sign v then 0x8000 else 0)"
  "uint (drop_bit 52 v AND 0x7FF) = int (f64_exp v)"
  "unat (v AND 0x000FFFFFFFFFFFFF) = f64_mant v"
  "unat ((v AND 0x000FFFFFFFFFFFFF) OR 0x0010000000000000) = 2 ^ 52 + f64_mant v"
proof -
  show "(ucast (drop_bit 48 v AND 0x8000) :: u16) AND 0x8000 = (if f64_sign v then 0x8000 else 0)"
    by (rule bit_word_eqI) (auto simp: bit_and_iff bit_ucast_iff bit_drop_bit_eq bit_0x8000 f64_sign_def)
  have m: "drop_bit 52 v AND 0x7FF = take_bit 11 (drop_bit 52 v)" "v AND 0x000FFFFFFFFFFFFF = take_bit 52 v"
    by (simp_all add: take_bit_eq_mask mask_eq_exp_minus_1)
  show "uint (drop_bit 52 v AND 0x7FF) = int (f64_exp v)"
    unfolding m(1) f64_exp_def uint_nat by (simp add: unat_take_bit_mod unat_drop_bit_div)
  show u: "unat (v AND 0x000FFFFFFFFFFFFF) = f64_mant v"
    unfolding m(2) f64_mant_def by (simp add: unat_take_bit_mod)
  have b: "\<not> (bit (take_bit 52 v) n \<and> bit (0x0010000000000000 :: u64) n)" for n
  proof -
    have "bit (0x0010000000000000 :: u64) n \<Longrightarrow> n = 52" using bit_exp_iff [where ?'a = int, of 52 n] by simp
    then show ?thesis by (auto simp only: bit_take_bit_iff)
  qed
  have "take_bit 52 v AND 0x0010000000000000 = 0"
    using b by (intro bit_word_eqI) (simp only: bit_and_iff bit_0_eq bot_apply bot_bool_def)
  from disjunctive_add_eq_or [OF this]
  have "(v AND 0x000FFFFFFFFFFFFF) OR 0x0010000000000000 = take_bit 52 v + 0x0010000000000000"
    unfolding m(2) by (rule sym)
  also have "unat \<dots> = f64_mant v + 2 ^ 52"
    using u f64_mant_less [of v] unfolding m(2) by (subst unat_plus_exact) simp_all
  finally show "unat ((v AND 0x000FFFFFFFFFFFFF) OR 0x0010000000000000) = 2 ^ 52 + f64_mant v" by simp
qed

lemma unat_or_sign:
  assumes "unat (x :: u16) < 0x8000"
  shows "unat ((if s then 0x8000 else 0) OR x) = (if s then 0x8000 else 0) + unat x"
proof (cases s)
  case True
  have "\<not> bit x 15"
  proof -
    have "x = take_bit 15 x" using assms by (simp add: word_unat_eq_iff unat_take_bit_mod)
    then show ?thesis using bit_take_bit_iff [of 15 x 15] by simp
  qed
  then have "0x8000 AND x = 0"
    by (intro bit_word_eqI) (auto simp: bit_and_iff bit_0x8000)
  from disjunctive_add_eq_or [OF this] have "0x8000 OR x = 0x8000 + x" by simp
  then show ?thesis using True assms by (simp add: unat_plus_exact)
qed simp

lemma round_even_le_ge: "n div 2 ^ k \<le> round_even n k" "round_even n k \<le> n div 2 ^ k + 1"
  by (simp_all add: round_even_def Let_def)

lemma round_even_zero: "2 * n < 2 ^ k \<Longrightarrow> round_even n k = 0"
  by (simp add: round_even_def Let_def)

text \<open>The cases of \<open>f64_to_f16_bits\<close> on a finite double, by the exponent.\<close>

lemma f16_round_code_normal:
  assumes "f64_exp v = Suc e" "S = 2 ^ 52 + f64_mant v"
  shows "f16_round_code (f64_mag v) =
    (if e < 1008 then min (round_even S (1050 - e)) 0x7C00 else min ((e - 1008) * 1024 + round_even S 42) 0x7C00)"
proof -
  have mag: "f64_mag v = S * 2 ^ e" using assms by (simp add: f64_mag_def)
  have "floor_log2 S = 52" using f64_mant_less [of v] by (intro floor_log2_eqI) (simp_all add: assms(2))
  then have l: "floor_log2 (S * 2 ^ e) = 52 + e" using assms(2) by (subst floor_log2_mult_power) simp_all
  show ?thesis
  proof (cases "e < 1008")
    case True
    then have "max 1050 (floor_log2 (S * 2 ^ e) - 10) = (1050 - e) + e" by (simp add: l)
    then show ?thesis using True round_even_shift [of S e "1050 - e"] by (simp add: f16_round_code_def mag Let_def)
  next
    case False
    then have "max 1050 (floor_log2 (S * 2 ^ e) - 10) = 42 + e" "42 + e - 1050 = e - 1008" by (simp_all add: l)
    then show ?thesis using False by (simp only: f16_round_code_def mag Let_def round_even_shift if_False)
  qed
qed

lemma unat_f64_to_f16_bits:
  assumes "f64_is_finite v"
  shows "unat (f64_to_f16_bits v) = (if f64_sign v then 0x8000 else 0) + f16_round_code (f64_mag v)"
proof (cases "f64_exp v")
  case 0
  have "round_even (f64_mag v) 1050 = 0" "floor_log2 (f64_mag v) - 10 \<le> 1050"
  proof -
    have m: "f64_mag v < 2 ^ 52" by (rule f64_mag_le_subnormal [OF 0])
    then have "2 * f64_mag v < 2 ^ 53" by simp
    also have "(2 :: nat) ^ 53 \<le> 2 ^ 1050" by (intro power_increasing) simp_all
    finally show "round_even (f64_mag v) 1050 = 0" by (rule round_even_zero)
    show "floor_log2 (f64_mag v) - 10 \<le> 1050" using floor_log2_small [of "f64_mag v"] m by simp
  qed
  then have "f16_round_code (f64_mag v) = 0" by (simp add: f16_round_code_def max_def)
  moreover have "f64_to_f16_bits v = (if f64_sign v then 0x8000 else 0)"
    unfolding f64_to_f16_bits_def Let_def f16_fields_of_f64 0 by simp
  ultimately show ?thesis by simp
next
  case (Suc e)
  define S where "S = 2 ^ 52 + f64_mant v"
  let ?s = "if f64_sign v then 0x8000 else 0 :: u16" and ?w = "(v AND 0x000FFFFFFFFFFFFF) OR 0x0010000000000000"
  have S: "2 ^ 52 \<le> S" "S < 2 ^ 53" using f64_mant_less [of v] by (simp_all add: S_def)
  have w: "unat ?w = S" using f16_fields_of_f64(4) by (simp add: S_def)
  note code = f16_round_code_normal [OF Suc S_def]
  have e: "Suc e \<noteq> 2047" using assms Suc by (simp add: f64_is_finite_def)
  have bits: "f64_to_f16_bits v =
     (if e \<ge> 1038 then ?s OR 0x7C00
      else if e < 1008 then (if e \<le> 986 then ?s else ?s OR ucast (half_round ?w (1050 - e)))
      else let result = push_bit 10 (word_of_int (int e - 1007) - 1 :: u32) + ucast (half_round ?w 42)
           in if drop_bit 10 result \<ge> 0x1F then ?s OR 0x7C00 else ?s OR ucast result)"
  proof -
    have "nat (43 - (int (Suc e) - 1023 + 15)) = 1050 - e" if "e < 1008" using that by simp
    then show ?thesis
      using e unfolding f64_to_f16_bits_def Let_def f16_fields_of_f64 Suc by (auto simp: algebra_simps)
  qed
  consider "1038 \<le> e" | "e \<le> 986" | "986 < e" "e < 1008" | "1008 \<le> e" "e < 1038" by linarith
  then show ?thesis
  proof cases
    case 1
    have "2 ^ 52 div 2 ^ 42 \<le> S div 2 ^ 42" using S(1) by (rule div_le_mono)
    then have "1024 \<le> round_even S 42" using round_even_le_ge(1) [of S 42] by simp
    then have "f16_round_code (f64_mag v) = 0x7C00" using 1 by (simp add: code)
    then show ?thesis using 1 unat_or_sign [of "0x7C00" "f64_sign v"] by (simp add: bits)
  next
    case 2
    have "(2 :: nat) ^ 54 \<le> 2 ^ (1050 - e)" using 2 by (intro power_increasing) simp_all
    then have "round_even S (1050 - e) = 0" using S(2) by (intro round_even_zero) simp
    then show ?thesis using 2 by (simp add: bits code)
  next
    case 3
    have r: "unat (half_round ?w (1050 - e)) = round_even S (1050 - e)"
      using 3 S(2) by (subst unat_half_round) (simp_all add: w)
    have "(2 :: nat) ^ 43 \<le> 2 ^ (1050 - e)" using 3 by (intro power_increasing) simp_all
    then have "S div 2 ^ (1050 - e) \<le> S div 2 ^ 43" by (intro div_le_mono2) simp_all
    also have "\<dots> < 1024" using S(2) by auto
    finally have lt: "round_even S (1050 - e) < 0x7C00" using round_even_le_ge(2) [of S "1050 - e"] by simp
    then have u: "unat (ucast (half_round ?w (1050 - e)) :: u16) = round_even S (1050 - e)"
      by (simp add: unat_ucast_mod r)
    have "unat (f64_to_f16_bits v) = (if f64_sign v then 0x8000 else 0) + round_even S (1050 - e)"
      using 3 lt u unat_or_sign [of "ucast (half_round ?w (1050 - e))" "f64_sign v"] by (simp add: bits)
    then show ?thesis using 3 lt by (simp add: code)
  next
    case 4
    have r: "unat (half_round ?w 42) = round_even S 42" using S(2) by (subst unat_half_round) (simp_all add: w)
    have "S div 2 ^ 42 < 2 ^ 11" using S(2) by auto
    then have lt: "round_even S 42 \<le> 2048" using round_even_le_ge(2) [of S 42] by simp
    define c where "c = (e - 1008) * 1024 + round_even S 42"
    have c: "c < 0x10000" using 4 lt by (simp add: c_def)
    let ?result = "push_bit 10 (word_of_int (int e - 1007) - 1 :: u32) + ucast (half_round ?w 42)"
    have "word_of_int (int e - 1007) - 1 = (of_nat (e - 1008) :: u32)" using 4 by (simp add: of_nat_diff)
    then have res: "?result = of_nat c"
    proof -
      have "(ucast (half_round ?w 42) :: u32) = of_nat (round_even S 42)"
        using r lt by (simp add: word_unat_eq_iff unat_ucast_mod unat_of_nat)
      then show ?thesis
        unfolding \<open>word_of_int (int e - 1007) - 1 = (of_nat (e - 1008) :: u32)\<close> by (simp add: c_def push_bit_eq_mult)
    qed
    have uc: "unat (of_nat c :: u32) = c" using c by (simp add: unat_of_nat)
    have big: "drop_bit 10 (of_nat c :: u32) \<ge> 0x1F \<longleftrightarrow> 0x7C00 \<le> c"
    proof -
      have "drop_bit 10 (of_nat c :: u32) \<ge> 0x1F \<longleftrightarrow> 31 \<le> c div 1024"
        by (simp add: word_le_nat_alt unat_drop_bit_div uc)
      also have "\<dots> \<longleftrightarrow> 0x7C00 \<le> c" by (auto simp: less_eq_div_iff_mult_less_eq)
      finally show ?thesis .
    qed
    have bits': "f64_to_f16_bits v = (if 0x7C00 \<le> c then ?s OR 0x7C00 else ?s OR ucast (of_nat c :: u32))"
      unfolding bits Let_def res big using 4 by simp
    have "unat (f64_to_f16_bits v) = (if f64_sign v then 0x8000 else 0) + min c 0x7C00"
    proof (cases "0x7C00 \<le> c")
      case True
      then show ?thesis using unat_or_sign [of "0x7C00" "f64_sign v"] by (simp add: bits')
    next
      case False
      then have "unat (ucast (of_nat c :: u32) :: u16) = c" by (simp add: unat_ucast_mod uc)
      then show ?thesis
        using False unat_or_sign [of "ucast (of_nat c :: u32)" "f64_sign v"] by (simp add: bits')
    qed
    then show ?thesis using 4 by (simp add: code c_def)
  qed
qed

subsection \<open>The nearest half float\<close>

definition f16_exp_of :: "nat \<Rightarrow> nat" where
  "f16_exp_of n = max 1050 (floor_log2 n - 10) - 1050"

lemma round_even_bounds:
  assumes "0 < n"
  defines "k \<equiv> 1050 + f16_exp_of n"
  shows "round_even n k \<le> 2048" "0 < f16_exp_of n \<Longrightarrow> 1024 * 2 ^ k \<le> n" "0 < f16_exp_of n \<Longrightarrow> 1024 \<le> round_even n k"
    "n < 2048 * 2 ^ k"
proof -
  note b = floor_log2_bounds [OF assms(1)]
  have k: "k = max 1050 (floor_log2 n - 10)" by (simp add: k_def f16_exp_of_def)
  have "(2 :: nat) ^ Suc (floor_log2 n) \<le> 2 ^ (11 + k)" unfolding k by (intro power_increasing) (auto simp: max_def)
  then show u: "n < 2048 * 2 ^ k" using b by (simp add: power_add)
  have "n div 2 ^ k < 2048" using u by (simp add: less_mult_imp_div_less)
  then show "round_even n k \<le> 2048" using round_even_le_ge(2) [of n k] by simp
  show l: "1024 * 2 ^ k \<le> n" if "0 < f16_exp_of n"
  proof -
    have "floor_log2 n = 10 + k" using that unfolding k f16_exp_of_def by (simp split: split_max)
    then show ?thesis using b by (simp add: power_add)
  qed
  show "1024 \<le> round_even n k" if "0 < f16_exp_of n"
  proof -
    have "1024 \<le> n div 2 ^ k" using l [OF that] by (simp add: less_eq_div_iff_mult_less_eq)
    then show ?thesis using round_even_le_ge(1) [of n k] by simp
  qed
qed

lemma f16_code_mag_rounded:
  assumes "r \<le> 2048" "0 < x \<Longrightarrow> 1024 \<le> r"
  shows "f16_code_mag (x * 1024 + r) = r * 2 ^ x"
proof -
  consider "r < 1024" | "1024 \<le> r" "r < 2048" | "r = 2048" using assms(1) by linarith
  then show ?thesis
  proof cases
    case 1
    then show ?thesis using assms(2) by (cases "x = 0") (simp_all add: f16_code_mag_def)
  next
    case 2
    have c: "x * 1024 + r = (r - 1024) + (x + 1) * 1024" using 2 by simp
    have "(x * 1024 + r) div 1024 = x + 1" "(x * 1024 + r) mod 1024 = r - 1024"
      unfolding c using 2 by (simp_all only: div_mult_self3 mod_mult_self1) simp_all
    then show ?thesis using 2 by (simp add: f16_code_mag_def)
  next
    case 3
    have c: "x * 1024 + r = 0 + (x + 2) * 1024" using 3 by simp
    have "(x * 1024 + r) div 1024 = x + 2" "(x * 1024 + r) mod 1024 = 0"
      unfolding c by (simp_all only: div_mult_self3 mod_mult_self1) simp_all
    then show ?thesis using 3 by (simp add: f16_code_mag_def)
  qed
qed

lemma f16_code_mag_grid: "2 ^ x dvd f16_code_mag c \<or> f16_code_mag c < 1024 * 2 ^ x"
proof (cases "x \<le> c div 1024 - 1 \<and> c div 1024 \<noteq> 0")
  case True
  then show ?thesis by (simp add: f16_code_mag_def dvd_mult le_imp_power_dvd)
next
  case False
  have lt: "c mod 1024 < 1024" by simp
  show ?thesis
  proof (cases "c div 1024")
    case 0
    have "c mod 1024 < 1024 * 2 ^ x" using lt by (rule less_le_trans) simp
    then show ?thesis using 0 by (simp add: f16_code_mag_def)
  next
    case (Suc j)
    then have "(2 :: nat) ^ Suc j \<le> 2 ^ x" using False by (intro power_increasing) simp_all
    then have le: "1024 * 2 ^ Suc j \<le> 1024 * (2 :: nat) ^ x" by simp
    have "(1024 + c mod 1024) * 2 ^ j < 2048 * 2 ^ j" using lt by (intro mult_strict_right_mono) simp_all
    also have "\<dots> \<le> 1024 * 2 ^ x" using le by simp
    finally show ?thesis using Suc by (simp add: f16_code_mag_def)
  qed
qed

text \<open>A grid of step \<open>s\<close>: the rounded point is no farther from \<open>n\<close> than any other.\<close>

lemma nearest_on_grid:
  fixes n r w s :: int
  assumes "0 < s" "2 * \<bar>r * s - n\<bar> \<le> s" "w \<noteq> r"
  shows "s \<le> 2 * \<bar>w * s - n\<bar>" "\<bar>r * s - n\<bar> = \<bar>w * s - n\<bar> \<Longrightarrow> 2 * \<bar>r * s - n\<bar> = s"
proof -
  have "s \<le> \<bar>w - r\<bar> * s" using assms(1,3) by (simp add: mult_le_cancel_right1)
  also have "\<dots> = \<bar>w * s - r * s\<bar>" using assms(1) by (simp add: abs_mult flip: left_diff_distrib)
  finally have d: "s \<le> \<bar>w * s - n\<bar> + \<bar>r * s - n\<bar>" by linarith
  have "s \<le> 2 * a" if "s \<le> a + b" "2 * b \<le> s" for a b :: int using that by linarith
  from this [OF d assms(2)] show "s \<le> 2 * \<bar>w * s - n\<bar>" .
  show "2 * \<bar>r * s - n\<bar> = s" if "\<bar>r * s - n\<bar> = \<bar>w * s - n\<bar>" using d [folded that] assms(2) by (simp only: mult_2)
qed

lemma f16_nearest:
  fixes n :: nat
  assumes "0 < n"
  defines "k \<equiv> 1050 + f16_exp_of n"
  defines "D \<equiv> \<bar>int (round_even n k) * 2 ^ k - int n\<bar>"
  shows "D \<le> \<bar>int (f16_code_mag c) * 2 ^ 1050 - int n\<bar>"
    "D = \<bar>int (f16_code_mag c) * 2 ^ 1050 - int n\<bar> \<Longrightarrow> int (f16_code_mag c) * 2 ^ 1050 \<noteq> int (round_even n k) * 2 ^ k \<Longrightarrow>
      even (round_even n k)"
proof -
  note near = round_even_nearest [of n k, folded D_def]
  have s: "(0 :: int) < 2 ^ k" by simp
  have grid: "D \<le> \<bar>w * 2 ^ k - int n\<bar>" "D = \<bar>w * 2 ^ k - int n\<bar> \<Longrightarrow> w \<noteq> int (round_even n k) \<Longrightarrow> even (round_even n k)" for w
  proof -
    show "D \<le> \<bar>w * 2 ^ k - int n\<bar>"
      using near(1) nearest_on_grid(1) [OF s near(1) [unfolded D_def], of w]
      by (cases "w = int (round_even n k)") (simp_all add: D_def)
    show "even (round_even n k)" if "D = \<bar>w * 2 ^ k - int n\<bar>" "w \<noteq> int (round_even n k)"
      using near(2) nearest_on_grid(2) [OF s near(1) [unfolded D_def] that(2)] that(1) unfolding D_def by simp
  qed
  have p: "(2 :: int) ^ k = 2 ^ f16_exp_of n * 2 ^ 1050" by (simp add: k_def power_add mult.commute)
  consider w where "f16_code_mag c = 2 ^ f16_exp_of n * w" | "0 < f16_exp_of n" "f16_code_mag c < 1024 * 2 ^ f16_exp_of n"
    using f16_code_mag_grid [of "f16_exp_of n" c] by (cases "f16_exp_of n = 0") (auto elim: dvdE)
  then show "D \<le> \<bar>int (f16_code_mag c) * 2 ^ 1050 - int n\<bar>"
    "D = \<bar>int (f16_code_mag c) * 2 ^ 1050 - int n\<bar> \<Longrightarrow> int (f16_code_mag c) * 2 ^ 1050 \<noteq> int (round_even n k) * 2 ^ k \<Longrightarrow>
      even (round_even n k)"
  proof (atomize (full), cases)
    case (1 w)
    then have "int (f16_code_mag c) * 2 ^ 1050 = int w * 2 ^ k" by (simp add: p)
    then show "D \<le> \<bar>int (f16_code_mag c) * 2 ^ 1050 - int n\<bar> \<and> (D = \<bar>int (f16_code_mag c) * 2 ^ 1050 - int n\<bar> \<longrightarrow>
       int (f16_code_mag c) * 2 ^ 1050 \<noteq> int (round_even n k) * 2 ^ k \<longrightarrow> even (round_even n k))"
      using grid [of "int w"] by auto
  next
    case 2
    have "int (f16_code_mag c) < 1024 * 2 ^ f16_exp_of n"
      using 2(2) by (metis of_nat_less_iff of_nat_mult of_nat_numeral of_nat_power)
    then have "int (f16_code_mag c) * 2 ^ 1050 < 1024 * 2 ^ f16_exp_of n * 2 ^ 1050" by (intro mult_strict_right_mono) simp_all
    also have "\<dots> = 1024 * 2 ^ k" unfolding p by simp
    finally have lt: "int (f16_code_mag c) * 2 ^ 1050 < 1024 * 2 ^ k" .
    have "1024 * 2 ^ k \<le> n" unfolding k_def by (rule round_even_bounds(2) [OF assms(1) 2(1)])
    then have "1024 * 2 ^ k \<le> int n" by (metis of_nat_le_iff of_nat_mult of_nat_numeral of_nat_power)
    then show "D \<le> \<bar>int (f16_code_mag c) * 2 ^ 1050 - int n\<bar> \<and> (D = \<bar>int (f16_code_mag c) * 2 ^ 1050 - int n\<bar> \<longrightarrow>
       int (f16_code_mag c) * 2 ^ 1050 \<noteq> int (round_even n k) * 2 ^ k \<longrightarrow> even (round_even n k))"
      using grid(1) [of 1024] lt by linarith
  qed
qed

lemma f16_round_code_eq:
  "f16_round_code n = min (f16_exp_of n * 1024 + round_even n (1050 + f16_exp_of n)) 0x7C00"
  by (simp add: f16_round_code_def f16_exp_of_def Let_def)

lemma f16_round_code_0: "f16_round_code 0 = 0"
  by (simp add: f16_round_code_def round_even_def floor_log2.simps)

lemma f16_overflow_iff:
  assumes "0 < n"
  shows "0x7C00 \<le> f16_exp_of n * 1024 + round_even n (1050 + f16_exp_of n) \<longleftrightarrow> 65520 * 2 ^ 1074 \<le> n"
proof -
  define x k r where "x = f16_exp_of n" and "k = 1050 + x" and "r = round_even n (1050 + x)"
  note b = round_even_bounds [OF assms, folded x_def, folded r_def k_def]
  have c: "65520 * 2 ^ 1074 = 4095 * (2 :: nat) ^ 1078"
  proof -
    have "(2 :: nat) ^ 1078 = 2 ^ 4 * 2 ^ 1074" by (simp only: flip: power_add) simp
    then show ?thesis by simp
  qed
  consider "30 \<le> x" | "x = 29" | "x < 29" by linarith
  then have "0x7C00 \<le> x * 1024 + r \<longleftrightarrow> 4095 * 2 ^ 1078 \<le> n"
  proof cases
    case 1
    have "4095 * (2 :: nat) ^ 1078 \<le> 1024 * 2 ^ 1080"
    proof -
      have "(2 :: nat) ^ 1080 = 2 ^ 2 * 2 ^ 1078" by (simp only: flip: power_add) simp
      then show ?thesis by simp
    qed
    also have "1024 * 2 ^ 1080 \<le> 1024 * (2 :: nat) ^ k" using 1 by (intro mult_le_mono2 power_increasing) (simp_all add: k_def)
    also have "\<dots> \<le> n" using 1 by (intro b(2)) simp
    finally show ?thesis using 1 b(3) by simp
  next
    case 2
    have p: "(2 :: nat) ^ k = 2 * 2 ^ 1078" using power_Suc [of "2 :: nat" 1078] 2 by (simp add: k_def)
    define P where "P = (2 :: nat) ^ 1078"
    have lt: "n < 2048 * (2 * P)" using b(4) by (simp add: p P_def)
    have "r = 2048 \<longleftrightarrow> 4095 * P \<le> n"
    proof
      assume le: "4095 * P \<le> n"
      have "n div (2 * P) = 2047" using le lt by (intro div_nat_eqI) simp_all
      moreover have "2 * P \<le> 2 * (n mod (2 * P))"
        using le div_mult_mod_eq [of n "2 * P"] unfolding calculation by linarith
      ultimately show "r = 2048"
        unfolding r_def k_def [symmetric] round_even_def Let_def p P_def [symmetric] by auto
    next
      have ip: "int (2 * P) = 2 ^ k" by (simp only: P_def p [symmetric] of_nat_power of_nat_numeral)
      assume "r = 2048"
      moreover have "2 * \<bar>int r * int (2 * P) - int n\<bar> \<le> int (2 * P)"
        using round_even_nearest(1) [of n k] unfolding r_def k_def [symmetric] ip .
      ultimately show "4095 * P \<le> n" by simp
    qed
    then show ?thesis using 2 b(1) by (auto simp: P_def)
  next
    case 3
    have "n < 2048 * 2 ^ k" by (rule b)
    also have "\<dots> \<le> 2048 * 2 ^ 1078" using 3 by (intro mult_le_mono2 power_increasing) (simp_all add: k_def)
    also have "\<dots> \<le> 4095 * 2 ^ 1078" by (intro mult_le_mono1) simp
    finally show ?thesis using 3 b(1) by simp
  qed
  then show ?thesis unfolding c x_def r_def .
qed

lemma f16_fields_of_rounded:
  assumes "f64_is_finite v"
  shows "f16_sign (f64_to_f16_bits v) = f64_sign v" "f16_code (f64_to_f16_bits v) = f16_round_code (f64_mag v)"
proof -
  have "f16_round_code (f64_mag v) \<le> 0x7C00" by (simp add: f16_round_code_def Let_def)
  then show "f16_sign (f64_to_f16_bits v) = f64_sign v" "f16_code (f64_to_f16_bits v) = f16_round_code (f64_mag v)"
    by (simp_all add: f16_sign_def f16_code_def unat_f64_to_f16_bits [OF assms])
qed

lemma f16_rounded_finite:
  assumes "0 < n" "f16_round_code n < 0x7C00"
  shows "f16_round_code n = f16_exp_of n * 1024 + round_even n (1050 + f16_exp_of n)"
    "int (f16_code_mag (f16_round_code n)) * 2 ^ 1050 = int (round_even n (1050 + f16_exp_of n)) * 2 ^ (1050 + f16_exp_of n)"
proof -
  show c: "f16_round_code n = f16_exp_of n * 1024 + round_even n (1050 + f16_exp_of n)"
    using assms(2) by (simp add: f16_round_code_eq)
  show "int (f16_code_mag (f16_round_code n)) * 2 ^ 1050 = int (round_even n (1050 + f16_exp_of n)) * 2 ^ (1050 + f16_exp_of n)"
    using f16_code_mag_rounded [OF round_even_bounds(1) [OF assms(1)] round_even_bounds(3) [OF assms(1)]]
    unfolding c by (simp add: power_add)
qed

text \<open>Distances of magnitudes; a half float of the other sign is no nearer than zero.\<close>

lemma f16_mag_nearest:
  assumes "f16_round_code n < 0x7C00"
  defines "D \<equiv> \<bar>int (f16_code_mag (f16_round_code n)) * 2 ^ 1050 - int n\<bar>"
  shows "D \<le> \<bar>int (f16_code_mag c) * 2 ^ 1050 - int n\<bar>"
    "D = \<bar>int (f16_code_mag c) * 2 ^ 1050 - int n\<bar> \<Longrightarrow> f16_code_mag c \<noteq> f16_code_mag (f16_round_code n) \<Longrightarrow> even (f16_round_code n)"
proof -
  have "D \<le> \<bar>int (f16_code_mag c) * 2 ^ 1050 - int n\<bar> \<and>
    (D = \<bar>int (f16_code_mag c) * 2 ^ 1050 - int n\<bar> \<longrightarrow> f16_code_mag c \<noteq> f16_code_mag (f16_round_code n) \<longrightarrow> even (f16_round_code n))"
  proof (cases "n = 0")
    case True
    then show ?thesis by (simp add: D_def f16_round_code_0 f16_code_mag_def)
  next
    case False
    then have n: "0 < n" by simp
    note r = f16_rounded_finite [OF n assms(1)]
    show ?thesis
    proof (intro conjI impI)
      show "D \<le> \<bar>int (f16_code_mag c) * 2 ^ 1050 - int n\<bar>" unfolding D_def r(2) by (rule f16_nearest(1) [OF n])
      assume a: "D = \<bar>int (f16_code_mag c) * 2 ^ 1050 - int n\<bar>" "f16_code_mag c \<noteq> f16_code_mag (f16_round_code n)"
      from a(2) have "int (f16_code_mag c) * 2 ^ 1050 \<noteq> int (f16_code_mag (f16_round_code n)) * 2 ^ 1050" by simp
      with a(1) have "even (round_even n (1050 + f16_exp_of n))"
        unfolding D_def r(2) by (rule f16_nearest(2) [OF n])
      then show "even (f16_round_code n)" by (simp add: r(1))
    qed
  qed
  then show "D \<le> \<bar>int (f16_code_mag c) * 2 ^ 1050 - int n\<bar>"
    "D = \<bar>int (f16_code_mag c) * 2 ^ 1050 - int n\<bar> \<Longrightarrow> f16_code_mag c \<noteq> f16_code_mag (f16_round_code n) \<Longrightarrow> even (f16_round_code n)"
    by blast+
qed

lemma signed_distance:
  fixes a b n u :: int
  assumes "0 \<le> a" "0 \<le> n" "0 < u"
  shows "\<bar>(if s then - a else a) * u - (if t then - n else n)\<bar> = (if s = t then \<bar>a * u - n\<bar> else a * u + n)"
  using assms by (cases s; cases t) (auto simp: abs_if algebra_simps zero_le_mult_iff not_less mult_less_0_iff intro: order_antisym add_nonneg_nonneg)

text \<open>C17.
  \<open>f64_to_f16_bits\<close> rounds to the nearest half float, ties to even, in one step: the sign is kept, the result is
  infinite exactly from \<open>65520\<close> on, and otherwise no finite half float is nearer to the double; when
  another one is equally near, the result is the one with the even significand. Values are compared exactly,
  in units of \<open>2 ^ -1074\<close>.\<close>

theorem f64_to_f16_bits_nearest:
  assumes "f64_is_finite v"
  shows "f16_sign (f64_to_f16_bits v) = f64_sign v \<and>
    (f16_is_finite (f64_to_f16_bits v) \<longleftrightarrow> f64_mag v < 65520 * 2 ^ 1074) \<and> \<not> f16_is_nan (f64_to_f16_bits v) \<and>
    (f16_is_finite (f64_to_f16_bits v) \<longrightarrow>
       \<bar>f16_units (f64_to_f16_bits v) * 2 ^ 1050 - f64_units v\<bar> \<le> \<bar>f16_units h * 2 ^ 1050 - f64_units v\<bar> \<and>
       (\<bar>f16_units (f64_to_f16_bits v) * 2 ^ 1050 - f64_units v\<bar> = \<bar>f16_units h * 2 ^ 1050 - f64_units v\<bar> \<and>
          f16_units h \<noteq> f16_units (f64_to_f16_bits v) \<longrightarrow> even (unat (f64_to_f16_bits v))))"
proof -
  define n c where "n = f64_mag v" and "c = f16_round_code (f64_mag v)"
  note fields = f16_fields_of_rounded [OF assms]
  have le: "c \<le> 0x7C00" by (simp add: c_def f16_round_code_def Let_def)
  have fin: "f16_is_finite (f64_to_f16_bits v) \<longleftrightarrow> n < 65520 * 2 ^ 1074"
  proof (cases "n = 0")
    case True
    then show ?thesis by (simp add: f16_is_finite_def fields n_def f16_round_code_0)
  next
    case False
    have "c < 0x7C00 \<longleftrightarrow> \<not> 0x7C00 \<le> f16_exp_of n * 1024 + round_even n (1050 + f16_exp_of n)"
      unfolding c_def n_def [symmetric] f16_round_code_eq by auto
    then show ?thesis using f16_overflow_iff [of n] False by (simp only: f16_is_finite_def fields c_def) auto
  qed
  define U where "U = (2 :: int) ^ 1050"
  have U: "0 < U" by (simp add: U_def)
  let ?m = "int (f16_code_mag c)" and ?m' = "int (f16_code_mag (f16_code h))"
  have dist: "\<bar>f16_units (f64_to_f16_bits v) * U - f64_units v\<bar> = \<bar>?m * U - int n\<bar>"
    using signed_distance [of ?m "int n" U "f64_sign v" "f64_sign v"] U unfolding f16_units_def f64_units_def fields c_def n_def by simp
  have dist': "\<bar>f16_units h * U - f64_units v\<bar> = (if f16_sign h = f64_sign v then \<bar>?m' * U - int n\<bar> else ?m' * U + int n)"
    using signed_distance [of ?m' "int n" U "f16_sign h" "f64_sign v"] U unfolding f16_units_def f64_units_def n_def by simp
  have even: "even (unat (f64_to_f16_bits v)) \<longleftrightarrow> even c"
    by (simp add: unat_f64_to_f16_bits [OF assms] c_def)
  have near: "\<bar>f16_units (f64_to_f16_bits v) * U - f64_units v\<bar> \<le> \<bar>f16_units h * U - f64_units v\<bar> \<and>
      (\<bar>f16_units (f64_to_f16_bits v) * U - f64_units v\<bar> = \<bar>f16_units h * U - f64_units v\<bar> \<and>
       f16_units h \<noteq> f16_units (f64_to_f16_bits v) \<longrightarrow> even (unat (f64_to_f16_bits v)))"
    if "f16_is_finite (f64_to_f16_bits v)"
  proof -
    have lt: "f16_round_code n < 0x7C00" using that by (simp add: f16_is_finite_def fields n_def)
    note nearest = f16_mag_nearest [OF lt, folded U_def, unfolded n_def, folded c_def n_def]
    show ?thesis
    proof (cases "f16_sign h = f64_sign v")
      case True
      have "f16_units h = f16_units (f64_to_f16_bits v)" if "f16_code_mag (f16_code h) = f16_code_mag c"
        using True that by (simp add: f16_units_def fields c_def)
      then show ?thesis unfolding dist dist' even using nearest [of "f16_code h"] True by auto
    next
      case False
      have z: "\<bar>int (f16_code_mag 0) * U - int n\<bar> = int n" by (simp add: f16_code_mag_def)
      note n0 = nearest [of 0, unfolded z]
      have nn: "0 \<le> ?m' * U" using U by simp
      have "\<bar>?m * U - int n\<bar> \<le> ?m' * U + int n" using n0(1) nn by linarith
      moreover have "even c" if eq: "\<bar>?m * U - int n\<bar> = ?m' * U + int n" and ne: "f16_units h \<noteq> f16_units (f64_to_f16_bits v)"
      proof -
        have 0: "?m' * U = 0" "\<bar>?m * U - int n\<bar> = int n" using eq n0(1) nn by linarith+
        then have "f16_units h = 0" using U by (simp add: f16_units_def)
        then have "f16_units (f64_to_f16_bits v) \<noteq> 0" using ne by simp
        then have "f16_code_mag c \<noteq> 0" unfolding f16_units_def fields c_def by (simp split: if_splits)
        then show ?thesis using n0(2) [OF 0(2)] by (simp add: f16_code_mag_def)
      qed
      ultimately show ?thesis unfolding dist dist' even using False by simp
    qed
  qed
  have "\<not> f16_is_nan (f64_to_f16_bits v)" using le by (simp add: f16_is_nan_def fields c_def)
  then show ?thesis using fields(1) fin near unfolding U_def n_def by blast
qed

text \<open>The tie \<open>1 + 2 ^ -11\<close> between \<open>1\<close> and the next half float goes to \<open>1\<close>.\<close>

theorem f64_to_f16_bits_nearest_witness:
  "f64_to_f16_bits 0x3FF0020000000000 = 0x3C00 \<and>
   \<bar>f16_units 0x3C00 * 2 ^ 1050 - f64_units 0x3FF0020000000000\<bar> \<le> \<bar>f16_units 0x3C01 * 2 ^ 1050 - f64_units 0x3FF0020000000000\<bar>"
proof -
  have fin: "f64_is_finite 0x3FF0020000000000" by (simp add: f64_is_finite_def f64_exp_def)
  have e: "f64_to_f16_bits 0x3FF0020000000000 = 0x3C00" by code_simp
  have "f16_is_finite 0x3C00" by (simp add: f16_is_finite_def f16_code_def)
  then show ?thesis using f64_to_f16_bits_nearest [OF fin, of "0x3C01"] unfolding e by blast
qed

subsection \<open>Decoding\<close>

lemma f16_decompose:
  "unat h = (if f16_sign h then 0x8000 else 0) + f16_code h"
  "bits AND 0x8000 \<noteq> 0 \<longleftrightarrow> f16_sign bits"
  "uint (drop_bit 10 bits AND 0x1F) = int (f16_code bits div 1024)"
  "unat (ucast (bits AND 0x03FF) :: u64) = f16_code bits mod 1024"
proof -
  have lt: "unat x < 0x10000" for x :: u16 using unsigned_less [of x] by simp
  show d: "unat h = (if f16_sign h then 0x8000 else 0) + f16_code h" for h
    using lt [of h] by (auto simp: f16_sign_def f16_code_def mod_if)
  have s: "bits AND 0x8000 = push_bit 15 (drop_bit 15 bits)"
  proof (rule bit_word_eqI)
    fix i
    assume "i < LENGTH(16)"
    then have "15 \<le> i \<longleftrightarrow> i = 15" by auto
    then show "bit (bits AND 0x8000) i = bit (push_bit 15 (drop_bit 15 bits)) i"
      by (auto simp: bit_and_iff bit_push_bit_iff bit_drop_bit_eq bit_0x8000)
  qed
  have "bits AND 0x8000 = 0 \<longleftrightarrow> drop_bit 15 bits = 0"
  proof
    assume "bits AND 0x8000 = 0"
    then have "\<not> bit (bits AND 0x8000) 15" by simp
    then have b: "\<not> bit bits 15" by (simp add: bit_and_iff bit_0x8000)
    show "drop_bit 15 bits = 0"
    proof (rule bit_word_eqI)
      fix i
      assume "i < LENGTH(16)"
      show "bit (drop_bit 15 bits) i = bit 0 i"
        using b bit_imp_le_length [of bits "15 + i"] by (cases i) (auto simp: bit_drop_bit_eq)
    qed
  qed (simp add: s)
  also have "\<dots> \<longleftrightarrow> unat bits div 0x8000 = 0" by (simp add: word_unat_eq_iff unat_drop_bit_div)
  finally show "bits AND 0x8000 \<noteq> 0 \<longleftrightarrow> f16_sign bits" by (simp add: f16_sign_def not_less div_eq_0_iff)
  have "drop_bit 10 bits AND 0x1F = take_bit 5 (drop_bit 10 bits)" "bits AND 0x03FF = take_bit 10 bits"
    by (simp_all add: take_bit_eq_mask mask_eq_exp_minus_1)
  moreover have "unat bits div 1024 mod 32 = f16_code bits div 1024"
    using mod_mult2_eq [of "unat bits" 1024 32] by (simp add: f16_code_def)
  moreover have "unat bits mod 1024 = f16_code bits mod 1024" by (simp add: f16_code_def mod_mod_cancel)
  ultimately show "uint (drop_bit 10 bits AND 0x1F) = int (f16_code bits div 1024)"
    "unat (ucast (bits AND 0x03FF) :: u64) = f16_code bits mod 1024"
    by (simp_all add: uint_nat unat_take_bit_mod unat_drop_bit_div unat_ucast_mod)
qed

lemma f16_bits_to_f64_finite:
  assumes "f16_is_finite h"
  shows "f64_is (f16_bits_to_f64 h) (f16_sign h) (f16_code_mag (f16_code h) * 2 ^ 1050)"
proof -
  define E m where "E = f16_code h div 1024" and "m = f16_code h mod 1024"
  let ?sign = "if f16_sign h then f64_neg (f64_pow2 0) else f64_pow2 0"
  let ?mant = "f64_of_u64 (ucast (h AND 0x03FF))"
  have E: "E < 31" using assms unfolding f16_is_finite_def E_def by (simp add: less_mult_imp_div_less)
  have m: "m < 1024" by (simp add: m_def)
  then have m53: "m < 2 ^ 53" "1024 + m < 2 ^ 53" by simp_all
  have one: "f64_is (f64_pow2 0) False (2 ^ 1074)" using f64_pow2_is [of 0] by (simp del: power_numeral)
  have s: "f64_is ?sign (f16_sign h) (2 ^ 1074)" using one f64_neg_is [OF one] by (simp del: power_numeral)
  have um: "unat (ucast (h AND 0x03FF) :: u64) = m" by (simp add: f16_decompose m_def)
  have mant: "f64_is ?mant False (m * 2 ^ 1074)"
    using f64_of_u64_is [of "ucast (h AND 0x03FF)"] m unfolding um by simp
  have bits: "f16_bits_to_f64 h =
    (if E = 0 then f64_mul (f64_mul ?sign ?mant) (f64_pow2 (- 24))
     else f64_mul (f64_mul ?sign (f64_add (f64_pow2 0) (f64_div_1024 ?mant))) (f64_pow2 (int E - 15)))"
    using E unfolding f16_bits_to_f64_def Let_def f16_decompose E_def [symmetric] by simp
  show ?thesis
  proof (cases "E = 0")
    case True
    have "f64_is (f64_mul ?sign ?mant) (f16_sign h \<noteq> False) (m * 2 ^ 1074)"
      by (rule f64_mul_is [OF s mant]) (use m53 in \<open>simp_all add: power_add mult_ac del: power_numeral\<close>)
    moreover have "f64_is (f64_pow2 (- 24)) False (2 ^ 1050)" using f64_pow2_is [of "- 24"] by (simp del: power_numeral)
    ultimately have "f64_is (f64_mul (f64_mul ?sign ?mant) (f64_pow2 (- 24))) ((f16_sign h \<noteq> False) \<noteq> False) (m * 2 ^ 1050)"
      by (rule f64_mul_is) (use m53 in \<open>simp_all add: power_add mult_ac del: power_numeral\<close>)
    then show ?thesis using True unfolding bits f16_code_mag_def E_def [symmetric] m_def [symmetric] by (simp del: power_numeral)
  next
    case False
    have p1074: "(2 :: nat) ^ 1074 = 1024 * 2 ^ 1064" by simp
    have "f64_is (f64_div_1024 ?mant) False (m * 2 ^ 1064)"
      using mant f64_round_is [of "m * 2 ^ 1074" m 1064 10 False] m53 unfolding f64_div_1024_def f64_is_def
      by (simp del: power_numeral)
    then have "f64_is (f64_add (f64_pow2 0) (f64_div_1024 ?mant)) False ((1024 + m) * 2 ^ 1064)"
      by (rule f64_add_is [OF one]) (use m53 in \<open>simp_all add: p1074 distrib_right del: power_numeral\<close>)
    then have "f64_is (f64_mul ?sign (f64_add (f64_pow2 0) (f64_div_1024 ?mant))) (f16_sign h \<noteq> False) ((1024 + m) * 2 ^ 1064)"
      by (rule f64_mul_is [OF s]) (use m53 in \<open>simp_all add: power_add mult_ac del: power_numeral\<close>)
    moreover have "f64_is (f64_pow2 (int E - 15)) False (2 ^ (1059 + E))"
    proof -
      have "nat (1074 + (int E - 15)) = 1059 + E" by simp
      then show ?thesis using f64_pow2_is [of "int E - 15"] E by (simp del: power_numeral)
    qed
    moreover have "(1024 + m) * 2 ^ 1064 * 2 ^ (1059 + E) = (1024 + m) * 2 ^ ((1049 + E) + 1074)"
      unfolding mult.assoc power_add [symmetric] by simp
    ultimately have "f64_is (f64_mul (f64_mul ?sign (f64_add (f64_pow2 0) (f64_div_1024 ?mant))) (f64_pow2 (int E - 15)))
        ((f16_sign h \<noteq> False) \<noteq> False) ((1024 + m) * 2 ^ (1049 + E))"
      by (rule f64_mul_is) (use m53 E in simp_all)
    moreover have "(1024 + m) * 2 ^ (1049 + E) = (1024 + m) * 2 ^ (E - 1) * 2 ^ 1050"
    proof -
      have "1049 + E = (E - 1) + 1050" using False by simp
      then show ?thesis by (simp only: power_add mult.assoc)
    qed
    ultimately show ?thesis using False unfolding bits f16_code_mag_def E_def [symmetric] m_def [symmetric] by simp
  qed
qed

lemma f16_round_code_mag:
  assumes "c < 0x7C00"
  shows "f16_round_code (f16_code_mag c * 2 ^ 1050) = c"
proof -
  define E m where "E = c div 1024" and "m = c mod 1024"
  have c: "c = E * 1024 + m" and m: "m < 1024" by (simp_all add: E_def m_def)
  define x r where "x = E - 1" and "r = (if E = 0 then m else 1024 + m)"
  have cr: "c = x * 1024 + r" using c by (cases E) (simp_all add: x_def r_def)
  have mag: "f16_code_mag c * 2 ^ 1050 = r * 2 ^ (1050 + x)"
    by (simp add: f16_code_mag_def E_def [symmetric] m_def [symmetric] x_def r_def power_add del: power_numeral)
  have "f16_exp_of (r * 2 ^ (1050 + x)) = x"
  proof (cases "E = 0")
    case True
    have "floor_log2 (r * 2 ^ 1050) \<le> 1060"
    proof (cases "r = 0")
      case False
      then have "(2 :: nat) ^ floor_log2 r < 2 ^ 10" using floor_log2_bounds [of r] m True by (simp add: r_def)
      then have "floor_log2 r < 10" by (rule power_less_imp_less_exp [rotated]) simp
      then show ?thesis using False by (simp add: floor_log2_mult_power del: power_numeral)
    qed (simp add: floor_log2.simps)
    then show ?thesis using True by (simp add: f16_exp_of_def x_def del: power_numeral)
  next
    case False
    then have "floor_log2 r = 10" using m by (intro floor_log2_eqI) (simp_all add: r_def)
    then show ?thesis using False by (simp add: f16_exp_of_def r_def floor_log2_mult_power del: power_numeral)
  qed
  then show ?thesis unfolding mag f16_round_code_eq using assms by (simp add: cr del: power_numeral)
qed

lemma f16_special:
  assumes "\<not> f16_is_finite h"
  shows "f16_bits_to_f64 h = (if f16_is_nan h then f64_NAN else f64_inf (f16_sign h))"
proof -
  define m where "m = f16_code h mod 1024"
  have code: "0x7C00 \<le> f16_code h" "f16_code h < 0x8000" using assms by (simp_all add: f16_is_finite_def f16_code_def)
  have E: "f16_code h div 1024 = 31" using code by (intro div_nat_eqI) simp_all
  then have nan: "f16_is_nan h \<longleftrightarrow> m \<noteq> 0"
    using div_mult_mod_eq [of "f16_code h" 1024] unfolding f16_is_nan_def m_def by auto
  have um: "unat (ucast (h AND 0x03FF) :: u64) = m" by (simp add: f16_decompose m_def)
  have "m < 2 ^ 53" using mod_less_divisor [of 1024 "f16_code h"] by (simp add: m_def)
  then have mant: "f64_is (f64_of_u64 (ucast (h AND 0x03FF))) False (m * 2 ^ 1074)"
    using f64_of_u64_is [of "ucast (h AND 0x03FF)"] unfolding um by simp
  have z: "f64_units 0 = 0" "\<not> f64_is_nan 0"
    by (simp_all add: f64_units_def f64_mag_def f64_exp_def f64_mant_def f64_is_nan_def)
  have eq: "f64_eq (f64_of_u64 (ucast (h AND 0x03FF))) 0 \<longleftrightarrow> m = 0"
    using mant f64_is_not_special [OF mant] z unfolding f64_eq_def by (simp add: f64_is_def f64_units_def)
  have inf: "\<not> f64_is_nan f64_INFINITY" "f64_is_inf f64_INFINITY" "\<not> f64_sign f64_INFINITY" "f64_mag f64_INFINITY \<noteq> 0"
    by (simp_all add: f64_INFINITY_def f64_is_nan_def f64_is_inf_def f64_mag_def f64_exp_def f64_mant_def f64_sign_def)
  have one: "f64_is (f64_pow2 0) False (2 ^ 1074)" using f64_pow2_is [of 0] by (simp del: power_numeral)
  have "f64_mul s f64_INFINITY = f64_inf t" if "f64_is s t (2 ^ 1074)" for s t
    using that inf f64_is_not_special [OF that] unfolding f64_mul_def f64_is_def Let_def by (simp del: power_numeral)
  from this [OF one] this [OF f64_neg_is [OF one]]
  show ?thesis unfolding f16_bits_to_f64_def Let_def f16_decompose(2,3) E eq nan by simp
qed

text \<open>
  Decoding a half float is exact (the chain of floating point operations never rounds), encoding the result gives
  the same bits back, signed zeros, subnormals and infinities included, and a NaN stays a NaN.\<close>

theorem f16_roundtrip:
  "(f16_is_finite h \<longrightarrow> f64_units (f16_bits_to_f64 h) = f16_units h * 2 ^ 1050 \<and> f64_sign (f16_bits_to_f64 h) = f16_sign h) \<and>
   (\<not> f16_is_nan h \<longrightarrow> f64_to_f16_bits (f16_bits_to_f64 h) = h) \<and>
   (f16_is_nan h \<longrightarrow> f64_is_nan (f16_bits_to_f64 h) \<and> f16_is_nan (f64_to_f16_bits (f16_bits_to_f64 h)))"
proof (cases "f16_is_finite h")
  case True
  define w where "w = f16_code_mag (f16_code h)"
  let ?v = "f16_bits_to_f64 h"
  have v: "f64_sign ?v = f16_sign h" "f64_mag ?v = w * 2 ^ 1050" "f64_is_finite ?v"
    using f16_bits_to_f64_finite [OF True] by (simp_all add: f64_is_def w_def)
  have "unat (f64_to_f16_bits ?v) = unat h"
    unfolding unat_f64_to_f16_bits [OF v(3)] v(1,2) w_def f16_decompose(1) [of h]
    using f16_round_code_mag [of "f16_code h"] True by (simp add: f16_is_finite_def)
  then have "f64_to_f16_bits ?v = h" by (simp add: word_unat_eq_iff)
  moreover have "f64_units ?v = f16_units h * 2 ^ 1050"
    unfolding f64_units_def f16_units_def v(1,2) w_def [symmetric] by simp
  moreover have "\<not> f16_is_nan h" using True by (simp add: f16_is_finite_def f16_is_nan_def)
  ultimately show ?thesis using v(1) by blast
next
  case False
  note sp = f16_special [OF False]
  show ?thesis
  proof (cases "f16_is_nan h")
    case True
    have "f64_to_f16_bits f64_NAN = 0x7E00" "f64_is_nan f64_NAN"
      by code_simp (simp add: f64_is_nan_def f64_NAN_def f64_exp_def f64_mant_def)
    then show ?thesis using sp True False by (simp add: f16_is_nan_def f16_code_def)
  next
    case no: False
    have e: "f64_to_f16_bits (f64_inf s) = (if s then 0xFC00 else 0x7C00)" for s
      by (cases s) (simp_all add: f64_inf_def f64_to_f16_bits_def)
    have "f16_code h = 0x7C00" using False no by (simp add: f16_is_finite_def f16_is_nan_def)
    then have "unat h = (if f16_sign h then 0xFC00 else 0x7C00)" using f16_decompose(1) [of h] by simp
    moreover have "f64_to_f16_bits (f16_bits_to_f64 h) = (if f16_sign h then 0xFC00 else 0x7C00)" using sp no by (simp add: e)
    ultimately have "f64_to_f16_bits (f16_bits_to_f64 h) = h" by (simp add: word_unat_eq_iff split: if_splits)
    then show ?thesis using no False by blast
  qed
qed

theorem f16_roundtrip_witness:
  "f64_units (f16_bits_to_f64 0x8001) = f16_units 0x8001 * 2 ^ 1050 \<and> f64_to_f16_bits (f16_bits_to_f64 0x7C00) = 0x7C00 \<and>
   f64_is_nan (f16_bits_to_f64 0x7C01)"
  using f16_roundtrip [of "0x8001"] f16_roundtrip [of "0x7C00"] f16_roundtrip [of "0x7C01"]
  by (simp add: f16_is_finite_def f16_is_nan_def f16_code_def)

end
