(* ===== verification/BigInt_Number.thy ===== *)
theory BigInt_Number
  imports BigInt_Convert NaN_Box F64_Arith
begin

text \<open>
  BigInt against Number: the conversions from and to \<open>f64\<close> of \<open>bigint/convert.rs\<close> and the mixed
  comparison \<open>bigint_cmp_f64\<close> of \<open>bigint/compare.rs\<close>.

  In \<open>limbs_from_integer_f64\<close> the double \<open>mag\<close> is an integer, kept as a natural number: \<open>mag % 2^64\<close> and
  \<open>(mag / 2^64).floor()\<close> are exact on doubles (the remainder always is, the quotient changes the exponent
  only, and \<open>floor\<close> drops low bits). The string a string value holds, the coercion of an object
  (which may run user code) and the decimal text of a fraction in an error message are parameters.
\<close>

fun f64_limbs_loop :: "nat \<Rightarrow> nat \<Rightarrow> u64 list \<times> nat" where
  "f64_limbs_loop 0 mag = ([], mag)"
| "f64_limbs_loop (Suc i) mag =
     (if mag \<ge> 1 then
        (let (limbs, rest) = f64_limbs_loop i (mag div 2 ^ 64) in (of_nat (mag mod 2 ^ 64) # limbs, rest))
      else (replicate (Suc i) 0, mag))"

definition limbs_from_integer_f64 :: "f64 \<Rightarrow> js_throw + u64 list" where
  "limbs_from_integer_f64 v =
     (if f64_eq v 0 then Inr ZERO_LIMBS
      else
        let negative = f64_lt v 0;
            mag = f64_mag v div 2 ^ 1074;
            (limbs, mag) = f64_limbs_loop BIGINT_LIMBS mag
        in if mag \<ge> 1 \<or> \<not> magnitude_fits_1024 limbs negative then Inl throw_bigint_overflow
           else Inr (if negative then negate_limbs limbs else limbs))"

definition number_label :: "(f64 \<Rightarrow> string) \<Rightarrow> f64 \<Rightarrow> string" where
  "number_label format_f64 v =
     (if f64_is_nan v then ''NaN''
      else if f64_is_inf v then (if f64_lt 0 v then ''Infinity'' else ''-Infinity'')
      else format_f64 v)"

definition bigint_from_number where
  "bigint_from_number format_f64 alloc mem v =
     (if \<not> f64_is_finite v \<or> \<not> f64_is_integer v then
        Inl (RangeError (''The number '' @ number_label format_f64 v @
               '' cannot be converted to a BigInt because it is not an integer''))
      else bigint_return alloc mem (limbs_from_integer_f64 v))"

text \<open>\<open>coerce_object\<close> answers \<open>None\<close> when no conversion applied and control falls through to the Number case.\<close>

definition js_bigint_from_f64 where
  "js_bigint_from_f64 str_of coerce_object format_f64 alloc mem (v :: jsvalue) =
     (if is_bigint v then Inr (as_bigint_ptr v, mem)
      else if is_bool v then Inr (js_bigint_from_i64 alloc mem (if as_bool v then 1 else 0))
      else if is_int32 v then Inr (js_bigint_from_i64 alloc mem (as_int32 v))
      else if is_any_string v then
        (case str_of v of
           Some s \<Rightarrow> js_bigint_from_string alloc mem s
         | None \<Rightarrow> Inr (js_bigint_from_i64 alloc mem 0))
      else if is_undefined v then Inl (TypeError ''Cannot convert undefined to a BigInt'')
      else if is_null v then Inl (TypeError ''Cannot convert null to a BigInt'')
      else
        case (if is_pointer v then coerce_object alloc mem v else None) of
          Some r \<Rightarrow> r
        | None \<Rightarrow> bigint_from_number format_f64 alloc mem v)"

text \<open>The double \<open>y.floor()\<close>: a double that is not an integer lies below \<open>2 ^ 52\<close> in magnitude.\<close>

definition f64_floor_f64 :: "f64 \<Rightarrow> f64" where
  "f64_floor_f64 y = (if f64_is_integer y then y else f64_of_int (f64_floor y))"

definition bigint_cmp_f64 where
  "bigint_cmp_f64 str_of coerce_object format_f64 alloc mem x y =
     (if f64_is_nan y then Inr (2 :: int)
      else if f64_eq y f64_INFINITY then Inr (- 1)
      else if f64_eq y (f64_neg f64_INFINITY) then Inr 1
      else if f64_mag 0x7FE0000000000000 \<le> f64_mag y
           \<and> (let xp = clean_bigint_ptr x in xp \<noteq> 0 \<and> fits_in_i64 (mem xp) \<noteq> None) then
        Inr (if f64_lt 0 y then - 1 else 1)
      else
        let floor = f64_floor_f64 y
        in case js_bigint_from_f64 str_of coerce_object format_f64 alloc mem floor of
             Inl e \<Rightarrow> Inl e
           | Inr (floor_big, mem) \<Rightarrow>
               (let c = js_bigint_cmp mem x floor_big
                in if c \<noteq> 0 then Inr c else if f64_lt floor y then Inr (- 1) else Inr 0))"

fun to_f64_loop :: "u64 list \<Rightarrow> f64 \<Rightarrow> f64 \<Rightarrow> f64" where
  "to_f64_loop [] result multiplier = result"
| "to_f64_loop (limb # limbs) result multiplier =
     to_f64_loop limbs (f64_add result (f64_mul (f64_of_u64 limb) multiplier))
       (f64_mul multiplier (f64_pow2 64))"

definition js_bigint_to_f64 :: "bigint_mem \<Rightarrow> addr \<Rightarrow> f64" where
  "js_bigint_to_f64 mem a =
     (if a = 0 then 0
      else
        let limbs = mem a;
            neg = is_negative limbs;
            abs_limbs = (if neg then negate_limbs limbs else limbs);
            result = to_f64_loop abs_limbs 0 (f64_pow2 0)
        in if neg then f64_neg result else result)"

subsection \<open>From Number\<close>

lemma f64_limbs_loop_eq: "f64_limbs_loop n mag = (nat_limbs n mag, mag div limb_mod n)"
proof (induction n arbitrary: mag)
  case (Suc n)
  have z: "nat_limbs (Suc n) 0 = replicate (Suc n) 0" by (induction n) simp_all
  show ?case
  proof (cases "mag \<ge> 1")
    case True
    moreover have "(of_nat (mag mod 2 ^ 64) :: u64) = of_nat mag" by (simp add: word_unat_eq_iff unat_of_nat)
    ultimately show ?thesis using Suc [of "mag div 2 ^ 64"] by (simp add: limb_mod_Suc div_mult2_eq)
  next
    case False
    then have "mag = 0" by simp
    then show ?thesis using z by (simp only: f64_limbs_loop.simps) simp
  qed
qed simp

lemma f64_integer_parts:
  assumes "f64_is_integer v"
  defines "M \<equiv> f64_mag v div 2 ^ 1074"
  shows "f64_mag v = M * 2 ^ 1074" "f64_floor v = (if f64_sign v then - int M else int M)"
    "f64_units v = f64_floor v * 2 ^ 1074"
proof -
  define T where "T = (2 :: nat) ^ 1074"
  have T: "(2 :: int) ^ 1074 = int T" "0 < T" by (simp_all only: T_def of_nat_power of_nat_numeral) simp
  have "int T dvd int (f64_mag v)"
    using assms(1) unfolding f64_is_integer_def f64_units_def T by (simp split: if_splits)
  then have "T dvd f64_mag v" by (simp only: of_nat_dvd_iff)
  then show mag: "f64_mag v = M * 2 ^ 1074" unfolding M_def T_def by (rule dvd_div_mult_self [symmetric])
  have u: "f64_units v = (if f64_sign v then - int M else int M) * int T"
    unfolding f64_units_def mag T_def [symmetric] by simp
  then show fl: "f64_floor v = (if f64_sign v then - int M else int M)"
    unfolding f64_floor_def T using T(2) by simp
  show "f64_units v = f64_floor v * 2 ^ 1074" unfolding fl T u ..
qed

lemma int_limbs_0: "int_limbs 0 = ZERO_LIMBS"
  using int_limbs_limbs_int [OF wf_ZERO_LIMBS] by simp

lemma limbs_from_integer_f64_eq:
  assumes "f64_is_integer v"
  shows "limbs_from_integer_f64 v = bigint_checked (f64_floor v)"
proof -
  define M where "M = f64_mag v div 2 ^ 1074"
  note parts = f64_integer_parts [OF assms, folded M_def]
  have nan: "\<not> f64_is_nan v" using assms by (simp add: f64_is_integer_def f64_is_finite_def f64_is_nan_def)
  have z: "f64_units 0 = 0" "\<not> f64_is_nan 0" "f64_mag 0 = 0"
    by (simp_all add: f64_units_def f64_mag_def f64_exp_def f64_mant_def f64_is_nan_def)
  show ?thesis
  proof (cases "M = 0")
    case True
    then have "f64_eq v 0" "f64_floor v = 0" using parts nan z by (simp_all add: f64_eq_def f64_units_def)
    then show ?thesis using int_limbs_0 i128_in_range [of 0] by (simp add: limbs_from_integer_f64_def bigint_checked_def)
  next
    case False
    have ne: "\<not> f64_eq v 0" using parts(1) False z by (simp add: f64_eq_def f64_units_def split: if_splits)
    have neg: "f64_lt v 0 \<longleftrightarrow> f64_sign v" using nan z parts(1) False by (simp add: f64_lt_def f64_units_def)
    have val: "limbs_from_integer_f64 v =
      (if 1 \<le> M div limb_mod BIGINT_LIMBS \<or> \<not> magnitude_fits_1024 (nat_limbs BIGINT_LIMBS M) (f64_sign v)
       then Inl throw_bigint_overflow
       else Inr (if f64_sign v then negate_limbs (nat_limbs BIGINT_LIMBS M) else nat_limbs BIGINT_LIMBS M))"
      unfolding limbs_from_integer_f64_def neg M_def [symmetric] f64_limbs_loop_eq Let_def using ne by simp
    have wf: "wf_limbs (nat_limbs BIGINT_LIMBS M)" by (simp add: wf_limbs_def)
    show ?thesis
    proof (cases "M < limb_mod BIGINT_LIMBS")
      case True
      then have n: "limbs_nat (nat_limbs BIGINT_LIMBS M) = M" by (simp add: limbs_nat_nat_limbs)
      show ?thesis
        unfolding val bigint_checked_def parts(2) apply_sign_limbs [OF wf]
        using magnitude_fits_iff [of "nat_limbs BIGINT_LIMBS M" "f64_sign v"] True n by simp
    next
      case False
      then have "1 \<le> M div limb_mod BIGINT_LIMBS" by (simp add: div_greater_zero_iff Suc_le_eq)
      moreover have "\<not> bigint_in_range (f64_floor v)"
        using False limb_mod_pos [of BIGINT_LIMBS] unfolding parts(2) bigint_in_range_def by (simp del: limb_mod_pos)
      ultimately show ?thesis by (simp add: val bigint_checked_def)
    qed
  qed
qed

lemma js_bigint_from_number:
  assumes "is_number v"
  shows "js_bigint_from_f64 str_of coerce_object format_f64 alloc mem v = bigint_from_number format_f64 alloc mem v"
proof -
  have "js_view v = VNumber v" using assms by (simp add: predicates_view)
  then have "\<not> is_bigint v" "\<not> is_bool v" "\<not> is_int32 v" "\<not> is_undefined v" "\<not> is_null v" "\<not> is_pointer v"
    by (simp_all add: predicates_view)
  moreover have "\<not> is_any_string v" using assms unfolding is_tag16 by auto
  ultimately show ?thesis by (simp add: js_bigint_from_f64_def)
qed

lemmas js_bigint_from_f64_finite = js_bigint_from_number [OF finite_is_number]

subsection \<open>The floor of a double\<close>

lemma f64_large_is_integer:
  assumes "f64_is_finite y" "2 ^ 52 * 2 ^ 1074 \<le> f64_mag y"
  shows "f64_is_integer y"
proof -
  have e0: "f64_exp y \<noteq> 0"
  proof
    assume "f64_exp y = 0"
    then have "f64_mag y < 2 ^ 52" by (rule f64_mag_le_subnormal)
    also have "\<dots> \<le> 2 ^ 52 * 2 ^ 1074" by simp
    finally show False using assms(2) by simp
  qed
  have "(2 :: nat) ^ (52 + 1074) < 2 ^ (f64_exp y + 52)"
    unfolding power_add [of 2 52 1074] using assms(2) f64_mag_bounds(2) [OF e0] by (rule le_less_trans)
  then have "52 + 1074 < f64_exp y + 52" by (rule power_less_imp_less_exp [rotated]) simp
  then have "1074 \<le> f64_exp y - 1" by simp
  then have "2 ^ 1074 dvd f64_mag y" using e0 unfolding f64_mag_def by (simp only: if_False) (intro dvd_mult le_imp_power_dvd)
  then have "int (2 ^ 1074) dvd int (f64_mag y)" by (simp only: of_nat_dvd_iff)
  then have "2 ^ 1074 dvd f64_units y" unfolding f64_units_def by (simp only: of_nat_power of_nat_numeral dvd_minus_iff if_split) simp
  then show ?thesis using assms(1) by (simp add: f64_is_integer_def)
qed

lemma f64_floor_bounds: "f64_floor y * 2 ^ 1074 \<le> f64_units y" "f64_units y < (f64_floor y + 1) * 2 ^ 1074"
proof -
  define T where "T = (2 :: int) ^ 1074"
  have T: "0 < T" by (simp add: T_def)
  have u: "f64_units y = f64_units y div T * T + f64_units y mod T" by simp
  have m: "0 \<le> f64_units y mod T" "f64_units y mod T < T" using T by simp_all
  show "f64_floor y * 2 ^ 1074 \<le> f64_units y" unfolding f64_floor_def T_def [symmetric] using u m by linarith
  show "f64_units y < (f64_floor y + 1) * 2 ^ 1074"
    unfolding f64_floor_def T_def [symmetric] distrib_right using u m by linarith
qed

lemma f64_floor_f64:
  assumes "f64_is_finite y"
  shows "f64_is_integer (f64_floor_f64 y)" "f64_floor (f64_floor_f64 y) = f64_floor y"
    "f64_units (f64_floor_f64 y) = f64_floor y * 2 ^ 1074"
proof -
  have "f64_is_integer (f64_floor_f64 y) \<and> f64_floor (f64_floor_f64 y) = f64_floor y \<and>
    f64_units (f64_floor_f64 y) = f64_floor y * 2 ^ 1074"
  proof (cases "f64_is_integer y")
    case True
    then show ?thesis using f64_integer_parts(3) [OF True] by (simp only: f64_floor_f64_def if_True simp_thms)
  next
    case False
    define T where "T = (2 :: int) ^ 1074"
    have T: "0 < T" by (simp add: T_def)
    have "f64_mag y < 2 ^ 52 * 2 ^ 1074" using f64_large_is_integer [OF assms] False by (meson not_less)
    then have "int (f64_mag y) < int (2 ^ 52 * 2 ^ 1074)" by (simp only: of_nat_less_iff)
    then have "int (f64_mag y) < 2 ^ 52 * T" by (simp only: T_def of_nat_mult of_nat_power of_nat_numeral)
    then have b: "- (2 ^ 52) * T < f64_units y" "f64_units y < 2 ^ 52 * T" unfolding f64_units_def by (simp_all split: if_splits)
    have "f64_floor y * T < 2 ^ 52 * T" using f64_floor_bounds(1) [of y] b(2) unfolding T_def [symmetric] by linarith
    moreover have "- (2 ^ 52) * T < (f64_floor y + 1) * T" using f64_floor_bounds(2) [of y] b(1) unfolding T_def [symmetric] by linarith
    ultimately have "f64_floor y < 2 ^ 52" "- (2 ^ 52) < f64_floor y + 1" using T by (simp_all only: mult_less_cancel_right_pos)
    then have small: "\<bar>f64_floor y\<bar> < 2 ^ 53" by simp
    note u = f64_of_int_units [OF small]
    have "f64_floor (f64_of_int (f64_floor y)) = f64_floor y"
      unfolding f64_floor_def [of "f64_of_int _"] u(1) T_def [symmetric] using T by simp
    moreover have "f64_is_integer (f64_of_int (f64_floor y))"
      unfolding f64_is_integer_def u(1) using u(2) by simp
    ultimately show ?thesis using False u(1) by (simp only: f64_floor_f64_def if_False simp_thms)
  qed
  then show "f64_is_integer (f64_floor_f64 y)" "f64_floor (f64_floor_f64 y) = f64_floor y"
    "f64_units (f64_floor_f64 y) = f64_floor y * 2 ^ 1074" by blast+
qed

subsection \<open>BigInt against Number\<close>

lemma js_bigint_from_floor:
  assumes "f64_is_finite y"
  shows "js_bigint_from_f64 str_of coerce_object format_f64 alloc mem (f64_floor_f64 y)
    = bigint_return alloc mem (bigint_checked (f64_floor y))"
proof -
  note fl = f64_floor_f64 [OF assms]
  have "f64_is_finite (f64_floor_f64 y)" using fl(1) by (simp add: f64_is_integer_def)
  then show ?thesis
    using fl(1,2) limbs_from_integer_f64_eq [OF fl(1)]
    by (simp add: js_bigint_from_f64_finite bigint_from_number_def)
qed

text \<open>The order of an integer and a double, decided by the floor.\<close>

lemma floor_decides:
  fixes x u F T :: int
  assumes "0 < T" "F * T \<le> u" "u < (F + 1) * T"
  shows "sgn (x * T - u) = (if sgn (x - F) \<noteq> 0 then sgn (x - F) else if F * T < u then - 1 else 0)"
proof -
  consider "x < F" | "x = F" | "F < x" by linarith
  then show ?thesis
  proof cases
    case 1
    then have "(x + 1) * T \<le> F * T" using assms(1) by (intro mult_right_mono) simp_all
    then have "x * T < u" using assms(1,2) by (simp add: distrib_right)
    then show ?thesis using 1 by (simp add: sgn_if)
  next
    case 2
    then show ?thesis using assms(2) by (simp add: sgn_if)
  next
    case 3
    then have "(F + 1) * T \<le> x * T" using assms(1) by (intro mult_right_mono) simp_all
    then have "u < x * T" using assms(3) by linarith
    then show ?thesis using 3 by (simp add: sgn_if)
  qed
qed

lemma f64_bounds_finite:
  assumes "\<not> f64_is_nan y"
  shows "f64_is_finite y \<Longrightarrow> f64_mag y < 2 ^ 1024 * 2 ^ 1074" "\<not> f64_is_finite y \<Longrightarrow> f64_mag y = 2 ^ 1024 * 2 ^ 1074"
proof -
  show "f64_mag y < 2 ^ 1024 * 2 ^ 1074" if "f64_is_finite y"
  proof (cases "f64_exp y = 0")
    case True
    have "f64_mag y < 2 ^ 52" by (rule f64_mag_le_subnormal [OF True])
    also have "(2 :: nat) ^ 52 \<le> 2 ^ (1024 + 1074)" by (intro power_increasing) simp_all
    finally show ?thesis by (simp only: power_add)
  next
    case False
    have "f64_exp y + 52 \<le> 1024 + 1074" using that f64_exp_less [of y] by (simp add: f64_is_finite_def)
    then have "(2 :: nat) ^ (f64_exp y + 52) \<le> 2 ^ (1024 + 1074)" by (intro power_increasing) simp_all
    then show ?thesis using f64_mag_bounds(2) [OF False] by (simp only: power_add [of 2 1024 1074])
  qed
  show "f64_mag y = 2 ^ 1024 * 2 ^ 1074" if "\<not> f64_is_finite y"
    using that assms by (simp add: f64_mag_def f64_is_finite_def f64_is_nan_def)
qed

lemma f64_infinities:
  "f64_eq y f64_INFINITY \<longleftrightarrow> \<not> f64_is_nan y \<and> \<not> f64_is_finite y \<and> \<not> f64_sign y"
  "f64_eq y (f64_neg f64_INFINITY) \<longleftrightarrow> \<not> f64_is_nan y \<and> \<not> f64_is_finite y \<and> f64_sign y"
proof -
  have i: "f64_is_inf f64_INFINITY" "f64_is_inf (f64_neg f64_INFINITY)" "\<not> f64_sign f64_INFINITY" "f64_sign (f64_neg f64_INFINITY)"
    by (simp_all add: f64_INFINITY_def f64_neg_def f64_is_inf_def f64_exp_def f64_mant_def f64_sign_def)
  have eq: "f64_eq y z \<longleftrightarrow> \<not> f64_is_nan y \<and> \<not> f64_is_finite y \<and> f64_sign y = f64_sign z" if "f64_is_inf z" for z
  proof -
    have z: "\<not> f64_is_nan z" "\<not> f64_is_finite z" using that by (simp_all add: f64_is_inf_def f64_is_nan_def f64_is_finite_def)
    have m: "f64_mag z = 2 ^ 1024 * 2 ^ 1074" by (rule f64_bounds_finite(2) [OF z])
    show ?thesis
    proof (cases "f64_is_nan y")
      case False
      have "f64_eq y z \<longleftrightarrow> y = z" using z(1) False m unfolding f64_eq_iff by simp
      also have "\<dots> \<longleftrightarrow> \<not> f64_is_finite y \<and> f64_sign y = f64_sign z"
        using f64_eqI [of y z] z that False by (auto simp: f64_is_finite_def f64_is_nan_def f64_is_inf_def)
      finally show ?thesis using False by blast
    qed (simp add: f64_eq_def)
  qed
  show "f64_eq y f64_INFINITY \<longleftrightarrow> \<not> f64_is_nan y \<and> \<not> f64_is_finite y \<and> \<not> f64_sign y"
    "f64_eq y (f64_neg f64_INFINITY) \<longleftrightarrow> \<not> f64_is_nan y \<and> \<not> f64_is_finite y \<and> f64_sign y"
    using eq [OF i(1)] eq [OF i(2)] i(3,4) by blast+
qed

text \<open>A double at least as large as the bound outweighs every integer below it.\<close>

lemma sgn_outweighed:
  assumes "\<bar>x\<bar> * (T :: int) < int (f64_mag y)" "0 < T"
  shows "sgn (x * T - f64_units y) = (if f64_sign y then 1 else - 1)"
proof -
  have "\<bar>x * T\<bar> < int (f64_mag y)" using assms by (simp add: abs_mult)
  then show ?thesis by (auto simp: f64_units_def sgn_if)
qed

lemma bigint_in_range_1024: "bigint_in_range z \<longleftrightarrow> - (2 ^ 1023) \<le> z \<and> z < 2 ^ 1023"
proof -
  have "int (limb_mod BIGINT_LIMBS) = 2 * 2 ^ 1023" by (simp add: limb_mod_def BIGINT_LIMBS_def)
  then show ?thesis unfolding bigint_in_range_def by linarith
qed

lemma f64_floor_in_range:
  assumes "f64_mag y < 2 ^ 1023 * 2 ^ 1074"
  shows "bigint_in_range (f64_floor y)"
proof -
  define T where "T = (2 :: int) ^ 1074"
  have T: "0 < T" by (simp add: T_def)
  have "int (f64_mag y) < int (2 ^ 1023 * 2 ^ 1074)" using assms by (simp only: of_nat_less_iff)
  then have "int (f64_mag y) < 2 ^ 1023 * T" by (simp only: T_def of_nat_mult of_nat_power of_nat_numeral)
  then have b: "- (2 ^ 1023) * T < f64_units y" "f64_units y < 2 ^ 1023 * T"
    unfolding f64_units_def by (simp_all split: if_splits del: power_numeral)
  note fl = f64_floor_bounds [of y, folded T_def]
  have "f64_floor y * T < 2 ^ 1023 * T" "- (2 ^ 1023) * T < (f64_floor y + 1) * T" using fl b by linarith+
  then have "f64_floor y < 2 ^ 1023" "- (2 ^ 1023) < f64_floor y + 1" using T by (simp_all only: mult_less_cancel_right_pos)
  then show ?thesis unfolding bigint_in_range_1024 by linarith
qed

lemma bigint_cmp_floor:
  assumes "bigint_mem_ok mem" "arena_ok alloc" "clean_bigint_ptr x \<noteq> 0" "clean_bigint_ptr x \<noteq> alloc mem"
    "f64_is_finite y" "bigint_in_range (f64_floor y)"
  shows "\<exists>p mem'. js_bigint_from_f64 str_of coerce_object format_f64 alloc mem (f64_floor_f64 y) = Inr (p, mem') \<and>
    js_bigint_cmp mem' x p = sgn (bigint_value mem x - f64_floor y)"
proof -
  define F where "F = f64_floor y"
  have ok: "\<And>z. (Inr F :: js_throw + int) = Inr z \<Longrightarrow> bigint_in_range z" using assms(6) by (simp add: F_def)
  define r where "r = bigint_return alloc mem (Inr (int_limbs F))"
  have res: "bigint_result mem (Inr F) r" using bigint_return_result [OF assms(1,2), of "Inr F"] ok by (simp add: r_def)
  obtain p mem' where r: "r = Inr (p, mem')" "p = alloc mem"
    by (simp add: r_def bigint_return_def bigint_alloc_with_limbs_def Let_def)
  then have p: "p \<noteq> 0" "bigint_value mem' p = F" "bigint_mem_ok mem'" "bigint_value mem' x = bigint_value mem x"
    using res assms(4) by (simp_all add: bigint_result_def)
  have "clean_bigint_ptr p \<noteq> 0" using assms(2) p(1) r(2) by (simp add: arena_ok_def)
  from js_bigint_cmp_eq [OF p(3) assms(3) this] have "js_bigint_cmp mem' x p = sgn (bigint_value mem x - F)" by (simp add: p)
  moreover have "js_bigint_from_f64 str_of coerce_object format_f64 alloc mem (f64_floor_f64 y) = r"
    using js_bigint_from_floor [OF assms(5)] assms(6) by (simp add: r_def F_def bigint_checked_def)
  ultimately show ?thesis using r(1) F_def by blast
qed

text \<open>The three regimes of \<open>bigint_cmp_f64\<close> on an ordered double.\<close>

lemma pow_times_T: "int (2 ^ k * 2 ^ 1074) = 2 ^ k * 2 ^ 1074"
  by (simp only: of_nat_mult of_nat_power of_nat_numeral)

lemma f64_mag_bound: "f64_mag 0x7FE0000000000000 = 2 ^ 1023 * 2 ^ 1074"
  by (simp add: f64_mag_def f64_exp_def f64_mant_def)

lemma bigint_cmp_f64_infinite:
  assumes "\<not> f64_is_nan y" "\<not> f64_is_finite y" "bigint_in_range X"
  shows "bigint_cmp_f64 str_of coerce_object format_f64 alloc mem x y = Inr (if f64_sign y then 1 else - 1)"
    "sgn (X * 2 ^ 1074 - f64_units y) = (if f64_sign y then 1 else - 1)"
proof -
  show "bigint_cmp_f64 str_of coerce_object format_f64 alloc mem x y = Inr (if f64_sign y then 1 else - 1)"
    using assms(1,2) by (cases "f64_sign y") (simp_all only: bigint_cmp_f64_def f64_infinities simp_thms if_True if_False)
  define T where "T = (2 :: int) ^ 1074"
  have T: "0 < T" unfolding T_def by (rule zero_less_power) simp
  have "\<bar>X\<bar> < 2 ^ 1024" using assms(3) unfolding bigint_in_range_1024 power_Suc [of 2 1023, simplified] by linarith
  then have "\<bar>X\<bar> * T < 2 ^ 1024 * T" using T by (simp only: mult_less_cancel_right_pos)
  also have "\<dots> = int (f64_mag y)" unfolding f64_bounds_finite(2) [OF assms(1,2)] pow_times_T T_def ..
  finally show "sgn (X * 2 ^ 1074 - f64_units y) = (if f64_sign y then 1 else - 1)"
    unfolding T_def [symmetric] using T by (rule sgn_outweighed)
qed

lemma bigint_cmp_f64_small:
  assumes "\<not> f64_is_nan y" "f64_is_finite y" "2 ^ 1023 * 2 ^ 1074 \<le> f64_mag y" "- (2 ^ 63) \<le> X" "X < 2 ^ 63"
    "clean_bigint_ptr x \<noteq> 0" "fits_in_i64 (mem (clean_bigint_ptr x)) \<noteq> None"
  shows "bigint_cmp_f64 str_of coerce_object format_f64 alloc mem x y = Inr (if f64_sign y then 1 else - 1)"
    "sgn (X * 2 ^ 1074 - f64_units y) = (if f64_sign y then 1 else - 1)"
proof -
  define T where "T = (2 :: int) ^ 1074"
  have T: "0 < T" unfolding T_def by (rule zero_less_power) simp
  have "int (2 ^ 1023 * 2 ^ 1074) \<le> int (f64_mag y)" using assms(3) by (simp only: of_nat_le_iff)
  then have my: "2 ^ 1023 * T \<le> int (f64_mag y)" unfolding pow_times_T T_def .
  have "(2 :: int) ^ 63 < 2 ^ 1023" by (rule power_strict_increasing) simp_all
  then have "\<bar>X\<bar> < 2 ^ 1023" using assms(4,5) by linarith
  then have lt: "\<bar>X\<bar> * T < 2 ^ 1023 * T" using T by (simp only: mult_less_cancel_right_pos)
  then have lt: "\<bar>X\<bar> * T < int (f64_mag y)" using my by (rule less_le_trans)
  then show "sgn (X * 2 ^ 1074 - f64_units y) = (if f64_sign y then 1 else - 1)"
    unfolding T_def [symmetric] using T by (rule sgn_outweighed)
  have "0 \<le> \<bar>X\<bar> * T" using T by simp
  then have pos: "0 < f64_mag y" using lt by linarith
  have z: "f64_units 0 = 0" "\<not> f64_is_nan 0"
    by (simp_all add: f64_units_def f64_mag_def f64_exp_def f64_mant_def f64_is_nan_def)
  have "f64_lt 0 y \<longleftrightarrow> \<not> f64_sign y" using assms(1) pos unfolding f64_lt_def z(1) by (simp add: z(2) f64_units_def)
  then show "bigint_cmp_f64 str_of coerce_object format_f64 alloc mem x y = Inr (if f64_sign y then 1 else - 1)"
    using assms unfolding bigint_cmp_f64_def f64_infinities f64_mag_bound Let_def
    by (cases "f64_sign y") (simp_all only: simp_thms if_True if_False)
qed

lemma bigint_cmp_f64_floor:
  assumes "\<not> f64_is_nan y" "f64_is_finite y" "\<not> (2 ^ 1023 * 2 ^ 1074 \<le> f64_mag y \<and> fits_in_i64 (mem (clean_bigint_ptr x)) \<noteq> None)"
  shows "bigint_cmp_f64 str_of coerce_object format_f64 alloc mem x y =
    (case js_bigint_from_f64 str_of coerce_object format_f64 alloc mem (f64_floor_f64 y) of
         Inl e \<Rightarrow> Inl e
       | Inr (floor_big, mem) \<Rightarrow>
           (let c = js_bigint_cmp mem x floor_big
            in if c \<noteq> 0 then Inr c else if f64_lt (f64_floor_f64 y) y then Inr (- 1) else Inr 0))"
proof -
  have "\<not> (f64_mag 0x7FE0000000000000 \<le> f64_mag y \<and>
      (let xp = clean_bigint_ptr x in xp \<noteq> 0 \<and> fits_in_i64 (mem xp) \<noteq> None))"
    using assms(3) unfolding f64_mag_bound Let_def by blast
  then show ?thesis using assms(1,2) unfolding bigint_cmp_f64_def f64_infinities Let_def by (simp only: simp_thms if_False)
qed

lemma bigint_cmp_f64_in_range:
  assumes "bigint_mem_ok mem" "arena_ok alloc" "clean_bigint_ptr x \<noteq> 0" "clean_bigint_ptr x \<noteq> alloc mem"
    "\<not> f64_is_nan y" "f64_is_finite y" "\<not> (2 ^ 1023 * 2 ^ 1074 \<le> f64_mag y \<and> fits_in_i64 (mem (clean_bigint_ptr x)) \<noteq> None)"
    "bigint_in_range (f64_floor y)"
  shows "bigint_cmp_f64 str_of coerce_object format_f64 alloc mem x y = Inr (sgn (bigint_value mem x * 2 ^ 1074 - f64_units y))"
proof -
  define X T where "X = bigint_value mem x" and "T = (2 :: int) ^ 1074"
  have T: "0 < T" unfolding T_def by (rule zero_less_power) simp
  have fl: "\<not> f64_is_nan (f64_floor_f64 y)" using f64_floor_f64(1) [OF assms(6)]
    by (simp add: f64_is_integer_def f64_is_finite_def f64_is_nan_def)
  have lt: "f64_lt (f64_floor_f64 y) y \<longleftrightarrow> f64_floor y * T < f64_units y"
    using assms(5) fl f64_floor_f64(3) [OF assms(6)] unfolding f64_lt_def T_def [symmetric] by simp
  note decide = floor_decides [OF T f64_floor_bounds [of y, folded T_def], of X]
  obtain p mem' where "js_bigint_from_f64 str_of coerce_object format_f64 alloc mem (f64_floor_f64 y) = Inr (p, mem')"
    "js_bigint_cmp mem' x p = sgn (X - f64_floor y)"
    using bigint_cmp_floor [OF assms(1-4,6,8)] unfolding X_def by blast
  then show ?thesis
    unfolding bigint_cmp_f64_floor [where mem = mem and x = x, OF assms(5-7)] X_def [symmetric] T_def [symmetric] decide lt by (simp add: Let_def)
qed

text \<open>C25.
  Comparing a BigInt with a Number is exact, with no rounding on the way: the result of \<open>bigint_cmp_f64\<close> is the sign of
  the difference of the two values (in units of \<open>2 ^ -1074\<close>), for infinities, fractions and doubles beyond the 64-bit range
  alike, and 2 for NaN. The one exception: when the double does not fit the 1024-bit BigInt range and the BigInt does
  not fit \<open>i64\<close>, the comparison throws the overflow RangeError.\<close>

theorem bigint_cmp_f64_exact:
  assumes "bigint_mem_ok mem" "arena_ok alloc" "clean_bigint_ptr x \<noteq> 0" "clean_bigint_ptr x \<noteq> alloc mem"
  shows "bigint_cmp_f64 str_of coerce_object format_f64 alloc mem x y =
    (if f64_is_nan y then Inr 2
     else if f64_is_finite y \<and> \<not> bigint_in_range (f64_floor y)
             \<and> \<not> (- (2 ^ 63) \<le> bigint_value mem x \<and> bigint_value mem x < 2 ^ 63) then Inl throw_bigint_overflow
     else Inr (sgn (bigint_value mem x * 2 ^ 1074 - f64_units y)))"
proof (cases "f64_is_nan y")
  case True
  then show ?thesis by (simp add: bigint_cmp_f64_def)
next
  case nan: False
  let ?lx = "mem (clean_bigint_ptr x)" and ?X = "bigint_value mem x"
  have wf: "wf_limbs ?lx" using assms(1) by (simp add: bigint_mem_ok_def)
  have X: "?X = limbs_int ?lx" using assms(3) by (simp add: bigint_value_def bigint_limbs_or_zero_def Let_def)
  have small: "fits_in_i64 ?lx \<noteq> None \<longleftrightarrow> - (2 ^ 63) \<le> ?X \<and> ?X < 2 ^ 63"
    using fits_in_i64_Some [OF wf] fits_in_i64_complete [OF wf] unfolding X by blast
  show ?thesis
  proof (cases "f64_is_finite y")
    case False
    have "bigint_in_range ?X" unfolding X by (rule wf_limbs_in_range [OF wf])
    from bigint_cmp_f64_infinite [OF nan False this] show ?thesis using nan False by (simp only: simp_thms if_False)
  next
    case fin: True
    show ?thesis
    proof (cases "2 ^ 1023 * 2 ^ 1074 \<le> f64_mag y \<and> fits_in_i64 ?lx \<noteq> None")
      case True
      then have "- (2 ^ 63) \<le> ?X" "?X < 2 ^ 63" using small by blast+
      from bigint_cmp_f64_small [where mem = mem and x = x, OF nan fin conjunct1 [OF True] this assms(3) conjunct2 [OF True]] this
      show ?thesis using nan by (simp only: simp_thms if_False)
    next
      case False
      show ?thesis
      proof (cases "bigint_in_range (f64_floor y)")
        case True
        then show ?thesis using bigint_cmp_f64_in_range [where mem = mem and x = x, OF assms nan fin False] nan by (simp only: simp_thms if_False)
      next
        case big: False
        then have "2 ^ 1023 * 2 ^ 1074 \<le> f64_mag y" using f64_floor_in_range [of y] by (meson not_less)
        then have nsmall: "\<not> (- (2 ^ 63) \<le> ?X \<and> ?X < 2 ^ 63)" using False small by blast
        have "js_bigint_from_f64 str_of coerce_object format_f64 alloc mem (f64_floor_f64 y) = Inl throw_bigint_overflow"
          unfolding js_bigint_from_floor [OF fin] using big by (simp add: bigint_checked_def bigint_return_def)
        then show ?thesis using nsmall big fin nan unfolding bigint_cmp_f64_floor [where mem = mem and x = x, OF nan fin False] by (simp only: simp_thms if_False if_True sum.case)
      qed
    qed
  qed
qed

text \<open>The BigInt \<open>2 ^ 100\<close> against the double \<open>0.5\<close>.\<close>

theorem bigint_cmp_f64_exact_witness:
  "bigint_cmp_f64 (\<lambda>_. None) (\<lambda>_ _ _. None) (\<lambda>_. []) sample_arena (sample_mem (2 ^ 100) 0) 0x20000 0x3FE0000000000000 = Inr 1"
proof -
  have c: "clean_bigint_ptr 0x20000 = 0x20000" by (simp add: clean_bigint_ptr_def Let_def)
  have a: "sample_arena (sample_mem (2 ^ 100) 0) \<noteq> 0x20000" by (simp add: sample_arena_def)
  have r: "bigint_in_range (2 ^ 100)" "bigint_in_range 0" by (rule i128_in_range; simp)+
  have y: "\<not> f64_is_nan 0x3FE0000000000000" "f64_floor 0x3FE0000000000000 = 0"
    "f64_units 0x3FE0000000000000 = 2 ^ 1073"
    by (simp_all add: f64_is_nan_def f64_floor_def f64_units_def f64_mag_def f64_exp_def f64_mant_def f64_sign_def)
  have "(2 :: int) ^ 1073 < 2 ^ 100 * 2 ^ 1074" by simp
  then have s: "sgn ((2 :: int) ^ 100 * 2 ^ 1074 - 2 ^ 1073) = 1" by (simp only: sgn_if) simp
  show ?thesis
    using bigint_cmp_f64_exact [OF sample_ok(1) sample_ok(2), of "0x20000" "2 ^ 100" 0 "\<lambda>_. None" "\<lambda>_ _ _. None" "\<lambda>_. []" "0x3FE0000000000000"]
      sample_values(1) [OF r] c a y r(2) s by (simp only: simp_thms if_False) simp
qed

subsection \<open>To Number\<close>

lemma f64_is_unique: "f64_is a s n \<Longrightarrow> f64_is b s n \<Longrightarrow> a = b"
  unfolding f64_is_def by (metis f64_eqI f64_mag_inject)

lemma f64_pow2_64: "i \<le> 15 \<Longrightarrow> f64_is (f64_pow2 (64 * int i)) False (2 ^ (1074 + 64 * i))"
proof -
  assume "i \<le> 15"
  moreover have "nat (1074 + 64 * int i) = 1074 + 64 * i" by simp
  ultimately show ?thesis using f64_pow2_is [of "64 * int i"] by simp
qed

lemma f64_mul_pow2:
  assumes "i < 15"
  shows "f64_mul (f64_pow2 (64 * int i)) (f64_pow2 64) = f64_pow2 (64 * int (Suc i))"
proof -
  have a: "f64_is (f64_pow2 (64 * int i)) False (2 ^ (1074 + 64 * i))" using assms by (intro f64_pow2_64) simp
  have b: "f64_is (f64_pow2 64) False (2 ^ (1074 + 64))" using f64_pow2_64 [of 1] by (simp del: power_numeral)
  have c: "f64_is (f64_pow2 (64 * int (Suc i))) False (1 * 2 ^ (1074 + 64 * Suc i))"
    unfolding mult_1 using assms by (intro f64_pow2_64) simp
  have e: "(1074 + 64 * i) + (1074 + 64) = (1074 + 64 * Suc i) + 1074" by simp
  have p: "2 ^ (1074 + 64 * i) * 2 ^ (1074 + 64) = 1 * (2 :: nat) ^ ((1074 + 64 * Suc i) + 1074)"
    unfolding mult_1 power_add [symmetric, of 2 "1074 + 64 * i"] e ..
  have l: "(1 :: nat) < 2 ^ 53" "1074 + 64 * Suc i \<le> 2045" using assms by simp_all
  have "f64_is (f64_mul (f64_pow2 (64 * int i)) (f64_pow2 64)) (False \<noteq> False) (1 * 2 ^ (1074 + 64 * Suc i))"
    by (rule f64_mul_is [OF a b p l])
  then show ?thesis using f64_is_unique [OF _ c] by (simp only: simp_thms)
qed

lemma f64_of_u64_0: "f64_is (f64_of_u64 0) False 0"
  using f64_of_u64_is [of 0] by simp

lemma to_f64_loop_zeros:
  assumes "f64_is r False (q * 2 ^ j)" "q < 2 ^ 53" "j \<le> 2045" "i + n \<le> 16"
  shows "to_f64_loop (replicate n 0) r (f64_pow2 (64 * int i)) = r"
  using assms(4)
proof (induction n arbitrary: i)
  case (Suc n)
  have m: "f64_is (f64_pow2 (64 * int i)) False (2 ^ (1074 + 64 * i))" using Suc.prems by (intro f64_pow2_64) simp
  have "f64_is (f64_mul (f64_of_u64 0) (f64_pow2 (64 * int i))) (False \<noteq> False) (0 * 2 ^ 0)"
    by (rule f64_mul_is [OF f64_of_u64_0 m]) simp_all
  then have "f64_is (f64_add r (f64_mul (f64_of_u64 0) (f64_pow2 (64 * int i)))) False (q * 2 ^ j)"
    by (intro f64_add_is [OF assms(1)]) (use assms(2,3) in simp_all)
  then have r: "f64_add r (f64_mul (f64_of_u64 0) (f64_pow2 (64 * int i))) = r" using assms(1) by (rule f64_is_unique)
  show ?case
  proof (cases n)
    case 0
    then show ?thesis by (simp add: r)
  next
    case (Suc n')
    then have "i < 15" using Suc.prems by simp
    then show ?thesis using Suc.IH [of "Suc i"] Suc.prems by (simp add: r f64_mul_pow2 del: of_nat_Suc)
  qed
qed simp

lemma nat_limbs_small:
  assumes "v < 2 ^ 64"
  shows "nat_limbs BIGINT_LIMBS v = of_nat v # replicate 15 0"
proof -
  have z: "nat_limbs n 0 = replicate n 0" for n by (induction n) simp_all
  have B: "BIGINT_LIMBS = Suc 15" by (simp add: BIGINT_LIMBS_def)
  have "nat_limbs BIGINT_LIMBS v = of_nat v # nat_limbs 15 (v div 2 ^ 64)" unfolding B nat_limbs.simps ..
  then show ?thesis using assms z [of 15] by simp
qed

lemma js_bigint_to_f64_exact:
  assumes "a \<noteq> 0" "wf_limbs (mem a)" "\<bar>limbs_int (mem a)\<bar> < 2 ^ 53"
  shows "f64_units (js_bigint_to_f64 mem a) = limbs_int (mem a) * 2 ^ 1074"
proof -
  define z v where "z = limbs_int (mem a)" and "v = nat \<bar>limbs_int (mem a)\<bar>"
  let ?abs = "if is_negative (mem a) then negate_limbs (mem a) else mem a"
  have v: "int v = \<bar>z\<bar>" "v < 2 ^ 53" using assms(3) by (simp_all add: v_def z_def)
  have "int (limbs_nat ?abs) = int v" using limbs_nat_magnitude [OF assms(2)] v(1) by (simp add: z_def)
  moreover have "length ?abs = BIGINT_LIMBS" using assms(2) by (simp add: wf_limbs_def)
  ultimately have "?abs = nat_limbs BIGINT_LIMBS v" using nat_limbs_limbs_nat [of ?abs BIGINT_LIMBS] by simp
  then have abs: "?abs = of_nat v # replicate 15 0" using nat_limbs_small [of v] v(2) by simp
  have uv: "unat (of_nat v :: u64) = v" using v(2) by (simp add: unat_of_nat)
  have l: "f64_is (f64_of_u64 (of_nat v)) False (v * 2 ^ 1074)" using f64_of_u64_is [of "of_nat v"] v(2) unfolding uv by blast
  have one: "f64_is (f64_pow2 0) False (2 ^ 1074)" using f64_pow2_is [of 0] by simp
  have "f64_is (f64_mul (f64_of_u64 (of_nat v)) (f64_pow2 0)) (False \<noteq> False) (v * 2 ^ 1074)"
    by (rule f64_mul_is [OF l one]) (use v(2) in \<open>simp_all add: power_add del: power_numeral\<close>)
  moreover have z0: "f64_is 0 False 0"
    by (simp add: f64_is_def f64_sign_def f64_mag_def f64_exp_def f64_mant_def f64_is_finite_def)
  ultimately have r: "f64_is (f64_add 0 (f64_mul (f64_of_u64 (of_nat v)) (f64_pow2 0))) False (v * 2 ^ 1074)"
    by (intro f64_add_is [OF z0]) (use v(2) in simp_all)
  define res where "res = f64_add 0 (f64_mul (f64_of_u64 (of_nat v)) (f64_pow2 0))"
  have m1: "f64_mul (f64_pow2 0) (f64_pow2 64) = f64_pow2 (64 * int 1)" using f64_mul_pow2 [of 0] by simp
  have loop: "to_f64_loop (of_nat v # replicate 15 0) 0 (f64_pow2 0) = res"
    using to_f64_loop_zeros [OF r, of 1 15] v(2) m1 unfolding res_def by (simp only: to_f64_loop.simps)
  have res: "f64_is res False (v * 2 ^ 1074)" using r unfolding res_def .
  have neg: "is_negative (mem a) \<longleftrightarrow> z < 0" using is_negative_iff [OF assms(2)] by (simp add: z_def)
  have "js_bigint_to_f64 mem a = (if z < 0 then f64_neg res else res)"
  proof -
    have "to_f64_loop ?abs 0 (f64_pow2 0) = res" unfolding abs by (rule loop)
    then show ?thesis unfolding js_bigint_to_f64_def Let_def neg using assms(1) by (simp only: if_False)
  qed
  moreover have "f64_units res = int v * 2 ^ 1074" "f64_units (f64_neg res) = - (int v * 2 ^ 1074)"
    using res f64_neg_is [OF res] unfolding f64_is_def f64_units_def by (simp_all only: if_True if_False simp_thms of_nat_mult of_nat_power of_nat_numeral)
  moreover have "int v = (if z < 0 then - z else z)" using v(1) by simp
  ultimately show ?thesis unfolding z_def [symmetric] by (cases "z < 0") (simp_all only: if_True if_False mult_minus_left minus_minus)
qed

text \<open>
  The limbs are rounded one by one before they are added, so a larger BigInt is rounded twice: \<open>2 ^ 64 + 2 ^ 63 + 6143\<close>
  converts to \<open>2 ^ 64 + 2 ^ 63 + 8192\<close>, although \<open>2 ^ 64 + 2 ^ 63 + 4096\<close> is a double and nearer.
\<close>

lemma f64_round_code:
  assumes "floor_log2 n - 52 = k" "round_even n k = q" "q < 2 ^ 53" "2 ^ 52 \<le> q" "k \<le> 2045"
  shows "f64_is (f64_round False n 0) False (q * 2 ^ k)"
proof -
  have "f64_round False n 0 = of_nat (min (k * 2 ^ 52 + q) (2047 * 2 ^ 52))"
    unfolding f64_round_def Let_def using assms(1,2) by simp
  also have "min (k * 2 ^ 52 + q) (2047 * 2 ^ 52) = k * 2 ^ 52 + q"
  proof -
    have "k * 2 ^ 52 \<le> 2045 * 2 ^ 52" using assms(5) by (intro mult_le_mono1)
    then show ?thesis using assms(3) by simp
  qed
  also have "k * 2 ^ 52 + q = 0 + Suc k * 2 ^ 52 + (q - 2 ^ 52)" using assms(4) by simp
  finally have b: "f64_round False n 0 = of_nat (0 + Suc k * 2 ^ 52 + (q - 2 ^ 52))" .
  note f = f64_fields [of "Suc k" "q - 2 ^ 52" False]
  have "f64_sign (f64_round False n 0) = False" "f64_exp (f64_round False n 0) = Suc k" "f64_mant (f64_round False n 0) = q - 2 ^ 52"
    unfolding b using f assms(3,4,5) by simp_all
  then show ?thesis using assms(4,5) by (simp add: f64_is_def f64_mag_def f64_is_finite_def)
qed

lemma js_bigint_to_f64_double_rounding:
  assumes "mem a = of_nat (2 ^ 63 + 6143) # 1 # replicate 14 0" "a \<noteq> 0"
  shows "f64_units (js_bigint_to_f64 mem a) = (2 ^ 64 + 2 ^ 63 + 8192) * 2 ^ 1074"
proof -
  define w where "w = (of_nat (2 ^ 63 + 6143) :: u64)"
  have w: "unat w = 2 ^ 63 + 6143" by (simp add: w_def)
  have l: "f64_is (f64_of_u64 w) False ((2 ^ 52 + 3) * 2 ^ 1085)"
    unfolding f64_of_u64_def w
  proof (rule f64_round_code)
    have "floor_log2 (2 ^ 63 + 6143) = 63" by (rule floor_log2_eqI) simp_all
    then show "floor_log2 ((2 ^ 63 + 6143) * 2 ^ 1074) - 52 = 1085" using floor_log2_mult_power [of "2 ^ 63 + 6143" 1074] by simp
    show "round_even ((2 ^ 63 + 6143) * 2 ^ 1074) 1085 = 2 ^ 52 + 3"
      using round_even_shift [of "2 ^ 63 + 6143" 1074 11] by (simp add: round_even_def)
  qed simp_all
  have one: "f64_is (f64_pow2 0) False (2 ^ 1074)" using f64_pow2_is [of 0] by simp
  have "f64_is (f64_mul (f64_of_u64 w) (f64_pow2 0)) (False \<noteq> False) ((2 ^ 52 + 3) * 2 ^ 1085)"
    by (rule f64_mul_is [OF l one]) simp_all
  moreover have z0: "f64_is 0 False 0"
    by (simp add: f64_is_def f64_sign_def f64_mag_def f64_exp_def f64_mant_def f64_is_finite_def)
  ultimately have r0: "f64_is (f64_add 0 (f64_mul (f64_of_u64 w) (f64_pow2 0))) False ((2 ^ 52 + 3) * 2 ^ 1085)"
    by (intro f64_add_is [OF z0]) simp_all
  define r where "r = f64_add 0 (f64_mul (f64_of_u64 w) (f64_pow2 0))"
  have m1: "f64_mul (f64_pow2 0) (f64_pow2 64) = f64_pow2 64" using f64_mul_pow2 [of 0] by simp
  have m2: "f64_mul (f64_pow2 64) (f64_pow2 64) = f64_pow2 (64 * int 2)" using f64_mul_pow2 [of 1] by simp
  have o: "f64_is (f64_of_u64 1) False (2 ^ 1074)" using f64_of_u64_is [of 1] by simp
  have p: "f64_is (f64_pow2 64) False (2 ^ 1138)" using f64_pow2_is [of 64] by simp
  have t: "f64_is (f64_mul (f64_of_u64 1) (f64_pow2 64)) (False \<noteq> False) (1 * 2 ^ 1138)"
    by (rule f64_mul_is [OF o p]) simp_all
  define s where "s = f64_add r (f64_mul (f64_of_u64 1) (f64_pow2 64))"
  have s: "f64_is s False ((3 * 2 ^ 51 + 2) * 2 ^ 1086)"
  proof -
    let ?n = "(3 * 2 ^ 52 + 3) * 2 ^ 1085 :: nat"
    have "f64_units r + f64_units (f64_mul (f64_of_u64 1) (f64_pow2 64)) = int ?n"
      using r0 t unfolding r_def f64_is_def f64_units_def by simp
    then have "s = f64_round False ?n 0"
      using r0 t f64_is_not_special [OF r0] f64_is_not_special [OF t] unfolding s_def f64_add_def r_def by (simp add: Let_def)
    moreover have "f64_is (f64_round False ?n 0) False ((3 * 2 ^ 51 + 2) * 2 ^ 1086)"
    proof (rule f64_round_code)
      have "floor_log2 (3 * 2 ^ 52 + 3) = 53" by (rule floor_log2_eqI) simp_all
      then show "floor_log2 ?n - 52 = 1086" using floor_log2_mult_power [of "3 * 2 ^ 52 + 3" 1085] by simp
      show "round_even ?n 1086 = 3 * 2 ^ 51 + 2"
        using round_even_shift [of "3 * 2 ^ 52 + 3" 1085 1] by (simp add: round_even_def)
    qed simp_all
    ultimately show ?thesis by simp
  qed
  have "to_f64_loop (mem a) 0 (f64_pow2 0) = to_f64_loop (replicate 14 0) s (f64_pow2 (64 * int 2))"
    unfolding assms(1) w_def [symmetric] to_f64_loop.simps m1 m2 s_def r_def ..
  also have "\<dots> = s" using to_f64_loop_zeros [OF s, of 2 14] by simp
  finally have loop: "to_f64_loop (mem a) 0 (f64_pow2 0) = s" .
  have "\<not> is_negative (mem a)" unfolding assms(1) by (simp add: is_negative_def BIGINT_LIMBS_def nth_Cons')
  then have "js_bigint_to_f64 mem a = s" using assms(2) loop by (simp add: js_bigint_to_f64_def Let_def)
  then show ?thesis using s by (simp add: f64_is_def f64_units_def)
qed

text \<open>
  C26. Between BigInt and Number: an integral double converts to the BigInt of exactly its value, or
  throws the overflow RangeError when that lies outside the 1024-bit range; a fraction, an infinity
  or NaN throws a RangeError. Back to Number, a BigInt below \<open>2 ^ 53\<close> in magnitude converts exactly;
  above \<open>2 ^ 64\<close> the limbs are rounded one by one, so the result need not be the nearest double
  (\<open>2 ^ 64 + 2 ^ 63 + 6143\<close> becomes \<open>2 ^ 64 + 2 ^ 63 + 8192\<close>).
\<close>

theorem bigint_number_conversions:
  assumes "bigint_mem_ok mem" "arena_ok alloc"
  shows "(f64_is_integer v \<longrightarrow>
      bigint_result mem (int_checked (f64_floor v)) (js_bigint_from_f64 str_of coerce_object format_f64 alloc mem v)) \<and>
    (f64_is_finite v \<and> \<not> f64_is_integer v \<or> v = f64_INFINITY \<or> v = f64_neg f64_INFINITY \<or> v = f64_NAN \<longrightarrow>
      (\<exists>msg. js_bigint_from_f64 str_of coerce_object format_f64 alloc mem v = Inl (RangeError msg))) \<and>
    (a \<noteq> 0 \<and> \<bar>limbs_int (mem a)\<bar> < 2 ^ 53 \<longrightarrow>
      f64_units (js_bigint_to_f64 mem a) = limbs_int (mem a) * 2 ^ 1074) \<and>
    (mem a = of_nat (2 ^ 63 + 6143) # 1 # replicate 14 0 \<and> a \<noteq> 0 \<longrightarrow>
      f64_units (js_bigint_to_f64 mem a) = (2 ^ 64 + 2 ^ 63 + 8192) * 2 ^ 1074)"
proof (intro conjI impI)
  assume i: "f64_is_integer v"
  then have fin: "f64_is_finite v" by (simp add: f64_is_integer_def)
  have "js_bigint_from_f64 str_of coerce_object format_f64 alloc mem v = bigint_return alloc mem (map_sum id int_limbs (int_checked (f64_floor v)))"
    using i fin limbs_from_integer_f64_eq [OF i]
    by (simp add: js_bigint_from_f64_finite bigint_from_number_def bigint_checked_int_checked)
  then show "bigint_result mem (int_checked (f64_floor v)) (js_bigint_from_f64 str_of coerce_object format_f64 alloc mem v)"
    using bigint_return_result [OF assms] int_checked_in_range by simp
next
  assume v: "f64_is_finite v \<and> \<not> f64_is_integer v \<or> v = f64_INFINITY \<or> v = f64_neg f64_INFINITY \<or> v = f64_NAN"
  have sp: "is_number f64_INFINITY" "is_number (f64_neg f64_INFINITY)" "is_number f64_NAN"
    by (simp_all add: is_tag16 tag16_def f64_INFINITY_def f64_neg_def f64_NAN_def)
  have num: "is_number v" using v sp finite_is_number by blast
  have "\<not> f64_is_finite v \<or> \<not> f64_is_integer v"
    using v by (auto simp: f64_is_finite_def f64_INFINITY_def f64_neg_def f64_NAN_def f64_exp_def)
  then show "\<exists>msg. js_bigint_from_f64 str_of coerce_object format_f64 alloc mem v = Inl (RangeError msg)"
    by (simp add: js_bigint_from_number [OF num] bigint_from_number_def)
next
  assume "a \<noteq> 0 \<and> \<bar>limbs_int (mem a)\<bar> < 2 ^ 53"
  then show "f64_units (js_bigint_to_f64 mem a) = limbs_int (mem a) * 2 ^ 1074"
    using assms(1) by (intro js_bigint_to_f64_exact) (simp_all add: bigint_mem_ok_def)
next
  assume "mem a = of_nat (2 ^ 63 + 6143) # 1 # replicate 14 0 \<and> a \<noteq> 0"
  then show "f64_units (js_bigint_to_f64 mem a) = (2 ^ 64 + 2 ^ 63 + 8192) * 2 ^ 1074"
    using js_bigint_to_f64_double_rounding [of mem a] by blast
qed

theorem bigint_number_conversions_witness:
  "f64_units (js_bigint_to_f64 (sample_mem (- 7) 0) 0x20000) = - 7 * 2 ^ 1074 \<and>
   (\<exists>msg. js_bigint_from_f64 (\<lambda>_. None) (\<lambda>_ _ _. None) (\<lambda>_. []) sample_arena (sample_mem (- 7) 0) f64_NAN = Inl (RangeError msg))"
proof -
  have r: "bigint_in_range (- 7)" "bigint_in_range 0" by (rule i128_in_range; simp)+
  have "limbs_int (sample_mem (- 7) 0 0x20000) = - 7"
    using sample_values(1) [OF r] by (simp add: bigint_value_def bigint_limbs_or_zero_def clean_bigint_ptr_def Let_def)
  then show ?thesis
    using bigint_number_conversions [OF sample_ok, of f64_NAN "- 7" 0 "\<lambda>_. None" "\<lambda>_ _ _. None" "\<lambda>_. []" "0x20000"] by simp
qed

end
