(* ===== verification/Map_Keys.thy ===== *)
theory Map_Keys
  imports Value_Ops
begin

text \<open>
  The keys of \<open>Map\<close> (\<open>map.rs\<close>): normalisation, the classes of keys the side indices hold, the
  content hash of strings and the key equality \<open>jsvalue_eq\<close>. What these read is the heap of the
  value operations and the symbol registry.
\<close>

record map_env =
  env_target :: target
  env_heap :: rt_heap
  symbol_registry :: "addr \<Rightarrow> bool"
  symbol_magic :: "addr \<Rightarrow> u32"

definition MAP_HOLE_KEY_BITS :: u64 where "MAP_HOLE_KEY_BITS = TAG_HOLE"
definition GC_TYPE_STRING :: u8 where "GC_TYPE_STRING = 3"
definition GC_TYPE_BIGINT :: u8 where "GC_TYPE_BIGINT = 6"
definition SYMBOL_MAGIC :: u32 where "SYMBOL_MAGIC = 0x53594D42"

text \<open>\<open>f64::NAN\<close>.\<close>

definition F64_NAN :: u64 where "F64_NAN = 0x7FF8000000000000"

definition is_plain_nonzero_number_bits :: "u64 \<Rightarrow> bool" where
  "is_plain_nonzero_number_bits bits \<longleftrightarrow>
     bits AND 0x7FF8000000000000 \<noteq> 0x7FF8000000000000 \<and> bits AND NOT 0x8000000000000000 \<noteq> 0"

definition is_safe_numeric_key :: "u64 \<Rightarrow> bool" where
  "is_safe_numeric_key bits =
     (let upper = drop_bit 48 bits
      in if upper = 0x7FFF \<or> upper = 0x7FFD \<or> upper = 0x7FFE then False
         else if upper = drop_bit 48 BIGINT_TAG then False
         else if upper = drop_bit 48 SHORT_STRING_TAG then False
         else if upper = 0 then (let lower = bits AND 0xFFFFFFFFFFFF in \<not> lower > 0x10000)
         else True)"

definition normalize_zero :: "f64 \<Rightarrow> f64" where
  "normalize_zero key =
     (if key = MAP_HOLE_KEY_BITS then TAG_UNDEFINED
      else if f64_eq key 0 then 0
      else if f64_is_nan key \<and> is_number key then F64_NAN
      else key)"

definition normalize_number_key_from_boxed :: "f64 \<Rightarrow> f64 option" where
  "normalize_number_key_from_boxed key =
     (if is_int32 key then Some (normalize_zero (f64_of_int (as_int32 key)))
      else if is_number key then Some (normalize_zero key)
      else None)"

definition extract_string_ptr_from_value :: "u64 \<Rightarrow> addr" where
  "extract_string_ptr_from_value bits =
     (let upper = drop_bit 48 bits
      in if upper = 0x7FFF then bits AND 0xFFFFFFFFFFFF
         else if upper = 0x7FFD then bits AND 0xFFFFFFFFFFFF
         else if upper = 0 then (let lower = bits AND 0xFFFFFFFFFFFF in if lower > 0x10000 then lower else 0)
         else 0)"

text \<open>The type byte of the header in front of an address, when the address passes the plausibility checks.\<close>

definition header_type :: "map_env \<Rightarrow> addr \<Rightarrow> u8 option" where
  "header_type e addr = map_option (\<lambda>hdr. obj_type (gc_headers (env_heap e) hdr)) (try_read_gc_header (env_target e) (env_heap e) addr)"

text \<open>
  The view of a string value as its bytes. An inline string is copied into a scratch buffer of five
  bytes; a length byte above five is not a value the runtime makes, and the view ends with the buffer.
\<close>

definition string_view_from_bits :: "map_env \<Rightarrow> u64 \<Rightarrow> u8 list option" where
  "string_view_from_bits e bits =
     (let upper = drop_bit 48 bits
      in if upper = drop_bit 48 SHORT_STRING_TAG then
           (let len = unat (drop_bit SHORT_STRING_LEN_SHIFT (bits AND SHORT_STRING_LEN_MASK));
                data = bits AND SHORT_STRING_DATA_MASK
            in Some (map (\<lambda>i. ucast (drop_bit (i * 8) data AND 0xFF)) [0..<min len SHORT_STRING_MAX_LEN]))
         else
           let ptr = extract_string_ptr_from_value bits
           in if header_type e ptr = Some GC_TYPE_STRING then Some (str_data (strings (env_heap e) ptr)) else None)"

definition is_string_like :: "map_env \<Rightarrow> u64 \<Rightarrow> bool" where
  "is_string_like e bits =
     (let upper = drop_bit 48 bits
      in if upper = drop_bit 48 SHORT_STRING_TAG then True
         else if upper = 0x7FFF then extract_string_ptr_from_value bits \<noteq> 0
         else header_type e (extract_string_ptr_from_value bits) = Some GC_TYPE_STRING)"

text \<open>FNV-1a over the bytes of a string.\<close>

fun fnv1a :: "u8 list \<Rightarrow> u64 \<Rightarrow> u64" where
  "fnv1a [] h = h"
| "fnv1a (b # bytes) h = fnv1a bytes ((h XOR ucast b) * 0x100000001B3)"

definition string_content_hash :: "map_env \<Rightarrow> u64 \<Rightarrow> u64 option" where
  "string_content_hash e value_bits = map_option (\<lambda>bytes. fnv1a bytes 0xCBF29CE484222325) (string_view_from_bits e value_bits)"

definition boxed_heap_string_key :: "addr \<Rightarrow> f64" where
  "boxed_heap_string_key key = STRING_TAG OR (key AND POINTER_MASK)"

definition bigint_ptr_from_bits :: "map_env \<Rightarrow> u64 \<Rightarrow> addr" where
  "bigint_ptr_from_bits e bits =
     (let upper = drop_bit 48 bits;
          addr = (if upper = drop_bit 48 BIGINT_TAG \<or> upper = 0x7FFD then Some (bits AND POINTER_MASK)
                  else if upper = 0 \<and> is_above_handle_band bits then Some bits
                  else None)
      in case addr of
           None \<Rightarrow> 0
         | Some addr \<Rightarrow> if header_type e addr = Some GC_TYPE_BIGINT then addr else 0)"

definition js_is_symbol :: "map_env \<Rightarrow> f64 \<Rightarrow> int" where
  "js_is_symbol e bits =
     (if bits AND 0xFFFF000000000000 \<noteq> POINTER_TAG then 0
      else let ptr = bits AND POINTER_MASK
           in if symbol_registry e ptr then 1
              else if is_handle_band ptr then 0
              else if symbol_magic e ptr = SYMBOL_MAGIC then 1 else 0)"

definition jsvalue_eq :: "map_env \<Rightarrow> f64 \<Rightarrow> f64 \<Rightarrow> bool" where
  "jsvalue_eq e a b =
     (if a = b then True
      else if js_is_symbol e a \<noteq> 0 \<or> js_is_symbol e b \<noteq> 0 then False
      else
        let a_big = bigint_ptr_from_bits e a; b_big = bigint_ptr_from_bits e b
        in if a_big \<noteq> 0 \<or> b_big \<noteq> 0 then
             (if a_big = 0 \<or> b_big = 0 then False else js_bigint_eq (bigints (env_heap e)) a_big b_big \<noteq> 0)
           else if is_string_like e a \<and> is_string_like e b then
             (case (string_view_from_bits e a, string_view_from_bits e b) of
                (Some a_bytes, Some b_bytes) \<Rightarrow>
                  if length a_bytes \<noteq> length b_bytes then False
                  else if length a_bytes = 0 then True
                  else a_bytes = b_bytes
              | _ \<Rightarrow> False)
           else False)"

definition is_ptr_index_key :: "map_env \<Rightarrow> u64 \<Rightarrow> bool" where
  "is_ptr_index_key e bits \<longleftrightarrow> \<not> is_safe_numeric_key bits \<and> \<not> is_string_like e bits"

text \<open>What \<open>MapPtrKey\<close> feeds to the hasher: the limbs of a BigInt after a domain tag, else the bits.\<close>

definition map_ptr_key_hash :: "map_env \<Rightarrow> f64 \<Rightarrow> u64 list" where
  "map_ptr_key_hash e bits =
     (let big = bigint_ptr_from_bits e bits
      in if big \<noteq> 0 then 0xB161247 # bigints (env_heap e) big else [bits])"

subsection \<open>Classes of keys\<close>

text \<open>Two keys are equal when they have the same class.\<close>

datatype key_class = KBits u64 | KBig "u64 list" | KStr "u8 list"

definition key_class_of :: "map_env \<Rightarrow> u64 \<Rightarrow> key_class" where
  "key_class_of e k =
     (if js_is_symbol e k \<noteq> 0 then KBits k
      else if bigint_ptr_from_bits e k \<noteq> 0 then KBig (bigints (env_heap e) (bigint_ptr_from_bits e k))
      else if is_string_like e k then
        (case string_view_from_bits e k of Some bytes \<Rightarrow> KStr bytes | None \<Rightarrow> KBits k)
      else KBits k)"

lemma header_type_plausible: "header_type e p = Some ty \<Longrightarrow> is_plausible_heap_addr (env_target e) p"
  by (simp add: header_type_def try_read_gc_header_eq split: if_splits)

lemma plausible_clean:
  assumes "is_plausible_heap_addr t p"
  shows "p \<noteq> 0" "clean_bigint_ptr p = p" "p \<ge> HANDLE_BAND_MAX" "p < 0x1000000000000"
proof -
  have lo: "0x100000 \<le> p" and hi: "p < 0x1000000000000"
    using assms by (auto simp: is_plausible_heap_addr_def is_above_handle_band_def is_valid_obj_ptr_def HEAP_MAX_def band_defs
        split: if_splits intro: less_trans)
  show "p \<noteq> 0" using lo by auto
  show "p \<ge> HANDLE_BAND_MAX" using lo by (simp add: band_defs)
  show "p < 0x1000000000000" by (rule hi)
  have "unat p div 2 ^ 48 = 0" using hi by (simp add: word_less_nat_alt)
  then have "drop_bit 48 p = 0" by (simp add: word_unat_eq_iff unat_drop_bit_div)
  then show "clean_bigint_ptr p = p" using lo by (auto simp: clean_bigint_ptr_def Let_def word_le_nat_alt word_less_nat_alt)
qed

lemma bigint_ptr_plausible:
  "bigint_ptr_from_bits e k \<noteq> 0 \<Longrightarrow> header_type e (bigint_ptr_from_bits e k) = Some GC_TYPE_BIGINT"
  by (auto simp: bigint_ptr_from_bits_def Let_def split: option.splits if_splits)

lemma jsvalue_eq_class: "jsvalue_eq e a b \<longleftrightarrow> key_class_of e a = key_class_of e b"
proof (cases "a = b \<or> js_is_symbol e a \<noteq> 0 \<or> js_is_symbol e b \<noteq> 0")
  case True
  then show ?thesis by (auto simp: jsvalue_eq_def key_class_of_def split: option.splits)
next
  case False
  have eq: "js_bigint_eq (bigints (env_heap e)) (bigint_ptr_from_bits e a) (bigint_ptr_from_bits e b) \<noteq> 0
      \<longleftrightarrow> bigints (env_heap e) (bigint_ptr_from_bits e a) = bigints (env_heap e) (bigint_ptr_from_bits e b)"
    if "bigint_ptr_from_bits e a \<noteq> 0" "bigint_ptr_from_bits e b \<noteq> 0"
    using plausible_clean(2) [OF header_type_plausible [OF bigint_ptr_plausible [OF that(1)]]]
      plausible_clean(2) [OF header_type_plausible [OF bigint_ptr_plausible [OF that(2)]]] that
    by (simp add: js_bigint_eq_def)
  show ?thesis
  proof (cases "bigint_ptr_from_bits e a \<noteq> 0 \<or> bigint_ptr_from_bits e b \<noteq> 0")
    case True
    then show ?thesis using False eq by (auto simp: jsvalue_eq_def key_class_of_def Let_def split: option.splits)
  next
    case not_big: False
    then show ?thesis using False by (auto simp: jsvalue_eq_def key_class_of_def Let_def split: option.splits)
  qed
qed

lemma header_type_0: "header_type e 0 = None"
  by (simp add: header_type_def try_read_gc_header_eq is_plausible_heap_addr_def is_above_handle_band_def band_defs)

lemma safe_numeric_key_iff:
  "is_safe_numeric_key k \<longleftrightarrow> tag16 k \<notin> {0x7FFF, 0x7FFD, 0x7FFE, 0x7FFA, 0x7FF9} \<and> (tag16 k = 0 \<longrightarrow> k AND 0xFFFFFFFFFFFF \<le> 0x10000)"
  by (simp add: is_safe_numeric_key_def tag16_def tag_defs Let_def word_unat_eq_iff not_less)

lemma extract_string_ptr_safe: "is_safe_numeric_key k \<Longrightarrow> extract_string_ptr_from_value k = 0"
  by (auto simp: is_safe_numeric_key_def extract_string_ptr_from_value_def Let_def split: if_splits)

lemma low48: "drop_bit 48 k = 0 \<Longrightarrow> k AND 0xFFFFFFFFFFFF = (k :: u64)"
  using jsvalue_eq_iff [of "k AND POINTER_MASK" k] tag16_payload [of k] by (simp add: tag16_def POINTER_MASK_def)

lemma pointer_tag_iff: "k AND 0xFFFF000000000000 = POINTER_TAG \<longleftrightarrow> tag16 k = 0x7FFD"
  using tag_eq_iff(1) [of k POINTER_TAG] by (simp add: TAG_MASK_def POINTER_TAG_def)

lemma safe_numeric_key_class:
  assumes "is_safe_numeric_key k"
  shows "\<not> is_string_like e k" "bigint_ptr_from_bits e k = 0" "js_is_symbol e k = 0" "key_class_of e k = KBits k"
proof -
  have t: "tag16 k \<notin> {0x7FFF, 0x7FFD, 0x7FFE, 0x7FFA, 0x7FF9}" using assms by (simp add: safe_numeric_key_iff)
  show s: "\<not> is_string_like e k"
    using t by (simp add: is_string_like_def extract_string_ptr_safe [OF assms] header_type_0 Let_def tag16_def tag_defs word_unat_eq_iff)
  show b: "bigint_ptr_from_bits e k = 0"
  proof (cases "drop_bit 48 k = 0")
    case True
    then have "k \<le> 0x10000" using assms low48 [OF True] by (simp add: safe_numeric_key_iff tag16_def)
    then have "\<not> is_above_handle_band k" by (simp add: is_above_handle_band_def band_defs word_le_nat_alt)
    then show ?thesis using t by (simp add: bigint_ptr_from_bits_def Let_def tag16_def tag_defs word_unat_eq_iff)
  next
    case False
    then show ?thesis using t by (simp add: bigint_ptr_from_bits_def Let_def tag16_def tag_defs word_unat_eq_iff)
  qed
  show y: "js_is_symbol e k = 0" using t by (auto simp: js_is_symbol_def pointer_tag_iff)
  show "key_class_of e k = KBits k" by (simp add: key_class_of_def s b y)
qed

lemma bigint_not_string:
  assumes "bigint_ptr_from_bits e k \<noteq> 0"
  shows "\<not> is_safe_numeric_key k" "\<not> is_string_like e k" "string_content_hash e k = None"
proof -
  show n: "\<not> is_safe_numeric_key k" using assms safe_numeric_key_class(2) by blast
  have t: "tag16 k \<in> {0x7FFA, 0x7FFD, 0}"
    using assms by (auto simp: bigint_ptr_from_bits_def Let_def tag16_def tag_defs word_unat_eq_iff split: if_splits)
  have ht: "header_type e (extract_string_ptr_from_value k) \<noteq> Some GC_TYPE_STRING"
  proof (cases "tag16 k = 0x7FFA")
    case True
    then have "extract_string_ptr_from_value k = 0"
      by (simp add: extract_string_ptr_from_value_def Let_def tag16_def word_unat_eq_iff)
    then show ?thesis by (simp add: header_type_0)
  next
    case False
    have "header_type e (bigint_ptr_from_bits e k) = Some GC_TYPE_BIGINT" by (rule bigint_ptr_plausible [OF assms])
    moreover have "bigint_ptr_from_bits e k = extract_string_ptr_from_value k \<or> extract_string_ptr_from_value k = 0"
      using False t low48 [of k] assms
      by (auto simp: bigint_ptr_from_bits_def extract_string_ptr_from_value_def Let_def tag16_def tag_defs word_unat_eq_iff
          split: if_splits)
    ultimately show ?thesis using header_type_0 by (auto simp: GC_TYPE_STRING_def GC_TYPE_BIGINT_def)
  qed
  show "\<not> is_string_like e k"
    using t ht by (auto simp: is_string_like_def Let_def tag16_def tag_defs word_unat_eq_iff)
  show "string_content_hash e k = None"
    using t ht by (auto simp: string_content_hash_def string_view_from_bits_def Let_def tag16_def tag_defs word_unat_eq_iff)
qed

lemma equal_keys_cases:
  assumes "jsvalue_eq e a b"
  obtains "a = b"
    | "is_string_like e a" "is_string_like e b" "string_view_from_bits e a = string_view_from_bits e b"
      "string_view_from_bits e a \<noteq> None" "bigint_ptr_from_bits e a = 0" "bigint_ptr_from_bits e b = 0"
    | "bigint_ptr_from_bits e a \<noteq> 0" "bigint_ptr_from_bits e b \<noteq> 0"
      "bigints (env_heap e) (bigint_ptr_from_bits e a) = bigints (env_heap e) (bigint_ptr_from_bits e b)"
  using assms unfolding jsvalue_eq_class key_class_of_def by (auto split: if_splits option.splits)

text \<open>Equal keys go to the same index, with the same hash.\<close>

lemma equal_keys_index:
  assumes "jsvalue_eq e a b"
  shows "is_safe_numeric_key a = is_safe_numeric_key b" "is_string_like e a = is_string_like e b"
    "string_content_hash e a = string_content_hash e b" "\<not> is_string_like e a \<Longrightarrow> map_ptr_key_hash e a = map_ptr_key_hash e b"
    "is_safe_numeric_key a \<Longrightarrow> a = b"
proof -
  show "is_safe_numeric_key a = is_safe_numeric_key b" using assms
    by (cases rule: equal_keys_cases) (use safe_numeric_key_class(1) bigint_not_string(1) in blast)+
  show "is_string_like e a = is_string_like e b" using assms
    by (cases rule: equal_keys_cases) (use bigint_not_string(2) in blast)+
  show "string_content_hash e a = string_content_hash e b" using assms
    by (cases rule: equal_keys_cases) (simp_all add: string_content_hash_def bigint_not_string(3) [unfolded string_content_hash_def])
  show "map_ptr_key_hash e a = map_ptr_key_hash e b" if "\<not> is_string_like e a" using assms that
    by (cases rule: equal_keys_cases) (simp_all add: map_ptr_key_hash_def Let_def)
  show "a = b" if "is_safe_numeric_key a" using assms that
    by (cases rule: equal_keys_cases) (use safe_numeric_key_class(1) bigint_not_string(1) in blast)+
qed

lemma jsvalue_eq_equiv: "jsvalue_eq e a a" "jsvalue_eq e a b \<Longrightarrow> jsvalue_eq e b a"
  "jsvalue_eq e a b \<Longrightarrow> jsvalue_eq e b c \<Longrightarrow> jsvalue_eq e a c"
  by (simp_all add: jsvalue_eq_class)

subsection \<open>Legal keys\<close>

text \<open>
  What the entry list stores: normalised keys that are not bare addresses. (The code treats a double
  with sixteen leading zero bits and more than \<open>0x10000\<close> as an address.)
\<close>

definition raw_address :: "u64 \<Rightarrow> bool" where
  "raw_address k \<longleftrightarrow> drop_bit 48 k = 0 \<and> k > 0x10000"

definition map_key :: "u64 \<Rightarrow> bool" where
  "map_key k \<longleftrightarrow> \<not> raw_address k \<and> normalize_zero k = k"

lemma f64_eq_0_iff: "f64_eq k 0 \<longleftrightarrow> k = 0 \<or> k = 0x8000000000000000"
proof -
  have "\<not> f64_is_nan 0" "\<not> f64_is_nan 0x8000000000000000" by (simp_all add: f64_is_nan_def f64_exp_def f64_mant_def)
  then show ?thesis using f64_mag_0_iff [of k] f64_mag_0_iff [of 0] by (auto simp: f64_eq_iff)
qed

lemma F64_NAN_nan: "f64_is_nan F64_NAN" "is_number F64_NAN"
  by (simp_all add: F64_NAN_def f64_is_nan_def f64_exp_def f64_mant_def is_number_def tag_defs Let_def)

lemma normalize_zero_fixed:
  "normalize_zero k = k \<longleftrightarrow> k \<noteq> MAP_HOLE_KEY_BITS \<and> k \<noteq> 0x8000000000000000 \<and> (f64_is_nan k \<and> is_number k \<longrightarrow> k = F64_NAN)"
proof -
  have "\<not> f64_is_nan 0" by (simp add: f64_is_nan_def f64_exp_def f64_mant_def)
  then show ?thesis by (auto simp: normalize_zero_def f64_eq_0_iff MAP_HOLE_KEY_BITS_def tag_defs F64_NAN_def)
qed

lemma normalize_zero_idem: "normalize_zero (normalize_zero k) = normalize_zero k"
proof -
  have "\<not> f64_is_nan 0" by (simp add: f64_is_nan_def f64_exp_def f64_mant_def)
  moreover have "\<not> is_number TAG_UNDEFINED" by (simp add: is_number_def tag_defs Let_def)
  ultimately show ?thesis unfolding normalize_zero_fixed
    by (auto simp: normalize_zero_def f64_eq_0_iff MAP_HOLE_KEY_BITS_def tag_defs F64_NAN_def)
qed

lemma normalize_zero_map_key: "\<not> raw_address k \<Longrightarrow> map_key (normalize_zero k)"
  using normalize_zero_idem [of k]
  by (auto simp: map_key_def raw_address_def normalize_zero_def F64_NAN_def tag_defs)

lemma map_keyD:
  assumes "map_key k"
  shows "k \<noteq> MAP_HOLE_KEY_BITS" "k \<noteq> 0x8000000000000000" "normalize_zero k = k" "\<not> raw_address k"
  using assms unfolding map_key_def by (simp_all add: normalize_zero_fixed)

lemma hole_safe: "is_safe_numeric_key MAP_HOLE_KEY_BITS"
  by (simp add: is_safe_numeric_key_def MAP_HOLE_KEY_BITS_def tag_defs)

lemma plain_number_safe:
  assumes "is_plain_nonzero_number_bits k" "map_key k"
  shows "is_safe_numeric_key k"
proof -
  have c: "(0x7FF8000000000000 :: u64) = push_bit 48 0x7FF8" by simp
  have "k AND 0x7FF8000000000000 = push_bit 48 (drop_bit 48 k AND 0x7FF8)"
    unfolding c by (rule bit_word_eqI) (auto simp: bit_and_iff bit_push_bit_iff bit_drop_bit_eq simp del: push_bit_numeral)
  note low = this
  have ne: "drop_bit 48 k AND 0x7FF8 \<noteq> 0x7FF8"
  proof
    assume "drop_bit 48 k AND 0x7FF8 = 0x7FF8"
    then have "k AND 0x7FF8000000000000 = 0x7FF8000000000000" unfolding low by (simp only: c [symmetric])
    then show False using assms(1) by (simp add: is_plain_nonzero_number_bits_def)
  qed
  have w: "drop_bit 48 k = of_nat (tag16 k)" by (simp add: tag16_def)
  have "tag16 k \<notin> {0x7FFF, 0x7FFD, 0x7FFE, 0x7FFA, 0x7FF9}" using ne unfolding w by auto
  moreover have "k AND 0xFFFFFFFFFFFF \<le> 0x10000" if "tag16 k = 0"
  proof -
    have "drop_bit 48 k = 0" using that w by simp
    then show ?thesis using map_keyD(4) [OF assms(2)] low48 [of k] by (simp add: raw_address_def)
  qed
  ultimately show ?thesis by (simp add: safe_numeric_key_iff)
qed

subsection \<open>Key equality is SameValueZero\<close>

text \<open>
  A key whose tag agrees with the heap: strings and BigInts point at objects of their type, other
  pointers do not, and objects are named by their current address. Numbers are in the double form.
\<close>

definition key_wf :: "map_env \<Rightarrow> u64 \<Rightarrow> bool" where
  "key_wf e k \<longleftrightarrow> map_key k \<and> value_ok k \<and>
     (case js_view k of
        VInt32 _ \<Rightarrow> False
      | VString p \<Rightarrow> header_type e p = Some GC_TYPE_STRING
      | VBigInt p \<Rightarrow> header_type e p = Some GC_TYPE_BIGINT
      | VPointer p \<Rightarrow> header_type e p \<notin> {Some GC_TYPE_STRING, Some GC_TYPE_BIGINT} \<and> resolve_forwarding (env_heap e) p = p
      | _ \<Rightarrow> True)"

lemma other_key_class:
  assumes "tag16 k \<notin> {0x7FFF, 0x7FF9, 0x7FFA, 0x7FFD}" "\<not> raw_address k"
  shows "key_class_of e k = KBits k"
proof -
  have "extract_string_ptr_from_value k = 0"
    using assms low48 [of k] by (auto simp: extract_string_ptr_from_value_def Let_def tag16_def raw_address_def)
  then have "\<not> is_string_like e k"
    using assms(1) header_type_0 by (auto simp: is_string_like_def Let_def tag16_def tag_defs)
  moreover have "bigint_ptr_from_bits e k = 0"
  proof -
    have "\<not> is_above_handle_band k" if "drop_bit 48 k = 0"
    proof -
      have "k \<le> 0x10000" using assms(2) that by (simp add: raw_address_def)
      then show ?thesis by (simp add: is_above_handle_band_def band_defs word_le_nat_alt)
    qed
    then show ?thesis using assms(1) by (auto simp: bigint_ptr_from_bits_def Let_def tag16_def tag_defs)
  qed
  moreover have "js_is_symbol e k = 0" using assms(1) by (simp add: js_is_symbol_def pointer_tag_iff)
  ultimately show ?thesis by (simp add: key_class_of_def)
qed

lemma string_key_class:
  assumes "tag16 k = 0x7FFF" "header_type e (k AND POINTER_MASK) = Some GC_TYPE_STRING"
  shows "key_class_of e k = KStr (string_bytes (env_heap e) (k AND POINTER_MASK))"
proof -
  have w: "drop_bit 48 k = 0x7FFF" using assms(1) by (simp add: tag16_def word_unat_eq_iff)
  have p: "extract_string_ptr_from_value k = k AND POINTER_MASK"
    using w by (simp add: extract_string_ptr_from_value_def Let_def POINTER_MASK_def)
  have nz: "k AND POINTER_MASK \<noteq> 0" using plausible_clean(1) [OF header_type_plausible [OF assms(2)]] .
  have "js_is_symbol e k = 0" "bigint_ptr_from_bits e k = 0"
    using assms(1) w by (simp_all add: js_is_symbol_def pointer_tag_iff bigint_ptr_from_bits_def Let_def BIGINT_TAG_def)
  moreover have "is_string_like e k" "string_view_from_bits e k = Some (str_data (strings (env_heap e) (k AND POINTER_MASK)))"
    using w p nz assms(2) by (simp_all add: is_string_like_def string_view_from_bits_def Let_def) (simp_all add: tag_defs)
  ultimately show ?thesis using nz by (simp add: key_class_of_def string_bytes_def)
qed

lemma short_key_class:
  assumes "tag16 k = 0x7FF9" "short_string_to_buf k = Some bytes"
  shows "key_class_of e k = KStr bytes"
proof -
  have w: "drop_bit 48 k = 0x7FF9" using assms(1) by (simp add: tag16_def word_unat_eq_iff)
  have "js_is_symbol e k = 0" "bigint_ptr_from_bits e k = 0"
    using assms(1) w by (simp_all add: js_is_symbol_def pointer_tag_iff bigint_ptr_from_bits_def Let_def BIGINT_TAG_def)
  moreover have "is_string_like e k" using w by (simp add: is_string_like_def Let_def) (simp add: tag_defs)
  moreover have "string_view_from_bits e k = Some bytes"
    using w assms(2) by (simp add: string_view_from_bits_def short_string_to_buf_def short_string_len_def Let_def min_def
        SHORT_STRING_TAG_def split: if_splits)
  ultimately show ?thesis by (simp add: key_class_of_def)
qed

lemma bigint_key_class:
  assumes "tag16 k = 0x7FFA" "header_type e (k AND POINTER_MASK) = Some GC_TYPE_BIGINT"
  shows "key_class_of e k = KBig (bigints (env_heap e) (k AND POINTER_MASK))"
proof -
  have w: "drop_bit 48 k = 0x7FFA" using assms(1) by (simp add: tag16_def word_unat_eq_iff)
  have "bigint_ptr_from_bits e k = k AND POINTER_MASK"
    using w assms(2) by (simp add: bigint_ptr_from_bits_def Let_def BIGINT_TAG_def)
  then show ?thesis
    using assms(1) plausible_clean(1) [OF header_type_plausible [OF assms(2)]]
    by (simp add: key_class_of_def js_is_symbol_def pointer_tag_iff)
qed

lemma pointer_key_class:
  assumes "tag16 k = 0x7FFD" "header_type e (k AND POINTER_MASK) \<notin> {Some GC_TYPE_STRING, Some GC_TYPE_BIGINT}"
  shows "key_class_of e k = KBits k"
proof -
  have w: "drop_bit 48 k = 0x7FFD" using assms(1) by (simp add: tag16_def word_unat_eq_iff)
  have "bigint_ptr_from_bits e k = 0"
    using w assms(2) by (simp add: bigint_ptr_from_bits_def Let_def BIGINT_TAG_def)
  moreover have "\<not> is_string_like e k"
    using w assms(2) by (simp add: is_string_like_def extract_string_ptr_from_value_def Let_def POINTER_MASK_def SHORT_STRING_TAG_def)
  ultimately show ?thesis by (simp add: key_class_of_def)
qed

lemma key_class_wf:
  assumes "key_wf e k"
  shows "key_class_of e k =
    (case js_view k of
       VString p \<Rightarrow> KStr (string_bytes (env_heap e) p)
     | VShort _ _ \<Rightarrow> KStr (case short_string_to_buf k of None \<Rightarrow> [] | Some bytes \<Rightarrow> bytes)
     | VBigInt p \<Rightarrow> KBig (bigints (env_heap e) p)
     | _ \<Rightarrow> KBits k)"
proof -
  have tag: "tag16 k = view_tag (js_view k)" by (rule tag16_view)
  have pl: "k AND POINTER_MASK = view_payload (js_view k)" by (rule payload_view)
  have raw: "\<not> raw_address k" using assms map_keyD(4) by (simp add: key_wf_def)
  show ?thesis
  proof (cases "js_view k")
    case (VNumber n)
    then have "is_number k" by (simp add: js_view_cases)
    then show ?thesis using VNumber other_key_class [OF _ raw] by (auto simp: is_tag16)
  next
    case (VString p)
    then show ?thesis using string_key_class [of k e] tag pl assms by (simp add: view_tag_def view_payload_def key_wf_def)
  next
    case (VShort l d)
    moreover obtain bytes where "short_string_to_buf k = Some bytes"
      using value_ok_short [OF _ VShort] assms by (auto simp: key_wf_def)
    ultimately show ?thesis using short_key_class [of k bytes e] tag by (simp add: view_tag_def)
  next
    case (VBigInt p)
    then show ?thesis using bigint_key_class [of k e] tag pl assms by (simp add: view_tag_def view_payload_def key_wf_def)
  next
    case (VPointer p)
    then show ?thesis using pointer_key_class [of k e] tag pl assms by (simp add: view_tag_def view_payload_def key_wf_def)
  next
    case (VReserved r)
    then have "tag16 k \<in> {0x7FFC, 0x7FFE}" by (auto simp: view_simps split: if_splits)
    then show ?thesis using VReserved other_key_class [OF _ raw] by auto
  qed (use other_key_class [OF _ raw, of e] tag in \<open>auto simp: view_tag_def\<close>)
qed

lemma bigint_limbs_inj:
  assumes "bigint_mem_ok mem" "clean_bigint_ptr p = p" "clean_bigint_ptr q = q" "p \<noteq> 0" "q \<noteq> 0"
  shows "mem p = mem q \<longleftrightarrow> bigint_value mem p = bigint_value mem q"
  using assms limbs_int_inj [of "mem p" "mem q"] by (auto simp: bigint_value_def bigint_limbs_or_zero_def bigint_mem_ok_def Let_def)

lemma number_key_eq:
  assumes "map_key a" "map_key b" "is_number a" "is_number b"
  shows "f64_eq a b \<or> f64_is_nan a \<and> f64_is_nan b \<longleftrightarrow> a = b"
proof -
  have k: "(f64_is_nan k \<longrightarrow> k = F64_NAN) \<and> (f64_mag k = 0 \<longrightarrow> k = 0)" if "map_key k" "is_number k" for k
    using that f64_mag_0_iff [of k] unfolding map_key_def normalize_zero_fixed by blast
  show ?thesis unfolding f64_eq_iff using k [OF assms(1,3)] k [OF assms(2,4)] by metis
qed

lemma jsvalue_eq_same_value_zero:
  assumes "bigint_mem_ok (bigints (env_heap e))" "key_wf e a" "key_wf e b"
  shows "jsvalue_eq e a b \<longleftrightarrow> same_value_zero (js_denote (env_heap e) a) (js_denote (env_heap e) b)"
proof -
  have inj: "js_view a = js_view b \<longleftrightarrow> a = b" using js_view_inject by blast
  have num: "f64_eq m n \<or> f64_is_nan m \<and> f64_is_nan n \<longleftrightarrow> a = b" if "js_view a = VNumber m" "js_view b = VNumber n" for m n
    using number_key_eq [of a b] assms(2,3) that js_view_payload(1) [OF that(1)] js_view_payload(1) [OF that(2)]
    by (simp add: key_wf_def js_view_cases)
  have big: "bigints (env_heap e) p = bigints (env_heap e) q \<longleftrightarrow> bigint_value (bigints (env_heap e)) p = bigint_value (bigints (env_heap e)) q"
    if "js_view a = VBigInt p" "js_view b = VBigInt q" for p q
  proof -
    have "header_type e p = Some GC_TYPE_BIGINT" "header_type e q = Some GC_TYPE_BIGINT" using assms(2,3) that by (simp_all add: key_wf_def)
    then show ?thesis using bigint_limbs_inj [OF assms(1)] plausible_clean(1,2) header_type_plausible by metis
  qed
  have ptr: "resolve_forwarding (env_heap e) p = p" if "js_view k = VPointer p" "key_wf e k" for k p
    using that by (simp add: key_wf_def)
  have int: "case js_view k of VInt32 _ \<Rightarrow> False | _ \<Rightarrow> True" if "key_wf e k" for k
    using that by (simp add: key_wf_def split: js_view.splits)
  show ?thesis
    unfolding jsvalue_eq_class key_class_wf [OF assms(2)] key_class_wf [OF assms(3)] js_denote_def same_value_zero_def
    using inj num big ptr [OF _ assms(2)] ptr [OF _ assms(3)] int [OF assms(2)] int [OF assms(3)]
    by (cases "js_view a"; cases "js_view b") simp_all
qed

lemma normalize_zero_denote:
  assumes "a \<noteq> MAP_HOLE_KEY_BITS"
  shows "same_value_zero (js_denote h (normalize_zero a)) (js_denote h a)"
proof -
  have num: "js_denote h k = JNumber k" if "is_number k" for k
    using that js_view_payload(1) [of k] by (auto simp: js_denote_def js_view_cases)
  have same: "normalize_zero a = a" if "\<not> f64_eq a 0" "\<not> (f64_is_nan a \<and> is_number a)"
    using assms that by (auto simp: normalize_zero_def)
  consider "f64_eq a 0" | "\<not> f64_eq a 0" "f64_is_nan a" "is_number a" | "normalize_zero a = a" using same by blast
  then show ?thesis
  proof cases
    case 1
    then have "is_number a" by (auto simp: f64_eq_0_iff is_number_def tag_defs Let_def)
    moreover have "f64_eq 0 a" using 1 by (simp add: f64_eq_def)
    moreover have "is_number 0" by (simp add: is_number_def tag_defs Let_def)
    ultimately show ?thesis using 1 assms num [of a] num [of 0] by (simp add: normalize_zero_def same_value_zero_def)
  next
    case 2
    then show ?thesis
      using assms num [of a] num [OF F64_NAN_nan(2)] F64_NAN_nan(1) by (simp add: normalize_zero_def same_value_zero_def)
  qed (simp add: same_value_zero_equiv(1))
qed

subsection \<open>Properties\<close>

text \<open>
  C27. \<open>Map\<close> compares its keys by SameValueZero: after normalisation, \<open>jsvalue_eq\<close> holds exactly when
  the denoted JavaScript values are the same by SameValueZero, across inline and heap strings,
  BigInt allocations, the two zeros and every NaN. Equal keys are classified into the
  same side index and have the same hash there, so a hashed lookup cannot miss an equal key.
  Numbers have to come in the double form: an int32-tagged number is a key of its own.
\<close>

theorem map_key_equality:
  assumes "bigint_mem_ok (bigints (env_heap e))" "a \<noteq> MAP_HOLE_KEY_BITS" "b \<noteq> MAP_HOLE_KEY_BITS"
    "key_wf e (normalize_zero a)" "key_wf e (normalize_zero b)"
  shows "(jsvalue_eq e (normalize_zero a) (normalize_zero b)
        \<longleftrightarrow> same_value_zero (js_denote (env_heap e) a) (js_denote (env_heap e) b))
    \<and> (jsvalue_eq e (normalize_zero a) (normalize_zero b) \<longrightarrow>
         is_safe_numeric_key (normalize_zero a) = is_safe_numeric_key (normalize_zero b)
         \<and> is_ptr_index_key e (normalize_zero a) = is_ptr_index_key e (normalize_zero b)
         \<and> string_content_hash e (normalize_zero a) = string_content_hash e (normalize_zero b)
         \<and> (is_ptr_index_key e (normalize_zero a) \<longrightarrow> map_ptr_key_hash e (normalize_zero a) = map_ptr_key_hash e (normalize_zero b))
         \<and> (is_safe_numeric_key (normalize_zero a) \<longrightarrow> normalize_zero a = normalize_zero b))"
proof -
  let ?d = "js_denote (env_heap e)"
  have "same_value_zero (?d (normalize_zero a)) (?d (normalize_zero b)) \<longleftrightarrow> same_value_zero (?d a) (?d b)"
    using normalize_zero_denote [OF assms(2), of "env_heap e"] normalize_zero_denote [OF assms(3), of "env_heap e"] same_value_zero_equiv(2,3) by blast
  then show ?thesis
    using jsvalue_eq_same_value_zero [OF assms(1,4,5)] equal_keys_index [of e "normalize_zero a" "normalize_zero b"]
    by (auto simp: is_ptr_index_key_def)
qed

definition sample_env :: map_env where
  "sample_env = \<lparr>env_target = \<lparr>named_os = True, aarch64_linux = False\<rparr>, env_heap = sample_heap,
     symbol_registry = (\<lambda>_. False), symbol_magic = (\<lambda>_. 0)\<rparr>"

theorem map_key_equality_witness:
  "jsvalue_eq sample_env (normalize_zero 0x8000000000000000) (normalize_zero 0) = same_value_zero (JNumber 0x8000000000000000) (JNumber 0)"
proof -
  have n: "normalize_zero 0x8000000000000000 = 0" "normalize_zero 0 = 0"
    by (simp_all add: normalize_zero_def f64_eq_0_iff MAP_HOLE_KEY_BITS_def tag_defs)
  have wf: "key_wf sample_env 0"
    using n by (simp add: key_wf_def map_key_def raw_address_def value_ok_def is_short_string_def is_bigint_def tag_defs js_view_def Let_def)
  have d: "js_denote sample_heap 0x8000000000000000 = JNumber 0x8000000000000000" "js_denote sample_heap 0 = JNumber 0"
    by (simp_all add: js_denote_def js_view_def Let_def)
  show ?thesis
    using map_key_equality [of sample_env "0x8000000000000000" 0] wf n sample_heap_ok(1) d
    by (simp add: sample_env_def MAP_HOLE_KEY_BITS_def tag_defs)
qed

text \<open>
  A key that is a small subnormal double, such as \<open>1e-310\<close>, is taken for a bare address:
  it is a number, no numeric index holds it, and whether it counts as a string is decided by the
  memory eight bytes before the address its bits spell.
\<close>

theorem map_subnormal_key_reads_memory:
  "is_number 0x12688B70E62B \<and> \<not> f64_is_nan 0x12688B70E62B \<and> \<not> is_safe_numeric_key 0x12688B70E62B
   \<and> is_string_like e 0x12688B70E62B =
       (is_valid_obj_ptr (env_target e) 0x12688B70E62B \<and> \<not> small_buf_slab (env_heap e) 0x12688B70E62B
        \<and> obj_type (gc_headers (env_heap e) (0x12688B70E62B - 8)) = GC_TYPE_STRING)"
proof -
  have "extract_string_ptr_from_value 0x12688B70E62B = 0x12688B70E62B" by (simp add: extract_string_ptr_from_value_def)
  moreover have "is_above_handle_band 0x12688B70E62B" by (simp add: is_above_handle_band_def band_defs)
  ultimately have "is_string_like e 0x12688B70E62B =
       (is_valid_obj_ptr (env_target e) 0x12688B70E62B \<and> \<not> small_buf_slab (env_heap e) 0x12688B70E62B
        \<and> obj_type (gc_headers (env_heap e) (0x12688B70E62B - 8)) = GC_TYPE_STRING)"
    by (auto simp: is_string_like_def header_type_def try_read_gc_header_eq is_plausible_heap_addr_def GC_HEADER_SIZE_def
        SHORT_STRING_TAG_def Let_def)
  moreover have "is_number 0x12688B70E62B" "\<not> f64_is_nan 0x12688B70E62B" "\<not> is_safe_numeric_key 0x12688B70E62B"
    by (simp_all add: is_number_def f64_is_nan_def f64_exp_def is_safe_numeric_key_def tag_defs Let_def)
  ultimately show ?thesis by blast
qed

end
