(* ===== verification/Key_Index.thy ===== *)
theory Key_Index
  imports Prelude
begin

text \<open>
  What the entry list of a \<open>Map\<close> relies on in its side indices: a table from keys to entry positions that
  behaves like a finite map up to a key equality. The laws are stated once as a locale; the loops
  that fill an index from the entry list, and the effect of appending, deleting and clearing
  entries on an exact index, are derived from them for every implementation.
\<close>

text \<open>The loop over the entries that fills an index with the selected keys.\<close>

fun index_entries :: "('k \<Rightarrow> bool) \<Rightarrow> ('k \<Rightarrow> nat \<Rightarrow> 's \<Rightarrow> 's) \<Rightarrow> nat \<Rightarrow> 'k list \<Rightarrow> 's \<Rightarrow> 's" where
  "index_entries sel ins i [] s = s"
| "index_entries sel ins i (k # ks) s = index_entries sel ins (Suc i) ks (if sel k then ins k i s else s)"

lemma index_entries_cong:
  "(\<And>k. k \<in> set ks \<Longrightarrow> sel k = sel' k) \<Longrightarrow> index_entries sel ins i ks s = index_entries sel' ins i ks s"
  by (induction ks arbitrary: i s) auto

text \<open>An exact index: looking up a key yields the position of the one entry with an equal key.\<close>

definition index_exact :: "('k \<Rightarrow> bool) \<Rightarrow> ('k \<Rightarrow> 'k \<Rightarrow> bool) \<Rightarrow> 'k list \<Rightarrow> ('k \<Rightarrow> nat option) \<Rightarrow> bool" where
  "index_exact key_ok eq keys get \<longleftrightarrow>
     (\<forall>k. key_ok k \<longrightarrow> (\<forall>v. get k = Some v \<longleftrightarrow> v < length keys \<and> key_ok (keys ! v) \<and> eq (keys ! v) k))"

lemma index_exactD:
  "index_exact key_ok eq keys get \<Longrightarrow> key_ok k \<Longrightarrow> get k = Some v \<longleftrightarrow> v < length keys \<and> key_ok (keys ! v) \<and> eq (keys ! v) k"
  by (simp add: index_exact_def)

lemma index_exact_None:
  "index_exact key_ok eq keys get \<Longrightarrow> key_ok k \<Longrightarrow>
   get k = None \<longleftrightarrow> (\<forall>v < length keys. key_ok (keys ! v) \<longrightarrow> \<not> eq (keys ! v) k)"
  by (cases "get k") (auto simp: index_exact_def)

text \<open>Positions that hold no key of the index do not matter.\<close>

lemma index_exact_skip:
  "\<not> key_ok k \<Longrightarrow> index_exact key_ok eq keys get \<Longrightarrow> index_exact key_ok eq (keys @ [k]) get"
  by (auto simp: index_exact_def nth_append less_Suc_eq)

lemma index_exact_skip_update:
  "\<not> key_ok k \<Longrightarrow> i < length keys \<Longrightarrow> \<not> key_ok (keys ! i) \<Longrightarrow> index_exact key_ok eq keys get \<Longrightarrow>
   index_exact key_ok eq (keys[i := k]) get"
  by (auto simp: index_exact_def nth_list_update)

text \<open>Sequences of operations, and the finite map they denote up to the key equality.\<close>

datatype 'k index_op = Index_insert 'k nat | Index_remove 'k | Index_clear

fun run_index :: "('k \<Rightarrow> nat \<Rightarrow> 's \<Rightarrow> 's) \<Rightarrow> ('k \<Rightarrow> 's \<Rightarrow> 's) \<Rightarrow> ('s \<Rightarrow> 's) \<Rightarrow> 'k index_op list \<Rightarrow> 's \<Rightarrow> 's" where
  "run_index ins rem clr [] s = s"
| "run_index ins rem clr (Index_insert k v # ops) s = run_index ins rem clr ops (ins k v s)"
| "run_index ins rem clr (Index_remove k # ops) s = run_index ins rem clr ops (rem k s)"
| "run_index ins rem clr (Index_clear # ops) s = run_index ins rem clr ops (clr s)"

fun spec_index :: "('k \<Rightarrow> 'k \<Rightarrow> bool) \<Rightarrow> 'k index_op list \<Rightarrow> ('k \<Rightarrow> nat option) \<Rightarrow> 'k \<Rightarrow> nat option" where
  "spec_index eq [] f = f"
| "spec_index eq (Index_insert k v # ops) f = spec_index eq ops (\<lambda>k'. if eq k k' then Some v else f k')"
| "spec_index eq (Index_remove k # ops) f = spec_index eq ops (\<lambda>k'. if eq k k' then None else f k')"
| "spec_index eq (Index_clear # ops) f = spec_index eq ops (\<lambda>_. None)"

fun index_op_ok :: "('k \<Rightarrow> bool) \<Rightarrow> (nat \<Rightarrow> bool) \<Rightarrow> 'k index_op \<Rightarrow> bool" where
  "index_op_ok key_ok val_ok (Index_insert k v) \<longleftrightarrow> key_ok k \<and> val_ok v"
| "index_op_ok key_ok val_ok (Index_remove k) \<longleftrightarrow> key_ok k"
| "index_op_ok key_ok val_ok Index_clear \<longleftrightarrow> True"

locale key_index =
  fixes inv :: "'s \<Rightarrow> bool" and key_ok :: "'k \<Rightarrow> bool" and val_ok :: "nat \<Rightarrow> bool"
    and eq :: "'k \<Rightarrow> 'k \<Rightarrow> bool"
    and new :: 's and get :: "'s \<Rightarrow> 'k \<Rightarrow> nat option" and insert_key :: "'k \<Rightarrow> nat \<Rightarrow> 's \<Rightarrow> 's"
    and remove_key :: "'k \<Rightarrow> 's \<Rightarrow> 's" and clear :: "'s \<Rightarrow> 's"
  assumes eq_refl: "eq k k"
    and eq_sym: "eq k k' \<Longrightarrow> eq k' k"
    and eq_trans: "eq k k' \<Longrightarrow> eq k' k'' \<Longrightarrow> eq k k''"
    and new_inv: "inv new"
    and new_get: "key_ok k \<Longrightarrow> get new k = None"
    and insert_inv: "inv s \<Longrightarrow> key_ok k \<Longrightarrow> val_ok v \<Longrightarrow> inv (insert_key k v s)"
    and insert_get: "inv s \<Longrightarrow> key_ok k \<Longrightarrow> val_ok v \<Longrightarrow> key_ok k' \<Longrightarrow>
      get (insert_key k v s) k' = (if eq k k' then Some v else get s k')"
    and remove_inv: "inv s \<Longrightarrow> key_ok k \<Longrightarrow> inv (remove_key k s)"
    and remove_get: "inv s \<Longrightarrow> key_ok k \<Longrightarrow> key_ok k' \<Longrightarrow>
      get (remove_key k s) k' = (if eq k k' then None else get s k')"
    and clear_inv: "inv s \<Longrightarrow> inv (clear s)"
    and clear_get: "inv s \<Longrightarrow> key_ok k \<Longrightarrow> get (clear s) k = None"
begin

abbreviation exact :: "'k list \<Rightarrow> 's \<Rightarrow> bool" where
  "exact keys s \<equiv> index_exact key_ok eq keys (get s)"

lemma exact_append:
  assumes "inv s" "exact keys s" "key_ok k" "val_ok (length keys)"
    "\<And>i. i < length keys \<Longrightarrow> key_ok (keys ! i) \<Longrightarrow> \<not> eq (keys ! i) k"
  shows "exact (keys @ [k]) (insert_key k (length keys) s)"
proof -
  have "get (insert_key k (length keys) s) k' = Some v \<longleftrightarrow>
      v < length (keys @ [k]) \<and> key_ok ((keys @ [k]) ! v) \<and> eq ((keys @ [k]) ! v) k'" if k': "key_ok k'" for k' v
  proof (cases "eq k k'")
    case True
    have "\<not> eq (keys ! i) k'" if "i < length keys" "key_ok (keys ! i)" for i
      using assms(5) [OF that] eq_trans eq_sym [OF True] by blast
    then show ?thesis
      using True assms(3) insert_get [OF assms(1,3,4) k'] by (auto simp: nth_append less_Suc_eq)
  next
    case False
    then show ?thesis
      using insert_get [OF assms(1,3,4) k'] index_exactD [OF assms(2) k'] by (auto simp: nth_append less_Suc_eq)
  qed
  then show ?thesis by (simp add: index_exact_def)
qed

lemma exact_delete:
  assumes "inv s" "exact keys s" "i < length keys" "key_ok (keys ! i)" "\<not> key_ok hole"
    "\<And>j. j < length keys \<Longrightarrow> j \<noteq> i \<Longrightarrow> key_ok (keys ! j) \<Longrightarrow> \<not> eq (keys ! j) (keys ! i)"
  shows "exact (keys[i := hole]) (remove_key (keys ! i) s)"
proof -
  have "get (remove_key (keys ! i) s) k = Some v \<longleftrightarrow>
      v < length (keys[i := hole]) \<and> key_ok (keys[i := hole] ! v) \<and> eq (keys[i := hole] ! v) k" if k: "key_ok k" for k v
  proof (cases "eq (keys ! i) k")
    case True
    have "\<not> eq (keys ! j) k" if "j < length keys" "j \<noteq> i" "key_ok (keys ! j)" for j
      using assms(6) [OF that] eq_trans eq_sym [OF True] by blast
    then have "\<not> (v < length keys \<and> key_ok (keys[i := hole] ! v) \<and> eq (keys[i := hole] ! v) k)"
      using assms(3,5) by (cases "v = i") simp_all
    then show ?thesis using True remove_get [OF assms(1,4) k] by simp
  next
    case False
    then have "get (remove_key (keys ! i) s) k = get s k" using remove_get [OF assms(1,4) k] by simp
    then show ?thesis
      using False assms(3,5) index_exactD [OF assms(2) k, of v] by (cases "v = i") simp_all
  qed
  then show ?thesis by (simp add: index_exact_def)
qed

lemma exact_clear: "inv s \<Longrightarrow> (\<And>k. k \<in> set keys \<Longrightarrow> \<not> key_ok k) \<Longrightarrow> exact keys (clear s)"
  using clear_get by (auto simp: index_exact_def in_set_conv_nth)

lemma exact_new: "exact [] new"
  using new_get by (simp add: index_exact_def)

text \<open>Filling an index that is exact for the entries before position \<open>i\<close>.\<close>

lemma index_entries_exact:
  assumes "inv s" "exact done s" "length done + length ks \<le> n" "\<And>v. v < n \<Longrightarrow> val_ok v"
    "\<And>i j. i < j \<Longrightarrow> j < length (done @ ks) \<Longrightarrow> key_ok ((done @ ks) ! i) \<Longrightarrow> key_ok ((done @ ks) ! j) \<Longrightarrow>
       \<not> eq ((done @ ks) ! i) ((done @ ks) ! j)"
  shows "inv (index_entries key_ok insert_key (length done) ks s) \<and>
    exact (done @ ks) (index_entries key_ok insert_key (length done) ks s)"
  using assms(1-3,5)
proof (induction ks arbitrary: "done" s)
  case (Cons k ks)
  have bound: "val_ok (length done)" using Cons.prems(3) assms(4) by simp
  have fresh: "\<not> eq (done ! i) k" if "i < length done" "key_ok (done ! i)" "key_ok k" for i
    using Cons.prems(4) [of i "length done"] that by (simp add: nth_append)
  let ?s = "if key_ok k then insert_key k (length done) s else s"
  have "inv ?s" using Cons.prems(1) insert_inv bound by simp
  moreover have "exact (done @ [k]) ?s"
    using exact_append [OF Cons.prems(1,2) _ bound] fresh index_exact_skip Cons.prems(2) by (cases "key_ok k") auto
  ultimately have "inv (index_entries key_ok insert_key (length (done @ [k])) ks ?s) \<and>
      exact ((done @ [k]) @ ks) (index_entries key_ok insert_key (length (done @ [k])) ks ?s)"
  proof (rule Cons.IH)
    show "length (done @ [k]) + length ks \<le> n" using Cons.prems(3) by simp
    show "\<not> eq (((done @ [k]) @ ks) ! i) (((done @ [k]) @ ks) ! j)"
      if "i < j" "j < length ((done @ [k]) @ ks)" "key_ok (((done @ [k]) @ ks) ! i)" "key_ok (((done @ [k]) @ ks) ! j)" for i j
      using Cons.prems(4) [of i j] that by simp
  qed
  then show ?case by simp
qed simp

lemma index_entries_clear:
  assumes "inv s" "length ks \<le> n" "\<And>v. v < n \<Longrightarrow> val_ok v"
    "\<And>i j. i < j \<Longrightarrow> j < length ks \<Longrightarrow> key_ok (ks ! i) \<Longrightarrow> key_ok (ks ! j) \<Longrightarrow> \<not> eq (ks ! i) (ks ! j)"
  shows "inv (index_entries key_ok insert_key 0 ks (clear s)) \<and> exact ks (index_entries key_ok insert_key 0 ks (clear s))"
  using index_entries_exact [of "clear s" "[]" ks n] clear_inv [OF assms(1)] exact_clear [OF assms(1), of "[]"] assms(2-4)
  by simp

lemma run_index_refines:
  assumes "inv s" "\<And>k. key_ok k \<Longrightarrow> get s k = f k" "\<And>op. op \<in> set ops \<Longrightarrow> index_op_ok key_ok val_ok op"
  shows "inv (run_index insert_key remove_key clear ops s) \<and>
    (\<forall>k. key_ok k \<longrightarrow> get (run_index insert_key remove_key clear ops s) k = spec_index eq ops f k)"
  using assms
proof (induction ops arbitrary: s f)
  case (Cons op ops)
  have ok: "\<And>op. op \<in> set ops \<Longrightarrow> index_op_ok key_ok val_ok op" using Cons.prems(3) by simp
  show ?case
  proof (cases op)
    case (Index_insert k v)
    then have k: "key_ok k" "val_ok v" using Cons.prems(3) [of op] by simp_all
    show ?thesis using Cons.IH [OF insert_inv [OF Cons.prems(1) k] _ ok, of "\<lambda>k'. if eq k k' then Some v else f k'"]
      insert_get [OF Cons.prems(1) k] Cons.prems(2) Index_insert by simp
  next
    case (Index_remove k)
    then have k: "key_ok k" using Cons.prems(3) [of op] by simp
    show ?thesis using Cons.IH [OF remove_inv [OF Cons.prems(1) k] _ ok, of "\<lambda>k'. if eq k k' then None else f k'"]
      remove_get [OF Cons.prems(1) k] Cons.prems(2) Index_remove by simp
  next
    case Index_clear
    then show ?thesis using Cons.IH [OF clear_inv [OF Cons.prems(1)] _ ok, of "\<lambda>_. None"] clear_get [OF Cons.prems(1)] by simp
  qed
qed simp

end

subsection \<open>Hash tables with an equality of their own\<close>

text \<open>
  A hash table whose keys compare by \<open>eq\<close>, as an association list: equal keys have equal hashes, so
  a probe finds the entry whose key is equal. An insertion that finds an equal key keeps that key.
\<close>

definition table_get :: "('k \<Rightarrow> 'k \<Rightarrow> bool) \<Rightarrow> ('k \<times> nat) list \<Rightarrow> 'k \<Rightarrow> nat option" where
  "table_get eq tab key = map_option snd (find (\<lambda>(k, _). eq k key) tab)"

fun table_insert :: "('k \<Rightarrow> 'k \<Rightarrow> bool) \<Rightarrow> 'k \<Rightarrow> nat \<Rightarrow> ('k \<times> nat) list \<Rightarrow> ('k \<times> nat) list" where
  "table_insert eq key v [] = [(key, v)]"
| "table_insert eq key v ((k, w) # tab) = (if eq k key then (k, v) # tab else (k, w) # table_insert eq key v tab)"

definition table_remove :: "('k \<Rightarrow> 'k \<Rightarrow> bool) \<Rightarrow> 'k \<Rightarrow> ('k \<times> nat) list \<Rightarrow> ('k \<times> nat) list" where
  "table_remove eq key tab = filter (\<lambda>(k, _). \<not> eq k key) tab"

lemma table_get_simps [simp]:
  "table_get eq [] key = None" "table_get eq ((k, w) # tab) key = (if eq k key then Some w else table_get eq tab key)"
  by (simp_all add: table_get_def)

locale key_table =
  fixes key_ok :: "'k \<Rightarrow> bool" and eq :: "'k \<Rightarrow> 'k \<Rightarrow> bool"
  assumes table_refl: "eq k k"
    and table_sym: "eq k k' \<Longrightarrow> eq k' k"
    and table_trans: "eq k k' \<Longrightarrow> eq k' k'' \<Longrightarrow> eq k k''"
begin

lemma get_insert: "table_get eq (table_insert eq key v tab) k = (if eq key k then Some v else table_get eq tab k)"
proof (induction tab)
  case (Cons p tab)
  obtain k' w where p: "p = (k', w)" by fastforce
  show ?case
  proof (cases "eq k' key")
    case True
    then have "eq k' k \<longleftrightarrow> eq key k" using table_sym table_trans by blast
    then show ?thesis using True by (simp add: p)
  next
    case False
    then have "\<not> (eq k' k \<and> eq key k)" using table_sym table_trans by blast
    then show ?thesis using False Cons by (auto simp: p)
  qed
qed simp

lemma get_remove: "table_get eq (table_remove eq key tab) k = (if eq key k then None else table_get eq tab k)"
proof (induction tab)
  case Nil
  then show ?case by (simp add: table_remove_def)
next
  case (Cons p tab)
  obtain k' w where p: "p = (k', w)" by fastforce
  have "eq k' key \<Longrightarrow> eq k' k \<longleftrightarrow> eq key k" "\<not> eq k' key \<Longrightarrow> \<not> (eq k' k \<and> eq key k)" using table_sym table_trans by blast+
  then show ?case using Cons by (auto simp: p table_remove_def)
qed

lemma key_index_table:
  "key_index (\<lambda>_. True) key_ok (\<lambda>_. True) eq [] (table_get eq) (table_insert eq) (table_remove eq) (\<lambda>_. [])"
  by unfold_locales (auto simp: get_insert get_remove intro: table_refl table_sym table_trans)

end

sublocale key_table < key_index "\<lambda>_. True" key_ok "\<lambda>_. True" eq "[]" "table_get eq" "table_insert eq" "table_remove eq" "\<lambda>_. []"
  by (rule key_index_table)

end
