(* ===== verification/Map_Numeric_Index.thy ===== *)
theory Map_Numeric_Index
  imports F64 Key_Index "HOL-Library.AList"
begin

text \<open>
  The numeric key index of \<open>Map\<close> (\<open>map.rs\<close>, \<open>NumericIndex\<close>): a hash table from key bits to entry
  indices, and a range table for dense integer keys that is authoritative for its span. A hash table
  is an association list with distinct keys; its iteration order is the list's, and the lemmas
  hold for every order. Counters and indices are natural numbers; the width of \<open>u32\<close> enters as the
  marker of an empty slot and as the end of the addressable range.
\<close>

definition DENSE_NUMERIC_EMPTY :: nat where "DENSE_NUMERIC_EMPTY = 2 ^ 32 - 1"
definition DENSE_NUMERIC_MIN_KEYS :: nat where "DENSE_NUMERIC_MIN_KEYS = 8"
definition DENSE_NUMERIC_SPAN_FACTOR :: nat where "DENSE_NUMERIC_SPAN_FACTOR = 4"
definition DENSE_NUMERIC_MAX_SLOTS :: nat where "DENSE_NUMERIC_MAX_SLOTS = 2 ^ 20"

record dense_numeric_index =
  base :: nat
  slots :: "nat list"

record numeric_index =
  hashed :: "(u64 \<times> nat) list"
  dense :: "dense_numeric_index option"
  dense_key_count :: nat

text \<open>\<open>value as u32\<close>: NaN becomes 0, everything else saturates.\<close>

definition f64_as_u32 :: "f64 \<Rightarrow> nat" where
  "f64_as_u32 v = (if f64_is_nan v then 0 else nat (max 0 (min (2 ^ 32 - 1) (f64_floor v))))"

definition dense_integer_key :: "u64 \<Rightarrow> nat option" where
  "dense_integer_key key =
     (let integer = f64_as_u32 key
      in if f64_eq (f64_of_int (int integer)) key then Some integer else None)"

text \<open>The offset of an integer key in the range table, when it lies in the span.\<close>

definition dense_offset :: "dense_numeric_index \<Rightarrow> nat \<Rightarrow> nat option" where
  "dense_offset d integer =
     (if integer \<ge> base d then
        (let offset = integer - base d in if offset < length (slots d) then Some offset else None)
      else None)"

definition ni_new :: numeric_index where
  "ni_new = \<lparr>hashed = [], dense = None, dense_key_count = 0\<rparr>"

definition ni_get :: "numeric_index \<Rightarrow> u64 \<Rightarrow> nat option" where
  "ni_get ni key =
     (case (dense_integer_key key, dense ni) of
        (Some integer, Some d) \<Rightarrow>
          (case dense_offset d integer of
             Some offset \<Rightarrow>
               (let entry = slots d ! offset in if entry \<noteq> DENSE_NUMERIC_EMPTY then Some entry else None)
           | None \<Rightarrow> map_of (hashed ni) key)
      | _ \<Rightarrow> map_of (hashed ni) key)"

definition allowed_dense_span :: "numeric_index \<Rightarrow> nat" where
  "allowed_dense_span ni = max 32 (min DENSE_NUMERIC_MAX_SLOTS (dense_key_count ni * DENSE_NUMERIC_SPAN_FACTOR))"

text \<open>The first loop of \<open>rebuild_dense\<close> copies the hashed integer keys, the second carries over the old table.\<close>

fun rebuild_from_hash :: "nat \<Rightarrow> (u64 \<times> nat) list \<Rightarrow> nat list \<Rightarrow> nat list" where
  "rebuild_from_hash b [] sl = sl"
| "rebuild_from_hash b ((key, entry_index) # rest) sl =
     rebuild_from_hash b rest
       (case dense_integer_key key of
          None \<Rightarrow> sl
        | Some integer \<Rightarrow>
            if integer \<ge> b \<and> integer - b < length sl then sl[integer - b := entry_index] else sl)"

fun rebuild_from_dense :: "nat \<Rightarrow> nat \<Rightarrow> nat list \<Rightarrow> nat list \<times> (u64 \<times> nat) list \<Rightarrow> nat list \<times> (u64 \<times> nat) list" where
  "rebuild_from_dense b integer [] st = st"
| "rebuild_from_dense b integer (entry_index # rest) (sl, hm) =
     rebuild_from_dense b (integer + 1) rest
       (if entry_index = DENSE_NUMERIC_EMPTY then (sl, hm)
        else if integer \<ge> b \<and> integer - b < length sl then (sl[integer - b := entry_index], hm)
        else (sl, AList.update (f64_of_int (int integer)) entry_index hm))"

definition rebuild_dense :: "nat \<Rightarrow> nat \<Rightarrow> numeric_index \<Rightarrow> numeric_index" where
  "rebuild_dense b len ni =
     (let sl = rebuild_from_hash b (hashed ni) (replicate len DENSE_NUMERIC_EMPTY);
          (sl, hm) = (case dense ni of
                        None \<Rightarrow> (sl, hashed ni)
                      | Some old \<Rightarrow> rebuild_from_dense b (base old) (slots old) (sl, hashed ni))
      in ni\<lparr>hashed := hm, dense := Some \<lparr>base = b, slots = sl\<rparr>\<rparr>)"

definition next_power_of_two :: "nat \<Rightarrow> nat" where
  "next_power_of_two n = (if n \<le> 1 then 1 else 2 ^ Suc (floor_log2 (n - 1)))"

definition maybe_initialize_dense :: "numeric_index \<Rightarrow> numeric_index" where
  "maybe_initialize_dense ni =
     (if dense_key_count ni < DENSE_NUMERIC_MIN_KEYS then ni
      else
        let integers = List.map_filter (\<lambda>(key, _). dense_integer_key key) (hashed ni);
            min_key = fold min integers (2 ^ 32 - 1);
            max_key = fold max integers 0;
            span = max_key - min_key + 1;
            allowed = allowed_dense_span ni
        in if span > allowed then ni
           else rebuild_dense min_key (max (min (next_power_of_two span) allowed) span) ni)"

definition maybe_expand_dense :: "nat \<Rightarrow> numeric_index \<Rightarrow> numeric_index" where
  "maybe_expand_dense integer ni =
     (case dense ni of
        None \<Rightarrow> ni
      | Some d \<Rightarrow>
          let current_base = base d;
              current_end = current_base + length (slots d);
              new_base = min current_base integer;
              new_end = max current_end (integer + 1);
              needed = new_end - new_base;
              allowed = allowed_dense_span ni
          in if needed > allowed then ni
             else
               let addressable = 2 ^ 32 - new_base;
                   target_len = min (min (max needed (length (slots d) * 2)) allowed) addressable
               in if target_len \<ge> needed then rebuild_dense new_base target_len ni else ni)"

definition ni_insert :: "u64 \<Rightarrow> nat \<Rightarrow> numeric_index \<Rightarrow> numeric_index" where
  "ni_insert key entry_index ni =
     (let hash_path =
            (let is_new = (map_of (hashed ni) key = None);
                 ni = ni\<lparr>hashed := AList.update key entry_index (hashed ni)\<rparr>
             in case dense_integer_key key of
                  None \<Rightarrow> ni
                | Some integer \<Rightarrow>
                    let ni = (if is_new then ni\<lparr>dense_key_count := dense_key_count ni + 1\<rparr> else ni)
                    in if dense ni \<noteq> None then maybe_expand_dense integer ni else maybe_initialize_dense ni)
      in case (dense_integer_key key, dense ni) of
           (Some integer, Some d) \<Rightarrow>
             (case dense_offset d integer of
                Some offset \<Rightarrow>
                  ni\<lparr>dense_key_count := dense_key_count ni + (if slots d ! offset = DENSE_NUMERIC_EMPTY then 1 else 0),
                     dense := Some (d\<lparr>slots := (slots d)[offset := entry_index]\<rparr>)\<rparr>
              | None \<Rightarrow> hash_path)
         | _ \<Rightarrow> hash_path)"

definition ni_remove :: "u64 \<Rightarrow> numeric_index \<Rightarrow> nat option \<times> numeric_index" where
  "ni_remove key ni =
     (let integer = dense_integer_key key;
          removed = map_of (hashed ni) key;
          ni = ni\<lparr>hashed := AList.delete key (hashed ni)\<rparr>;
          (removed, ni) =
            (case (integer, dense ni) of
               (Some i, Some d) \<Rightarrow>
                 (case dense_offset d i of
                    Some offset \<Rightarrow>
                      (let entry = slots d ! offset
                       in if entry \<noteq> DENSE_NUMERIC_EMPTY then
                            (if removed = None then Some entry else removed,
                             ni\<lparr>dense := Some (d\<lparr>slots := (slots d)[offset := DENSE_NUMERIC_EMPTY]\<rparr>)\<rparr>)
                          else (removed, ni))
                  | None \<Rightarrow> (removed, ni))
             | _ \<Rightarrow> (removed, ni))
      in (removed,
          if removed \<noteq> None \<and> integer \<noteq> None then ni\<lparr>dense_key_count := dense_key_count ni - 1\<rparr> else ni))"

definition ni_clear :: "numeric_index \<Rightarrow> numeric_index" where
  "ni_clear ni =
     \<lparr>hashed = [],
      dense = map_option (\<lambda>d. d\<lparr>slots := replicate (length (slots d)) DENSE_NUMERIC_EMPTY\<rparr>) (dense ni),
      dense_key_count = 0\<rparr>"

subsection \<open>Integer keys\<close>

text \<open>Negative zero is the one double whose bits do not determine an integer key; it never is a key.\<close>

definition canonical_key :: "u64 \<Rightarrow> bool" where
  "canonical_key k \<longleftrightarrow> k \<noteq> 0x8000000000000000"

lemma f64_of_int_0: "f64_of_int 0 = 0"
  by (simp add: f64_of_int_def)

lemma f64_of_int_not_nan: "\<bar>z\<bar> < 2 ^ 53 \<Longrightarrow> \<not> f64_is_nan (f64_of_int z)"
  using f64_of_int_units(2) [of z] by (simp add: f64_is_finite_def f64_is_nan_def)

lemma f64_of_int_mag_0: "\<bar>z\<bar> < 2 ^ 53 \<Longrightarrow> f64_mag (f64_of_int z) = 0 \<longleftrightarrow> z = 0"
  using f64_of_int_units(1) [of z] by (auto simp: f64_units_def split: if_splits)

lemma f64_as_u32_less: "f64_as_u32 v < 2 ^ 32"
  by (simp add: f64_as_u32_def nat_less_iff min_less_iff_disj)

lemma dense_integer_key_Some:
  assumes "dense_integer_key k = Some i" "canonical_key k"
  shows "k = f64_of_int (int i)" "i < 2 ^ 32"
proof -
  have i: "i = f64_as_u32 k" and eq: "f64_eq (f64_of_int (int i)) k"
    using assms(1) by (auto simp: dense_integer_key_def Let_def split: if_splits)
  show lt: "i < 2 ^ 32" unfolding i by (rule f64_as_u32_less)
  then have z: "\<bar>int i\<bar> < 2 ^ 53" by simp
  show "k = f64_of_int (int i)"
  proof (cases "f64_of_int (int i) = k")
    case False
    then have "f64_mag (f64_of_int (int i)) = 0" "f64_mag k = 0" using eq unfolding f64_eq_iff by blast+
    then have "i = 0" "k = 0" using f64_of_int_mag_0 [OF z] assms(2) f64_mag_0_iff [of k] by (simp_all add: canonical_key_def)
    then show ?thesis by (simp add: f64_of_int_0)
  qed simp
qed

lemma dense_integer_key_of_int:
  assumes "i < 2 ^ 32"
  shows "dense_integer_key (f64_of_int (int i)) = Some i" "canonical_key (f64_of_int (int i))"
proof -
  have z: "\<bar>int i\<bar> < 2 ^ 53" using assms by simp
  have "f64_floor (f64_of_int (int i)) = int i" using f64_of_int_units(1) [OF z] by (simp add: f64_floor_def)
  then have "f64_as_u32 (f64_of_int (int i)) = i"
    using assms f64_of_int_not_nan [OF z] by (simp add: f64_as_u32_def)
  then show "dense_integer_key (f64_of_int (int i)) = Some i"
    using f64_of_int_not_nan [OF z] by (simp add: dense_integer_key_def f64_eq_def)
  show "canonical_key (f64_of_int (int i))"
  proof (cases "i = 0")
    case False
    then show ?thesis using f64_of_int_mag_0 [OF z] f64_mag_0_iff [of "f64_of_int (int i)"] by (auto simp: canonical_key_def)
  qed (simp add: f64_of_int_0 canonical_key_def)
qed

lemma dense_integer_key_inj:
  "dense_integer_key k = Some i \<Longrightarrow> dense_integer_key k' = Some i \<Longrightarrow> canonical_key k \<Longrightarrow> canonical_key k' \<Longrightarrow> k = k'"
  using dense_integer_key_Some by metis

subsection \<open>The invariant\<close>

definition hash_ok :: "(u64 \<times> nat) list \<Rightarrow> bool" where
  "hash_ok hm \<longleftrightarrow> distinct (map fst hm) \<and> (\<forall>(k, v) \<in> set hm. canonical_key k \<and> v < DENSE_NUMERIC_EMPTY)"

definition ni_ok :: "numeric_index \<Rightarrow> bool" where
  "ni_ok ni \<longleftrightarrow> hash_ok (hashed ni) \<and>
     (\<forall>d. dense ni = Some d \<longrightarrow> length (slots d) \<le> DENSE_NUMERIC_MAX_SLOTS \<and>
        (\<forall>k i off. map_of (hashed ni) k \<noteq> None \<and> dense_integer_key k = Some i \<and> dense_offset d i = Some off \<longrightarrow>
           slots d ! off \<noteq> DENSE_NUMERIC_EMPTY))"

lemma hash_okD:
  assumes "hash_ok hm" "map_of hm k = Some v"
  shows "canonical_key k" "v < DENSE_NUMERIC_EMPTY"
  using assms map_of_SomeD [OF assms(2)] by (auto simp: hash_ok_def)

lemma hash_ok_update: "hash_ok hm \<Longrightarrow> canonical_key k \<Longrightarrow> v < DENSE_NUMERIC_EMPTY \<Longrightarrow> hash_ok (AList.update k v hm)"
proof -
  assume a: "hash_ok hm" "canonical_key k" "v < DENSE_NUMERIC_EMPTY"
  have d: "distinct (map fst (AList.update k v hm))" using a(1) by (intro distinct_update) (simp add: hash_ok_def)
  have "canonical_key k' \<and> v' < DENSE_NUMERIC_EMPTY" if "(k', v') \<in> set (AList.update k v hm)" for k' v'
  proof -
    have "map_of (AList.update k v hm) k' = Some v'" using d that by simp
    then show ?thesis using a hash_okD [OF a(1), of k'] by (cases "k' = k") (auto simp: update_conv')
  qed
  then show ?thesis using d by (auto simp: hash_ok_def)
qed

lemma hash_ok_delete:
  assumes "hash_ok hm"
  shows "hash_ok (AList.delete k hm)"
proof -
  have "distinct (map fst (AList.delete k hm))" using assms by (intro distinct_delete) (simp add: hash_ok_def)
  moreover have "set (AList.delete k hm) \<subseteq> set hm" by (auto simp: AList.delete_eq)
  ultimately show ?thesis using assms unfolding hash_ok_def by blast
qed

lemma dense_offset_Some: "dense_offset d i = Some off \<longleftrightarrow> i = base d + off \<and> off < length (slots d)"
  by (auto simp: dense_offset_def Let_def)

subsection \<open>Rebuilding the range table\<close>

definition put_slot :: "nat \<Rightarrow> u64 \<Rightarrow> nat \<Rightarrow> nat list \<Rightarrow> nat list" where
  "put_slot b key entry_index sl =
     (case dense_integer_key key of
        None \<Rightarrow> sl
      | Some integer \<Rightarrow> if integer \<ge> b \<and> integer - b < length sl then sl[integer - b := entry_index] else sl)"

lemma rebuild_from_hash_Cons:
  "rebuild_from_hash b ((key, entry_index) # rest) sl = rebuild_from_hash b rest (put_slot b key entry_index sl)"
  by (simp add: put_slot_def)

lemma length_put_slot [simp]: "length (put_slot b key e sl) = length sl"
  by (simp add: put_slot_def split: option.split)

lemma put_slot_same: "dense_integer_key key = Some (b + j) \<Longrightarrow> j < length sl \<Longrightarrow> put_slot b key e sl ! j = e"
  by (simp add: put_slot_def)

lemma put_slot_other: "dense_integer_key key \<noteq> Some (b + j) \<Longrightarrow> put_slot b key e sl ! j = sl ! j"
  by (auto simp: put_slot_def nth_list_update split: option.split)

lemma length_rebuild_from_hash [simp]: "length (rebuild_from_hash b hm sl) = length sl"
  by (induction b hm sl rule: rebuild_from_hash.induct) (simp_all split: option.split)

lemma rebuild_from_hash_nth:
  assumes "hash_ok hm" "j < length sl" "b + j < 2 ^ 32"
  shows "rebuild_from_hash b hm sl ! j = (case map_of hm (f64_of_int (int (b + j))) of None \<Rightarrow> sl ! j | Some v \<Rightarrow> v)"
  using assms(1,2)
proof (induction hm arbitrary: sl)
  case (Cons e rest)
  obtain key entry_index where e: "e = (key, entry_index)" by fastforce
  define ik where "ik = f64_of_int (int (b + j))"
  have ok: "hash_ok rest" and c: "canonical_key key" and nk: "key \<notin> fst ` set rest"
    using Cons.prems(1) by (auto simp: hash_ok_def e)
  have k: "dense_integer_key ik = Some (b + j)" "canonical_key ik"
    unfolding ik_def using dense_integer_key_of_int [OF assms(3)] by blast+
  have IH: "rebuild_from_hash b rest (put_slot b key entry_index sl) ! j =
      (case map_of rest ik of None \<Rightarrow> put_slot b key entry_index sl ! j | Some v \<Rightarrow> v)"
    unfolding ik_def by (rule Cons.IH [OF ok]) (simp add: Cons.prems(2))
  show ?case
  proof (cases "key = ik")
    case True
    then have "map_of rest ik = None" using nk by (simp add: map_of_eq_None_iff)
    then have "rebuild_from_hash b (e # rest) sl ! j = entry_index"
      unfolding e rebuild_from_hash_Cons IH using put_slot_same [of key b j sl] k(1) True Cons.prems(2) by simp
    then show ?thesis using True unfolding e ik_def [symmetric] by simp
  next
    case False
    then have "dense_integer_key key \<noteq> Some (b + j)" using dense_integer_key_inj [OF _ k(1) c k(2)] by blast
    then have "put_slot b key entry_index sl ! j = sl ! j" by (rule put_slot_other)
    then show ?thesis using False IH unfolding e ik_def [symmetric] rebuild_from_hash_Cons
      by (simp split: option.split)
  qed
qed simp

text \<open>When the new span covers the old one, no entry goes back to the hash table.\<close>

lemma rebuild_from_dense_covered:
  assumes "b \<le> i" "i + length old \<le> b + length sl"
  shows "\<exists>sl'. rebuild_from_dense b i old (sl, hm) = (sl', hm) \<and> length sl' = length sl \<and>
    (\<forall>j < length sl. sl' ! j =
       (if i \<le> b + j \<and> b + j < i + length old \<and> old ! (b + j - i) \<noteq> DENSE_NUMERIC_EMPTY then old ! (b + j - i) else sl ! j))"
  using assms
proof (induction old arbitrary: i sl)
  case (Cons e old)
  define sl1 where "sl1 = (if e = DENSE_NUMERIC_EMPTY then sl else sl[i - b := e])"
  have step: "rebuild_from_dense b i (e # old) (sl, hm) = rebuild_from_dense b (i + 1) old (sl1, hm)"
  proof -
    have "i - b < length sl" using Cons.prems by (simp add: less_diff_conv2)
    then show ?thesis using Cons.prems(1) by (simp add: sl1_def)
  qed
  have len: "length sl1 = length sl" by (simp add: sl1_def)
  obtain sl' where sl': "rebuild_from_dense b (i + 1) old (sl1, hm) = (sl', hm)" "length sl' = length sl1"
    "\<And>j. j < length sl1 \<Longrightarrow> sl' ! j =
       (if i + 1 \<le> b + j \<and> b + j < i + 1 + length old \<and> old ! (b + j - (i + 1)) \<noteq> DENSE_NUMERIC_EMPTY
        then old ! (b + j - (i + 1)) else sl1 ! j)"
    using Cons.IH [of "i + 1" sl1] Cons.prems len by auto
  have "sl' ! j = (if i \<le> b + j \<and> b + j < i + length (e # old) \<and> (e # old) ! (b + j - i) \<noteq> DENSE_NUMERIC_EMPTY
      then (e # old) ! (b + j - i) else sl ! j)" if j: "j < length sl" for j
  proof -
    consider "b + j < i" | "b + j = i" | "i + 1 \<le> b + j" by linarith
    then show ?thesis
    proof cases
      case 1
      then show ?thesis using sl'(3) [of j] j len Cons.prems(1) by (auto simp: sl1_def nth_list_update)
    next
      case 2
      then have "i - b = j" by simp
      then show ?thesis using 2 sl'(3) [of j] j len by (auto simp: sl1_def)
    next
      case 3
      then have "b + j - i = Suc (b + j - (i + 1))" "i - b \<noteq> j" using Cons.prems(1) by linarith+
      then show ?thesis using 3 sl'(3) [of j] j len by (auto simp: sl1_def)
    qed
  qed
  then show ?case using step sl'(1,2) len by auto
qed simp

definition covers_old :: "nat \<Rightarrow> nat \<Rightarrow> numeric_index \<Rightarrow> bool" where
  "covers_old b len ni \<longleftrightarrow> (\<forall>old. dense ni = Some old \<longrightarrow> b \<le> base old \<and> base old + length (slots old) \<le> b + len)"

lemma covers_old_Some:
  "dense ni = Some d \<Longrightarrow> covers_old b len ni \<longleftrightarrow> b \<le> base d \<and> base d + length (slots d) \<le> b + len"
  by (simp add: covers_old_def)

lemma rebuild_dense_shape:
  assumes "ni_ok ni" "covers_old b len ni"
  obtains sl where "rebuild_dense b len ni = ni\<lparr>dense := Some \<lparr>base = b, slots = sl\<rparr>\<rparr>" "length sl = len"
    "\<And>i off. dense_offset \<lparr>base = b, slots = sl\<rparr> i = Some off \<Longrightarrow> i < 2 ^ 32 \<Longrightarrow>
       ni_get ni (f64_of_int (int i)) = (if sl ! off \<noteq> DENSE_NUMERIC_EMPTY then Some (sl ! off) else None)"
proof -
  let ?sl0 = "rebuild_from_hash b (hashed ni) (replicate len DENSE_NUMERIC_EMPTY)"
  have h: "hash_ok (hashed ni)" using assms(1) by (simp add: ni_ok_def)
  have sl0: "?sl0 ! j = (case map_of (hashed ni) (f64_of_int (int (b + j))) of None \<Rightarrow> DENSE_NUMERIC_EMPTY | Some v \<Rightarrow> v)"
    if "j < len" "b + j < 2 ^ 32" for j
    using rebuild_from_hash_nth [OF h, of j "replicate len DENSE_NUMERIC_EMPTY" b] that
    by (simp add: nth_replicate del: of_nat_add split: option.split)
  show thesis
  proof (cases "dense ni")
    case None
    have "ni_get ni (f64_of_int (int i)) = (if ?sl0 ! off \<noteq> DENSE_NUMERIC_EMPTY then Some (?sl0 ! off) else None)"
      if "dense_offset \<lparr>base = b, slots = ?sl0\<rparr> i = Some off" "i < 2 ^ 32" for i off
      using that sl0 [of off] None hash_okD(2) [OF h] by (auto simp: dense_offset_Some ni_get_def split: option.split)
    then show thesis using that [of ?sl0] None by (simp add: rebuild_dense_def)
  next
    case (Some old)
    obtain sl where sl: "rebuild_from_dense b (base old) (slots old) (?sl0, hashed ni) = (sl, hashed ni)" "length sl = len"
      "\<And>j. j < len \<Longrightarrow> sl ! j =
        (if base old \<le> b + j \<and> b + j < base old + length (slots old) \<and> slots old ! (b + j - base old) \<noteq> DENSE_NUMERIC_EMPTY
         then slots old ! (b + j - base old) else ?sl0 ! j)"
      using rebuild_from_dense_covered [of b "base old" "slots old" ?sl0 "hashed ni"] assms(2) Some by (auto simp: covers_old_def)
    have "ni_get ni (f64_of_int (int i)) = (if sl ! off \<noteq> DENSE_NUMERIC_EMPTY then Some (sl ! off) else None)"
      if off: "dense_offset \<lparr>base = b, slots = sl\<rparr> i = Some off" and lt: "i < 2 ^ 32" for i off
    proof -
      have i: "i = b + off" "off < len" using off sl(2) by (simp_all add: dense_offset_Some)
      have k: "dense_integer_key (f64_of_int (int i)) = Some i" using dense_integer_key_of_int(1) [OF lt] .
      show ?thesis
      proof (cases "dense_offset old i")
        case None
        then have "\<not> (base old \<le> i \<and> i < base old + length (slots old))" by (auto simp: dense_offset_def Let_def split: if_splits)
        then have "sl ! off = ?sl0 ! off" using sl(3) [OF i(2)] i(1) by auto
        then show ?thesis using None k Some sl0 [OF i(2)] i(1) lt hash_okD(2) [OF h] by (auto simp: ni_get_def split: option.split)
      next
        case (Some o')
        then have o': "i = base old + o'" "o' < length (slots old)" by (simp_all add: dense_offset_Some)
        have get: "ni_get ni (f64_of_int (int i)) = (if slots old ! o' \<noteq> DENSE_NUMERIC_EMPTY then Some (slots old ! o') else None)"
          using k Some \<open>dense ni = Some old\<close> by (simp add: ni_get_def Let_def)
        show ?thesis
        proof (cases "slots old ! o' = DENSE_NUMERIC_EMPTY")
          case True
          then have "map_of (hashed ni) (f64_of_int (int i)) = None"
            using assms(1) k Some \<open>dense ni = Some old\<close> unfolding ni_ok_def by blast
          moreover have "sl ! off = ?sl0 ! off" using sl(3) [OF i(2)] True o' i(1) by auto
          ultimately show ?thesis using get True sl0 [OF i(2)] i(1) lt by simp
        next
          case False
          then have "sl ! off = slots old ! o'" using sl(3) [OF i(2)] o' i(1) by auto
          then show ?thesis using get by simp
        qed
      qed
    qed
    then show thesis using that [of sl] Some sl(1,2) by (simp add: rebuild_dense_def)
  qed
qed

lemma rebuild_dense_correct:
  assumes "ni_ok ni" "covers_old b len ni" "len \<le> DENSE_NUMERIC_MAX_SLOTS"
  shows "ni_ok (rebuild_dense b len ni)" "canonical_key k \<Longrightarrow> ni_get (rebuild_dense b len ni) k = ni_get ni k"
proof -
  obtain sl where sl: "rebuild_dense b len ni = ni\<lparr>dense := Some \<lparr>base = b, slots = sl\<rparr>\<rparr>" "length sl = len"
    "\<And>i off. dense_offset \<lparr>base = b, slots = sl\<rparr> i = Some off \<Longrightarrow> i < 2 ^ 32 \<Longrightarrow>
       ni_get ni (f64_of_int (int i)) = (if sl ! off \<noteq> DENSE_NUMERIC_EMPTY then Some (sl ! off) else None)"
    using rebuild_dense_shape [OF assms(1,2)] by blast
  have h: "hash_ok (hashed ni)" using assms(1) by (simp add: ni_ok_def)
  have nonempty: "sl ! off \<noteq> DENSE_NUMERIC_EMPTY"
    if "map_of (hashed ni) k \<noteq> None" "dense_integer_key k = Some i" "dense_offset \<lparr>base = b, slots = sl\<rparr> i = Some off" for k i off
  proof -
    note mem = that(1)
    obtain v where v: "map_of (hashed ni) k = Some v" using mem by (cases "map_of (hashed ni) k") simp_all
    have k: "k = f64_of_int (int i)" "i < 2 ^ 32" using dense_integer_key_Some [OF that(2) hash_okD(1) [OF h v]] .
    have "ni_get ni k \<noteq> None"
    proof (cases "dense ni")
      case (Some d)
      show ?thesis
      proof (cases "dense_offset d i")
        case (Some o')
        then have "slots d ! o' \<noteq> DENSE_NUMERIC_EMPTY"
          using assms(1) that(1,2) \<open>dense ni = Some d\<close> unfolding ni_ok_def by blast
        then show ?thesis using Some that(2) \<open>dense ni = Some d\<close> by (simp add: ni_get_def Let_def)
      qed (use Some v that(2) in \<open>simp add: ni_get_def\<close>)
    qed (use v in \<open>simp add: ni_get_def split: option.split\<close>)
    then show ?thesis using sl(3) [OF that(3) k(2)] k(1) by (simp split: if_splits)
  qed
  show "ni_ok (rebuild_dense b len ni)" unfolding sl(1) ni_ok_def using h assms(3) sl(2) nonempty by (simp del: not_None_eq) blast
  show "ni_get (rebuild_dense b len ni) k = ni_get ni k" if c: "canonical_key k"
  proof (cases "dense_integer_key k")
    case None
    then show ?thesis by (simp add: sl(1) ni_get_def split: option.split)
  next
    case (Some i)
    have k: "k = f64_of_int (int i)" "i < 2 ^ 32" using dense_integer_key_Some [OF Some c] .
    show ?thesis
    proof (cases "dense_offset \<lparr>base = b, slots = sl\<rparr> i")
      case None
      have "dense_offset d i = None" if "dense ni = Some d" for d
        using None that assms(2) sl(2) by (auto simp: dense_offset_def Let_def covers_old_def split: if_splits)
      then show ?thesis using Some None by (simp add: sl(1) ni_get_def split: option.split)
    next
      case (Some off)
      then show ?thesis using sl(3) [OF Some k(2)] \<open>dense_integer_key k = Some i\<close> k(1) by (simp add: sl(1) ni_get_def Let_def)
    qed
  qed
qed

subsection \<open>Choosing the span\<close>

lemma allowed_dense_span_bound: "allowed_dense_span ni \<le> DENSE_NUMERIC_MAX_SLOTS"
  by (simp add: allowed_dense_span_def DENSE_NUMERIC_MAX_SLOTS_def)

lemma maybe_initialize_dense_correct:
  assumes "ni_ok ni" "dense ni = None"
  shows "ni_ok (maybe_initialize_dense ni)"
    "canonical_key k \<Longrightarrow> ni_get (maybe_initialize_dense ni) k = ni_get ni k"
proof -
  have cov: "covers_old b len ni" for b len using assms(2) by (simp add: covers_old_def)
  consider "maybe_initialize_dense ni = ni"
    | b len where "maybe_initialize_dense ni = rebuild_dense b len ni" "len \<le> DENSE_NUMERIC_MAX_SLOTS"
    using allowed_dense_span_bound [of ni]
    by (fastforce simp: maybe_initialize_dense_def Let_def split: if_splits)
  note cases_init = this
  show "ni_ok (maybe_initialize_dense ni)"
    by (rule cases_init) (simp_all add: assms(1) rebuild_dense_correct(1) [OF assms(1) cov])
  show "canonical_key k \<Longrightarrow> ni_get (maybe_initialize_dense ni) k = ni_get ni k"
    by (rule cases_init) (simp_all add: rebuild_dense_correct(2) [OF assms(1) cov])
qed

lemma maybe_expand_dense_correct:
  assumes "ni_ok ni" "dense ni = Some d"
  shows "ni_ok (maybe_expand_dense i ni)"
    "canonical_key k \<Longrightarrow> ni_get (maybe_expand_dense i ni) k = ni_get ni k"
proof -
  consider "maybe_expand_dense i ni = ni"
    | b len where "maybe_expand_dense i ni = rebuild_dense b len ni" "len \<le> DENSE_NUMERIC_MAX_SLOTS" "covers_old b len ni"
  proof -
    let ?b = "min (base d) i" and ?needed = "max (base d + length (slots d)) (i + 1) - min (base d) i"
    let ?len = "min (min (max ?needed (length (slots d) * 2)) (allowed_dense_span ni)) (2 ^ 32 - ?b)"
    have cov: "covers_old ?b ?len ni" if "?len \<ge> ?needed"
    proof -
      have "base d + length (slots d) \<le> ?b + ?needed" by simp
      also have "\<dots> \<le> ?b + ?len" using that by (rule add_left_mono)
      finally show ?thesis unfolding covers_old_Some [OF assms(2)] by (intro conjI min.cobounded1)
    qed
    have le: "?len \<le> DENSE_NUMERIC_MAX_SLOTS" by (intro min.coboundedI1 min.coboundedI2 allowed_dense_span_bound)
    have eq: "maybe_expand_dense i ni =
        (if ?needed > allowed_dense_span ni then ni else if ?len \<ge> ?needed then rebuild_dense ?b ?len ni else ni)"
      unfolding maybe_expand_dense_def assms(2) option.case Let_def by (rule refl)
    consider (out) "?needed > allowed_dense_span ni" | (short) "\<not> ?needed > allowed_dense_span ni" "\<not> ?len \<ge> ?needed"
      | (fits) "\<not> ?needed > allowed_dense_span ni" "?len \<ge> ?needed" by blast
    then show thesis
    proof cases
      case out
      have "maybe_expand_dense i ni = ni" unfolding eq by (simp only: out if_True)
      then show thesis by (rule that(1))
    next
      case short
      have "maybe_expand_dense i ni = ni" unfolding eq by (simp only: short if_False)
      then show thesis by (rule that(1))
    next
      case fits
      have "maybe_expand_dense i ni = rebuild_dense ?b ?len ni" unfolding eq by (simp only: fits if_False if_True)
      then show thesis using le cov [OF fits(2)] by (rule that(2))
    qed
  qed
  note cases_exp = this
  show "ni_ok (maybe_expand_dense i ni)"
    by (rule cases_exp) (simp_all add: assms(1) rebuild_dense_correct(1))
  show "canonical_key k \<Longrightarrow> ni_get (maybe_expand_dense i ni) k = ni_get ni k"
    by (rule cases_exp) (simp_all add: rebuild_dense_correct(2) assms(1))
qed

subsection \<open>The operations\<close>

text \<open>The slot of the range table that answers for a key, when the key lies in its span.\<close>

definition dense_slot :: "numeric_index \<Rightarrow> u64 \<Rightarrow> nat option" where
  "dense_slot ni key =
     (case (dense_integer_key key, dense ni) of (Some integer, Some d) \<Rightarrow> dense_offset d integer | _ \<Rightarrow> None)"

definition integer_keys :: "numeric_index \<Rightarrow> u64 set" where
  "integer_keys ni = {k. canonical_key k \<and> dense_integer_key k \<noteq> None \<and> ni_get ni k \<noteq> None}"

text \<open>The counter of integer keys is exact as well; the span computation relies on it.\<close>

definition ni_inv :: "numeric_index \<Rightarrow> bool" where
  "ni_inv ni \<longleftrightarrow> ni_ok ni \<and> dense_key_count ni = card (integer_keys ni)"

lemma dense_slot_None: "dense_slot ni k = None \<Longrightarrow> ni_get ni k = map_of (hashed ni) k"
  by (auto simp: dense_slot_def ni_get_def split: option.splits)

lemma dense_slot_Some:
  assumes "dense_slot ni k = Some off"
  obtains d i where "dense ni = Some d" "dense_integer_key k = Some i" "dense_offset d i = Some off"
    "ni_get ni k = (if slots d ! off \<noteq> DENSE_NUMERIC_EMPTY then Some (slots d ! off) else None)"
  using assms by (auto simp: dense_slot_def ni_get_def Let_def split: option.splits)

lemma integer_keys_cong:
  "(\<And>k. canonical_key k \<Longrightarrow> ni_get ni' k = ni_get ni k) \<Longrightarrow> integer_keys ni' = integer_keys ni"
  by (auto simp: integer_keys_def)

lemma dense_key_count_rebuild [simp]: "dense_key_count (rebuild_dense b len ni) = dense_key_count ni"
  by (simp add: rebuild_dense_def Let_def split: prod.split)

lemma dense_key_count_maybe [simp]:
  "dense_key_count (maybe_initialize_dense ni) = dense_key_count ni"
  "dense_key_count (maybe_expand_dense i ni) = dense_key_count ni"
  by (simp_all add: maybe_initialize_dense_def maybe_expand_dense_def Let_def split: option.split)

lemma ni_inv_maybe:
  assumes "ni_inv ni"
  shows "dense ni = None \<Longrightarrow> ni_inv (maybe_initialize_dense ni)" "ni_inv (maybe_expand_dense i ni)"
    "dense ni = None \<Longrightarrow> canonical_key k \<Longrightarrow> ni_get (maybe_initialize_dense ni) k = ni_get ni k"
    "canonical_key k \<Longrightarrow> ni_get (maybe_expand_dense i ni) k = ni_get ni k"
proof -
  have ok: "ni_ok ni" and cnt: "dense_key_count ni = card (integer_keys ni)" using assms by (simp_all add: ni_inv_def)
  show "ni_inv (maybe_initialize_dense ni)" if "dense ni = None"
    using maybe_initialize_dense_correct [OF ok that] cnt integer_keys_cong [of "maybe_initialize_dense ni" ni] by (simp add: ni_inv_def)
  show "ni_get (maybe_initialize_dense ni) k = ni_get ni k" if "dense ni = None" "canonical_key k"
    using maybe_initialize_dense_correct(2) [OF ok that(1)] that(2) by blast
  have exp: "ni_ok (maybe_expand_dense i ni) \<and> (\<forall>k. canonical_key k \<longrightarrow> ni_get (maybe_expand_dense i ni) k = ni_get ni k)"
  proof (cases "dense ni")
    case None
    then have "maybe_expand_dense i ni = ni" by (simp add: maybe_expand_dense_def)
    then show ?thesis using ok by simp
  qed (use maybe_expand_dense_correct [OF ok] in blast)
  then show "ni_inv (maybe_expand_dense i ni)"
    using cnt integer_keys_cong [of "maybe_expand_dense i ni" ni] by (simp add: ni_inv_def)
  show "ni_get (maybe_expand_dense i ni) k = ni_get ni k" if "canonical_key k" using exp that by blast
qed

lemma integer_keys_insert:
  assumes "\<And>k. canonical_key k \<Longrightarrow> ni_get ni' k = ((ni_get ni)(key \<mapsto> v)) k" "canonical_key key"
  shows "integer_keys ni' = (if dense_integer_key key = None then integer_keys ni else insert key (integer_keys ni))"
  using assms by (auto simp: integer_keys_def split: if_splits)

lemma integer_keys_remove:
  assumes "\<And>k. canonical_key k \<Longrightarrow> ni_get ni' k = ((ni_get ni)(key := None)) k"
  shows "integer_keys ni' = integer_keys ni - {key}"
  using assms by (auto simp: integer_keys_def split: if_splits)

lemma ni_get_store_slot:
  assumes "dense ni = Some d" "dense_integer_key key = Some i" "dense_offset d i = Some off"
    "canonical_key key" "canonical_key k"
  shows "ni_get (ni\<lparr>dense_key_count := n, dense := Some (d\<lparr>slots := (slots d)[off := e]\<rparr>)\<rparr>) k =
    (if k = key then if e \<noteq> DENSE_NUMERIC_EMPTY then Some e else None else ni_get ni k)"
proof -
  have o: "i = base d + off" "off < length (slots d)" using assms(3) by (simp_all add: dense_offset_Some)
  have same: "dense_offset (d\<lparr>slots := (slots d)[off := e]\<rparr>) j = dense_offset d j" for j by (simp add: dense_offset_def)
  show ?thesis
  proof (cases "k = key")
    case True
    then show ?thesis using assms(2,3) o(2) same by (simp add: ni_get_def)
  next
    case False
    have "(slots d)[off := e] ! off' = slots d ! off'" if "dense_integer_key k = Some j" "dense_offset d j = Some off'" for j off'
    proof -
      have "off' \<noteq> off" using False dense_integer_key_inj [OF _ assms(2) assms(5,4)] that o(1) by (auto simp: dense_offset_Some)
      then show ?thesis by simp
    qed
    then show ?thesis using False assms(1) same by (simp add: ni_get_def Let_def split: option.split)
  qed
qed

lemma ni_ok_store_slot:
  assumes "ni_ok ni" "dense ni = Some d" "dense_integer_key key = Some i" "dense_offset d i = Some off"
    "e \<noteq> DENSE_NUMERIC_EMPTY \<or> map_of (hashed ni) key = None" "canonical_key key"
  shows "ni_ok (ni\<lparr>dense_key_count := n, dense := Some (d\<lparr>slots := (slots d)[off := e]\<rparr>)\<rparr>)"
proof -
  have o: "i = base d + off" "off < length (slots d)" using assms(4) by (simp_all add: dense_offset_Some)
  have h: "hash_ok (hashed ni)" using assms(1) by (simp add: ni_ok_def)
  have "(slots d)[off := e] ! off' \<noteq> DENSE_NUMERIC_EMPTY"
    if "map_of (hashed ni) k = Some v" "dense_integer_key k = Some j" "dense_offset d j = Some off'" for k j off' v
  proof (cases "off' = off")
    case True
    then have "j = i" using that(3) o(1) by (simp add: dense_offset_Some)
    then have "k = key" using dense_integer_key_inj [OF that(2)] assms(3,6) hash_okD(1) [OF h that(1)] by blast
    then show ?thesis using assms(5) that(1) True o(2) by auto
  next
    case False
    then show ?thesis using assms(1,2) that unfolding ni_ok_def by fastforce
  qed
  then show ?thesis using assms(1,2) by (auto simp: ni_ok_def dense_offset_def)
qed

lemma ni_hash_update:
  assumes "ni_ok ni" "dense_slot ni key = None" "canonical_key key" "e < DENSE_NUMERIC_EMPTY"
  shows "ni_ok (ni\<lparr>hashed := AList.update key e (hashed ni), dense_key_count := n\<rparr>)"
    "ni_get (ni\<lparr>hashed := AList.update key e (hashed ni), dense_key_count := n\<rparr>) k = ((ni_get ni)(key \<mapsto> e)) k"
proof -
  let ?ni = "ni\<lparr>hashed := AList.update key e (hashed ni), dense_key_count := n\<rparr>"
  have out: "dense_offset d i = None" if "dense ni = Some d" "dense_integer_key key = Some i" for d i
    using assms(2) that by (simp add: dense_slot_def)
  have "slots d ! off \<noteq> DENSE_NUMERIC_EMPTY"
    if "dense ni = Some d" "((map_of (hashed ni))(key \<mapsto> e)) k \<noteq> None" "dense_integer_key k = Some i" "dense_offset d i = Some off"
    for d k i off
  proof -
    have "k \<noteq> key" using out [OF that(1)] that(3,4) by auto
    then have "map_of (hashed ni) k \<noteq> None" using that(2) by simp
    then show ?thesis using assms(1) that unfolding ni_ok_def by blast
  qed
  moreover have "length (slots d) \<le> DENSE_NUMERIC_MAX_SLOTS" if "dense ni = Some d" for d
    using assms(1) that by (simp add: ni_ok_def)
  moreover have "hash_ok (AList.update key e (hashed ni))"
    using assms(1,3,4) by (intro hash_ok_update) (simp_all add: ni_ok_def)
  ultimately show "ni_ok ?ni" unfolding ni_ok_def by (simp add: update_conv' del: not_None_eq fun_upd_apply) blast
  show "ni_get ?ni k = ((ni_get ni)(key \<mapsto> e)) k"
  proof (cases "k = key")
    case True
    then show ?thesis using out by (auto simp: ni_get_def update_conv' split: option.split)
  next
    case False
    then show ?thesis by (simp add: ni_get_def update_conv' split: option.split)
  qed
qed

lemma ni_insert_dense:
  "dense ni = Some d \<Longrightarrow> dense_integer_key key = Some i \<Longrightarrow> dense_offset d i = Some off \<Longrightarrow>
   ni_insert key e ni =
     ni\<lparr>dense_key_count := dense_key_count ni + (if slots d ! off = DENSE_NUMERIC_EMPTY then 1 else 0),
        dense := Some (d\<lparr>slots := (slots d)[off := e]\<rparr>)\<rparr>"
  by (simp add: ni_insert_def Let_def)

lemma ni_insert_hash:
  assumes "dense_slot ni key = None"
  shows "ni_insert key e ni =
    (let ni' = ni\<lparr>hashed := AList.update key e (hashed ni), dense_key_count := dense_key_count ni +
           (if map_of (hashed ni) key = None \<and> dense_integer_key key \<noteq> None then 1 else 0)\<rparr>
     in case dense_integer_key key of
          None \<Rightarrow> ni'
        | Some i \<Rightarrow> if dense ni \<noteq> None then maybe_expand_dense i ni' else maybe_initialize_dense ni')"
  using assms by (auto simp: ni_insert_def dense_slot_def Let_def split: option.splits)

lemma ni_insert_correct:
  assumes "ni_inv ni" "canonical_key key" "e < DENSE_NUMERIC_EMPTY"
  shows "ni_inv (ni_insert key e ni) \<and> (\<forall>k. canonical_key k \<longrightarrow> ni_get (ni_insert key e ni) k = ((ni_get ni)(key \<mapsto> e)) k)"
proof -
  have ok: "ni_ok ni" and cnt: "dense_key_count ni = card (integer_keys ni)" using assms(1) by (simp_all add: ni_inv_def)
  have card: "card (if dense_integer_key key = None then integer_keys ni else insert key (integer_keys ni)) =
      card (integer_keys ni) + (if ni_get ni key = None \<and> dense_integer_key key \<noteq> None then 1 else 0)"
    using assms(2) by (auto simp: card_insert_if integer_keys_def)
  show ?thesis
  proof (cases "dense_slot ni key")
    case (Some off)
    then obtain d i where d: "dense ni = Some d" "dense_integer_key key = Some i" "dense_offset d i = Some off"
      and get: "ni_get ni key = (if slots d ! off \<noteq> DENSE_NUMERIC_EMPTY then Some (slots d ! off) else None)"
      by (rule dense_slot_Some)
    let ?ni = "ni_insert key e ni"
    have g: "\<And>k. canonical_key k \<Longrightarrow> ni_get ?ni k = ((ni_get ni)(key \<mapsto> e)) k"
      using ni_get_store_slot [OF d assms(2)] assms(3) unfolding ni_insert_dense [OF d] by simp
    moreover have "ni_ok ?ni" using ni_ok_store_slot [OF ok d _ assms(2)] assms(3) unfolding ni_insert_dense [OF d] by simp
    moreover have "dense_key_count ?ni = card (integer_keys ?ni)"
    proof -
      have "integer_keys ?ni = (if dense_integer_key key = None then integer_keys ni else insert key (integer_keys ni))"
        using g assms(2) by (rule integer_keys_insert)
      then have "card (integer_keys ?ni) = card (integer_keys ni) + (if ni_get ni key = None then 1 else 0)"
        using card d(2) by simp
      then show ?thesis using cnt get by (simp add: ni_insert_dense [OF d])
    qed
    ultimately show ?thesis by (simp add: ni_inv_def)
  next
    case None
    let ?n = "dense_key_count ni + (if map_of (hashed ni) key = None \<and> dense_integer_key key \<noteq> None then 1 else 0)"
    let ?ni = "ni\<lparr>hashed := AList.update key e (hashed ni), dense_key_count := ?n\<rparr>"
    have g: "\<And>k. canonical_key k \<Longrightarrow> ni_get ?ni k = ((ni_get ni)(key \<mapsto> e)) k"
      by (rule ni_hash_update(2) [OF ok None assms(2,3)])
    have "dense_key_count ?ni = card (integer_keys ?ni)"
    proof -
      have "integer_keys ?ni = (if dense_integer_key key = None then integer_keys ni else insert key (integer_keys ni))"
        using g assms(2) by (rule integer_keys_insert)
      then show ?thesis using card cnt dense_slot_None [OF None] by simp
    qed
    then have inv: "ni_inv ?ni" using ni_hash_update(1) [OF ok None assms(2,3)] by (simp add: ni_inv_def)
    have dn: "dense ?ni = dense ni" by simp
    show ?thesis
    proof (cases "dense_integer_key key")
      case None
      then show ?thesis using inv g by (simp add: ni_insert_hash [OF \<open>dense_slot ni key = None\<close>])
    next
      case (Some i)
      show ?thesis
      proof (cases "dense ni = None")
        case True
        then have "ni_insert key e ni = maybe_initialize_dense ?ni"
          using Some by (simp only: ni_insert_hash [OF \<open>dense_slot ni key = None\<close>] Let_def option.case simp_thms if_False)
        then show ?thesis using ni_inv_maybe(1,3) [OF inv] g dn True by simp
      next
        case False
        then have "ni_insert key e ni = maybe_expand_dense i ?ni"
          using Some by (simp only: ni_insert_hash [OF \<open>dense_slot ni key = None\<close>] Let_def option.case simp_thms if_True)
        then show ?thesis using ni_inv_maybe(2,4) [OF inv] g by simp
      qed
    qed
  qed
qed

lemma ni_remove_correct:
  assumes "ni_inv ni" "canonical_key key"
  shows "ni_inv (snd (ni_remove key ni)) \<and>
    (\<forall>k. canonical_key k \<longrightarrow> ni_get (snd (ni_remove key ni)) k = ((ni_get ni)(key := None)) k) \<and>
    (fst (ni_remove key ni) = None \<longleftrightarrow> ni_get ni key = None)"
proof -
  have ok: "ni_ok ni" and cnt: "dense_key_count ni = card (integer_keys ni)" using assms(1) by (simp_all add: ni_inv_def)
  let ?hm = "AList.delete key (hashed ni)" and ?gone = "ni_get ni key \<noteq> None \<and> dense_integer_key key \<noteq> None"
  let ?n = "if ?gone then dense_key_count ni - 1 else dense_key_count ni"
  have mo: "map_of ?hm k = ((map_of (hashed ni))(key := None)) k" for k by (simp add: delete_conv')
  have "finite (integer_keys ni)" by simp
  then have card: "card (integer_keys ni - {key}) = ?n"
    using assms(2) cnt by (auto simp: integer_keys_def card_Diff_singleton_if)
  obtain ni' where ni': "snd (ni_remove key ni) = ni'" "fst (ni_remove key ni) = None \<longleftrightarrow> ni_get ni key = None"
    "ni_ok ni'" "dense_key_count ni' = ?n" "\<And>k. canonical_key k \<Longrightarrow> ni_get ni' k = ((ni_get ni)(key := None)) k"
  proof (cases "dense_slot ni key")
    case None
    let ?ni = "ni\<lparr>hashed := ?hm, dense_key_count := ?n\<rparr>"
    have get: "ni_get ni key = map_of (hashed ni) key" by (rule dense_slot_None [OF None])
    have rem: "ni_remove key ni = (map_of (hashed ni) key, ?ni)"
      using None get by (auto simp: ni_remove_def dense_slot_def Let_def split: option.splits)
    have "ni_ok ?ni" using ok hash_ok_delete mo by (auto simp: ni_ok_def)
    moreover have "ni_get ?ni k = ((ni_get ni)(key := None)) k" for k
      using None mo by (auto simp: ni_get_def dense_slot_def split: option.splits)
    ultimately show thesis using that [of ?ni] rem get by simp
  next
    case (Some off)
    then obtain d i where d: "dense ni = Some d" "dense_integer_key key = Some i" "dense_offset d i = Some off"
      and get: "ni_get ni key = (if slots d ! off \<noteq> DENSE_NUMERIC_EMPTY then Some (slots d ! off) else None)"
      by (rule dense_slot_Some)
    let ?d = "d\<lparr>slots := (slots d)[off := DENSE_NUMERIC_EMPTY]\<rparr>"
    let ?nh = "ni\<lparr>hashed := ?hm\<rparr>"
    let ?ni = "?nh\<lparr>dense_key_count := ?n, dense := Some ?d\<rparr>"
    have hg: "map_of (hashed ni) key = None" if "slots d ! off = DENSE_NUMERIC_EMPTY"
      using ok d that unfolding ni_ok_def by blast
    have okh: "ni_ok ?nh" using ok hash_ok_delete mo by (auto simp: ni_ok_def)
    have slot: "(slots d)[off := DENSE_NUMERIC_EMPTY] = slots d" if "slots d ! off = DENSE_NUMERIC_EMPTY"
      using that by (metis list_update_id)
    have rem: "snd (ni_remove key ni) = ?ni" "fst (ni_remove key ni) = None \<longleftrightarrow> ni_get ni key = None"
      using d get hg slot by (auto simp: ni_remove_def Let_def)
    have "ni_ok ?ni" using ni_ok_store_slot [OF okh _ d(2,3) _ assms(2)] d(1) mo by simp
    moreover have "ni_get ?ni k = ((ni_get ni)(key := None)) k" if "canonical_key k" for k
    proof -
      have "ni_get ?ni k = (if k = key then None else ni_get ?nh k)"
        using ni_get_store_slot [of ?nh, OF _ d(2,3) assms(2) that] d(1) by simp
      moreover have "ni_get ?nh k = ni_get ni k" if "k \<noteq> key" using mo that by (simp add: ni_get_def split: option.split)
      ultimately show ?thesis by simp
    qed
    ultimately show thesis using that [of ?ni] rem by simp
  qed
  then have "integer_keys ni' = integer_keys ni - {key}" by (intro integer_keys_remove)
  then show ?thesis using ni' card by (simp add: ni_inv_def)
qed

lemma ni_clear_correct:
  assumes "ni_inv ni"
  shows "ni_inv (ni_clear ni) \<and> ni_get (ni_clear ni) k = None"
proof -
  have get: "ni_get (ni_clear ni) k = None" for k
    by (auto simp: ni_get_def ni_clear_def dense_offset_def Let_def split: option.split)
  then have "integer_keys (ni_clear ni) = {}" by (simp add: integer_keys_def)
  then show ?thesis using assms get by (auto simp: ni_inv_def ni_ok_def hash_ok_def ni_clear_def)
qed

lemma ni_new_correct: "ni_inv ni_new \<and> ni_get ni_new k = None"
  by (simp add: ni_inv_def ni_ok_def hash_ok_def ni_new_def ni_get_def integer_keys_def split: option.split)

text \<open>The key range is never empty when the range table is set up, so its width does not underflow.\<close>

lemma maybe_initialize_dense_nonempty:
  assumes "ni_inv ni" "dense ni = None" "dense_key_count ni \<ge> DENSE_NUMERIC_MIN_KEYS"
  shows "List.map_filter (\<lambda>(key, _). dense_integer_key key) (hashed ni) \<noteq> []"
proof -
  have "integer_keys ni \<noteq> {}" using assms(1,3) by (auto simp: ni_inv_def DENSE_NUMERIC_MIN_KEYS_def)
  then obtain k i v where "dense_integer_key k = Some i" "map_of (hashed ni) k = Some v"
    using assms(2) by (auto simp: integer_keys_def ni_get_def split: option.splits)
  then have "(k, v) \<in> set (hashed ni)" "dense_integer_key k = Some i" by (auto dest: map_of_SomeD)
  then show ?thesis by (force simp: List.map_filter_def filter_empty_conv)
qed

subsection \<open>The interface\<close>

interpretation numeric: key_index ni_inv canonical_key "\<lambda>v. v < DENSE_NUMERIC_EMPTY" "(=)"
  ni_new ni_get ni_insert "\<lambda>k ni. snd (ni_remove k ni)" ni_clear
proof (unfold_locales, goal_cases)
  case (6 s k v) then show ?case using ni_insert_correct by blast
next
  case (7 s k v k') then show ?case using ni_insert_correct [of s k v] by auto
next
  case (8 s k) then show ?case using ni_remove_correct by blast
next
  case (9 s k k') then show ?case using ni_remove_correct [of s k] by auto
next
  case (10 s) then show ?case using ni_clear_correct by blast
next
  case (11 s k) then show ?case using ni_clear_correct by blast
qed (use ni_new_correct in auto)

text \<open>
  C12. The numeric index of \<open>Map\<close> denotes a finite map from key bits to entry positions. After any
  sequence of insertions, removals and clears on a fresh index, looking up a key gives what the
  last operation on that key stored, whether the answer comes from the hash table or from the
  range table, and whatever rebuilds happened in between. The range table never has more than
  \<open>2^20\<close> slots, and the counter that decides about its span is the number of
  integer keys held. Keys are any doubles but \<open>-0\<close>, which the callers normalise away.
\<close>

theorem numeric_index_refines_map:
  assumes "\<forall>op \<in> set ops. index_op_ok canonical_key (\<lambda>v. v < DENSE_NUMERIC_EMPTY) op"
  shows "(let ni = run_index ni_insert (\<lambda>k ni. snd (ni_remove k ni)) ni_clear ops ni_new in
      (\<forall>k. canonical_key k \<longrightarrow> ni_get ni k = spec_index (=) ops (\<lambda>_. None) k) \<and>
      (\<forall>d. dense ni = Some d \<longrightarrow> length (slots d) \<le> 2 ^ 20) \<and>
      dense_key_count ni = card {k. canonical_key k \<and> dense_integer_key k \<noteq> None \<and> spec_index (=) ops (\<lambda>_. None) k \<noteq> None})"
proof -
  let ?ni = "run_index ni_insert (\<lambda>k ni. snd (ni_remove k ni)) ni_clear ops ni_new"
  have run: "ni_inv ?ni \<and> (\<forall>k. canonical_key k \<longrightarrow> ni_get ?ni k = spec_index (=) ops (\<lambda>_. None) k)"
    using numeric.run_index_refines [of ni_new "\<lambda>_. None" ops] ni_new_correct assms by blast
  then have "integer_keys ?ni = {k. canonical_key k \<and> dense_integer_key k \<noteq> None \<and> spec_index (=) ops (\<lambda>_. None) k \<noteq> None}"
    by (auto simp: integer_keys_def)
  then show ?thesis using run unfolding Let_def ni_inv_def ni_ok_def DENSE_NUMERIC_MAX_SLOTS_def by auto
qed

lemma numeric_index_refines_map_witness:
  "ni_get (run_index ni_insert (\<lambda>k ni. snd (ni_remove k ni)) ni_clear
      (map (\<lambda>i. Index_insert (f64_of_int (int i)) (i + 100)) [0..<12] @ [Index_remove (f64_of_int 5), Index_insert (f64_of_int 3) 7])
      ni_new) (f64_of_int 3) = Some 7"
proof -
  let ?ops = "map (\<lambda>i. Index_insert (f64_of_int (int i)) (i + 100)) [0..<12] @ [Index_remove (f64_of_int 5), Index_insert (f64_of_int 3) 7]"
  have key: "canonical_key (f64_of_int (int i))" if "i < 12" for i using dense_integer_key_of_int(2) [of i] that by simp
  have "index_op_ok canonical_key (\<lambda>v. v < DENSE_NUMERIC_EMPTY) (Index_insert (f64_of_int (int i)) (i + 100))" if "i < 12" for i
    using key [OF that] that by (simp add: DENSE_NUMERIC_EMPTY_def)
  moreover have "\<forall>op \<in> set [Index_remove (f64_of_int 5), Index_insert (f64_of_int 3) 7]. index_op_ok canonical_key (\<lambda>v. v < DENSE_NUMERIC_EMPTY) op"
    using key [of 5] key [of 3] by (simp add: DENSE_NUMERIC_EMPTY_def)
  ultimately have ok: "\<forall>op \<in> set ?ops. index_op_ok canonical_key (\<lambda>v. v < DENSE_NUMERIC_EMPTY) op"
    unfolding set_append set_map set_upt by (fastforce simp del: set_simps)
  have c: "canonical_key (f64_of_int 3)" using key [of 3] by simp
  have "spec_index (=) (ops @ [Index_remove a, Index_insert b 7]) f b = Some 7" for ops a b and f :: "u64 \<Rightarrow> nat option"
    by (induction "(=) :: u64 \<Rightarrow> u64 \<Rightarrow> bool" ops f rule: spec_index.induct) simp_all
  then have "spec_index (=) ?ops (\<lambda>_. None) (f64_of_int 3) = Some 7" by blast
  with numeric_index_refines_map [OF ok, unfolded Let_def, THEN conjunct1, rule_format, OF c] show ?thesis by (rule trans)
qed

end
