(* ===== verification/Js_Map.thy ===== *)
theory Js_Map
  imports Map_Keys Map_Numeric_Index
begin

text \<open>
  The entry list of \<open>Map\<close> (\<open>map.rs\<close>): a header with the live count and the capacity, the written
  extent of the entries buffer (with tombstones where entries were deleted), the three side
  indices, the compaction epoch and log, and how many \<open>forEach\<close> walks are on this map.
  The operations act on a receiver already resolved to its header; all side tables are present, as
  \<open>js_map_alloc\<close> leaves them. No collection runs inside an operation, so keys keep their bits.
  Sizes, capacities and positions are natural numbers; the epoch is a \<open>u32\<close> that wraps.
\<close>

subsection \<open>State\<close>

datatype RemovedSlots = Prefix nat | Indices "nat list"

record compaction_record =
  rec_epoch :: u32
  rec_removed :: RemovedSlots

record js_map =
  map_size :: nat
  capacity :: nat
  entries :: "(u64 \<times> u64) list"
  numeric_ix :: numeric_index
  string_ix :: "u64 \<rightharpoonup> nat list"
  ptr_ix :: "(u64 \<times> nat) list"
  compaction_epoch :: u32
  log_records :: "compaction_record list"
  log_retained :: nat
  foreach_depth :: nat

abbreviation used :: "js_map \<Rightarrow> nat" where "used m \<equiv> length (entries m)"

definition MAP_COMPACTION_LOG_MIN_BUDGET :: nat where "MAP_COMPACTION_LOG_MIN_BUDGET = 4096"
definition SIDE_TABLE_THRESHOLD :: nat where "SIDE_TABLE_THRESHOLD = 8"
definition SIDE_TABLE_CLEAR_SCAN_MAX :: nat where "SIDE_TABLE_CLEAR_SCAN_MAX = 16"
definition GC_TYPE_ARRAY :: u8 where "GC_TYPE_ARRAY = 1"

text \<open>The largest extent \<open>rebuild_map_ptr_index\<close> handles.\<close>

definition PTR_REBUILD_MAX :: nat where "PTR_REBUILD_MAX = 16000000"

definition fresh_map :: "nat \<Rightarrow> js_map" where
  "fresh_map cap =
     \<lparr>map_size = 0, capacity = (if cap = 0 then 4 else cap), entries = [], numeric_ix = ni_new,
      string_ix = Map.empty, ptr_ix = [], compaction_epoch = 0, log_records = [], log_retained = 0,
      foreach_depth = 0\<rparr>"

text \<open>\<open>alloc_ok n\<close> says whether the allocator provides a buffer for \<open>n\<close> entries.\<close>

definition throw_allocation_failed :: js_throw where
  "throw_allocation_failed = RangeError ''Array buffer allocation failed''"

definition js_map_alloc :: "(nat \<Rightarrow> bool) \<Rightarrow> nat \<Rightarrow> js_throw + js_map" where
  "js_map_alloc alloc_ok cap =
     (if alloc_ok (capacity (fresh_map cap)) then Inr (fresh_map cap) else Inl throw_allocation_failed)"

definition js_map_size :: "js_map \<Rightarrow> nat" where "js_map_size m = map_size m"

text \<open>The stack of \<open>forEach\<close> walks, as far as it concerns this map.\<close>

definition map_foreach_is_active :: "js_map \<Rightarrow> bool" where
  "map_foreach_is_active m \<longleftrightarrow> foreach_depth m > 0"

definition map_foreach_enter :: "js_map \<Rightarrow> js_map" where
  "map_foreach_enter m = m\<lparr>foreach_depth := foreach_depth m + 1\<rparr>"

definition map_foreach_leave :: "js_map \<Rightarrow> bool \<times> js_map" where
  "map_foreach_leave m = (let depth = foreach_depth m - 1 in (depth = 0, m\<lparr>foreach_depth := depth\<rparr>))"

subsection \<open>The pointer index\<close>

text \<open>A hash table keyed by \<open>MapPtrKey\<close>, whose equality is \<open>jsvalue_eq\<close>; an insertion that finds an equal key keeps that key.\<close>

definition ptr_get :: "map_env \<Rightarrow> (u64 \<times> nat) list \<Rightarrow> u64 \<Rightarrow> nat option" where
  "ptr_get e = table_get (jsvalue_eq e)"

definition ptr_insert :: "map_env \<Rightarrow> u64 \<Rightarrow> nat \<Rightarrow> (u64 \<times> nat) list \<Rightarrow> (u64 \<times> nat) list" where
  "ptr_insert e = table_insert (jsvalue_eq e)"

definition ptr_remove :: "map_env \<Rightarrow> u64 \<Rightarrow> (u64 \<times> nat) list \<Rightarrow> (u64 \<times> nat) list" where
  "ptr_remove e = table_remove (jsvalue_eq e)"

definition rebuild_map_ptr_index :: "map_env \<Rightarrow> js_map \<Rightarrow> js_map" where
  "rebuild_map_ptr_index e m =
     (if used m > capacity m \<or> used m > PTR_REBUILD_MAX then m
      else m\<lparr>ptr_ix := index_entries (is_ptr_index_key e) (ptr_insert e) 0 (map fst (entries m)) []\<rparr>)"

subsection \<open>The string index\<close>

definition bucket_push :: "u64 \<Rightarrow> nat \<Rightarrow> (u64 \<rightharpoonup> nat list) \<Rightarrow> (u64 \<rightharpoonup> nat list)" where
  "bucket_push h i ix = ix(h \<mapsto> (case ix h of None \<Rightarrow> [] | Some bucket \<Rightarrow> bucket) @ [i])"

definition bucket_forget :: "u64 \<Rightarrow> nat \<Rightarrow> (u64 \<rightharpoonup> nat list) \<Rightarrow> (u64 \<rightharpoonup> nat list)" where
  "bucket_forget h i ix =
     (case ix h of
        None \<Rightarrow> ix
      | Some bucket \<Rightarrow>
          let bucket = filter (\<lambda>entry_idx. entry_idx \<noteq> i) bucket
          in if bucket = [] then ix(h := None) else ix(h \<mapsto> bucket))"

fun index_strings :: "map_env \<Rightarrow> nat \<Rightarrow> u64 list \<Rightarrow> (u64 \<rightharpoonup> nat list) \<Rightarrow> (u64 \<rightharpoonup> nat list)" where
  "index_strings e i [] ix = ix"
| "index_strings e i (kb # kbs) ix =
     index_strings e (Suc i) kbs
       (if is_string_like e kb then
          (case string_content_hash e kb of None \<Rightarrow> ix | Some h \<Rightarrow> bucket_push h i ix)
        else ix)"

subsection \<open>Compaction\<close>

definition retained_len :: "RemovedSlots \<Rightarrow> nat" where
  "retained_len r = (case r of Prefix _ \<Rightarrow> 1 | Indices v \<Rightarrow> length v)"

fun trim_log :: "nat \<Rightarrow> compaction_record list \<Rightarrow> nat \<Rightarrow> compaction_record list \<times> nat" where
  "trim_log budget [] retained = ([], retained)"
| "trim_log budget (oldest # records) retained =
     (if retained > budget \<and> length (oldest # records) > 1
      then trim_log budget records (retained - retained_len (rec_removed oldest))
      else (oldest # records, retained))"

definition note_map_compaction :: "RemovedSlots \<Rightarrow> js_map \<Rightarrow> js_map" where
  "note_map_compaction removed m =
     (let epoch = compaction_epoch m + 1;
          budget = max MAP_COMPACTION_LOG_MIN_BUDGET (capacity m);
          (records, retained) = (case removed of Prefix _ \<Rightarrow> ([], 0) | Indices _ \<Rightarrow> (log_records m, log_retained m));
          retained = retained + retained_len removed;
          records = records @ [\<lparr>rec_epoch = epoch, rec_removed = removed\<rparr>];
          (records, retained) = trim_log budget records retained
      in m\<lparr>compaction_epoch := epoch, log_records := records, log_retained := retained\<rparr>)"

text \<open>The squeeze: live pairs keep their order, the positions of the tombstones are collected.\<close>

fun compact_loop :: "nat \<Rightarrow> (u64 \<times> u64) list \<Rightarrow> (u64 \<times> u64) list \<times> nat list" where
  "compact_loop i [] = ([], [])"
| "compact_loop i ((key, v) # rest) =
     (let (out, removed) = compact_loop (Suc i) rest
      in if key = MAP_HOLE_KEY_BITS then (out, i # removed) else ((key, v) # out, removed))"

definition compact_map_entries :: "map_env \<Rightarrow> js_map \<Rightarrow> js_map" where
  "compact_map_entries e m =
     (let (out, removed) = compact_loop 0 (entries m);
          keys = map fst out;
          m = m\<lparr>entries := out\<rparr>;
          m = m\<lparr>numeric_ix := index_entries is_safe_numeric_key ni_insert 0 keys (ni_clear (numeric_ix m))\<rparr>;
          m = m\<lparr>string_ix := index_strings e 0 keys Map.empty\<rparr>;
          m = rebuild_map_ptr_index e m
      in if removed \<noteq> [] then note_map_compaction (Indices removed) m else m)"

definition compact_if_holey :: "map_env \<Rightarrow> js_map \<Rightarrow> js_map" where
  "compact_if_holey e m = (if used m \<noteq> map_size m then compact_map_entries e m else m)"

subsection \<open>Lookup\<close>

fun scan_bits :: "nat \<Rightarrow> (u64 \<times> u64) list \<Rightarrow> u64 \<Rightarrow> int" where
  "scan_bits i [] key = -1"
| "scan_bits i ((k, _) # rest) key = (if k = key then int i else scan_bits (Suc i) rest key)"

fun scan_eq :: "map_env \<Rightarrow> nat \<Rightarrow> (u64 \<times> u64) list \<Rightarrow> u64 \<Rightarrow> int" where
  "scan_eq e i [] key = -1"
| "scan_eq e i ((k, _) # rest) key =
     (if k = MAP_HOLE_KEY_BITS then scan_eq e (Suc i) rest key
      else if jsvalue_eq e k key then int i
      else scan_eq e (Suc i) rest key)"

fun scan_bucket :: "map_env \<Rightarrow> js_map \<Rightarrow> nat list \<Rightarrow> u64 \<Rightarrow> int" where
  "scan_bucket e m [] key = -1"
| "scan_bucket e m (cand # bucket) key =
     (if cand \<ge> used m then scan_bucket e m bucket key
      else if jsvalue_eq e (fst (entries m ! cand)) key then int cand
      else scan_bucket e m bucket key)"

definition find_key_index_hot :: "js_map \<Rightarrow> u64 \<Rightarrow> int option" where
  "find_key_index_hot m key_bits =
     (if \<not> is_plain_nonzero_number_bits key_bits then None
      else if used m \<le> SIDE_TABLE_THRESHOLD then Some (scan_bits 0 (entries m) key_bits)
      else
        case dense (numeric_ix m) of
          None \<Rightarrow> None
        | Some d \<Rightarrow>
            (case dense_integer_key key_bits of
               None \<Rightarrow> None
             | Some integer \<Rightarrow>
                 if integer < base d then None
                 else
                   let offset = integer - base d
                   in if offset \<ge> length (slots d) then None
                      else
                        let entry = slots d ! offset
                        in if entry = DENSE_NUMERIC_EMPTY \<or> entry \<ge> used m then Some (-1) else Some (int entry)))"

definition find_key_index_cold :: "map_env \<Rightarrow> js_map \<Rightarrow> u64 \<Rightarrow> int" where
  "find_key_index_cold e m key_bits =
     (if used m \<le> SIDE_TABLE_THRESHOLD then
        (if is_plain_nonzero_number_bits key_bits then scan_bits 0 (entries m) key_bits
         else scan_eq e 0 (entries m) key_bits)
      else if is_safe_numeric_key key_bits then
        (case ni_get (numeric_ix m) key_bits of
           Some i \<Rightarrow> if i < used m then int i else -1
         | None \<Rightarrow> -1)
      else if is_string_like e key_bits then
        (case string_content_hash e key_bits of
           Some h \<Rightarrow> (case string_ix m h of Some bucket \<Rightarrow> scan_bucket e m bucket key_bits | None \<Rightarrow> -1)
         | None \<Rightarrow> scan_eq e 0 (entries m) key_bits)
      else
        case ptr_get e (ptr_ix m) key_bits of
          Some i \<Rightarrow> if i < used m then int i else -1
        | None \<Rightarrow> -1)"

definition find_key_index :: "map_env \<Rightarrow> js_map \<Rightarrow> u64 \<Rightarrow> int" where
  "find_key_index e m key =
     (case find_key_index_hot m key of Some index \<Rightarrow> index | None \<Rightarrow> find_key_index_cold e m key)"

definition find_string_key_index :: "map_env \<Rightarrow> js_map \<Rightarrow> addr \<Rightarrow> int" where
  "find_string_key_index e m key =
     (let key_value = boxed_heap_string_key key
      in if used m \<le> SIDE_TABLE_THRESHOLD then scan_eq e 0 (entries m) key_value
         else case string_content_hash e key_value of
                Some h \<Rightarrow> (case string_ix m h of Some bucket \<Rightarrow> scan_bucket e m bucket key_value | None \<Rightarrow> -1)
              | None \<Rightarrow> scan_eq e 0 (entries m) key_value)"

subsection \<open>Insertion\<close>

definition grow_entries :: "(nat \<Rightarrow> bool) \<Rightarrow> js_map \<Rightarrow> js_throw + js_map" where
  "grow_entries alloc_ok m =
     (let new_capacity = capacity m * 2 mod 2 ^ 32
      in if alloc_ok new_capacity then Inr (m\<lparr>capacity := new_capacity\<rparr>) else Inl throw_allocation_failed)"

definition ensure_capacity :: "map_env \<Rightarrow> (nat \<Rightarrow> bool) \<Rightarrow> js_map \<Rightarrow> js_throw + js_map" where
  "ensure_capacity e alloc_ok m =
     (if used m < capacity m then Inr m
      else if map_size m < used m \<and> \<not> map_foreach_is_active m then
        (let m = compact_map_entries e m
         in if used m < capacity m then Inr m else grow_entries alloc_ok m)
      else grow_entries alloc_ok m)"

definition store_value :: "int \<Rightarrow> u64 \<Rightarrow> js_map \<Rightarrow> js_map" where
  "store_value idx v m = m\<lparr>entries := (entries m)[nat idx := (fst (entries m ! nat idx), v)]\<rparr>"

definition append_entry :: "map_env \<Rightarrow> u64 \<Rightarrow> u64 \<Rightarrow> js_map \<Rightarrow> js_map" where
  "append_entry e key v m =
     (let u = used m;
          m = m\<lparr>entries := entries m @ [(key, v)], map_size := map_size m + 1\<rparr>
      in if is_safe_numeric_key key then m\<lparr>numeric_ix := ni_insert key u (numeric_ix m)\<rparr>
         else if is_string_like e key then
           (case string_content_hash e key of
              None \<Rightarrow> m
            | Some h \<Rightarrow> m\<lparr>string_ix := bucket_push h u (string_ix m)\<rparr>)
         else m\<lparr>ptr_ix := ptr_insert e key u (ptr_ix m)\<rparr>)"

definition map_set_resolved :: "map_env \<Rightarrow> (nat \<Rightarrow> bool) \<Rightarrow> js_map \<Rightarrow> u64 \<Rightarrow> u64 \<Rightarrow> js_throw + js_map" where
  "map_set_resolved e alloc_ok m key v =
     (let key = normalize_zero key;
          idx = find_key_index e m key
      in if idx \<ge> 0 then Inr (store_value idx v m)
         else case ensure_capacity e alloc_ok m of
                Inl err \<Rightarrow> Inl err
              | Inr m \<Rightarrow> Inr (append_entry e key v m))"

definition map_set_string_key_value :: "map_env \<Rightarrow> (nat \<Rightarrow> bool) \<Rightarrow> js_map \<Rightarrow> addr \<Rightarrow> u64 \<Rightarrow> js_throw + js_map" where
  "map_set_string_key_value e alloc_ok m key v =
     (let idx = find_string_key_index e m key
      in if idx \<ge> 0 then Inr (store_value idx v m)
         else case ensure_capacity e alloc_ok m of
                Inl err \<Rightarrow> Inl err
              | Inr m \<Rightarrow>
                  let u = used m;
                      key_value = boxed_heap_string_key key;
                      m = m\<lparr>entries := entries m @ [(key_value, v)], map_size := map_size m + 1\<rparr>
                  in Inr (case string_content_hash e key_value of
                            None \<Rightarrow> m
                          | Some h \<Rightarrow> m\<lparr>string_ix := bucket_push h u (string_ix m)\<rparr>))"

definition js_map_set_number_key :: "map_env \<Rightarrow> (nat \<Rightarrow> bool) \<Rightarrow> js_map \<Rightarrow> u64 \<Rightarrow> u64 \<Rightarrow> js_throw + js_map" where
  "js_map_set_number_key e alloc_ok m key v =
     (case normalize_number_key_from_boxed key of
        None \<Rightarrow> map_set_resolved e alloc_ok m key v
      | Some key \<Rightarrow> map_set_resolved e alloc_ok m key v)"

subsection \<open>Reading\<close>

text \<open>
  A value that names an array moved by growth is replaced by the live array; \<open>clean_arr_ptr\<close> is the
  resolver of the array module.
\<close>

definition heal_forwarded_array_value :: "map_env \<Rightarrow> (addr \<Rightarrow> addr) \<Rightarrow> u64 \<Rightarrow> u64" where
  "heal_forwarded_array_value e clean_arr_ptr v =
     (if v AND TAG_MASK \<noteq> POINTER_TAG then v
      else
        let raw = v AND POINTER_MASK
        in if raw < GC_HEADER_SIZE \<or> unat raw mod 4 \<noteq> 0 \<or> \<not> is_plausible_heap_addr (env_target e) raw then v
           else
             let hdr = gc_headers (env_heap e) (raw - GC_HEADER_SIZE)
             in if obj_type hdr \<noteq> GC_TYPE_ARRAY \<or> gc_flags hdr AND GC_FLAG_FORWARDED = 0 then v
                else
                  let live = clean_arr_ptr raw
                  in if live = 0 \<or> live = raw then v else js_nanbox_pointer live)"

definition map_get_resolved :: "map_env \<Rightarrow> (addr \<Rightarrow> addr) \<Rightarrow> js_map \<Rightarrow> u64 \<Rightarrow> u64 \<times> js_map" where
  "map_get_resolved e clean_arr_ptr m key =
     (let idx = find_key_index e m (normalize_zero key)
      in if idx \<ge> 0 then
           (let v = heal_forwarded_array_value e clean_arr_ptr (snd (entries m ! nat idx)) in (v, store_value idx v m))
         else (TAG_UNDEFINED, m))"

definition js_map_get_number_key :: "map_env \<Rightarrow> (addr \<Rightarrow> addr) \<Rightarrow> js_map \<Rightarrow> u64 \<Rightarrow> u64 \<times> js_map" where
  "js_map_get_number_key e clean_arr_ptr m key =
     (case normalize_number_key_from_boxed key of
        None \<Rightarrow> map_get_resolved e clean_arr_ptr m key
      | Some key \<Rightarrow> map_get_resolved e clean_arr_ptr m key)"

definition js_map_get_string_key :: "map_env \<Rightarrow> js_map \<Rightarrow> addr \<Rightarrow> u64" where
  "js_map_get_string_key e m key =
     (let idx = find_string_key_index e m key in if idx \<ge> 0 then snd (entries m ! nat idx) else TAG_UNDEFINED)"

definition js_map_has :: "map_env \<Rightarrow> js_map \<Rightarrow> u64 \<Rightarrow> int" where
  "js_map_has e m key = (if find_key_index e m (normalize_zero key) \<ge> 0 then 1 else 0)"

definition js_map_has_number_key :: "map_env \<Rightarrow> js_map \<Rightarrow> u64 \<Rightarrow> int" where
  "js_map_has_number_key e m key =
     (case normalize_number_key_from_boxed key of None \<Rightarrow> js_map_has e m key | Some key \<Rightarrow> js_map_has e m key)"

definition js_map_has_string_key :: "map_env \<Rightarrow> js_map \<Rightarrow> addr \<Rightarrow> int" where
  "js_map_has_string_key e m key = (if find_string_key_index e m key \<ge> 0 then 1 else 0)"

subsection \<open>Deletion\<close>

definition forget_map_index_entry :: "map_env \<Rightarrow> u64 \<Rightarrow> nat \<Rightarrow> js_map \<Rightarrow> js_map" where
  "forget_map_index_entry e deleted_key deleted_idx m =
     (if is_safe_numeric_key deleted_key then m\<lparr>numeric_ix := snd (ni_remove deleted_key (numeric_ix m))\<rparr>
      else if is_string_like e deleted_key then
        (case string_content_hash e deleted_key of
           None \<Rightarrow> m
         | Some h \<Rightarrow> m\<lparr>string_ix := bucket_forget h deleted_idx (string_ix m)\<rparr>)
      else if is_ptr_index_key e deleted_key then m\<lparr>ptr_ix := ptr_remove e deleted_key (ptr_ix m)\<rparr>
      else m)"

definition delete_entry_at_index :: "map_env \<Rightarrow> js_map \<Rightarrow> int \<Rightarrow> int \<times> js_map" where
  "delete_entry_at_index e m idx =
     (if idx < 0 then (0, m)
      else if nat idx \<ge> used m then (0, m)
      else
        let i = nat idx;
            deleted_key = fst (entries m ! i);
            m = m\<lparr>entries := (entries m)[i := (MAP_HOLE_KEY_BITS, TAG_UNDEFINED)], map_size := map_size m - 1\<rparr>;
            m = forget_map_index_entry e deleted_key i m
        in (1, if used m \<ge> 16 \<and> map_size m < used m div 2 \<and> \<not> map_foreach_is_active m
               then compact_map_entries e m else m))"

definition js_map_delete :: "map_env \<Rightarrow> js_map \<Rightarrow> u64 \<Rightarrow> int \<times> js_map" where
  "js_map_delete e m key = delete_entry_at_index e m (find_key_index e m (normalize_zero key))"

definition js_map_delete_number_key :: "map_env \<Rightarrow> js_map \<Rightarrow> u64 \<Rightarrow> int \<times> js_map" where
  "js_map_delete_number_key e m key =
     (case normalize_number_key_from_boxed key of None \<Rightarrow> js_map_delete e m key | Some key \<Rightarrow> js_map_delete e m key)"

definition js_map_delete_string_key :: "map_env \<Rightarrow> js_map \<Rightarrow> addr \<Rightarrow> int \<times> js_map" where
  "js_map_delete_string_key e m key = delete_entry_at_index e m (find_string_key_index e m key)"

definition js_map_clear :: "js_map \<Rightarrow> js_map" where
  "js_map_clear m =
     (if map_size m = 0 then
        (if \<not> map_foreach_is_active m \<and> used m > 0 then note_map_compaction (Prefix (used m)) (m\<lparr>entries := []\<rparr>) else m)
      else
        let side_tables_may_hold_this_map =
              (used m > SIDE_TABLE_CLEAR_SCAN_MAX \<or> (\<exists>(k, _) \<in> set (entries m). \<not> is_safe_numeric_key k));
            u = used m;
            m = m\<lparr>map_size := 0\<rparr>;
            m = (if map_foreach_is_active m then
                   m\<lparr>entries := map (\<lambda>(k, v). if k \<noteq> MAP_HOLE_KEY_BITS then (MAP_HOLE_KEY_BITS, TAG_UNDEFINED) else (k, v)) (entries m)\<rparr>
                 else note_map_compaction (Prefix u) (m\<lparr>entries := []\<rparr>));
            m = m\<lparr>numeric_ix := ni_clear (numeric_ix m)\<rparr>
        in if \<not> side_tables_may_hold_this_map then m
           else m\<lparr>string_ix := Map.empty, ptr_ix := []\<rparr>)"

subsection \<open>Reading by position\<close>

fun live_step :: "nat \<Rightarrow> nat \<Rightarrow> (u64 \<times> u64) list \<Rightarrow> nat \<Rightarrow> nat option" where
  "live_step raw live [] idx = None"
| "live_step raw live ((k, _) # rest) idx =
     (if k \<noteq> MAP_HOLE_KEY_BITS then (if live = idx then Some raw else live_step (Suc raw) (Suc live) rest idx)
      else live_step (Suc raw) live rest idx)"

definition live_index_to_raw :: "map_env \<Rightarrow> js_map \<Rightarrow> nat \<Rightarrow> nat option \<times> js_map" where
  "live_index_to_raw e m idx =
     (if idx \<ge> map_size m then (None, m)
      else if \<not> map_foreach_is_active m then (Some idx, compact_if_holey e m)
      else (live_step 0 0 (entries m) idx, m))"

definition js_map_entry_key_at :: "map_env \<Rightarrow> js_map \<Rightarrow> nat \<Rightarrow> u64 \<times> js_map" where
  "js_map_entry_key_at e m idx =
     (case live_index_to_raw e m idx of
        (None, m) \<Rightarrow> (TAG_UNDEFINED, m)
      | (Some raw, m) \<Rightarrow> (fst (entries m ! raw), m))"

definition js_map_entry_value_at :: "map_env \<Rightarrow> js_map \<Rightarrow> nat \<Rightarrow> u64 \<times> js_map" where
  "js_map_entry_value_at e m idx =
     (case live_index_to_raw e m idx of
        (None, m) \<Rightarrow> (TAG_UNDEFINED, m)
      | (Some raw, m) \<Rightarrow> (snd (entries m ! raw), m))"

definition js_map_entry_key_raw_at :: "js_map \<Rightarrow> nat \<Rightarrow> u64" where
  "js_map_entry_key_raw_at m idx = (if idx \<ge> used m then TAG_UNDEFINED else fst (entries m ! idx))"

definition js_map_entry_value_raw_at :: "js_map \<Rightarrow> nat \<Rightarrow> u64" where
  "js_map_entry_value_raw_at m idx = (if idx \<ge> used m then TAG_UNDEFINED else snd (entries m ! idx))"

text \<open>The arrays \<open>entries\<close>, \<open>keys\<close> and \<open>values\<close> fill, as lists.\<close>

definition js_map_entries :: "map_env \<Rightarrow> js_map \<Rightarrow> (u64 \<times> u64) list \<times> js_map" where
  "js_map_entries e m = (let m = compact_if_holey e m in (map (\<lambda>i. entries m ! i) [0..<map_size m], m))"

definition js_map_keys :: "map_env \<Rightarrow> js_map \<Rightarrow> u64 list \<times> js_map" where
  "js_map_keys e m = (let m = compact_if_holey e m in (map (\<lambda>i. fst (entries m ! i)) [0..<map_size m], m))"

definition js_map_values :: "map_env \<Rightarrow> js_map \<Rightarrow> u64 list \<times> js_map" where
  "js_map_values e m = (let m = compact_if_holey e m in (map (\<lambda>i. snd (entries m ! i)) [0..<map_size m], m))"

text \<open>\<open>new Map(otherMap)\<close>.\<close>

fun copy_loop :: "map_env \<Rightarrow> (nat \<Rightarrow> bool) \<Rightarrow> (u64 \<times> u64) list \<Rightarrow> js_map \<Rightarrow> js_throw + js_map" where
  "copy_loop e alloc_ok [] m = Inr m"
| "copy_loop e alloc_ok ((key, v) # rest) m =
     (case map_set_resolved e alloc_ok m key v of Inl err \<Rightarrow> Inl err | Inr m \<Rightarrow> copy_loop e alloc_ok rest m)"

definition copy_map_into_new :: "map_env \<Rightarrow> (nat \<Rightarrow> bool) \<Rightarrow> js_map \<Rightarrow> js_throw + (js_map \<times> js_map)" where
  "copy_map_into_new e alloc_ok src =
     (let src = compact_if_holey e src
      in case js_map_alloc alloc_ok (max (map_size src) 4) of
           Inl err \<Rightarrow> Inl err
         | Inr m \<Rightarrow>
             (case copy_loop e alloc_ok (map (\<lambda>i. entries src ! i) [0..<map_size src]) m of
                Inl err \<Rightarrow> Inl err
              | Inr m \<Rightarrow> Inr (m, src)))"

subsection \<open>The three indices\<close>

interpretation ptr: key_index "\<lambda>_. True" "is_ptr_index_key e" "\<lambda>_. True" "jsvalue_eq e"
  "[]" "ptr_get e" "ptr_insert e" "ptr_remove e" "\<lambda>_. []" for e
  unfolding ptr_get_def ptr_insert_def ptr_remove_def
  by (rule key_table.key_index_table) (unfold_locales, auto simp: jsvalue_eq_class)

text \<open>The numeric index holds the bits-stable keys of the entry list.\<close>

definition numeric_key :: "u64 \<Rightarrow> bool" where
  "numeric_key k \<longleftrightarrow> is_safe_numeric_key k \<and> map_key k"

lemma numeric_key_canonical: "numeric_key k \<Longrightarrow> canonical_key k"
  by (simp add: numeric_key_def canonical_key_def map_keyD(2))

interpretation num: key_index ni_inv numeric_key "\<lambda>v. v < DENSE_NUMERIC_EMPTY" "(=)"
  ni_new ni_get ni_insert "\<lambda>k ni. snd (ni_remove k ni)" ni_clear
  using numeric_key_canonical
  by unfold_locales (simp_all add: numeric.new_inv numeric.new_get numeric.insert_inv numeric.insert_get numeric.remove_inv
      numeric.remove_get numeric.clear_inv numeric.clear_get)

text \<open>A bucket of the string index lists the positions of the strings with that hash.\<close>

definition bucket_set :: "(u64 \<rightharpoonup> nat list) \<Rightarrow> u64 \<Rightarrow> nat set" where
  "bucket_set ix h = (case ix h of None \<Rightarrow> {} | Some bucket \<Rightarrow> set bucket)"

definition hashed_key :: "map_env \<Rightarrow> u64 \<Rightarrow> u64 \<Rightarrow> bool" where
  "hashed_key e h k \<longleftrightarrow> is_string_like e k \<and> string_content_hash e k = Some h"

definition strings_exact :: "map_env \<Rightarrow> u64 list \<Rightarrow> (u64 \<rightharpoonup> nat list) \<Rightarrow> bool" where
  "strings_exact e keys ix \<longleftrightarrow> (\<forall>h. bucket_set ix h = {i. i < length keys \<and> hashed_key e h (keys ! i)})"

lemma bucket_set_push: "bucket_set (bucket_push h i ix) h' = (if h' = h then insert i (bucket_set ix h) else bucket_set ix h')"
  by (auto simp: bucket_set_def bucket_push_def split: option.split)

lemma bucket_set_forget: "bucket_set (bucket_forget h i ix) h' = (if h' = h then bucket_set ix h - {i} else bucket_set ix h')"
  by (auto simp: bucket_set_def bucket_forget_def Let_def filter_empty_conv split: option.split)

definition string_put :: "map_env \<Rightarrow> u64 \<Rightarrow> nat \<Rightarrow> (u64 \<rightharpoonup> nat list) \<Rightarrow> (u64 \<rightharpoonup> nat list)" where
  "string_put e k i ix =
     (if is_string_like e k then (case string_content_hash e k of None \<Rightarrow> ix | Some h \<Rightarrow> bucket_push h i ix) else ix)"

lemma index_strings_Cons: "index_strings e i (k # ks) ix = index_strings e (Suc i) ks (string_put e k i ix)"
  by (simp add: string_put_def)

lemma strings_exact_append:
  "strings_exact e keys ix \<Longrightarrow> strings_exact e (keys @ [k]) (string_put e k (length keys) ix)"
  by (auto simp: strings_exact_def string_put_def bucket_set_push hashed_key_def nth_append less_Suc_eq
      split: option.split if_splits)

lemma strings_exact_empty: "(\<And>k. k \<in> set keys \<Longrightarrow> \<not> is_string_like e k) \<Longrightarrow> strings_exact e keys Map.empty"
  by (auto simp: strings_exact_def bucket_set_def hashed_key_def in_set_conv_nth)

lemma index_strings_exact:
  "strings_exact e before ix \<Longrightarrow> strings_exact e (before @ ks) (index_strings e (length before) ks ix)"
proof (induction ks arbitrary: before ix)
  case (Cons k ks)
  then show ?case using Cons.IH [of "before @ [k]" "string_put e k (length before) ix"] strings_exact_append [OF Cons.prems]
    by (simp add: index_strings_Cons del: index_strings.simps)
qed simp

lemma strings_exact_delete:
  assumes "strings_exact e keys ix" "i < length keys" "\<not> is_string_like e hole"
  shows "strings_exact e (keys[i := hole])
    (if is_string_like e (keys ! i) then
       (case string_content_hash e (keys ! i) of None \<Rightarrow> ix | Some h \<Rightarrow> bucket_forget h i ix) else ix)"
  using assms by (auto simp: strings_exact_def bucket_set_forget hashed_key_def nth_list_update split: option.split if_splits)

subsection \<open>The invariant\<close>

abbreviation keys :: "js_map \<Rightarrow> u64 list" where "keys m \<equiv> map fst (entries m)"

text \<open>What the map denotes: the live entries in insertion order.\<close>

definition live_entries :: "js_map \<Rightarrow> (u64 \<times> u64) list" where
  "live_entries m = filter (\<lambda>(k, _). k \<noteq> MAP_HOLE_KEY_BITS) (entries m)"

definition keys_ok :: "map_env \<Rightarrow> u64 list \<Rightarrow> bool" where
  "keys_ok e ks \<longleftrightarrow> (\<forall>k \<in> set ks. k = MAP_HOLE_KEY_BITS \<or> map_key k) \<and>
     (\<forall>i j. i < j \<longrightarrow> j < length ks \<longrightarrow> ks ! i \<noteq> MAP_HOLE_KEY_BITS \<longrightarrow> \<not> jsvalue_eq e (ks ! i) (ks ! j))"

definition indices_ok :: "map_env \<Rightarrow> js_map \<Rightarrow> bool" where
  "indices_ok e m \<longleftrightarrow> ni_inv (numeric_ix m) \<and> index_exact numeric_key (=) (keys m) (ni_get (numeric_ix m)) \<and>
     index_exact (is_ptr_index_key e) (jsvalue_eq e) (keys m) (ptr_get e (ptr_ix m)) \<and>
     strings_exact e (keys m) (string_ix m)"

definition map_inv :: "map_env \<Rightarrow> js_map \<Rightarrow> bool" where
  "map_inv e m \<longleftrightarrow> keys_ok e (keys m) \<and> map_size m = length (live_entries m) \<and> 0 < capacity m \<and>
     used m \<le> capacity m \<and> used m \<le> PTR_REBUILD_MAX \<and> indices_ok e m"

lemma hole_class: "key_class_of e MAP_HOLE_KEY_BITS = KBits MAP_HOLE_KEY_BITS"
  by (rule safe_numeric_key_class(4) [OF hole_safe])

lemma hole_neq: "map_key k \<Longrightarrow> \<not> jsvalue_eq e MAP_HOLE_KEY_BITS k"
proof
  assume k: "map_key k" and eq: "jsvalue_eq e MAP_HOLE_KEY_BITS k"
  have "MAP_HOLE_KEY_BITS = k" by (rule equal_keys_index(5) [OF eq hole_safe])
  then show False using map_keyD(1) [OF k] by simp
qed

lemma hole_not_indexed: "\<not> numeric_key MAP_HOLE_KEY_BITS" "\<not> is_ptr_index_key e MAP_HOLE_KEY_BITS"
    "\<not> is_string_like e MAP_HOLE_KEY_BITS"
  using map_keyD(1) hole_safe safe_numeric_key_class(1) [OF hole_safe] by (auto simp: numeric_key_def is_ptr_index_key_def)

lemma keys_ok_unique:
  assumes "keys_ok e ks" "map_key k" "i < length ks" "j < length ks" "jsvalue_eq e (ks ! i) k" "jsvalue_eq e (ks ! j) k"
  shows "i = j"
proof (rule ccontr)
  assume "i \<noteq> j"
  have eq: "jsvalue_eq e (ks ! i) (ks ! j)" "jsvalue_eq e (ks ! j) (ks ! i)" using assms(5,6) by (simp_all add: jsvalue_eq_class)
  have "ks ! i \<noteq> MAP_HOLE_KEY_BITS" "ks ! j \<noteq> MAP_HOLE_KEY_BITS" using assms(2,5,6) hole_neq by metis+
  then show False using eq assms(1,3,4) \<open>i \<noteq> j\<close> by (cases "i < j") (auto simp: keys_ok_def)
qed

subsection \<open>Lookup\<close>

text \<open>The result of a lookup: the position of the entry with an equal key, or \<open>-1\<close>.\<close>

definition is_position :: "map_env \<Rightarrow> u64 list \<Rightarrow> u64 \<Rightarrow> int \<Rightarrow> bool" where
  "is_position e ks k r \<longleftrightarrow>
     (r = -1 \<and> (\<forall>i < length ks. \<not> jsvalue_eq e (ks ! i) k)) \<or> (\<exists>i < length ks. r = int i \<and> jsvalue_eq e (ks ! i) k)"

lemma is_position_index:
  assumes "index_exact key_ok eq ks get" "key_ok k"
    "\<And>i. i < length ks \<Longrightarrow> jsvalue_eq e (ks ! i) k \<longleftrightarrow> key_ok (ks ! i) \<and> eq (ks ! i) k"
  shows "is_position e ks k (case get k of Some i \<Rightarrow> if i < length ks then int i else -1 | None \<Rightarrow> -1)"
proof (cases "get k")
  case None
  then show ?thesis using index_exact_None [OF assms(1,2)] assms(3) by (auto simp: is_position_def)
next
  case (Some i)
  then have "i < length ks" "key_ok (ks ! i)" "eq (ks ! i) k" using index_exactD [OF assms(1,2)] by auto
  then show ?thesis using Some assms(3) [of i] by (auto simp: is_position_def)
qed

lemma scan_eq_position:
  assumes "map_key k"
  shows "is_position e (map fst es) k (case scan_eq e i es k of r \<Rightarrow> if r = -1 then -1 else r - int i)
    \<and> (scan_eq e i es k = -1 \<or> scan_eq e i es k \<ge> int i)"
  using assms
proof (induction e i es k rule: scan_eq.induct)
  case (1 e i key)
  then show ?case by (simp add: is_position_def)
next
  case (2 e i k v rest key)
  have shift: "is_position e (map fst ((k, v) # rest)) key (if r = -1 then -1 else r - int i)"
    if "\<not> jsvalue_eq e k key" "is_position e (map fst rest) key (if r = -1 then -1 else r - int (Suc i))" "r = -1 \<or> r \<ge> int (Suc i)" for r
  proof (cases "r = -1")
    case True
    then show ?thesis using that(1,2) by (auto simp: is_position_def nth_Cons split: nat.split)
  next
    case False
    note prem = that(2,3)
    obtain j where "j < length rest" "r - int (Suc i) = int j" "jsvalue_eq e (map fst rest ! j) key"
      using prem False by (auto simp: is_position_def)
    then show ?thesis using False by (auto simp: is_position_def intro!: exI [of _ "Suc j"])
  qed
  show ?case
  proof (cases "k = MAP_HOLE_KEY_BITS")
    case True
    then have "\<not> jsvalue_eq e k key" using hole_neq 2(3) by simp
    then show ?thesis using True 2(1) [OF True 2(3)] shift [of "scan_eq e (Suc i) rest key"] by auto
  next
    case False
    show ?thesis
    proof (cases "jsvalue_eq e k key")
      case True
      then show ?thesis using False by (auto simp: is_position_def intro!: exI [of _ 0])
    next
      case ne: False
      then show ?thesis using False 2(2) [OF False ne 2(3)] shift [of "scan_eq e (Suc i) rest key"] by auto
    qed
  qed
qed

lemma safe_key_eq: "is_safe_numeric_key k \<Longrightarrow> jsvalue_eq e x k \<longleftrightarrow> x = k"
  using equal_keys_index(5) [of e k x] jsvalue_eq_equiv(1,2) [of e] by blast

lemma scan_bits_eq:
  assumes "is_plain_nonzero_number_bits k" "map_key k"
  shows "scan_bits i es k = scan_eq e i es k"
proof -
  have eq: "jsvalue_eq e x k \<longleftrightarrow> x = k" for x using safe_key_eq plain_number_safe [OF assms] by blast
  have "MAP_HOLE_KEY_BITS \<noteq> k" using map_keyD(1) [OF assms(2)] by simp
  then show ?thesis
  proof (induction es arbitrary: i)
    case (Cons p es)
    then show ?case by (cases p) (simp add: eq)
  qed simp
qed

lemma scan_bucket_cases:
  "(scan_bucket e m bucket key = -1 \<and> (\<forall>c \<in> set bucket. c < used m \<longrightarrow> \<not> jsvalue_eq e (fst (entries m ! c)) key)) \<or>
   (\<exists>c. scan_bucket e m bucket key = int c \<and> c < used m \<and> jsvalue_eq e (fst (entries m ! c)) key)"
proof (induction bucket)
  case (Cons c bucket)
  show ?case
  proof (cases "c < used m \<and> jsvalue_eq e (fst (entries m ! c)) key")
    case True
    then have "scan_bucket e m (c # bucket) key = int c" by simp
    then show ?thesis using True by blast
  next
    case False
    then have "scan_bucket e m (c # bucket) key = scan_bucket e m bucket key" by auto
    then show ?thesis using Cons False by auto
  qed
qed simp

lemma scan_bucket_position:
  assumes "strings_exact e (keys m) (string_ix m)" "is_string_like e k" "string_content_hash e k = Some h"
  shows "is_position e (keys m) k (case string_ix m h of Some bucket \<Rightarrow> scan_bucket e m bucket k | None \<Rightarrow> -1)"
proof -
  have mem: "i \<in> bucket_set (string_ix m) h" if "i < used m" "jsvalue_eq e (keys m ! i) k" for i
    using assms that equal_keys_index(2,3) [OF that(2)] by (auto simp: strings_exact_def hashed_key_def)
  show ?thesis
  proof (cases "string_ix m h")
    case None
    then show ?thesis using mem by (auto simp: is_position_def bucket_set_def)
  next
    case (Some bucket)
    then show ?thesis using scan_bucket_cases [of e m bucket k] mem by (auto simp: is_position_def bucket_set_def)
  qed
qed

lemma find_key_index_hot_large:
  assumes "find_key_index_hot m k = Some r" "\<not> used m \<le> SIDE_TABLE_THRESHOLD"
  shows "is_plain_nonzero_number_bits k"
    "r = (case ni_get (numeric_ix m) k of Some i \<Rightarrow> if i < used m then int i else -1 | None \<Rightarrow> -1)"
  using assms by (auto simp: find_key_index_hot_def ni_get_def dense_offset_def Let_def not_less split: if_splits option.splits)

lemma find_key_index_position:
  assumes "keys_ok e (keys m)" "indices_ok e m" "map_key k"
  shows "is_position e (keys m) k (find_key_index e m k)"
proof -
  have scan: "is_position e (keys m) k (scan_eq e 0 (entries m) k)"
    using scan_eq_position [OF assms(3), of e "entries m" 0] by (auto split: if_splits)
  have num: "is_position e (keys m) k (case ni_get (numeric_ix m) k of Some i \<Rightarrow> if i < used m then int i else -1 | None \<Rightarrow> -1)"
    if s: "is_safe_numeric_key k"
  proof -
    have ex: "index_exact numeric_key (=) (keys m) (ni_get (numeric_ix m))" using assms(2) by (simp add: indices_ok_def)
    have k: "numeric_key k" using s assms(3) by (simp add: numeric_key_def)
    have "is_position e (keys m) k (case ni_get (numeric_ix m) k of Some i \<Rightarrow> if i < length (keys m) then int i else -1 | None \<Rightarrow> -1)"
      using safe_key_eq [OF s] k by (intro is_position_index [OF ex k]) auto
    then show ?thesis unfolding length_map .
  qed
  have ptr: "is_position e (keys m) k (case ptr_get e (ptr_ix m) k of Some i \<Rightarrow> if i < used m then int i else -1 | None \<Rightarrow> -1)"
    if p: "is_ptr_index_key e k"
  proof -
    have ex: "index_exact (is_ptr_index_key e) (jsvalue_eq e) (keys m) (ptr_get e (ptr_ix m))" using assms(2) by (simp add: indices_ok_def)
    have "is_ptr_index_key e x" if "jsvalue_eq e x k" for x
      using p equal_keys_index(1,2) [OF that] by (simp add: is_ptr_index_key_def)
    then have "is_position e (keys m) k (case ptr_get e (ptr_ix m) k of Some i \<Rightarrow> if i < length (keys m) then int i else -1 | None \<Rightarrow> -1)"
      by (intro is_position_index [OF ex p]) auto
    then show ?thesis unfolding length_map .
  qed
  have str: "strings_exact e (keys m) (string_ix m)" using assms(2) by (simp add: indices_ok_def)
  show ?thesis
  proof (cases "used m \<le> SIDE_TABLE_THRESHOLD")
    case True
    then show ?thesis
      using scan scan_bits_eq [OF _ assms(3), of 0 "entries m" e]
      by (simp add: find_key_index_def find_key_index_hot_def find_key_index_cold_def)
  next
    case large: False
    show ?thesis
    proof (cases "find_key_index_hot m k")
      case (Some r)
      then have "is_safe_numeric_key k" using find_key_index_hot_large(1) [OF Some large] plain_number_safe assms(3) by blast
      then show ?thesis using num find_key_index_hot_large(2) [OF Some large] Some by (simp add: find_key_index_def)
    next
      case None
      then have f: "find_key_index e m k = find_key_index_cold e m k" by (simp add: find_key_index_def)
      consider (n) "is_safe_numeric_key k" | (s) "\<not> is_safe_numeric_key k" "is_string_like e k" | (p) "is_ptr_index_key e k"
        by (auto simp: is_ptr_index_key_def)
      then show ?thesis
      proof cases
        case n
        then show ?thesis unfolding f find_key_index_cold_def using num large by simp
      next
        case s
        then show ?thesis unfolding f find_key_index_cold_def
          using large scan scan_bucket_position [OF str s(2)] by (cases "string_content_hash e k") simp_all
      next
        case p
        then have "\<not> is_safe_numeric_key k" "\<not> is_string_like e k" by (simp_all add: is_ptr_index_key_def)
        then show ?thesis unfolding f find_key_index_cold_def using ptr [OF p] large by simp
      qed
    qed
  qed
qed

text \<open>A heap string key, boxed.\<close>

lemma boxed_string_key: "tag16 (boxed_heap_string_key p) = 0x7FFF" "map_key (boxed_heap_string_key p)"
  "\<not> is_safe_numeric_key (boxed_heap_string_key p)"
proof -
  have "boxed_heap_string_key p = js_string_ptr p" by (simp add: boxed_heap_string_key_def js_string_ptr_def)
  then have v: "js_view (boxed_heap_string_key p) = VString (p AND POINTER_MASK)" using view_string_ptr by simp
  then show t: "tag16 (boxed_heap_string_key p) = 0x7FFF" by (simp add: tag16_view view_tag_def)
  then have ne: "boxed_heap_string_key p \<noteq> c" if "tag16 c \<noteq> 0x7FFF" for c using that by auto
  have "\<not> is_number (boxed_heap_string_key p)" using t by (simp add: is_tag16)
  moreover have "tag16 MAP_HOLE_KEY_BITS \<noteq> 0x7FFF" "tag16 0x8000000000000000 \<noteq> 0x7FFF"
    by (simp_all add: tag16_def MAP_HOLE_KEY_BITS_def tag_defs)
  ultimately show "map_key (boxed_heap_string_key p)"
    unfolding map_key_def normalize_zero_fixed using ne t by (auto simp: raw_address_def tag16_def)
  show "\<not> is_safe_numeric_key (boxed_heap_string_key p)" using t by (simp add: safe_numeric_key_iff)
qed

lemma boxed_string_like:
  assumes "p AND POINTER_MASK \<noteq> 0"
  shows "is_string_like e (boxed_heap_string_key p)"
proof -
  have v: "js_view (boxed_heap_string_key p) = VString (p AND POINTER_MASK)"
    using view_string_ptr by (simp add: boxed_heap_string_key_def js_string_ptr_def)
  have w: "drop_bit 48 (boxed_heap_string_key p) = 0x7FFF"
    using boxed_string_key(1) [of p] by (simp add: tag16_def word_unat_eq_iff)
  have "boxed_heap_string_key p AND 0xFFFFFFFFFFFF = p AND POINTER_MASK"
    using payload_view [of "boxed_heap_string_key p"] v by (simp add: view_payload_def POINTER_MASK_def)
  then show ?thesis using w assms by (simp add: is_string_like_def extract_string_ptr_from_value_def Let_def SHORT_STRING_TAG_def)
qed

lemma find_string_key_index_position:
  assumes "keys_ok e (keys m)" "indices_ok e m" "p AND POINTER_MASK \<noteq> 0"
  shows "is_position e (keys m) (boxed_heap_string_key p) (find_string_key_index e m p)"
proof -
  let ?k = "boxed_heap_string_key p"
  have scan: "is_position e (keys m) ?k (scan_eq e 0 (entries m) ?k)"
    using scan_eq_position [OF boxed_string_key(2), of e "entries m" p 0] by (auto split: if_splits)
  have "is_string_like e ?k" by (rule boxed_string_like [OF assms(3)])
  moreover have "strings_exact e (keys m) (string_ix m)" using assms(2) by (simp add: indices_ok_def)
  ultimately show ?thesis unfolding find_string_key_index_def Let_def
    using scan scan_bucket_position by (cases "string_content_hash e ?k") simp_all
qed

subsection \<open>Compaction keeps the contents\<close>

definition live_pair :: "u64 \<times> u64 \<Rightarrow> bool" where
  "live_pair p \<longleftrightarrow> fst p \<noteq> MAP_HOLE_KEY_BITS"

lemma live_entries_filter: "live_entries m = filter live_pair (entries m)"
  unfolding live_entries_def live_pair_def case_prod_unfold by simp

lemma keys_ok_sorted:
  "keys_ok e ks \<longleftrightarrow> (\<forall>k \<in> set ks. k = MAP_HOLE_KEY_BITS \<or> map_key k) \<and>
     sorted_wrt (\<lambda>a b. a \<noteq> MAP_HOLE_KEY_BITS \<longrightarrow> \<not> jsvalue_eq e a b) ks"
  by (auto simp: keys_ok_def sorted_wrt_iff_nth_less)

lemma keys_ok_filter: "keys_ok e (map fst es) \<Longrightarrow> keys_ok e (map fst (filter P es))"
  by (auto simp: keys_ok_sorted sorted_wrt_map intro: sorted_wrt_filter)

lemma compact_loop_out: "fst (compact_loop i es) = filter live_pair es"
  by (induction i es rule: compact_loop.induct) (auto simp: live_pair_def split: prod.split)

lemma compact_loop_removed:
  "snd (compact_loop i es) = filter (\<lambda>j. \<not> live_pair (es ! (j - i))) [i..<i + length es]"
proof (induction es arbitrary: i)
  case (Cons p es)
  have "[i..<i + length (p # es)] = i # [Suc i..<Suc i + length es]" by (simp add: upt_rec)
  moreover have "filter (\<lambda>j. \<not> live_pair ((p # es) ! (j - i))) [Suc i..<Suc i + length es]
      = filter (\<lambda>j. \<not> live_pair (es ! (j - Suc i))) [Suc i..<Suc i + length es]"
    by (rule filter_cong) (auto simp: nth_Cons' Suc_diff_Suc)
  ultimately show ?case using Cons [of "Suc i"]
    by (cases p) (auto simp: live_pair_def split: prod.split)
qed simp

lemma length_live: "length (live_entries m) \<le> used m"
  by (simp add: live_entries_filter)

lemma live_all: "length (live_entries m) = used m \<Longrightarrow> live_entries m = entries m"
  unfolding live_entries_filter by (metis filter_id_conv length_filter_less less_irrefl)

lemma no_holes_key:
  "keys_ok e ks \<Longrightarrow> MAP_HOLE_KEY_BITS \<notin> set ks \<Longrightarrow> k \<in> set ks \<Longrightarrow> is_safe_numeric_key k = numeric_key k"
  by (auto simp: keys_ok_def numeric_key_def)

definition rebuild_indices :: "map_env \<Rightarrow> (u64 \<times> u64) list \<Rightarrow> js_map \<Rightarrow> js_map" where
  "rebuild_indices e out m =
     m\<lparr>entries := out,
       numeric_ix := index_entries is_safe_numeric_key ni_insert 0 (map fst out) (ni_clear (numeric_ix m)),
       string_ix := index_strings e 0 (map fst out) Map.empty,
       ptr_ix := index_entries (is_ptr_index_key e) (ptr_insert e) 0 (map fst out) []\<rparr>"

lemma compact_map_entries_eq:
  assumes "used m \<le> capacity m" "used m \<le> PTR_REBUILD_MAX"
  shows "compact_map_entries e m =
    (let m' = rebuild_indices e (live_entries m) m; removed = snd (compact_loop 0 (entries m))
     in if removed \<noteq> [] then note_map_compaction (Indices removed) m' else m')"
proof -
  obtain out removed where c: "compact_loop 0 (entries m) = (out, removed)" by fastforce
  have out: "out = live_entries m" using compact_loop_out [of 0 "entries m"] c by (simp add: live_entries_filter)
  have len: "length (live_entries m) \<le> capacity m" "length (live_entries m) \<le> PTR_REBUILD_MAX"
    using length_live [of m] assms by linarith+
  show ?thesis unfolding compact_map_entries_def c
    using len by (simp add: out rebuild_map_ptr_index_def rebuild_indices_def Let_def)
qed

lemma note_map_compaction_fields [simp]:
  "entries (note_map_compaction r m) = entries m" "map_size (note_map_compaction r m) = map_size m"
  "capacity (note_map_compaction r m) = capacity m" "numeric_ix (note_map_compaction r m) = numeric_ix m"
  "string_ix (note_map_compaction r m) = string_ix m" "ptr_ix (note_map_compaction r m) = ptr_ix m"
  "foreach_depth (note_map_compaction r m) = foreach_depth m"
  "compaction_epoch (note_map_compaction r m) = compaction_epoch m + 1"
  by (simp_all add: note_map_compaction_def Let_def split: prod.split)

lemma indices_ok_cong:
  "entries m' = entries m \<Longrightarrow> numeric_ix m' = numeric_ix m \<Longrightarrow> string_ix m' = string_ix m \<Longrightarrow> ptr_ix m' = ptr_ix m \<Longrightarrow>
   indices_ok e m' = indices_ok e m"
  by (simp add: indices_ok_def)

lemma keys_ok_neq:
  assumes "keys_ok e ks" "i < j" "j < length ks" "key_ok (ks ! i)" "\<not> key_ok MAP_HOLE_KEY_BITS"
  shows "\<not> jsvalue_eq e (ks ! i) (ks ! j)"
proof -
  have "ks ! i \<noteq> MAP_HOLE_KEY_BITS" using assms(4,5) by metis
  then show ?thesis using assms(1-3) by (simp add: keys_ok_def)
qed

lemma rebuild_indices_ok:
  assumes "keys_ok e (map fst out)" "MAP_HOLE_KEY_BITS \<notin> fst ` set out" "ni_inv (numeric_ix m)" "length out \<le> PTR_REBUILD_MAX"
  shows "indices_ok e (rebuild_indices e out m)"
proof -
  let ?ks = "map fst out"
  have bound: "v < DENSE_NUMERIC_EMPTY" if "v < PTR_REBUILD_MAX" for v
    using that by (simp add: DENSE_NUMERIC_EMPTY_def PTR_REBUILD_MAX_def)
  have sel: "index_entries is_safe_numeric_key ni_insert 0 ?ks s = index_entries numeric_key ni_insert 0 ?ks s" for s
    by (rule index_entries_cong) (use no_holes_key [OF assms(1)] assms(2) in auto)
  have num: "ni_inv (index_entries numeric_key ni_insert 0 ?ks (ni_clear (numeric_ix m))) \<and>
      num.exact ?ks (index_entries numeric_key ni_insert 0 ?ks (ni_clear (numeric_ix m)))"
  proof (rule num.index_entries_clear [where n = PTR_REBUILD_MAX, OF assms(3)])
    show "?ks ! i \<noteq> ?ks ! j" if "i < j" "j < length ?ks" "numeric_key (?ks ! i)" for i j
      using keys_ok_neq [where key_ok = numeric_key, OF assms(1) that hole_not_indexed(1)] jsvalue_eq_equiv(1) by metis
  qed (use assms(4) bound in auto)
  have ptr: "index_exact (is_ptr_index_key e) (jsvalue_eq e) ?ks (ptr_get e (index_entries (is_ptr_index_key e) (ptr_insert e) 0 ?ks []))"
    using ptr.index_entries_clear [where ks = ?ks and n = "length ?ks" and e = e]
      keys_ok_neq [where key_ok = "is_ptr_index_key e", OF assms(1) _ _ _ hole_not_indexed(2)] by blast
  have str: "strings_exact e ?ks (index_strings e 0 ?ks Map.empty)"
    using index_strings_exact [OF strings_exact_empty [of "[]" e], of ?ks] by simp
  show ?thesis using num ptr str by (simp add: indices_ok_def rebuild_indices_def sel)
qed

lemma compact_map_entries_correct:
  assumes "map_inv e m"
  shows "map_inv e (compact_map_entries e m)" "entries (compact_map_entries e m) = live_entries m"
    "live_entries (compact_map_entries e m) = live_entries m" "map_size (compact_map_entries e m) = map_size m"
    "capacity (compact_map_entries e m) = capacity m" "foreach_depth (compact_map_entries e m) = foreach_depth m"
proof -
  have m: "keys_ok e (keys m)" "map_size m = length (live_entries m)" "0 < capacity m" "used m \<le> capacity m"
    "used m \<le> PTR_REBUILD_MAX" "ni_inv (numeric_ix m)" using assms by (simp_all add: map_inv_def indices_ok_def)
  let ?c = "compact_map_entries e m" and ?r = "rebuild_indices e (live_entries m) m"
  have eq: "entries ?c = live_entries m" "map_size ?c = map_size m" "capacity ?c = capacity m" "foreach_depth ?c = foreach_depth m"
    "numeric_ix ?c = numeric_ix ?r" "string_ix ?c = string_ix ?r" "ptr_ix ?c = ptr_ix ?r"
    unfolding compact_map_entries_eq [OF m(4,5), of e] Let_def by (simp_all add: rebuild_indices_def)
  then show "entries ?c = live_entries m" "map_size ?c = map_size m" "capacity ?c = capacity m" "foreach_depth ?c = foreach_depth m"
    by blast+
  show live: "live_entries ?c = live_entries m" using eq(1) by (simp add: live_entries_filter)
  have ks: "keys_ok e (map fst (live_entries m))" using keys_ok_filter [OF m(1)] by (simp add: live_entries_filter)
  have len: "length (live_entries m) \<le> used m" by (rule length_live)
  have "indices_ok e ?r"
    by (rule rebuild_indices_ok [OF ks _ m(6)]) (use le_trans [OF len m(5)] in \<open>auto simp: live_entries_filter live_pair_def\<close>)
  then have "indices_ok e ?c" using eq by (subst indices_ok_cong [of ?c ?r]) (simp_all add: rebuild_indices_def)
  then show "map_inv e ?c" using eq live ks len m by (simp add: map_inv_def)
qed

lemma compact_if_holey_correct:
  assumes "map_inv e m"
  shows "map_inv e (compact_if_holey e m)" "entries (compact_if_holey e m) = live_entries m"
    "map_size (compact_if_holey e m) = map_size m" "live_entries (compact_if_holey e m) = live_entries m"
    "capacity (compact_if_holey e m) = capacity m" "foreach_depth (compact_if_holey e m) = foreach_depth m"
proof -
  have "live_entries m = entries m" if "used m = map_size m" using that assms live_all by (simp add: map_inv_def)
  then show "map_inv e (compact_if_holey e m)" "entries (compact_if_holey e m) = live_entries m"
    "map_size (compact_if_holey e m) = map_size m" "live_entries (compact_if_holey e m) = live_entries m"
    "capacity (compact_if_holey e m) = capacity m" "foreach_depth (compact_if_holey e m) = foreach_depth m"
    using compact_map_entries_correct [OF assms] assms by (simp_all add: compact_if_holey_def)
qed

end
