(* ===== verification/Map_Refinement.thy ===== *)
theory Map_Refinement
  imports Js_Map
begin

text \<open>
  The operations of \<open>Map\<close> against their specification, an insertion-ordered association list: each
  operation keeps the invariant and acts on the live entries as the specification says. The last
  part runs whole sequences of operations.
\<close>

subsection \<open>The specification\<close>

text \<open>An insertion-ordered association list under the key equality.\<close>

definition spec_lookup :: "map_env \<Rightarrow> u64 \<Rightarrow> (u64 \<times> u64) list \<Rightarrow> u64 option" where
  "spec_lookup e k L = map_option snd (find (\<lambda>(k', _). jsvalue_eq e k' k) L)"

definition spec_set :: "map_env \<Rightarrow> u64 \<Rightarrow> u64 \<Rightarrow> (u64 \<times> u64) list \<Rightarrow> (u64 \<times> u64) list" where
  "spec_set e k v L =
     (if \<exists>p \<in> set L. jsvalue_eq e (fst p) k
      then map (\<lambda>p. if jsvalue_eq e (fst p) k then (fst p, v) else p) L
      else L @ [(k, v)])"

definition spec_delete :: "map_env \<Rightarrow> u64 \<Rightarrow> (u64 \<times> u64) list \<Rightarrow> (u64 \<times> u64) list" where
  "spec_delete e k L = filter (\<lambda>p. \<not> jsvalue_eq e (fst p) k) L"

lemma position_miss:
  assumes "is_position e (keys m) k (-1)"
  shows "\<not> (\<exists>p \<in> set (entries m). jsvalue_eq e (fst p) k)" "\<not> (\<exists>p \<in> set (live_entries m). jsvalue_eq e (fst p) k)"
    "i < used m \<Longrightarrow> \<not> jsvalue_eq e (keys m ! i) k"
proof -
  have none: "\<not> jsvalue_eq e (keys m ! j) k" if "j < used m" for j using assms that by (auto simp: is_position_def)
  then show all: "\<not> (\<exists>p \<in> set (entries m). jsvalue_eq e (fst p) k)" by (metis in_set_conv_nth nth_map)
  then show "\<not> (\<exists>p \<in> set (live_entries m). jsvalue_eq e (fst p) k)" by (auto simp: live_entries_filter)
  show "i < used m \<Longrightarrow> \<not> jsvalue_eq e (keys m ! i) k" by (rule none)
qed

lemma position_hit:
  assumes "is_position e (keys m) k r" "r \<ge> 0"
  obtains i where "r = int i" "i < used m" "jsvalue_eq e (keys m ! i) k"
  using assms by (auto simp: is_position_def)

lemma position_neg: "is_position e ks k r \<Longrightarrow> \<not> r \<ge> 0 \<Longrightarrow> r = -1"
  by (auto simp: is_position_def)

lemma update_at_position:
  assumes "keys_ok e (map fst es)" "map_key k" "i < length es" "jsvalue_eq e (fst (es ! i)) k"
  shows "es[i := f (es ! i)] = map (\<lambda>p. if jsvalue_eq e (fst p) k then f p else p) es"
proof (rule nth_equalityI)
  fix j assume "j < length (es[i := f (es ! i)])"
  then have j: "j < length es" by simp
  have "jsvalue_eq e (fst (es ! j)) k \<longleftrightarrow> j = i"
    using keys_ok_unique [OF assms(1,2), of i j] assms(3,4) j by auto
  then show "es[i := f (es ! i)] ! j = map (\<lambda>p. if jsvalue_eq e (fst p) k then f p else p) es ! j"
    using j by (simp add: nth_list_update)
qed simp

lemma filter_live_map:
  assumes "\<And>p. live_pair (f p) = live_pair p"
  shows "filter live_pair (map f es) = map f (filter live_pair es)"
  using assms by (induction es) auto

lemma store_value_correct:
  assumes "map_inv e m" "map_key k" "i < used m" "jsvalue_eq e (keys m ! i) k"
  shows "map_inv e (store_value (int i) v m)"
    "live_entries (store_value (int i) v m) = map (\<lambda>p. if jsvalue_eq e (fst p) k then (fst p, v) else p) (live_entries m)"
    "\<exists>p \<in> set (live_entries m). jsvalue_eq e (fst p) k"
proof -
  let ?m = "store_value (int i) v m"
  have ks: "keys_ok e (keys m)" using assms(1) by (simp add: map_inv_def)
  have eq: "jsvalue_eq e (fst (entries m ! i)) k" using assms(3,4) by simp
  have es: "entries ?m = map (\<lambda>p. if jsvalue_eq e (fst p) k then (fst p, v) else p) (entries m)"
    using update_at_position [OF ks assms(2,3) eq, of "\<lambda>p. (fst p, v)"] by (simp add: store_value_def)
  have k: "keys ?m = keys m" unfolding es by simp
  show live: "live_entries ?m = map (\<lambda>p. if jsvalue_eq e (fst p) k then (fst p, v) else p) (live_entries m)"
    unfolding live_entries_filter es by (rule filter_live_map) (simp add: live_pair_def)
  have "indices_ok e ?m \<longleftrightarrow> indices_ok e m" using k by (simp add: indices_ok_def) (simp add: store_value_def)
  moreover have "map_size ?m = map_size m" "capacity ?m = capacity m" "used ?m = used m" by (simp_all add: store_value_def)
  ultimately show "map_inv e ?m" using assms(1) k live by (simp add: map_inv_def)
  have "entries m ! i \<in> set (entries m)" using assms(3) by simp
  moreover have "live_pair (entries m ! i)" using hole_neq [OF assms(2)] eq by (auto simp: live_pair_def)
  ultimately show "\<exists>p \<in> set (live_entries m). jsvalue_eq e (fst p) k" 
    using eq by (intro bexI [of _ "entries m ! i"]) (simp_all add: live_entries_filter)
qed

subsection \<open>Appending\<close>

lemma append_entry_eq:
  "append_entry e k v m =
     m\<lparr>entries := entries m @ [(k, v)], map_size := map_size m + 1,
       numeric_ix := (if is_safe_numeric_key k then ni_insert k (used m) (numeric_ix m) else numeric_ix m),
       string_ix := string_put e k (used m) (string_ix m),
       ptr_ix := (if is_ptr_index_key e k then ptr_insert e k (used m) (ptr_ix m) else ptr_ix m)\<rparr>"
  using safe_numeric_key_class(1) [of k e]
  by (auto simp: append_entry_def string_put_def is_ptr_index_key_def Let_def split: option.split)

lemma keys_ok_append:
  "keys_ok e ks \<Longrightarrow> map_key k \<Longrightarrow> (\<And>i. i < length ks \<Longrightarrow> \<not> jsvalue_eq e (ks ! i) k) \<Longrightarrow> keys_ok e (ks @ [k])"
  by (auto simp: keys_ok_sorted sorted_wrt_append in_set_conv_nth)

lemma append_entry_correct:
  assumes "map_inv e m" "map_key k" "\<And>i. i < used m \<Longrightarrow> \<not> jsvalue_eq e (keys m ! i) k"
    "used m < capacity m" "used m < PTR_REBUILD_MAX"
  shows "map_inv e (append_entry e k v m)" "live_entries (append_entry e k v m) = live_entries m @ [(k, v)]"
proof -
  let ?m = "append_entry e k v m"
  have m: "keys_ok e (keys m)" "ni_inv (numeric_ix m)" "num.exact (keys m) (numeric_ix m)"
    "index_exact (is_ptr_index_key e) (jsvalue_eq e) (keys m) (ptr_get e (ptr_ix m))" "strings_exact e (keys m) (string_ix m)"
    using assms(1) by (simp_all add: map_inv_def indices_ok_def)
  have fresh: "\<not> jsvalue_eq e (keys m ! i) k" if "i < length (keys m)" for i using assms(3) that by simp
  have ks: "keys ?m = keys m @ [k]" by (simp add: append_entry_eq)
  show live: "live_entries ?m = live_entries m @ [(k, v)]"
    using map_keyD(1) [OF assms(2)] by (simp add: append_entry_eq live_entries_filter live_pair_def)
  have bound: "used m < DENSE_NUMERIC_EMPTY" using assms(5) by (simp add: DENSE_NUMERIC_EMPTY_def PTR_REBUILD_MAX_def)
  have num: "ni_inv (numeric_ix ?m) \<and> num.exact (keys m @ [k]) (numeric_ix ?m)"
  proof (cases "is_safe_numeric_key k")
    case True
    then have nk: "numeric_key k" using assms(2) by (simp add: numeric_key_def)
    have "keys m ! i \<noteq> k" if "i < length (keys m)" for i using fresh [OF that] jsvalue_eq_equiv(1) by metis
    then have "num.exact (keys m @ [k]) (ni_insert k (length (keys m)) (numeric_ix m))"
      using num.exact_append [OF m(2,3) nk] bound by simp
    then show ?thesis using True num.insert_inv [OF m(2) nk bound] by (simp add: append_entry_eq)
  next
    case False
    then show ?thesis using m(2,3) index_exact_skip [OF _ m(3), of k] by (simp add: append_entry_eq numeric_key_def)
  qed
  have ptr: "index_exact (is_ptr_index_key e) (jsvalue_eq e) (keys m @ [k]) (ptr_get e (ptr_ix ?m))"
  proof (cases "is_ptr_index_key e k")
    case True
    then have "index_exact (is_ptr_index_key e) (jsvalue_eq e) (keys m @ [k]) (ptr_get e (ptr_insert e k (length (keys m)) (ptr_ix m)))"
      using ptr.exact_append [OF _ m(4) True] fresh by simp
    then show ?thesis using True by (simp add: append_entry_eq)
  next
    case False
    then show ?thesis using index_exact_skip [OF False m(4)] by (simp add: append_entry_eq)
  qed
  have str: "strings_exact e (keys m @ [k]) (string_ix ?m)"
    using strings_exact_append [OF m(5), of k] by (simp add: append_entry_eq)
  have "keys_ok e (keys m @ [k])" using keys_ok_append [OF m(1) assms(2) fresh] .
  then show "map_inv e ?m"
    using assms(1,4,5) live num ptr str unfolding map_inv_def indices_ok_def ks by (simp add: append_entry_eq)
qed

subsection \<open>Growing\<close>

lemma grow_entries_correct:
  assumes "map_inv e m" "used m = capacity m" "used m < PTR_REBUILD_MAX" "grow_entries alloc_ok m = Inr m'"
  shows "map_inv e m' \<and> used m' < capacity m' \<and> m' = m\<lparr>capacity := capacity m'\<rparr>"
proof -
  have "capacity m * 2 mod 2 ^ 32 = capacity m * 2" using assms(2,3) by (simp add: PTR_REBUILD_MAX_def)
  then have m': "m' = m\<lparr>capacity := capacity m * 2\<rparr>" using assms(4) by (auto simp: grow_entries_def Let_def split: if_splits)
  then show ?thesis using assms(1,2) by (auto simp: map_inv_def indices_ok_def live_entries_filter)
qed

lemma ensure_capacity_correct:
  assumes "map_inv e m" "used m < PTR_REBUILD_MAX" "ensure_capacity e alloc_ok m = Inr m'"
  shows "map_inv e m' \<and> used m' < capacity m' \<and> used m' < PTR_REBUILD_MAX \<and> live_entries m' = live_entries m
    \<and> (entries m' = entries m \<or> entries m' = live_entries m)"
proof -
  let ?c = "compact_map_entries e m"
  note c = compact_map_entries_correct [OF assms(1)]
  have le: "used m \<le> capacity m" using assms(1) by (simp add: map_inv_def)
  have used_c: "used ?c < PTR_REBUILD_MAX" using c(2) length_live [of m] assms(2) by simp
  have grow: "map_inv e m' \<and> used m' < capacity m' \<and> used m' < PTR_REBUILD_MAX \<and> live_entries m' = live_entries m0 \<and> entries m' = entries m0"
    if "map_inv e m0" "\<not> used m0 < capacity m0" "used m0 < PTR_REBUILD_MAX" "grow_entries alloc_ok m0 = Inr m'" for m0
  proof -
    have "used m0 = capacity m0" using that(1,2) by (simp add: map_inv_def)
    from grow_entries_correct [OF that(1) this that(3,4)]
    have g: "map_inv e m'" "used m' < capacity m'" "m' = m0\<lparr>capacity := capacity m'\<rparr>" by blast+
    have "entries m' = entries m0" by (subst g(3)) simp
    then show ?thesis using g(1,2) that(3) by (simp add: live_entries_filter)
  qed
  show ?thesis
  proof (cases "used m < capacity m")
    case True
    then show ?thesis using assms by (simp add: ensure_capacity_def)
  next
    case full: False
    show ?thesis
    proof (cases "map_size m < used m \<and> \<not> map_foreach_is_active m")
      case True
      show ?thesis
      proof (cases "used ?c < capacity ?c")
        case room: True
        then have "m' = ?c" using assms(3) full True by (simp add: ensure_capacity_def Let_def)
        then show ?thesis using c room used_c by simp
      next
        case no_room: False
        then have "grow_entries alloc_ok ?c = Inr m'" using assms(3) full True by (simp add: ensure_capacity_def Let_def)
        from grow [OF c(1) no_room used_c this] show ?thesis unfolding c(2,3) by blast
      qed
    next
      case False
      have "grow_entries alloc_ok m = Inr m'" using assms(3) unfolding ensure_capacity_def by (simp only: full False if_False)
      from grow [OF assms(1) full assms(2) this] show ?thesis by blast
    qed
  qed
qed

subsection \<open>Setting\<close>

lemma spec_set_miss: "\<not> (\<exists>p \<in> set L. jsvalue_eq e (fst p) k) \<Longrightarrow> spec_set e k v L = L @ [(k, v)]"
  by (simp only: spec_set_def if_False)

lemma spec_set_hit:
  "\<exists>p \<in> set L. jsvalue_eq e (fst p) k \<Longrightarrow> spec_set e k v L = map (\<lambda>p. if jsvalue_eq e (fst p) k then (fst p, v) else p) L"
  by (simp only: spec_set_def if_True)

lemma set_at_position:
  assumes "map_inv e m" "map_key k" "is_position e (keys m) k r" "used m < PTR_REBUILD_MAX"
    "(if r \<ge> 0 then Inr (store_value r v m)
      else case ensure_capacity e alloc_ok m of Inl err \<Rightarrow> Inl err | Inr m \<Rightarrow> Inr (append_entry e k v m)) = Inr m'"
  shows "map_inv e m' \<and> live_entries m' = spec_set e k v (live_entries m)"
proof (cases "r \<ge> 0")
  case True
  then obtain i where i: "r = int i" "i < used m" "jsvalue_eq e (keys m ! i) k" using position_hit [OF assms(3)] by blast
  have "m' = store_value (int i) v m" using assms(5) True i(1) by simp
  then show ?thesis using store_value_correct(1,2) [OF assms(1,2) i(2,3), of v] spec_set_hit [OF store_value_correct(3) [OF assms(1,2) i(2,3)]] by simp
next
  case False
  then have miss: "is_position e (keys m) k (-1)" using position_neg [OF assms(3)] assms(3) by simp
  obtain m1 where m1: "ensure_capacity e alloc_ok m = Inr m1" "m' = append_entry e k v m1"
    using assms(5) False by (cases "ensure_capacity e alloc_ok m") auto
  note c = ensure_capacity_correct [OF assms(1,4) m1(1)]
  have fresh: "\<not> jsvalue_eq e (keys m1 ! i) k" if "i < used m1" for i
  proof -
    have "entries m1 ! i \<in> set (entries m1)" using that by simp
    then have "entries m1 ! i \<in> set (entries m)" using c by (auto simp: live_entries_filter)
    then show ?thesis using position_miss(1) [OF miss] that by auto
  qed
  have "map_inv e m'" "live_entries m' = live_entries m1 @ [(k, v)]"
    unfolding m1(2) using append_entry_correct [OF _ assms(2) fresh] c by blast+
  then show ?thesis using c spec_set_miss [OF position_miss(2) [OF miss]] by simp
qed

lemma map_set_resolved_correct:
  assumes "map_inv e m" "\<not> raw_address k" "used m < PTR_REBUILD_MAX" "map_set_resolved e alloc_ok m k v = Inr m'"
  shows "map_inv e m' \<and> live_entries m' = spec_set e (normalize_zero k) v (live_entries m)"
proof -
  have k: "map_key (normalize_zero k)" by (rule normalize_zero_map_key [OF assms(2)])
  have "is_position e (keys m) (normalize_zero k) (find_key_index e m (normalize_zero k))"
    using find_key_index_position [OF _ _ k] assms(1) by (simp add: map_inv_def)
  from set_at_position [OF assms(1) k this assms(3)] assms(4) show ?thesis unfolding map_set_resolved_def Let_def by blast
qed

lemma append_boxed_string:
  assumes "p AND POINTER_MASK \<noteq> 0"
  shows "(case string_content_hash e (boxed_heap_string_key p) of
        None \<Rightarrow> m\<lparr>entries := entries m @ [(boxed_heap_string_key p, v)], map_size := map_size m + 1\<rparr>
      | Some h \<Rightarrow> m\<lparr>entries := entries m @ [(boxed_heap_string_key p, v)], map_size := map_size m + 1\<rparr>
          \<lparr>string_ix := bucket_push h (used m) (string_ix (m\<lparr>entries := entries m @ [(boxed_heap_string_key p, v)], map_size := map_size m + 1\<rparr>))\<rparr>)
    = append_entry e (boxed_heap_string_key p) v m"
  using boxed_string_key(3) [of p] boxed_string_like [OF assms, of e] by (simp add: append_entry_def Let_def split: option.split)

lemma map_set_string_key_value_correct:
  assumes "map_inv e m" "p AND POINTER_MASK \<noteq> 0" "used m < PTR_REBUILD_MAX" "map_set_string_key_value e alloc_ok m p v = Inr m'"
  shows "map_inv e m' \<and> live_entries m' = spec_set e (boxed_heap_string_key p) v (live_entries m)"
proof -
  have pos: "is_position e (keys m) (boxed_heap_string_key p) (find_string_key_index e m p)"
    using find_string_key_index_position assms(1,2) by (simp add: map_inv_def)
  show ?thesis
    using set_at_position [OF assms(1) boxed_string_key(2) pos assms(3), of v alloc_ok m'] assms(4)
    unfolding map_set_string_key_value_def Let_def append_boxed_string [OF assms(2)] by blast
qed

subsection \<open>Reading\<close>

lemma find_at:
  assumes "keys_ok e (map fst es)" "map_key k" "i < length es" "jsvalue_eq e (fst (es ! i)) k"
  shows "find (\<lambda>(k', _). jsvalue_eq e k' k) es = Some (es ! i)"
proof -
  have "find (\<lambda>(k', _). jsvalue_eq e k' k) es \<noteq> None"
    using assms(3,4) by (auto simp: find_None_iff case_prod_unfold) (metis nth_mem prod.collapse)
  then obtain p where p: "find (\<lambda>(k', _). jsvalue_eq e k' k) es = Some p" by blast
  then obtain j where "j < length es" "jsvalue_eq e (fst (es ! j)) k" "p = es ! j"
    by (auto simp: find_Some_iff case_prod_unfold)
  then show ?thesis using keys_ok_unique [OF assms(1,2), of i j] assms(3,4) p by simp
qed

lemma find_live:
  assumes "map_key k"
  shows "find (\<lambda>(k', _). jsvalue_eq e k' k) (filter live_pair es) = find (\<lambda>(k', _). jsvalue_eq e k' k) es"
  using hole_neq [OF assms] by (induction es) (auto simp: live_pair_def)

lemma lookup_hit:
  assumes "map_inv e m" "map_key k" "i < used m" "jsvalue_eq e (keys m ! i) k"
  shows "spec_lookup e k (live_entries m) = Some (snd (entries m ! i))"
  using find_at [of e "entries m" k i] assms find_live [OF assms(2)] by (simp add: spec_lookup_def live_entries_filter map_inv_def)

lemma lookup_miss: "is_position e (keys m) k (-1) \<Longrightarrow> spec_lookup e k (live_entries m) = None"
  using position_miss(2) [of e m k] by (fastforce simp: spec_lookup_def find_None_iff)

lemma map_get_resolved_correct:
  assumes "map_inv e m" "\<not> raw_address k" "map_get_resolved e cap m k = (r, m')"
  shows "map_inv e m' \<and>
    (case spec_lookup e (normalize_zero k) (live_entries m) of
       None \<Rightarrow> r = TAG_UNDEFINED \<and> m' = m
     | Some v \<Rightarrow> r = heal_forwarded_array_value e cap v \<and>
         live_entries m' = spec_set e (normalize_zero k) r (live_entries m))"
proof -
  let ?k = "normalize_zero k" and ?r = "find_key_index e m (normalize_zero k)"
  have k: "map_key ?k" by (rule normalize_zero_map_key [OF assms(2)])
  have pos: "is_position e (keys m) ?k ?r"
    using find_key_index_position [OF _ _ k] assms(1) by (simp add: map_inv_def)
  show ?thesis
  proof (cases "?r \<ge> 0")
    case True
    then obtain i where i: "?r = int i" "i < used m" "jsvalue_eq e (keys m ! i) ?k" using position_hit [OF pos] by blast
    have r: "r = heal_forwarded_array_value e cap (snd (entries m ! i))" "m' = store_value (int i) r m"
      using assms(3) True i(1) by (auto simp: map_get_resolved_def Let_def)
    show ?thesis
      using lookup_hit [OF assms(1) k i(2,3)] store_value_correct(1,2) [OF assms(1) k i(2,3), of r] r
        spec_set_hit [OF store_value_correct(3) [OF assms(1) k i(2,3)]] by simp
  next
    case False
    then have miss: "is_position e (keys m) ?k (-1)" using position_neg [OF pos] pos by simp
    then show ?thesis using lookup_miss [OF miss] False assms(1,3) by (simp add: map_get_resolved_def Let_def)
  qed
qed

lemma js_map_has_correct:
  assumes "map_inv e m" "\<not> raw_address k"
  shows "js_map_has e m k = (if spec_lookup e (normalize_zero k) (live_entries m) = None then 0 else 1)"
proof -
  let ?k = "normalize_zero k" and ?r = "find_key_index e m (normalize_zero k)"
  have k: "map_key ?k" by (rule normalize_zero_map_key [OF assms(2)])
  have pos: "is_position e (keys m) ?k ?r"
    using find_key_index_position [OF _ _ k] assms(1) by (simp add: map_inv_def)
  show ?thesis
  proof (cases "?r \<ge> 0")
    case True
    then obtain i where "i < used m" "jsvalue_eq e (keys m ! i) ?k" using position_hit [OF pos] by blast
    then show ?thesis using lookup_hit [OF assms(1) k] True by (simp add: js_map_has_def)
  next
    case False
    then have "is_position e (keys m) ?k (-1)" using position_neg [OF pos] pos by simp
    then show ?thesis using lookup_miss False by (simp add: js_map_has_def)
  qed
qed

subsection \<open>Deleting\<close>

lemma keys_ok_hole:
  assumes "keys_ok e ks"
  shows "keys_ok e (ks[i := MAP_HOLE_KEY_BITS])"
proof -
  have "k = MAP_HOLE_KEY_BITS \<or> map_key k" if "k \<in> set (ks[i := MAP_HOLE_KEY_BITS])" for k
    using assms that set_update_subset_insert [of ks i MAP_HOLE_KEY_BITS] by (auto simp: keys_ok_def)
  moreover have "\<not> jsvalue_eq e (ks[i := MAP_HOLE_KEY_BITS] ! a) (ks[i := MAP_HOLE_KEY_BITS] ! b)"
    if "a < b" "b < length ks" "ks[i := MAP_HOLE_KEY_BITS] ! a \<noteq> MAP_HOLE_KEY_BITS" for a b
  proof (cases "b = i")
    case True
    have a: "ks ! a \<noteq> MAP_HOLE_KEY_BITS" "a \<noteq> i" using that True by auto
    have "ks ! a \<in> set ks" using that by simp
    then have "map_key (ks ! a)" using assms a by (auto simp: keys_ok_def)
    then show ?thesis using hole_neq jsvalue_eq_equiv(2) a True that(2) by (metis nth_list_update_eq nth_list_update_neq)
  next
    case False
    then show ?thesis using assms that by (cases "a = i") (auto simp: keys_ok_def)
  qed
  ultimately show ?thesis by (simp add: keys_ok_def)
qed

lemma filter_delete_at:
  assumes "keys_ok e (map fst es)" "map_key k" "i < length es" "jsvalue_eq e (fst (es ! i)) k"
  shows "filter live_pair (es[i := (MAP_HOLE_KEY_BITS, w)]) = spec_delete e k (filter live_pair es)"
    "length (filter live_pair (es[i := (MAP_HOLE_KEY_BITS, w)])) = length (filter live_pair es) - 1"
proof -
  have "filter live_pair (map (\<lambda>p. if jsvalue_eq e (fst p) k then (MAP_HOLE_KEY_BITS, w) else p) xs) = spec_delete e k (filter live_pair xs)" for xs
    unfolding spec_delete_def by (induction xs) (auto simp: live_pair_def)
  then show "filter live_pair (es[i := (MAP_HOLE_KEY_BITS, w)]) = spec_delete e k (filter live_pair es)"
    using update_at_position [OF assms, of "\<lambda>_. (MAP_HOLE_KEY_BITS, w)"] by simp
  have "live_pair (es ! i)" using hole_neq [OF assms(2)] assms(4) by (auto simp: live_pair_def)
  moreover have "filter live_pair es = filter live_pair (take i es @ es ! i # drop (Suc i) es)" using assms(3) by (simp add: id_take_nth_drop [symmetric])
  ultimately show "length (filter live_pair (es[i := (MAP_HOLE_KEY_BITS, w)])) = length (filter live_pair es) - 1"
    using assms(3) by (simp add: upd_conv_take_nth_drop live_pair_def)
qed

lemma forget_map_index_entry_eq:
  "forget_map_index_entry e k i m =
     m\<lparr>numeric_ix := (if is_safe_numeric_key k then snd (ni_remove k (numeric_ix m)) else numeric_ix m),
       string_ix := (if is_string_like e k then
           (case string_content_hash e k of None \<Rightarrow> string_ix m | Some h \<Rightarrow> bucket_forget h i (string_ix m)) else string_ix m),
       ptr_ix := (if is_ptr_index_key e k then ptr_remove e k (ptr_ix m) else ptr_ix m)\<rparr>"
  using safe_numeric_key_class(1) [of k e]
  by (auto simp: forget_map_index_entry_def is_ptr_index_key_def split: option.split)

definition tombstone_at :: "map_env \<Rightarrow> nat \<Rightarrow> js_map \<Rightarrow> js_map" where
  "tombstone_at e i m =
     forget_map_index_entry e (fst (entries m ! i)) i
       (m\<lparr>entries := (entries m)[i := (MAP_HOLE_KEY_BITS, TAG_UNDEFINED)], map_size := map_size m - 1\<rparr>)"

lemma tombstone_fields [simp]:
  "entries (tombstone_at e i m) = (entries m)[i := (MAP_HOLE_KEY_BITS, TAG_UNDEFINED)]"
  "map_size (tombstone_at e i m) = map_size m - 1" "capacity (tombstone_at e i m) = capacity m"
  "foreach_depth (tombstone_at e i m) = foreach_depth m" "compaction_epoch (tombstone_at e i m) = compaction_epoch m"
  "log_records (tombstone_at e i m) = log_records m"
  by (simp_all add: tombstone_at_def forget_map_index_entry_eq)

lemma tombstone_correct:
  assumes "map_inv e m" "map_key k" "i < used m" "jsvalue_eq e (keys m ! i) k"
  shows "map_inv e (tombstone_at e i m)" "live_entries (tombstone_at e i m) = spec_delete e k (live_entries m)"
proof -
  let ?m = "tombstone_at e i m" and ?x = "keys m ! i"
  have m: "keys_ok e (keys m)" "ni_inv (numeric_ix m)" "num.exact (keys m) (numeric_ix m)"
    "index_exact (is_ptr_index_key e) (jsvalue_eq e) (keys m) (ptr_get e (ptr_ix m))" "strings_exact e (keys m) (string_ix m)"
    using assms(1) by (simp_all add: map_inv_def indices_ok_def)
  have i: "i < length (keys m)" "fst (entries m ! i) = ?x" using assms(3) by simp_all
  have eq: "jsvalue_eq e (fst (entries m ! i)) k" using assms(3,4) by simp
  have x: "map_key ?x"
  proof -
    have "?x \<in> set (keys m)" using i(1) by (rule nth_mem)
    moreover have "?x \<noteq> MAP_HOLE_KEY_BITS" using hole_neq [OF assms(2)] assms(4) by metis
    ultimately show ?thesis using m(1) unfolding keys_ok_def by blast
  qed
  have ks: "keys ?m = (keys m)[i := MAP_HOLE_KEY_BITS]" by (simp add: map_update)
  have uniq: "\<not> jsvalue_eq e (keys m ! j) ?x" if "j < length (keys m)" "j \<noteq> i" for j
    using keys_ok_unique [OF m(1) x that(1) i(1)] that(2) jsvalue_eq_equiv(1) by blast
  show live: "live_entries ?m = spec_delete e k (live_entries m)"
    unfolding live_entries_filter tombstone_fields by (rule filter_delete_at(1) [OF m(1) assms(2,3) eq])
  have num: "ni_inv (numeric_ix ?m) \<and> num.exact ((keys m)[i := MAP_HOLE_KEY_BITS]) (numeric_ix ?m)"
  proof (cases "is_safe_numeric_key ?x")
    case True
    then have nk: "numeric_key ?x" using x by (simp add: numeric_key_def)
    have "keys m ! j \<noteq> ?x" if "j < length (keys m)" "j \<noteq> i" for j using uniq [OF that] jsvalue_eq_equiv(1) by metis
    then have "num.exact ((keys m)[i := MAP_HOLE_KEY_BITS]) (snd (ni_remove ?x (numeric_ix m)))"
      by (rule num.exact_delete [OF m(2,3) i(1) nk hole_not_indexed(1)])
    then show ?thesis using True num.remove_inv [OF m(2) nk] i(2)
      by (simp add: tombstone_at_def forget_map_index_entry_eq)
  next
    case False
    then have "num.exact ((keys m)[i := MAP_HOLE_KEY_BITS]) (numeric_ix m)"
      by (intro index_exact_skip_update [OF hole_not_indexed(1) i(1) _ m(3)]) (simp add: numeric_key_def)
    then show ?thesis using False m(2) i(2) by (simp add: tombstone_at_def forget_map_index_entry_eq)
  qed
  have ptr: "index_exact (is_ptr_index_key e) (jsvalue_eq e) ((keys m)[i := MAP_HOLE_KEY_BITS]) (ptr_get e (ptr_ix ?m))"
  proof (cases "is_ptr_index_key e ?x")
    case True
    have "index_exact (is_ptr_index_key e) (jsvalue_eq e) ((keys m)[i := MAP_HOLE_KEY_BITS]) (ptr_get e (ptr_remove e ?x (ptr_ix m)))"
      by (rule ptr.exact_delete [OF _ m(4) i(1) True hole_not_indexed(2)]) (use uniq in auto)
    then show ?thesis using True i(2) by (simp add: tombstone_at_def forget_map_index_entry_eq)
  next
    case False
    have "index_exact (is_ptr_index_key e) (jsvalue_eq e) ((keys m)[i := MAP_HOLE_KEY_BITS]) (ptr_get e (ptr_ix m))"
      by (rule index_exact_skip_update [OF hole_not_indexed(2) i(1) False m(4)])
    then show ?thesis using False i(2) by (simp add: tombstone_at_def forget_map_index_entry_eq)
  qed
  have str: "strings_exact e ((keys m)[i := MAP_HOLE_KEY_BITS]) (string_ix ?m)"
  proof -
    have "string_ix ?m = (if is_string_like e ?x then
        (case string_content_hash e ?x of None \<Rightarrow> string_ix m | Some h \<Rightarrow> bucket_forget h i (string_ix m)) else string_ix m)"
      using i(2) by (simp add: tombstone_at_def forget_map_index_entry_eq split: option.split)
    then show ?thesis using strings_exact_delete [OF m(5) i(1) hole_not_indexed(3)] by simp
  qed
  have "map_size m - 1 = length (live_entries ?m)"
    using filter_delete_at(2) [OF m(1) assms(2,3) eq] assms(1) by (simp add: live_entries_filter map_inv_def)
  then show "map_inv e ?m"
    using assms(1) keys_ok_hole [OF m(1)] num ptr str unfolding map_inv_def indices_ok_def ks by simp
qed

lemma delete_entry_at_index_eq:
  assumes "i < used m"
  shows "delete_entry_at_index e m (int i) =
    (1, let m' = tombstone_at e i m
        in if used m' \<ge> 16 \<and> map_size m' < used m' div 2 \<and> \<not> map_foreach_is_active m' then compact_map_entries e m' else m')"
  using assms by (simp add: delete_entry_at_index_def tombstone_at_def Let_def)

lemma delete_at_position:
  assumes "map_inv e m" "map_key k" "is_position e (keys m) k r" "delete_entry_at_index e m r = (b, m')"
  shows "map_inv e m' \<and> live_entries m' = spec_delete e k (live_entries m) \<and>
    b = (if spec_lookup e k (live_entries m) = None then 0 else 1)"
proof (cases "r \<ge> 0")
  case True
  then obtain i where i: "r = int i" "i < used m" "jsvalue_eq e (keys m ! i) k" using position_hit [OF assms(3)] by blast
  note t = tombstone_correct [OF assms(1,2) i(2,3)]
  have r: "b = 1" "m' = tombstone_at e i m \<or> m' = compact_map_entries e (tombstone_at e i m)"
    using assms(4) unfolding i(1) delete_entry_at_index_eq [OF i(2)] Let_def by (auto split: if_splits)
  have "map_inv e m' \<and> live_entries m' = spec_delete e k (live_entries m)"
    using r(2) t compact_map_entries_correct(1,3) [OF t(1)] by auto
  then show ?thesis using r(1) lookup_hit [OF assms(1,2) i(2,3)] by simp
next
  case False
  then have miss: "is_position e (keys m) k (-1)" using position_neg [OF assms(3)] assms(3) by simp
  have "spec_delete e k (live_entries m) = live_entries m"
    using position_miss(2) [OF miss] by (auto simp: spec_delete_def filter_id_conv)
  then show ?thesis using assms(1,4) False lookup_miss [OF miss] by (simp add: delete_entry_at_index_def)
qed

subsection \<open>Clearing\<close>

lemma index_exact_none:
  assumes "index_exact ok eq ks get" "\<And>k. k \<in> set ks \<Longrightarrow> \<not> ok k" "\<And>k. k \<in> set ks' \<Longrightarrow> \<not> ok k"
  shows "index_exact ok eq ks' get"
proof -
  have "\<not> (v < length xs \<and> ok (xs ! v))" if "\<And>k. k \<in> set xs \<Longrightarrow> \<not> ok k" for v xs using that nth_mem by blast
  then show ?thesis using assms unfolding index_exact_def by metis
qed

lemma strings_exact_none:
  assumes "strings_exact e ks ix" "\<And>k. k \<in> set ks \<Longrightarrow> \<not> is_string_like e k" "\<And>k. k \<in> set ks' \<Longrightarrow> \<not> is_string_like e k"
  shows "strings_exact e ks' ix"
proof -
  have "{i. i < length xs \<and> hashed_key e h (xs ! i)} = {}" if "\<And>k. k \<in> set xs \<Longrightarrow> \<not> is_string_like e k" for h xs
    using that by (auto simp: hashed_key_def)
  then show ?thesis using assms unfolding strings_exact_def by metis
qed

lemma indices_ok_none:
  assumes "indices_ok e m" "\<And>k. k \<in> set (keys m) \<Longrightarrow> is_safe_numeric_key k" "\<And>k. k \<in> set ks \<Longrightarrow> k = MAP_HOLE_KEY_BITS"
  shows "index_exact (is_ptr_index_key e) (jsvalue_eq e) ks (ptr_get e (ptr_ix m))" "strings_exact e ks (string_ix m)"
proof -
  have hole: "\<not> is_ptr_index_key e k" "\<not> is_string_like e k" if "k \<in> set ks" for k
    using assms(3) [OF that] hole_not_indexed(2,3) by simp_all
  have safe: "\<not> is_ptr_index_key e k" "\<not> is_string_like e k" if "k \<in> set (keys m)" for k
    using assms(2) [OF that] safe_numeric_key_class(1) by (simp_all add: is_ptr_index_key_def)
  show "index_exact (is_ptr_index_key e) (jsvalue_eq e) ks (ptr_get e (ptr_ix m))"
    using assms(1) safe(1) hole(1) unfolding indices_ok_def by (blast intro: index_exact_none)
  show "strings_exact e ks (string_ix m)"
    using assms(1) safe(2) hole(2) unfolding indices_ok_def by (blast intro: strings_exact_none)
qed

text \<open>A map of which only tombstones are left, whatever happened to the log.\<close>

lemma map_inv_holes:
  assumes "map_inv e m" "\<And>k. k \<in> set (keys m') \<Longrightarrow> k = MAP_HOLE_KEY_BITS" "used m' \<le> used m"
    "map_size m' = 0" "capacity m' = capacity m" "ni_inv (numeric_ix m')" "num.exact (keys m') (numeric_ix m')"
    "index_exact (is_ptr_index_key e) (jsvalue_eq e) (keys m') (ptr_get e (ptr_ix m'))" "strings_exact e (keys m') (string_ix m')"
  shows "map_inv e m' \<and> live_entries m' = []"
proof -
  have live: "live_entries m' = []" using assms(2) by (auto simp: live_entries_filter filter_empty_conv live_pair_def)
  have "keys m' ! i = MAP_HOLE_KEY_BITS" if "i < j" "j < length (keys m')" for i j
    using assms(2) nth_mem [OF order_less_trans [OF that]] by blast
  then have "keys_ok e (keys m')" unfolding keys_ok_def using assms(2) by blast
  then show ?thesis using assms live by (simp add: map_inv_def indices_ok_def)
qed

lemma js_map_clear_correct:
  assumes "map_inv e m"
  shows "map_inv e (js_map_clear m) \<and> live_entries (js_map_clear m) = []"
proof -
  have ix: "indices_ok e m" using assms by (simp add: map_inv_def)
  have m: "ni_inv (numeric_ix m)" "num.exact (keys m) (numeric_ix m)" using ix by (simp_all add: indices_ok_def)
  show ?thesis
  proof (cases "map_size m = 0")
    case True
    then have l: "live_entries m = []" using assms by (simp add: map_inv_def)
    have holes: "k = MAP_HOLE_KEY_BITS" if "k \<in> set (keys m)" for k
      using l that by (auto simp: live_entries_filter filter_empty_conv live_pair_def)
    then have safe: "is_safe_numeric_key k" if "k \<in> set (keys m)" for k using that hole_safe by blast
    have none: "\<not> numeric_key k" if "k \<in> set (keys m)" for k using holes [OF that] hole_not_indexed(1) by simp
    have num: "num.exact [] (numeric_ix m)" 
    proof (rule index_exact_none [OF m(2) none])
      show "\<not> numeric_key k" if "k \<in> set []" for k using that by simp
    qed
    have "map_inv e (note_map_compaction r (m\<lparr>entries := []\<rparr>)) \<and> live_entries (note_map_compaction r (m\<lparr>entries := []\<rparr>)) = []" for r
      by (rule map_inv_holes [OF assms]) (use True m(1) num indices_ok_none [OF ix safe, of "[]"] in simp_all)
    then show ?thesis using True assms l by (simp add: js_map_clear_def)
  next
    case False
    define kept where "kept = (if map_foreach_is_active m
      then map (\<lambda>(k, v). if k \<noteq> MAP_HOLE_KEY_BITS then (MAP_HOLE_KEY_BITS, TAG_UNDEFINED) else (k, v)) (entries m) else [])"
    define scan where "scan \<longleftrightarrow> used m > SIDE_TABLE_CLEAR_SCAN_MAX \<or> (\<exists>(k, _) \<in> set (entries m). \<not> is_safe_numeric_key k)"
    let ?c = "js_map_clear m"
    have es: "entries ?c = kept" "map_size ?c = 0" "capacity ?c = capacity m" "numeric_ix ?c = ni_clear (numeric_ix m)"
      "string_ix ?c = (if scan then Map.empty else string_ix m)" "ptr_ix ?c = (if scan then [] else ptr_ix m)"
      using False unfolding js_map_clear_def Let_def scan_def [symmetric] kept_def
      by (simp_all add: map_foreach_is_active_def)
    have holes: "k = MAP_HOLE_KEY_BITS" if "k \<in> set (map fst kept)" for k
      using that by (auto simp: kept_def split: if_splits)
    have safe: "is_safe_numeric_key k" if "\<not> scan" "k \<in> set (keys m)" for k using that by (auto simp: scan_def)
    have "num.exact (map fst kept) (ni_clear (numeric_ix m))"
      by (rule num.exact_clear [OF m(1)]) (use holes hole_not_indexed(1) in blast)
    moreover have "index_exact (is_ptr_index_key e) (jsvalue_eq e) (map fst kept) (ptr_get e (if scan then [] else ptr_ix m))"
    proof (cases scan)
      case True
      have "\<not> is_ptr_index_key e k" if "k \<in> set (map fst kept)" for k using holes [OF that] hole_not_indexed(2) by simp
      then show ?thesis using True ptr.exact_clear [where keys = "map fst kept" and e = e] by simp
    next
      case False
      then show ?thesis using indices_ok_none(1) [where ks = "map fst kept", OF ix safe [OF False] holes] by simp
    qed
    moreover have "strings_exact e (map fst kept) (if scan then Map.empty else string_ix m)"
    proof (cases scan)
      case True
      have "\<not> is_string_like e k" if "k \<in> set (map fst kept)" for k using holes [OF that] hole_not_indexed(3) by simp
      then show ?thesis using True strings_exact_empty [of "map fst kept" e] by simp
    next
      case False
      then show ?thesis using indices_ok_none(2) [where ks = "map fst kept", OF ix safe [OF False] holes] by simp
    qed
    moreover have "length kept \<le> used m" by (simp add: kept_def)
    ultimately show ?thesis
      using map_inv_holes [OF assms, of ?c, unfolded es, OF holes _ refl refl num.clear_inv [OF m(1)]] by blast
  qed
qed

subsection \<open>Positions and lists of entries\<close>

lemma live_pair_Pair: "live_pair (k, v) \<longleftrightarrow> k \<noteq> MAP_HOLE_KEY_BITS"
  by (simp add: live_pair_def)

lemma live_step_correct:
  "live \<le> idx \<Longrightarrow> idx < live + length (filter live_pair es) \<Longrightarrow>
   \<exists>j < length es. live_step raw live es idx = Some (raw + j) \<and> es ! j = filter live_pair es ! (idx - live)"
proof (induction raw live es idx rule: live_step.induct)
  case (2 raw live k v rest idx)
  show ?case
  proof (cases "k \<noteq> MAP_HOLE_KEY_BITS")
    case True
    show ?thesis
    proof (cases "live = idx")
      case idx: True
      then show ?thesis using True by (auto simp: live_pair_Pair)
    next
      case False
      then obtain j where "j < length rest" "live_step (Suc raw) (Suc live) rest idx = Some (Suc raw + j)"
          "rest ! j = filter live_pair rest ! (idx - Suc live)"
        using 2(1) [OF True False] 2(3,4) True by (auto simp: live_pair_Pair)
      moreover have "idx - live = Suc (idx - Suc live)" using False 2(3) by linarith
      ultimately show ?thesis using True False by (intro exI [of _ "Suc j"]) (simp add: live_pair_Pair)
    qed
  next
    case False
    then obtain j where "j < length rest" "live_step (Suc raw) live rest idx = Some (Suc raw + j)"
        "rest ! j = filter live_pair rest ! (idx - live)"
      using 2(2) [OF _ 2(3)] 2(4) by (auto simp: live_pair_Pair)
    then show ?thesis using False by (intro exI [of _ "Suc j"]) (simp add: live_pair_Pair)
  qed
qed simp

lemma live_index_to_raw_correct:
  assumes "map_inv e m" "live_index_to_raw e m idx = (r, m')"
  shows "map_inv e m' \<and> live_entries m' = live_entries m \<and>
    (if idx < length (live_entries m) then \<exists>raw < used m'. r = Some raw \<and> entries m' ! raw = live_entries m ! idx else r = None)"
proof -
  have size: "map_size m = length (live_entries m)" using assms(1) by (simp add: map_inv_def)
  show ?thesis
  proof (cases "idx \<ge> map_size m")
    case True
    then show ?thesis using assms size by (simp add: live_index_to_raw_def)
  next
    case False
    show ?thesis
    proof (cases "map_foreach_is_active m")
      case True
      then show ?thesis using assms False size live_step_correct [of 0 idx "entries m" 0]
        by (auto simp: live_index_to_raw_def live_entries_filter)
    next
      case inactive: False
      then have "r = Some idx" "m' = compact_if_holey e m" using assms(2) False by (auto simp: live_index_to_raw_def)
      then show ?thesis using compact_if_holey_correct [OF assms(1)] False size by simp
    qed
  qed
qed

lemma entries_lists:
  assumes "map_inv e m"
  shows "js_map_entries e m = (live_entries m, compact_if_holey e m)"
    "js_map_keys e m = (map fst (live_entries m), compact_if_holey e m)"
    "js_map_values e m = (map snd (live_entries m), compact_if_holey e m)"
proof -
  have c: "map_size (compact_if_holey e m) = length (live_entries m)" "entries (compact_if_holey e m) = live_entries m"
    using compact_if_holey_correct(2,3) [OF assms] assms by (simp_all add: map_inv_def)
  have nth: "map (\<lambda>i. f (xs ! i)) [0..<length xs] = map f xs" for f and xs :: "(u64 \<times> u64) list"
    by (rule nth_equalityI) simp_all
  show "js_map_entries e m = (live_entries m, compact_if_holey e m)"
    unfolding js_map_entries_def Let_def c by (simp add: map_nth)
  show "js_map_keys e m = (map fst (live_entries m), compact_if_holey e m)"
    unfolding js_map_keys_def Let_def c by (simp add: nth)
  show "js_map_values e m = (map snd (live_entries m), compact_if_holey e m)"
    unfolding js_map_values_def Let_def c by (simp add: nth)
qed

subsection \<open>Sequences of operations\<close>

datatype map_op =
    Map_set u64 u64
  | Map_set_string addr u64
  | Map_set_number u64 u64
  | Map_get u64
  | Map_get_number u64
  | Map_get_string addr
  | Map_has u64
  | Map_has_number u64
  | Map_has_string addr
  | Map_delete u64
  | Map_delete_number u64
  | Map_delete_string addr
  | Map_clear
  | Map_size
  | Map_key_at nat
  | Map_value_at nat
  | Map_entries
  | Map_foreach_enter
  | Map_foreach_leave

datatype map_result = R_none | R_value u64 | R_int int | R_list "(u64 \<times> u64) list"

fun map_step :: "map_env \<Rightarrow> (nat \<Rightarrow> bool) \<Rightarrow> (addr \<Rightarrow> addr) \<Rightarrow> map_op \<Rightarrow> js_map \<Rightarrow> js_throw + (map_result \<times> js_map)" where
  "map_step e alloc_ok cap (Map_set k v) m =
     (case map_set_resolved e alloc_ok m k v of Inl err \<Rightarrow> Inl err | Inr m \<Rightarrow> Inr (R_none, m))"
| "map_step e alloc_ok cap (Map_set_string p v) m =
     (case map_set_string_key_value e alloc_ok m p v of Inl err \<Rightarrow> Inl err | Inr m \<Rightarrow> Inr (R_none, m))"
| "map_step e alloc_ok cap (Map_set_number k v) m =
     (case js_map_set_number_key e alloc_ok m k v of Inl err \<Rightarrow> Inl err | Inr m \<Rightarrow> Inr (R_none, m))"
| "map_step e alloc_ok cap (Map_get_number k) m = (let (v, m) = js_map_get_number_key e cap m k in Inr (R_value v, m))"
| "map_step e alloc_ok cap (Map_get_string p) m = Inr (R_value (js_map_get_string_key e m p), m)"
| "map_step e alloc_ok cap (Map_has_number k) m = Inr (R_int (js_map_has_number_key e m k), m)"
| "map_step e alloc_ok cap (Map_delete_number k) m = (let (b, m) = js_map_delete_number_key e m k in Inr (R_int b, m))"
| "map_step e alloc_ok cap (Map_get k) m = (let (v, m) = map_get_resolved e cap m k in Inr (R_value v, m))"
| "map_step e alloc_ok cap (Map_has k) m = Inr (R_int (js_map_has e m k), m)"
| "map_step e alloc_ok cap (Map_has_string p) m = Inr (R_int (js_map_has_string_key e m p), m)"
| "map_step e alloc_ok cap (Map_delete k) m = (let (b, m) = js_map_delete e m k in Inr (R_int b, m))"
| "map_step e alloc_ok cap (Map_delete_string p) m = (let (b, m) = js_map_delete_string_key e m p in Inr (R_int b, m))"
| "map_step e alloc_ok cap Map_clear m = Inr (R_none, js_map_clear m)"
| "map_step e alloc_ok cap Map_size m = Inr (R_int (int (js_map_size m)), m)"
| "map_step e alloc_ok cap (Map_key_at i) m = (let (k, m) = js_map_entry_key_at e m i in Inr (R_value k, m))"
| "map_step e alloc_ok cap (Map_value_at i) m = (let (v, m) = js_map_entry_value_at e m i in Inr (R_value v, m))"
| "map_step e alloc_ok cap Map_entries m = (let (l, m) = js_map_entries e m in Inr (R_list l, m))"
| "map_step e alloc_ok cap Map_foreach_enter m = Inr (R_none, map_foreach_enter m)"
| "map_step e alloc_ok cap Map_foreach_leave m =
     (let (outermost, m) = map_foreach_leave m in Inr (R_none, if outermost then compact_if_holey e m else m))"

fun run_map :: "map_env \<Rightarrow> (nat \<Rightarrow> bool) \<Rightarrow> (addr \<Rightarrow> addr) \<Rightarrow> map_op list \<Rightarrow> js_map \<Rightarrow> js_throw + (map_result list \<times> js_map)" where
  "run_map e alloc_ok cap [] m = Inr ([], m)"
| "run_map e alloc_ok cap (op # ops) m =
     (case map_step e alloc_ok cap op m of
        Inl err \<Rightarrow> Inl err
      | Inr (r, m) \<Rightarrow> (case run_map e alloc_ok cap ops m of Inl err \<Rightarrow> Inl err | Inr (rs, m) \<Rightarrow> Inr (r # rs, m)))"

text \<open>The same operations on the insertion-ordered association list.\<close>

definition number_key :: "u64 \<Rightarrow> u64" where
  "number_key k = (case normalize_number_key_from_boxed k of None \<Rightarrow> k | Some k' \<Rightarrow> k')"

definition spec_get :: "map_env \<Rightarrow> (addr \<Rightarrow> addr) \<Rightarrow> u64 \<Rightarrow> (u64 \<times> u64) list \<Rightarrow> map_result \<times> (u64 \<times> u64) list" where
  "spec_get e cap k L =
     (case spec_lookup e k L of
        None \<Rightarrow> (R_value TAG_UNDEFINED, L)
      | Some v \<Rightarrow> (R_value (heal_forwarded_array_value e cap v), spec_set e k (heal_forwarded_array_value e cap v) L))"

definition spec_has :: "map_env \<Rightarrow> u64 \<Rightarrow> (u64 \<times> u64) list \<Rightarrow> int" where
  "spec_has e k L = (if spec_lookup e k L = None then 0 else 1)"

fun spec_step :: "map_env \<Rightarrow> (addr \<Rightarrow> addr) \<Rightarrow> map_op \<Rightarrow> (u64 \<times> u64) list \<Rightarrow> map_result \<times> (u64 \<times> u64) list" where
  "spec_step e cap (Map_set k v) L = (R_none, spec_set e (normalize_zero k) v L)"
| "spec_step e cap (Map_set_string p v) L = (R_none, spec_set e (boxed_heap_string_key p) v L)"
| "spec_step e cap (Map_set_number k v) L = (R_none, spec_set e (normalize_zero (number_key k)) v L)"
| "spec_step e cap (Map_get k) L = spec_get e cap (normalize_zero k) L"
| "spec_step e cap (Map_get_number k) L = spec_get e cap (normalize_zero (number_key k)) L"
| "spec_step e cap (Map_get_string p) L =
     (R_value (case spec_lookup e (boxed_heap_string_key p) L of None \<Rightarrow> TAG_UNDEFINED | Some v \<Rightarrow> v), L)"
| "spec_step e cap (Map_has_number k) L = (R_int (spec_has e (normalize_zero (number_key k)) L), L)"
| "spec_step e cap (Map_delete_number k) L =
     (R_int (spec_has e (normalize_zero (number_key k)) L), spec_delete e (normalize_zero (number_key k)) L)"
| "spec_step e cap (Map_has k) L = (R_int (spec_has e (normalize_zero k) L), L)"
| "spec_step e cap (Map_has_string p) L = (R_int (spec_has e (boxed_heap_string_key p) L), L)"
| "spec_step e cap (Map_delete k) L = (R_int (spec_has e (normalize_zero k) L), spec_delete e (normalize_zero k) L)"
| "spec_step e cap (Map_delete_string p) L = (R_int (spec_has e (boxed_heap_string_key p) L), spec_delete e (boxed_heap_string_key p) L)"
| "spec_step e cap Map_clear L = (R_none, [])"
| "spec_step e cap Map_size L = (R_int (int (length L)), L)"
| "spec_step e cap (Map_key_at i) L = (R_value (if i < length L then fst (L ! i) else TAG_UNDEFINED), L)"
| "spec_step e cap (Map_value_at i) L = (R_value (if i < length L then snd (L ! i) else TAG_UNDEFINED), L)"
| "spec_step e cap Map_entries L = (R_list L, L)"
| "spec_step e cap Map_foreach_enter L = (R_none, L)"
| "spec_step e cap Map_foreach_leave L = (R_none, L)"

fun run_spec :: "map_env \<Rightarrow> (addr \<Rightarrow> addr) \<Rightarrow> map_op list \<Rightarrow> (u64 \<times> u64) list \<Rightarrow> map_result list \<times> (u64 \<times> u64) list" where
  "run_spec e cap [] L = ([], L)"
| "run_spec e cap (op # ops) L =
     (let (r, L) = spec_step e cap op L; (rs, L) = run_spec e cap ops L in (r # rs, L))"

text \<open>Keys are values, not bare addresses, and string pointers are not null.\<close>

fun map_op_ok :: "map_op \<Rightarrow> bool" where
  "map_op_ok (Map_set k v) \<longleftrightarrow> \<not> raw_address k"
| "map_op_ok (Map_get k) \<longleftrightarrow> \<not> raw_address k"
| "map_op_ok (Map_has k) \<longleftrightarrow> \<not> raw_address k"
| "map_op_ok (Map_delete k) \<longleftrightarrow> \<not> raw_address k"
| "map_op_ok (Map_set_number k v) \<longleftrightarrow> \<not> raw_address (number_key k)"
| "map_op_ok (Map_get_number k) \<longleftrightarrow> \<not> raw_address (number_key k)"
| "map_op_ok (Map_has_number k) \<longleftrightarrow> \<not> raw_address (number_key k)"
| "map_op_ok (Map_delete_number k) \<longleftrightarrow> \<not> raw_address (number_key k)"
| "map_op_ok (Map_get_string p) \<longleftrightarrow> p AND POINTER_MASK \<noteq> 0"
| "map_op_ok (Map_set_string p v) \<longleftrightarrow> p AND POINTER_MASK \<noteq> 0"
| "map_op_ok (Map_has_string p) \<longleftrightarrow> p AND POINTER_MASK \<noteq> 0"
| "map_op_ok (Map_delete_string p) \<longleftrightarrow> p AND POINTER_MASK \<noteq> 0"
| "map_op_ok _ \<longleftrightarrow> True"

lemma has_at_position:
  assumes "map_inv e m" "map_key k" "is_position e (keys m) k r"
  shows "(if r \<ge> 0 then 1 else 0) = spec_has e k (live_entries m)"
proof (cases "r \<ge> 0")
  case True
  then obtain i where "i < used m" "jsvalue_eq e (keys m ! i) k" using position_hit [OF assms(3)] by blast
  then show ?thesis using lookup_hit [OF assms(1,2)] True by (simp add: spec_has_def)
next
  case False
  then have "is_position e (keys m) k (-1)" using position_neg [OF assms(3)] assms(3) by simp
  then show ?thesis using lookup_miss False by (simp add: spec_has_def)
qed

lemma number_key_ops:
  "js_map_set_number_key e alloc_ok m k v = map_set_resolved e alloc_ok m (number_key k) v"
  "js_map_get_number_key e cap m k = map_get_resolved e cap m (number_key k)"
  "js_map_has_number_key e m k = js_map_has e m (number_key k)"
  "js_map_delete_number_key e m k = js_map_delete e m (number_key k)"
  by (simp_all add: js_map_set_number_key_def js_map_get_number_key_def js_map_has_number_key_def js_map_delete_number_key_def
      number_key_def split: option.split)

subsection \<open>The extent never grows by more than one entry\<close>

lemma used_compact: "used (compact_map_entries e m) \<le> used m"
proof -
  obtain out removed where c: "compact_loop 0 (entries m) = (out, removed)" by fastforce
  then have "entries (compact_map_entries e m) = filter live_pair (entries m)"
    using compact_loop_out [of 0 "entries m"] by (simp add: compact_map_entries_def rebuild_map_ptr_index_def Let_def)
  then show ?thesis by simp
qed

lemma used_bounds:
  "used (compact_if_holey e m) \<le> used m"
  "used (store_value r v m) = used m"
  "used (append_entry e k v m) = Suc (used m)"
  "used (snd (delete_entry_at_index e m r)) \<le> used m"
  "used (js_map_clear m) \<le> used m"
  "used (snd (live_index_to_raw e m i)) \<le> used m"
proof -
  show c: "used (compact_if_holey e m) \<le> used m" by (simp add: compact_if_holey_def used_compact)
  show "used (store_value r v m) = used m" by (simp add: store_value_def)
  show "used (append_entry e k v m) = Suc (used m)" by (simp add: append_entry_eq)
  show "used (snd (delete_entry_at_index e m r)) \<le> used m"
  proof (cases "r < 0 \<or> nat r \<ge> used m")
    case False
    then obtain i where i: "r = int i" "i < used m" by (metis nat_int not_le zero_le_imp_eq_int)
    show ?thesis unfolding i(1) delete_entry_at_index_eq [OF i(2)] using used_compact [of e "tombstone_at e i m"] by (simp add: Let_def)
  qed (auto simp: delete_entry_at_index_def)
  show "used (js_map_clear m) \<le> used m" by (auto simp: js_map_clear_def Let_def)
  show "used (snd (live_index_to_raw e m i)) \<le> used m" using c by (simp add: live_index_to_raw_def)
qed

lemma used_ensure_capacity: "ensure_capacity e alloc_ok m = Inr m' \<Longrightarrow> used m' \<le> used m"
  using used_compact [of e m] by (auto simp: ensure_capacity_def grow_entries_def Let_def split: if_splits)


subsection \<open>Every step simulates its specification\<close>

definition step_ok :: "map_env \<Rightarrow> (addr \<Rightarrow> addr) \<Rightarrow> map_op \<Rightarrow> js_map \<Rightarrow> map_result \<times> js_map \<Rightarrow> bool" where
  "step_ok e cap op m rm \<longleftrightarrow> map_inv e (snd rm) \<and> used (snd rm) \<le> Suc (used m) \<and>
     spec_step e cap op (live_entries m) = (fst rm, live_entries (snd rm))"

lemma find_position:
  assumes "map_inv e m" "\<not> raw_address k"
  shows "map_key (normalize_zero k)" "is_position e (keys m) (normalize_zero k) (find_key_index e m (normalize_zero k))"
  using normalize_zero_map_key [OF assms(2)] find_key_index_position [of e m "normalize_zero k"] assms(1) by (simp_all add: map_inv_def)

lemma find_string_position:
  assumes "map_inv e m" "p AND POINTER_MASK \<noteq> 0"
  shows "is_position e (keys m) (boxed_heap_string_key p) (find_string_key_index e m p)"
  using find_string_key_index_position assms by (simp add: map_inv_def)

lemma set_used:
  "map_set_resolved e alloc_ok m k v = Inr m' \<Longrightarrow> used m' \<le> Suc (used m)"
  "p AND POINTER_MASK \<noteq> 0 \<Longrightarrow> map_set_string_key_value e alloc_ok m p v = Inr m' \<Longrightarrow> used m' \<le> Suc (used m)"
  using used_ensure_capacity [of e alloc_ok m]
  by (fastforce simp: map_set_resolved_def map_set_string_key_value_def Let_def used_bounds split: sum.splits if_splits option.splits)+

lemma step_set:
  assumes "map_inv e m" "\<not> raw_address k" "used m < PTR_REBUILD_MAX" "map_set_resolved e alloc_ok m k v = Inr m'"
  shows "step_ok e cap (Map_set k v) m (R_none, m')"
  using map_set_resolved_correct [OF assms] set_used(1) [OF assms(4)] by (simp add: step_ok_def)

lemma step_get:
  assumes "map_inv e m" "\<not> raw_address k" "map_get_resolved e cap m k = (v, m')"
  shows "step_ok e cap (Map_get k) m (R_value v, m')"
proof -
  have "used m' = used m" using assms(3) by (auto simp: map_get_resolved_def Let_def used_bounds split: if_splits)
  then show ?thesis using map_get_resolved_correct [OF assms] by (auto simp: step_ok_def spec_get_def split: option.splits)
qed

lemma step_delete:
  assumes "map_inv e m" "\<not> raw_address k" "js_map_delete e m k = (b, m')"
  shows "step_ok e cap (Map_delete k) m (R_int b, m')"
  using delete_at_position [OF assms(1) find_position [OF assms(1,2)] assms(3) [unfolded js_map_delete_def]]
    used_bounds(4) [of e m "find_key_index e m (normalize_zero k)"] assms(3)
  by (simp add: step_ok_def spec_has_def js_map_delete_def)

lemma step_delete_string:
  assumes "map_inv e m" "p AND POINTER_MASK \<noteq> 0" "js_map_delete_string_key e m p = (b, m')"
  shows "step_ok e cap (Map_delete_string p) m (R_int b, m')"
  using delete_at_position [OF assms(1) boxed_string_key(2) find_string_position [OF assms(1,2)] assms(3) [unfolded js_map_delete_string_key_def]]
    used_bounds(4) [of e m "find_string_key_index e m p"] assms(3)
  by (simp add: step_ok_def spec_has_def js_map_delete_string_key_def)

lemma step_has:
  assumes "map_inv e m" "\<not> raw_address k"
  shows "step_ok e cap (Map_has k) m (R_int (js_map_has e m k), m)"
  using has_at_position [OF assms(1) find_position [OF assms]] assms(1) by (simp add: step_ok_def js_map_has_def)

lemma step_string_reads:
  assumes "map_inv e m" "p AND POINTER_MASK \<noteq> 0"
  shows "step_ok e cap (Map_has_string p) m (R_int (js_map_has_string_key e m p), m)"
    "step_ok e cap (Map_get_string p) m (R_value (js_map_get_string_key e m p), m)"
proof -
  let ?k = "boxed_heap_string_key p" and ?r = "find_string_key_index e m p"
  note pos = find_string_position [OF assms]
  show "step_ok e cap (Map_has_string p) m (R_int (js_map_has_string_key e m p), m)"
    using has_at_position [OF assms(1) boxed_string_key(2) pos] assms(1) by (simp add: step_ok_def js_map_has_string_key_def)
  have "js_map_get_string_key e m p = (case spec_lookup e ?k (live_entries m) of None \<Rightarrow> TAG_UNDEFINED | Some v \<Rightarrow> v)"
  proof (cases "?r \<ge> 0")
    case True
    then obtain i where i: "?r = int i" "i < used m" "jsvalue_eq e (keys m ! i) ?k" using position_hit [OF pos] by blast
    then show ?thesis using lookup_hit [OF assms(1) boxed_string_key(2) i(2,3)] by (simp add: js_map_get_string_key_def)
  next
    case False
    then have "is_position e (keys m) ?k (-1)" using position_neg [OF pos] pos by simp
    then show ?thesis using lookup_miss False by (simp add: js_map_get_string_key_def)
  qed
  then show "step_ok e cap (Map_get_string p) m (R_value (js_map_get_string_key e m p), m)"
    using assms(1) by (simp add: step_ok_def)
qed

lemma step_at:
  assumes "map_inv e m"
  shows "js_map_entry_key_at e m i = (v, m') \<Longrightarrow> step_ok e cap (Map_key_at i) m (R_value v, m')"
    "js_map_entry_value_at e m i = (v, m') \<Longrightarrow> step_ok e cap (Map_value_at i) m (R_value v, m')"
proof -
  obtain r m1 where r: "live_index_to_raw e m i = (r, m1)" by fastforce
  have "used m1 \<le> Suc (used m)" using used_bounds(6) [of e m i] r by simp
  then show "js_map_entry_key_at e m i = (v, m') \<Longrightarrow> step_ok e cap (Map_key_at i) m (R_value v, m')"
    "js_map_entry_value_at e m i = (v, m') \<Longrightarrow> step_ok e cap (Map_value_at i) m (R_value v, m')"
    using live_index_to_raw_correct [OF assms r] r
    by (auto simp: js_map_entry_key_at_def js_map_entry_value_at_def step_ok_def split: if_splits option.splits)
qed

lemma map_inv_foreach: "map_inv e (m\<lparr>foreach_depth := d\<rparr>) = map_inv e m" "live_entries (m\<lparr>foreach_depth := d\<rparr>) = live_entries m"
  by (simp_all add: map_inv_def indices_ok_def live_entries_filter)

lemma number_steps:
  "step_ok e cap (Map_set_number k v) m rm = step_ok e cap (Map_set (number_key k) v) m rm"
  "step_ok e cap (Map_get_number k) m rm = step_ok e cap (Map_get (number_key k)) m rm"
  "step_ok e cap (Map_has_number k) m rm = step_ok e cap (Map_has (number_key k)) m rm"
  "step_ok e cap (Map_delete_number k) m rm = step_ok e cap (Map_delete (number_key k)) m rm"
  by (simp_all add: step_ok_def)

lemma map_step_sim:
  assumes "map_inv e m" "map_op_ok op" "used m < PTR_REBUILD_MAX" "map_step e alloc_ok cap op m = Inr rm"
  shows "step_ok e cap op m rm"
proof (cases op)
  case (Map_set k v)
  then show ?thesis using assms step_set [of e m k alloc_ok v] by (auto split: sum.splits)
next
  case (Map_set_string p v)
  then obtain m' where m': "map_set_string_key_value e alloc_ok m p v = Inr m'" "rm = (R_none, m')" using assms(4) by (auto split: sum.splits)
  show ?thesis using map_set_string_key_value_correct [OF assms(1) _ assms(3) m'(1)] set_used(2) [OF _ m'(1)] assms(2) Map_set_string m'(2)
    by (simp add: step_ok_def)
next
  case (Map_set_number k v)
  then obtain m' where m': "map_set_resolved e alloc_ok m (number_key k) v = Inr m'" "rm = (R_none, m')"
    using assms(4) by (auto simp: number_key_ops split: sum.splits)
  have "\<not> raw_address (number_key k)" using assms(2) Map_set_number by simp
  from step_set [OF assms(1) this assms(3) m'(1)] show ?thesis unfolding Map_set_number number_steps m'(2) .
next
  case (Map_get k)
  then show ?thesis using assms(2,4) step_get [OF assms(1), of k cap] by (auto simp: Let_def split: prod.splits)
next
  case (Map_get_number k)
  obtain v m' where g: "map_get_resolved e cap m (number_key k) = (v, m')" by fastforce
  have rm: "rm = (R_value v, m')" using assms(4) Map_get_number g by (simp add: number_key_ops)
  have "\<not> raw_address (number_key k)" using assms(2) Map_get_number by simp
  from step_get [OF assms(1) this g] show ?thesis unfolding Map_get_number number_steps rm .
next
  case (Map_get_string p)
  then show ?thesis using assms(2,4) step_string_reads(2) [OF assms(1), of p cap] by auto
next
  case (Map_has k)
  have rm: "rm = (R_int (js_map_has e m k), m)" using assms(4) Map_has by simp
  have "\<not> raw_address k" using assms(2) Map_has by simp
  from step_has [OF assms(1) this] show ?thesis unfolding Map_has rm .
next
  case (Map_has_number k)
  have rm: "rm = (R_int (js_map_has e m (number_key k)), m)" using assms(4) Map_has_number by (simp add: number_key_ops)
  have "\<not> raw_address (number_key k)" using assms(2) Map_has_number by simp
  from step_has [OF assms(1) this] show ?thesis unfolding Map_has_number number_steps rm .
next
  case (Map_has_string p)
  then show ?thesis using assms(2,4) step_string_reads(1) [OF assms(1), of p cap] by auto
next
  case (Map_delete k)
  then show ?thesis using assms(2,4) step_delete [OF assms(1), of k] by (auto simp: Let_def split: prod.splits)
next
  case (Map_delete_number k)
  obtain b m' where g: "js_map_delete e m (number_key k) = (b, m')" by fastforce
  have rm: "rm = (R_int b, m')" using assms(4) Map_delete_number g by (simp add: number_key_ops)
  have "\<not> raw_address (number_key k)" using assms(2) Map_delete_number by simp
  from step_delete [OF assms(1) this g] show ?thesis unfolding Map_delete_number number_steps rm .
next
  case (Map_delete_string p)
  then show ?thesis using assms(2,4) step_delete_string [OF assms(1), of p] by (auto simp: Let_def split: prod.splits)
next
  case Map_clear
  then show ?thesis using assms(1,4) js_map_clear_correct [OF assms(1)] used_bounds(5) [of m] by (auto simp: step_ok_def)
next
  case Map_size
  then show ?thesis using assms(1,4) by (auto simp: step_ok_def js_map_size_def map_inv_def)
next
  case (Map_key_at i)
  then show ?thesis using assms(4) step_at(1) [OF assms(1)] by (auto simp: Let_def split: prod.splits)
next
  case (Map_value_at i)
  then show ?thesis using assms(4) step_at(2) [OF assms(1)] by (auto simp: Let_def split: prod.splits)
next
  case Map_entries
  then show ?thesis using assms(4) compact_if_holey_correct(1,4) [OF assms(1)] used_bounds(1) [of e m]
    by (auto simp: step_ok_def entries_lists [OF assms(1)])
next
  case Map_foreach_enter
  then show ?thesis using assms(1,4) by (auto simp: step_ok_def map_foreach_enter_def map_inv_foreach)
next
  case Map_foreach_leave
  let ?m = "m\<lparr>foreach_depth := foreach_depth m - 1\<rparr>"
  have inv: "map_inv e ?m" using assms(1) by (simp add: map_inv_foreach)
  show ?thesis using Map_foreach_leave assms(4) compact_if_holey_correct(1,4) [OF inv] used_bounds(1) [of e ?m] inv
    by (auto simp: step_ok_def map_foreach_leave_def Let_def map_inv_foreach)
qed

lemma map_step_error:
  assumes "map_step e alloc_ok cap op m = Inl err"
  shows "err = throw_allocation_failed \<and> (\<exists>n. \<not> alloc_ok n)"
proof -
  have grow: "err = throw_allocation_failed \<and> (\<exists>n. \<not> alloc_ok n)" if "grow_entries alloc_ok m = Inl err" for m
    using that by (auto simp: grow_entries_def Let_def split: if_splits)
  have ens: "err = throw_allocation_failed \<and> (\<exists>n. \<not> alloc_ok n)" if "ensure_capacity e alloc_ok m = Inl err"
    using that grow by (auto simp: ensure_capacity_def Let_def split: if_splits)
  have set: "err = throw_allocation_failed \<and> (\<exists>n. \<not> alloc_ok n)" if "map_set_resolved e alloc_ok m k v = Inl err" for k v
    using that ens by (auto simp: map_set_resolved_def Let_def split: if_splits sum.splits)
  have str: "err = throw_allocation_failed \<and> (\<exists>n. \<not> alloc_ok n)" if "map_set_string_key_value e alloc_ok m p v = Inl err" for p v
    using that ens by (auto simp: map_set_string_key_value_def Let_def split: if_splits sum.splits)
  show ?thesis using assms set str by (cases op) (auto simp: number_key_ops Let_def split: sum.splits prod.splits)
qed

lemma map_inv_alloc: "map_inv e (fresh_map n)" "live_entries (fresh_map n) = []" "used (fresh_map n) = 0"
  using num.exact_new ni_new_correct strings_exact_empty [of "[]" e] by (simp_all add: map_inv_def indices_ok_def fresh_map_def keys_ok_def live_entries_filter
      ptr.exact_new)

lemma run_map_sim:
  assumes "map_inv e m" "\<And>op. op \<in> set ops \<Longrightarrow> map_op_ok op" "used m + length ops \<le> PTR_REBUILD_MAX"
  shows "case run_map e alloc_ok cap ops m of
      Inl err \<Rightarrow> err = throw_allocation_failed \<and> (\<exists>n. \<not> alloc_ok n)
    | Inr (rs, m') \<Rightarrow> map_inv e m' \<and> run_spec e cap ops (live_entries m) = (rs, live_entries m')"
  using assms
proof (induction ops arbitrary: m)
  case (Cons op ops)
  show ?case
  proof (cases "map_step e alloc_ok cap op m")
    case (Inl err)
    then show ?thesis using map_step_error [OF Inl] by simp
  next
    case (Inr rm)
    obtain r m1 where rm: "rm = (r, m1)" by fastforce
    have ok: "step_ok e cap op m (r, m1)" using map_step_sim [OF Cons.prems(1) _ _ Inr] Cons.prems(2,3) rm by simp
    then have m1: "map_inv e m1" "used m1 + length ops \<le> PTR_REBUILD_MAX" "spec_step e cap op (live_entries m) = (r, live_entries m1)"
      using Cons.prems(3) by (auto simp: step_ok_def)
    have "op' \<in> set ops \<Longrightarrow> map_op_ok op'" for op' using Cons.prems(2) by simp
    from Cons.IH [OF m1(1) this m1(2)] show ?thesis using Inr rm m1(3) by (auto split: sum.splits prod.splits)
  qed
qed simp

subsection \<open>Copying\<close>

lemma copy_loop_correct:
  assumes "map_inv e m" "\<And>p. p \<in> set ps \<Longrightarrow> map_key (fst p)" "sorted_wrt (\<lambda>p q. \<not> jsvalue_eq e (fst p) (fst q)) (live_entries m @ ps)"
    "used m + length ps \<le> PTR_REBUILD_MAX" "copy_loop e alloc_ok ps m = Inr m'"
  shows "map_inv e m' \<and> live_entries m' = live_entries m @ ps"
  using assms
proof (induction ps arbitrary: m)
  case (Cons p ps)
  obtain k v where p: "p = (k, v)" by fastforce
  obtain m1 where m1: "map_set_resolved e alloc_ok m k v = Inr m1" "copy_loop e alloc_ok ps m1 = Inr m'"
    using Cons.prems(5) p by (auto split: sum.splits)
  have k: "\<not> raw_address k" "normalize_zero k = k" using map_keyD(3,4) [of k] Cons.prems(2) [of p] p by auto
  have "used m < PTR_REBUILD_MAX" using Cons.prems(4) by simp
  note set = map_set_resolved_correct [OF Cons.prems(1) k(1) this m1(1), unfolded k(2)]
  have "\<not> (\<exists>q \<in> set (live_entries m). jsvalue_eq e (fst q) k)" using Cons.prems(3) p by (auto simp: sorted_wrt_append)
  then have live: "live_entries m1 = live_entries m @ [p]" using set spec_set_miss [of "live_entries m" e k v] p by simp
  have "map_inv e m' \<and> live_entries m' = live_entries m1 @ ps"
  proof (rule Cons.IH [OF _ _ _ _ m1(2)])
    show "sorted_wrt (\<lambda>p q. \<not> jsvalue_eq e (fst p) (fst q)) (live_entries m1 @ ps)" unfolding live using Cons.prems(3) by simp
  qed (use set set_used(1) [OF m1(1)] Cons.prems(2,4) in auto)
  then show ?case using live by simp
qed simp

lemma copy_map_into_new_correct:
  assumes "map_inv e src" "copy_map_into_new e alloc_ok src = Inr (m, src')"
  shows "map_inv e m \<and> live_entries m = live_entries src \<and> map_inv e src' \<and> live_entries src' = live_entries src"
proof -
  let ?c = "compact_if_holey e src"
  note c = compact_if_holey_correct [OF assms(1)]
  have "map_size ?c = length (live_entries src)" using c(1,4) by (simp add: map_inv_def)
  then have ps: "map (\<lambda>i. entries ?c ! i) [0..<map_size ?c] = live_entries src" by (simp add: c(2) map_nth)
  have ok: "src' = ?c" "copy_loop e alloc_ok (live_entries src) (fresh_map (max (map_size ?c) 4)) = Inr m"
    using assms(2) unfolding copy_map_into_new_def js_map_alloc_def Let_def ps by (auto split: sum.splits if_splits)
  have ks: "keys_ok e (keys ?c)" "used ?c \<le> PTR_REBUILD_MAX" using c(1) by (simp_all add: map_inv_def)
  then have "sorted_wrt (\<lambda>p q. \<not> jsvalue_eq e (fst p) (fst q)) (live_entries src)" "\<And>p. p \<in> set (live_entries src) \<Longrightarrow> map_key (fst p)"
    unfolding c(2) keys_ok_sorted sorted_wrt_map by (auto simp: live_entries_filter live_pair_def intro: sorted_wrt_mono_rel [rotated])
  then show ?thesis using copy_loop_correct [OF map_inv_alloc(1) _ _ _ ok(2)] map_inv_alloc(2,3) c(1,2,4) ok(1) ks(2) by simp
qed

subsection \<open>Properties\<close>

text \<open>
  C1. \<open>Map\<close> implements an insertion-ordered map. Starting from a fresh map of any capacity, any
  sequence of \<open>set\<close>, \<open>get\<close>, \<open>has\<close>, \<open>delete\<close> (also in their number-key and string-key
  forms), \<open>clear\<close>, \<open>size\<close>, positional reads, \<open>entries\<close> and the start and end of
  \<open>forEach\<close> walks either stops with the \<open>RangeError\<close> of a failed allocation or gives the results of
  an association list that updates in place and appends new keys. This holds across the linear
  scan of small maps, the three side indices, tombstones, compaction and growth. The live count is
  exact and the extent stays within the capacity. Arrays handed out by \<open>get\<close> are healed on the
  way. The bound of sixteen million operations is the extent up to which the pointer index is rebuilt.
\<close>

theorem js_map_refines_ordered_map:
  assumes "\<forall>op \<in> set ops. map_op_ok op" "length ops \<le> PTR_REBUILD_MAX"
  shows "case js_map_alloc alloc_ok n of
      Inl err \<Rightarrow> err = throw_allocation_failed \<and> (\<exists>c. \<not> alloc_ok c)
    | Inr m0 \<Rightarrow>
        (case run_map e alloc_ok clean_arr_ptr ops m0 of
           Inl err \<Rightarrow> err = throw_allocation_failed \<and> (\<exists>c. \<not> alloc_ok c)
         | Inr (rs, m) \<Rightarrow> run_spec e clean_arr_ptr ops [] = (rs, live_entries m) \<and>
             js_map_size m = length (live_entries m) \<and> used m \<le> capacity m)"
  using run_map_sim [OF map_inv_alloc(1) [of e n], of ops alloc_ok clean_arr_ptr] assms map_inv_alloc(2,3) [of n]
  by (auto simp: map_inv_def js_map_size_def js_map_alloc_def split: sum.splits prod.splits)

lemma safe_samples:
  "is_safe_numeric_key 0x3FF0000000000000" "is_safe_numeric_key 0"
  "normalize_zero 0x3FF0000000000000 = 0x3FF0000000000000" "normalize_zero 0x8000000000000000 = 0"
  by (simp_all add: is_safe_numeric_key_def normalize_zero_def MAP_HOLE_KEY_BITS_def tag_defs f64_eq_0_iff f64_is_nan_def f64_exp_def)

theorem js_map_refines_ordered_map_witness:
  "\<exists>m. run_map sample_env (\<lambda>_. True) id
      [Map_set 0x3FF0000000000000 TAG_TRUE, Map_set 0x8000000000000000 TAG_NULL, Map_delete 0x3FF0000000000000,
       Map_has 0x3FF0000000000000, Map_size] (fresh_map 0)
    = Inr ([R_none, R_none, R_int 1, R_int 0, R_int 1], m) \<and> live_entries m = [(0, TAG_NULL)]"
proof -
  let ?ops = "[Map_set 0x3FF0000000000000 TAG_TRUE, Map_set 0x8000000000000000 TAG_NULL, Map_delete 0x3FF0000000000000,
       Map_has 0x3FF0000000000000, Map_size]"
  have ok: "\<forall>op \<in> set ?ops. map_op_ok op" "length ?ops \<le> PTR_REBUILD_MAX"
    by (simp_all add: raw_address_def PTR_REBUILD_MAX_def)
  have eq: "jsvalue_eq sample_env x 0x3FF0000000000000 = (x = 0x3FF0000000000000)" "jsvalue_eq sample_env x 0 = (x = 0)" for x
    using safe_key_eq safe_samples(1,2) by blast+
  have spec: "run_spec sample_env id ?ops [] = ([R_none, R_none, R_int 1, R_int 0, R_int 1], [(0, TAG_NULL)])"
    by (simp add: safe_samples spec_set_def spec_has_def spec_lookup_def spec_delete_def eq)
  show ?thesis using js_map_refines_ordered_map [OF ok, where e = sample_env and alloc_ok = "\<lambda>_. True" and clean_arr_ptr = id and n = 0]
    unfolding spec js_map_alloc_def by (cases "run_map sample_env (\<lambda>_. True) id ?ops (fresh_map 0)") auto
qed

end
