(* ===== verification/Map_Cursor.thy ===== *)
theory Map_Cursor
  imports Map_Refinement
begin

text \<open>
  Iteration over \<open>Map\<close> (\<open>map.rs\<close>): the raw-index cursor of \<open>for-of\<close> and of the iterator objects,
  which rebases itself through the compaction log. The lemmas relate a
  cursor to the live entries that it has still to visit, and every operation of the map to what it
  does to them.
\<close>

subsection \<open>The cursor\<close>

definition count_below :: "RemovedSlots \<Rightarrow> nat \<Rightarrow> nat" where
  "count_below r cursor =
     (case r of Prefix n \<Rightarrow> min cursor n | Indices v \<Rightarrow> length (takeWhile (\<lambda>i. i < cursor) v))"

fun rebase_loop :: "u32 \<Rightarrow> compaction_record list \<Rightarrow> nat \<Rightarrow> nat" where
  "rebase_loop loop_epoch [] c = c"
| "rebase_loop loop_epoch (r # records) c =
     rebase_loop loop_epoch records
       (if sint (rec_epoch r - loop_epoch) > 0 then c - count_below (rec_removed r) c else c)"

definition rebase_map_cursor :: "js_map \<Rightarrow> nat \<Rightarrow> u32 \<Rightarrow> nat" where
  "rebase_map_cursor m cursor loop_epoch =
     (if compaction_epoch m = loop_epoch then cursor else rebase_loop loop_epoch (log_records m) cursor)"

function cursor_skip :: "js_map \<Rightarrow> nat \<Rightarrow> nat" where
  "cursor_skip m idx =
     (if idx < used m \<and> fst (entries m ! idx) = MAP_HOLE_KEY_BITS then cursor_skip m (idx + 1) else idx)"
  by pat_completeness auto
termination
  by (relation "measure (\<lambda>(m, idx). used m - idx)") auto

declare cursor_skip.simps [simp del]

definition map_cursor_next_raw :: "js_map \<Rightarrow> nat \<Rightarrow> u32 \<Rightarrow> nat option" where
  "map_cursor_next_raw m cursor loop_epoch =
     (let idx = cursor_skip m (rebase_map_cursor m cursor loop_epoch) in if idx < used m then Some idx else None)"

definition map_compaction_epoch :: "js_map \<Rightarrow> u32" where
  "map_compaction_epoch m = compaction_epoch m"

text \<open>The entry points of the \<open>for-of\<close> fast path, whose cursor and epoch are doubles.\<close>

definition js_map_cursor_next :: "js_map \<Rightarrow> f64 \<Rightarrow> f64 \<Rightarrow> f64" where
  "js_map_cursor_next m cursor epoch =
     (let cursor = (if f64_lt 0 cursor then f64_as_u32 cursor else 0);
          epoch = (if f64_lt 0 epoch then f64_as_u32 epoch else 0)
      in case map_cursor_next_raw m cursor (of_nat epoch) of
           Some idx \<Rightarrow> f64_of_int (int idx)
         | None \<Rightarrow> f64_of_int (- 1))"

definition js_map_compaction_epoch :: "js_map \<Rightarrow> f64" where
  "js_map_compaction_epoch m = f64_of_int (int (unat (map_compaction_epoch m)))"

definition js_map_find_key_index :: "map_env \<Rightarrow> js_map \<Rightarrow> u64 \<Rightarrow> f64" where
  "js_map_find_key_index e m key = f64_of_int (find_key_index e m (normalize_zero key))"

subsection \<open>Rebasing through the log\<close>

definition rebased :: "compaction_record list \<Rightarrow> nat \<Rightarrow> nat" where
  "rebased records c = fold (\<lambda>r c. c - count_below (rec_removed r) c) records c"

text \<open>The records of the log carry consecutive epochs up to the current one.\<close>

definition log_wf :: "js_map \<Rightarrow> bool" where
  "log_wf m \<longleftrightarrow> (\<forall>j < length (log_records m).
     rec_epoch (log_records m ! j) = compaction_epoch m - of_nat (length (log_records m) - Suc j))"

definition squeezes_since :: "js_map \<Rightarrow> u32 \<Rightarrow> nat" where
  "squeezes_since m ep = unat (compaction_epoch m - ep)"

text \<open>The log still has every squeeze since the epoch.\<close>

definition log_covers :: "js_map \<Rightarrow> u32 \<Rightarrow> bool" where
  "log_covers m ep \<longleftrightarrow> squeezes_since m ep \<le> length (log_records m) \<and> length (log_records m) < 2 ^ 31"

lemma sint_diff:
  assumes "a < 2 ^ 31" "b < 2 ^ 31"
  shows "sint (of_nat a - of_nat b :: u32) = int a - int b"
proof -
  have w: "(of_nat a - of_nat b :: u32) = word_of_int (int a - int b)" by simp
  have "sint (of_nat a - of_nat b :: u32) = signed_take_bit 31 (int a - int b)" unfolding w signed_of_int by simp
  also have "\<dots> = int a - int b"
    by (rule signed_take_bit_int_eq_self) (use assms in \<open>simp_all add: power_strict_increasing\<close>)
  finally show ?thesis .
qed

lemma rebase_loop_rebased:
  assumes "\<And>r. r \<in> set skip \<Longrightarrow> \<not> sint (rec_epoch r - ep) > 0" "\<And>r. r \<in> set take' \<Longrightarrow> sint (rec_epoch r - ep) > 0"
  shows "rebase_loop ep (skip @ take') c = rebased take' c"
proof -
  have "rebase_loop ep (skip @ take') c = rebase_loop ep take' c"
    using assms(1) by (induction skip) auto
  moreover have "rebase_loop ep take' c = rebased take' c"
    using assms(2) by (induction take' arbitrary: c) (simp_all add: rebased_def)
  ultimately show ?thesis by simp
qed

lemma rebase_map_cursor_eq:
  assumes "log_wf m" "log_covers m ep"
  shows "rebase_map_cursor m c ep = rebased (drop (length (log_records m) - squeezes_since m ep) (log_records m)) c"
proof -
  define d n where "d = squeezes_since m ep" and "n = length (log_records m)"
  have b: "d \<le> n" "n < 2 ^ 31" using assms(2) by (simp_all add: log_covers_def d_def n_def)
  have e: "compaction_epoch m - ep = of_nat d" by (simp add: d_def squeezes_since_def)
  have ep: "rec_epoch (log_records m ! j) - ep = of_nat d - of_nat (n - Suc j)" if "j < n" for j
    using assms(1) that e by (simp add: log_wf_def n_def algebra_simps)
  have sgn: "sint (rec_epoch (log_records m ! j) - ep) > 0 \<longleftrightarrow> j \<ge> n - d" if "j < n" for j
    unfolding ep [OF that] using sint_diff [of d "n - Suc j"] b that by auto
  have "rebase_loop ep (take (n - d) (log_records m) @ drop (n - d) (log_records m)) c = rebased (drop (n - d) (log_records m)) c"
  proof (rule rebase_loop_rebased)
    show "\<not> sint (rec_epoch r - ep) > 0" if "r \<in> set (take (n - d) (log_records m))" for r
      using that sgn by (auto simp: in_set_conv_nth n_def)
    show "sint (rec_epoch r - ep) > 0" if "r \<in> set (drop (n - d) (log_records m))" for r
      using that sgn by (auto simp: in_set_conv_nth n_def)
  qed
  moreover have "d = 0" if "compaction_epoch m = ep" using that by (simp add: d_def squeezes_since_def)
  ultimately show ?thesis
    unfolding d_def [symmetric] n_def [symmetric] rebase_map_cursor_def by (auto simp: n_def rebased_def)
qed

subsection \<open>Logging a squeeze\<close>

lemma trim_log_suffix: "\<exists>t. fst (trim_log budget records retained) = drop t records \<and> (records \<noteq> [] \<longrightarrow> t < length records)"
proof (induction budget records retained rule: trim_log.induct)
  case (2 budget oldest records retained)
  show ?case
  proof (cases "retained > budget \<and> length (oldest # records) > 1")
    case True
    then obtain t where "fst (trim_log budget records (retained - retained_len (rec_removed oldest))) = drop t records" "t < length records"
      using 2 by (cases records) auto
    then show ?thesis using True by (intro exI [of _ "Suc t"]) simp
  next
    case False
    then have "trim_log budget (oldest # records) retained = (oldest # records, retained)" by (simp only: trim_log.simps if_False)
    then show ?thesis by (intro exI [of _ 0]) simp
  qed
qed simp

lemma note_map_compaction_log:
  obtains t where "log_records (note_map_compaction removed m) =
      drop t ((case removed of Prefix _ \<Rightarrow> [] | Indices _ \<Rightarrow> log_records m) @ [\<lparr>rec_epoch = compaction_epoch m + 1, rec_removed = removed\<rparr>])"
    "t \<le> length (case removed of Prefix _ \<Rightarrow> [] | Indices _ \<Rightarrow> log_records m)"
proof -
  define budget where "budget = max MAP_COMPACTION_LOG_MIN_BUDGET (capacity m)"
  define old where "old = (case removed of Prefix _ \<Rightarrow> [] | Indices _ \<Rightarrow> log_records m)"
  define kept where "kept = (case removed of Prefix _ \<Rightarrow> 0 | Indices _ \<Rightarrow> log_retained m) + retained_len removed"
  define new where "new = old @ [\<lparr>rec_epoch = compaction_epoch m + 1, rec_removed = removed\<rparr>]"
  have "log_records (note_map_compaction removed m) = fst (trim_log budget new kept)"
    unfolding note_map_compaction_def budget_def new_def kept_def old_def by (cases removed) (simp_all add: Let_def split: prod.split)
  moreover obtain t where "fst (trim_log budget new kept) = drop t new" "t < length new"
    using trim_log_suffix [of budget new kept] by (auto simp: new_def)
  ultimately show thesis using that [of t] by (simp add: new_def old_def)
qed

lemma squeezes_since_note:
  assumes "squeezes_since m ep < 2 ^ 32 - 1"
  shows "squeezes_since (note_map_compaction removed m) ep = Suc (squeezes_since m ep)"
proof -
  define gap where "gap = compaction_epoch m - ep"
  have "compaction_epoch (note_map_compaction removed m) - ep = gap + 1"
    by (simp add: gap_def algebra_simps)
  then have "squeezes_since (note_map_compaction removed m) ep = unat (gap + 1)"
    unfolding squeezes_since_def by (rule arg_cong)
  also have "\<dots> = Suc (unat gap)"
    using assms unat_add_lem [of gap 1] by (simp add: squeezes_since_def gap_def)
  finally show ?thesis by (simp add: squeezes_since_def gap_def)
qed

lemma log_wf_note:
  assumes "log_wf m"
  shows "log_wf (note_map_compaction removed m)"
proof -
  let ?old = "case removed of Prefix _ \<Rightarrow> [] | Indices _ \<Rightarrow> log_records m"
  let ?new = "\<lparr>rec_epoch = compaction_epoch m + 1, rec_removed = removed\<rparr>"
  obtain t where t: "log_records (note_map_compaction removed m) = drop t (?old @ [?new])" "t \<le> length ?old"
    by (rule note_map_compaction_log)
  have old: "rec_epoch (?old ! j) = compaction_epoch m - of_nat (length ?old - Suc j)" if "j < length ?old" for j
    using assms that by (cases removed) (simp_all add: log_wf_def)
  have all: "rec_epoch ((?old @ [?new]) ! j) = compaction_epoch m + 1 - of_nat (Suc (length ?old) - Suc j)" if "j < Suc (length ?old)" for j
  proof (cases "j < length ?old")
    case True
    then have "Suc (length ?old) - Suc j = Suc (length ?old - Suc j)" by simp
    then show ?thesis using old [OF True] True by (simp add: nth_append)
  next
    case False
    then have "j = length ?old" using that by simp
    then show ?thesis by (simp add: nth_append)
  qed
  have "rec_epoch (drop t (?old @ [?new]) ! j) = compaction_epoch m + 1 - of_nat (length (drop t (?old @ [?new])) - Suc j)"
    if "j < length (drop t (?old @ [?new]))" for j
  proof -
    have "t + j < Suc (length ?old)" using that t(2) by simp
    moreover have "length (drop t (?old @ [?new])) - Suc j = Suc (length ?old) - Suc (t + j)" by simp
    moreover have "drop t (?old @ [?new]) ! j = (?old @ [?new]) ! (t + j)" using t(2) by (intro nth_drop) simp
    ultimately show ?thesis using all [of "t + j"] by (simp only:)
  qed
  then show ?thesis unfolding log_wf_def t(1) note_map_compaction_fields by blast
qed

lemma covers_note:
  assumes "squeezes_since m ep < 2 ^ 32 - 1" "log_covers (note_map_compaction removed m) ep"
  shows "drop (length (log_records (note_map_compaction removed m)) - squeezes_since (note_map_compaction removed m) ep)
      (log_records (note_map_compaction removed m)) =
    (case removed of Prefix _ \<Rightarrow> [] | Indices _ \<Rightarrow> drop (length (log_records m) - squeezes_since m ep) (log_records m))
      @ [\<lparr>rec_epoch = compaction_epoch m + 1, rec_removed = removed\<rparr>]"
    "(case removed of Prefix _ \<Rightarrow> squeezes_since m ep = 0 | Indices _ \<Rightarrow> squeezes_since m ep \<le> length (log_records m))"
proof -
  let ?m = "note_map_compaction removed m"
  let ?old = "case removed of Prefix _ \<Rightarrow> [] | Indices _ \<Rightarrow> log_records m"
  let ?new = "\<lparr>rec_epoch = compaction_epoch m + 1, rec_removed = removed\<rparr>"
  obtain t where t: "log_records ?m = drop t (?old @ [?new])" "t \<le> length ?old" by (rule note_map_compaction_log)
  have d: "squeezes_since ?m ep = Suc (squeezes_since m ep)" by (rule squeezes_since_note [OF assms(1)])
  have le: "Suc (squeezes_since m ep) \<le> Suc (length ?old) - t"
    using assms(2) t(2) unfolding log_covers_def d t(1) by (simp add: Suc_diff_le)
  show "case removed of Prefix _ \<Rightarrow> squeezes_since m ep = 0 | Indices _ \<Rightarrow> squeezes_since m ep \<le> length (log_records m)"
    using le by (cases removed) simp_all
  have "drop (length (log_records ?m) - squeezes_since ?m ep) (log_records ?m) = drop (length ?old - squeezes_since m ep) (?old @ [?new])"
    unfolding t(1) d using le t(2) by (simp del: drop_append)
  also have "\<dots> = drop (length ?old - squeezes_since m ep) ?old @ [?new]" by simp
  finally show "drop (length (log_records ?m) - squeezes_since ?m ep) (log_records ?m) =
    (case removed of Prefix _ \<Rightarrow> [] | Indices _ \<Rightarrow> drop (length (log_records m) - squeezes_since m ep) (log_records m)) @ [?new]"
    by (cases removed) simp_all
qed


lemma log_length_note: "length (log_records (note_map_compaction removed m)) \<le> Suc (length (log_records m))"
proof -
  let ?old = "case removed of Prefix _ \<Rightarrow> [] | Indices _ \<Rightarrow> log_records m"
  obtain t where "log_records (note_map_compaction removed m) = drop t (?old @ [\<lparr>rec_epoch = compaction_epoch m + 1, rec_removed = removed\<rparr>])"
    by (rule note_map_compaction_log)
  then show ?thesis by (cases removed) simp_all
qed

subsection \<open>The live entries below a position\<close>

definition live_below :: "js_map \<Rightarrow> nat \<Rightarrow> nat" where
  "live_below m i = length (filter live_pair (take i (entries m)))"

lemma filter_take_prefix: "filter P (take i xs) = take (length (filter P (take i xs))) (filter P xs)"
proof -
  have "filter P xs = filter P (take i xs) @ filter P (drop i xs)"
    by (simp only: filter_append [symmetric] append_take_drop_id)
  then show ?thesis by simp
qed

lemma compact_loop_ge: "j \<in> set (snd (compact_loop i es)) \<Longrightarrow> i \<le> j"
  by (induction i es rule: compact_loop.induct) (auto split: prod.splits if_splits)

lemma count_below_removed:
  "length (takeWhile (\<lambda>j. j < k + i) (snd (compact_loop k es))) = length (filter (\<lambda>p. \<not> live_pair p) (take i es))"
proof (induction k es arbitrary: i rule: compact_loop.induct)
  case (2 k key v rest)
  show ?case
  proof (cases i)
    case 0
    have "takeWhile (\<lambda>j. j < k) (snd (compact_loop k ((key, v) # rest))) = []"
      using compact_loop_ge [of _ k "(key, v) # rest"] by (cases "snd (compact_loop k ((key, v) # rest))") fastforce+
    then show ?thesis using 0 by simp
  next
    case (Suc i')
    then show ?thesis using 2 [of i'] by (auto simp: live_pair_def split: prod.splits)
  qed
qed simp

lemma count_below_position:
  assumes "i \<le> length es"
  shows "i - count_below (Indices (snd (compact_loop 0 es))) i = length (filter live_pair (take i es))"
  using count_below_removed [of 0 i es] sum_length_filter_compl [of live_pair "take i es"] assms
  by (simp add: count_below_def)

subsection \<open>What a cursor has to visit\<close>

text \<open>
  A cursor that was synchronised at an epoch stands, after rebasing, behind exactly \<open>p\<close> live entries.
  The number \<open>n\<close> bounds the squeezes so far; it keeps the epochs from wrapping round.
\<close>

definition cursor_at :: "js_map \<Rightarrow> nat \<Rightarrow> u32 \<Rightarrow> nat \<Rightarrow> nat \<Rightarrow> bool" where
  "cursor_at m c ep p n \<longleftrightarrow> log_wf m \<and> squeezes_since m ep \<le> n \<and> length (log_records m) \<le> n \<and>
     (log_covers m ep \<longrightarrow> rebase_map_cursor m c ep \<le> used m \<and> live_below m (rebase_map_cursor m c ep) = p)"

lemma cursor_at_mono: "cursor_at m c ep p n \<Longrightarrow> n \<le> n' \<Longrightarrow> cursor_at m c ep p n'"
  by (auto simp: cursor_at_def)

text \<open>Steps that do not squeeze.\<close>

lemma cursor_at_quiet:
  assumes "cursor_at m c ep p n" "log_records m' = log_records m" "compaction_epoch m' = compaction_epoch m"
    "\<And>i. i \<le> used m \<Longrightarrow> live_below m i = p \<Longrightarrow> i \<le> used m' \<and> live_below m' i = p'"
  shows "cursor_at m' c ep p' n"
proof -
  have "log_wf m' = log_wf m" "squeezes_since m' ep = squeezes_since m ep" "log_covers m' ep = log_covers m ep"
    "rebase_map_cursor m' c ep = rebase_map_cursor m c ep"
    using assms(2,3) by (simp_all add: log_wf_def squeezes_since_def log_covers_def rebase_map_cursor_def)
  then show ?thesis using assms(1,4) unfolding cursor_at_def by (simp add: assms(2))
qed

lemma cursor_at_squeeze:
  fixes m m0 :: js_map
  defines "removed \<equiv> snd (compact_loop 0 (entries m))"
  assumes "cursor_at m c ep p n" "n < 2 ^ 31" "entries m0 = filter live_pair (entries m)"
    "log_records m0 = log_records m" "compaction_epoch m0 = compaction_epoch m"
  shows "cursor_at (if removed \<noteq> [] then note_map_compaction (Indices removed) m0 else m0) c ep p (Suc n)"
proof (cases "removed = []")
  case True
  then have "length (filter (\<lambda>p. \<not> live_pair p) (entries m)) = 0"
    using count_below_removed [of 0 "used m" "entries m"] by (simp add: removed_def)
  then have "filter live_pair (entries m) = entries m" by (simp add: filter_id_conv filter_empty_conv)
  then have "cursor_at m0 c ep p n"
    by (intro cursor_at_quiet [OF assms(2)]) (use assms(4-6) in \<open>simp_all add: live_below_def\<close>)
  then show ?thesis using True cursor_at_mono [of m0 c ep p n "Suc n"] by simp
next
  case False
  let ?c = "note_map_compaction (Indices removed) m0"
  have wf: "log_wf m0" "squeezes_since m0 ep = squeezes_since m ep" "squeezes_since m ep < 2 ^ 32 - 1"
    using assms(2,3,5,6) by (simp_all add: cursor_at_def log_wf_def squeezes_since_def)
  have "rebase_map_cursor ?c c ep \<le> used ?c \<and> live_below ?c (rebase_map_cursor ?c c ep) = p" if cov: "log_covers ?c ep"
  proof -
    note cn = covers_note [of m0 ep "Indices removed", unfolded wf(2) assms(5) RemovedSlots.case, OF wf(3) cov]
    have cm: "log_covers m ep" using cn(2) assms(2,3) by (simp add: log_covers_def cursor_at_def)
    define i where "i = rebase_map_cursor m c ep"
    have i: "i \<le> used m" "live_below m i = p" using assms(2) cm by (simp_all add: cursor_at_def i_def)
    have "rebase_map_cursor ?c c ep = i - count_below (Indices removed) i"
      using rebase_map_cursor_eq [OF log_wf_note [OF wf(1)] cov, of c] cn(1) rebase_map_cursor_eq [OF _ cm, of c] assms(2)
      by (simp add: rebased_def i_def cursor_at_def)
    also have "\<dots> = p" unfolding removed_def using count_below_position [of i "entries m"] i by (simp add: live_below_def)
    finally have r: "rebase_map_cursor ?c c ep = p" .
    have "filter live_pair (take p (filter live_pair (entries m))) = take p (filter live_pair (entries m))"
      by (auto simp: filter_id_conv dest: in_set_takeD)
    moreover have "p \<le> length (filter live_pair (entries m))"
      using i(2) arg_cong [OF filter_take_prefix [of live_pair i "entries m"], of length] unfolding live_below_def by simp
    ultimately show ?thesis unfolding r by (simp add: assms(4) live_below_def)
  qed
  moreover have "log_wf ?c" by (rule log_wf_note [OF wf(1)])
  moreover have "squeezes_since ?c ep \<le> Suc n" using squeezes_since_note [of m0 ep "Indices removed"] wf assms(2) by (simp add: cursor_at_def)
  moreover have "length (log_records ?c) \<le> Suc n"
    using log_length_note [of "Indices removed" m0] assms(2,5) by (simp add: cursor_at_def)
  ultimately show ?thesis using False unfolding cursor_at_def by simp
qed

lemma cursor_at_compact:
  assumes "map_inv e m" "cursor_at m c ep p n" "n < 2 ^ 31"
  shows "cursor_at (compact_map_entries e m) c ep p (Suc n)"
proof -
  let ?m = "rebuild_indices e (live_entries m) m"
  have "compact_map_entries e m =
      (if snd (compact_loop 0 (entries m)) \<noteq> [] then note_map_compaction (Indices (snd (compact_loop 0 (entries m)))) ?m else ?m)"
    using compact_map_entries_eq [of m e] assms(1) by (simp add: map_inv_def Let_def)
  then show ?thesis
    using cursor_at_squeeze [OF assms(2,3), of ?m] by (simp add: rebuild_indices_def live_entries_filter)
qed

lemma cursor_at_if_holey:
  assumes "map_inv e m" "cursor_at m c ep p n" "n < 2 ^ 31"
  shows "cursor_at (compact_if_holey e m) c ep p (Suc n)"
  using cursor_at_compact [OF assms] cursor_at_mono [OF assms(2), of "Suc n"] by (simp add: compact_if_holey_def)

lemma cursor_at_store:
  assumes "cursor_at m c ep p n"
  shows "cursor_at (store_value r v m) c ep p n"
proof (rule cursor_at_quiet [OF assms])
  have "map (live_pair) ((entries m)[j := (fst (entries m ! j), v)]) = map live_pair (entries m)" for j
    by (cases "j < length (entries m)") (simp_all add: map_update live_pair_def list_update_same_conv list_update_beyond)
  then have "map live_pair (take i (entries (store_value r v m))) = map live_pair (take i (entries m))" for i
    unfolding store_value_def by (simp add: take_map [symmetric])
  moreover have "length (filter live_pair xs) = length (filter id (map live_pair xs))" for xs by (simp add: filter_map o_def)
  ultimately show "i \<le> used (store_value r v m) \<and> live_below (store_value r v m) i = p" if "i \<le> used m" "live_below m i = p" for i
    using that by (simp only: live_below_def used_bounds simp_thms)
qed (simp_all add: store_value_def)

lemma cursor_at_append:
  "cursor_at m c ep p n \<Longrightarrow> cursor_at (append_entry e k v m) c ep p n"
  by (erule cursor_at_quiet) (simp_all add: append_entry_eq live_below_def)

lemma cursor_at_same_entries:
  assumes "cursor_at m c ep p n" "entries m' = entries m" "log_records m' = log_records m" "compaction_epoch m' = compaction_epoch m"
  shows "cursor_at m' c ep p n"
  by (rule cursor_at_quiet [OF assms(1,3,4)]) (simp add: live_below_def assms(2))

lemma cursor_at_ensure:
  assumes "map_inv e m" "cursor_at m c ep p n" "n < 2 ^ 31" "ensure_capacity e alloc_ok m = Inr m'"
  shows "cursor_at m' c ep p (Suc n)"
proof -
  have grow: "cursor_at m' c ep p (Suc n)" if "grow_entries alloc_ok m0 = Inr m'" "cursor_at m0 c ep p (Suc n)" for m0
    by (rule cursor_at_same_entries [OF that(2)]) (use that(1) in \<open>auto simp: grow_entries_def Let_def split: if_splits\<close>)
  have "cursor_at m c ep p (Suc n)" by (rule cursor_at_mono [OF assms(2)]) simp
  then show ?thesis using assms(4) grow cursor_at_compact [OF assms(1-3)]
    by (auto simp: ensure_capacity_def Let_def split: if_splits)
qed

lemma cursor_at_set:
  assumes "map_inv e m" "cursor_at m c ep p n" "n < 2 ^ 31"
    "(if r \<ge> 0 then Inr (store_value r v m)
      else case ensure_capacity e alloc_ok m of Inl err \<Rightarrow> Inl err | Inr m \<Rightarrow> Inr (append_entry e k v m)) = Inr m'"
  shows "cursor_at m' c ep p (Suc n)"
proof (cases "r \<ge> 0")
  case True
  then show ?thesis using assms(4) cursor_at_mono [OF cursor_at_store [OF assms(2)], of "Suc n"] by auto
next
  case False
  then obtain m1 where m1: "ensure_capacity e alloc_ok m = Inr m1" "m' = append_entry e k v m1"
    using assms(4) by (cases "ensure_capacity e alloc_ok m") auto
  show ?thesis unfolding m1(2) by (rule cursor_at_append [OF cursor_at_ensure [OF assms(1-3) m1(1)]])
qed

lemma filter_live_delete:
  "filter live_pair (map (\<lambda>p. if jsvalue_eq e (fst p) k then (MAP_HOLE_KEY_BITS, w) else p) xs) = spec_delete e k (filter live_pair xs)"
  unfolding spec_delete_def by (induction xs) (auto simp: live_pair_def)

lemma cursor_at_tombstone:
  assumes "map_inv e m" "map_key k" "i < used m" "jsvalue_eq e (keys m ! i) k" "cursor_at m c ep p n"
  shows "cursor_at (tombstone_at e i m) c ep (length (spec_delete e k (take p (live_entries m)))) n"
proof (rule cursor_at_quiet [OF assms(5)])
  have ks: "keys_ok e (keys m)" using assms(1) by (simp add: map_inv_def)
  have eq: "jsvalue_eq e (fst (entries m ! i)) k" using assms(3,4) by simp
  have es: "entries (tombstone_at e i m) = map (\<lambda>p. if jsvalue_eq e (fst p) k then (MAP_HOLE_KEY_BITS, TAG_UNDEFINED) else p) (entries m)"
    unfolding tombstone_fields by (rule update_at_position [OF ks assms(2,3) eq])
  have below: "filter live_pair (take j (entries (tombstone_at e i m))) = spec_delete e k (filter live_pair (take j (entries m)))" for j
    unfolding es take_map by (rule filter_live_delete)
  show "j \<le> used (tombstone_at e i m) \<and> live_below (tombstone_at e i m) j = length (spec_delete e k (take p (live_entries m)))"
    if "j \<le> used m" "live_below m j = p" for j
    using that(1) filter_take_prefix [of live_pair j "entries m"] that(2)
    unfolding live_below_def below live_entries_filter by simp
qed (simp_all add: tombstone_at_def forget_map_index_entry_def Let_def split: option.split prod.split)

lemma cursor_at_delete:
  assumes "map_inv e m" "map_key k" "is_position e (keys m) k r" "cursor_at m c ep p n" "n < 2 ^ 31"
  shows "cursor_at (snd (delete_entry_at_index e m r)) c ep (length (spec_delete e k (take p (live_entries m)))) (Suc n)"
proof (cases "r \<ge> 0")
  case True
  then obtain i where i: "r = int i" "i < used m" "jsvalue_eq e (keys m ! i) k" using position_hit [OF assms(3)] by blast
  note t = cursor_at_tombstone [OF assms(1,2) i(2,3) assms(4)]
  show ?thesis unfolding i(1) delete_entry_at_index_eq [OF i(2)] Let_def snd_conv
    using cursor_at_compact [OF tombstone_correct(1) [OF assms(1,2) i(2,3)] t assms(5)] cursor_at_mono [OF t, of "Suc n"] by simp
next
  case False
  then have miss: "is_position e (keys m) k (-1)" using position_neg [OF assms(3)] assms(3) by simp
  have same: "spec_delete e k (take p (live_entries m)) = take p (live_entries m)"
    using position_miss(2) [OF miss] by (auto simp: spec_delete_def filter_id_conv dest: in_set_takeD)
  have "cursor_at m c ep (length (take p (live_entries m))) n"
  proof (rule cursor_at_quiet [OF assms(4) refl refl])
    show "i \<le> used m \<and> live_below m i = length (take p (live_entries m))" if "i \<le> used m" "live_below m i = p" for i
      using that filter_take_prefix [of live_pair i "entries m"] by (simp add: live_below_def live_entries_filter)
  qed
  then show ?thesis unfolding same using False cursor_at_mono by (simp add: delete_entry_at_index_def)
qed

lemma live_below_le: "live_below m i \<le> length (live_entries m)"
  using arg_cong [OF filter_take_prefix [of live_pair i "entries m"], of length] unfolding live_below_def live_entries_filter by simp

lemma cursor_at_discard:
  assumes "cursor_at m c ep p n" "n < 2 ^ 31" "log_records m' = log_records m" "compaction_epoch m' = compaction_epoch m" "entries m' = []"
  shows "cursor_at (note_map_compaction (Prefix (used m)) m') c ep 0 (Suc n)"
proof -
  let ?c = "note_map_compaction (Prefix (used m)) m'"
  have wf: "log_wf m'" "squeezes_since m' ep = squeezes_since m ep" "squeezes_since m ep < 2 ^ 32 - 1"
    using assms by (simp_all add: cursor_at_def log_wf_def squeezes_since_def)
  have "rebase_map_cursor ?c c ep = 0" if cov: "log_covers ?c ep"
  proof -
    note cn = covers_note [of m' ep "Prefix (used m)", unfolded wf(2) RemovedSlots.case, OF wf(3) cov]
    have "log_covers m ep" using cn(2) assms(1,2) by (simp add: log_covers_def cursor_at_def)
    moreover have "rebase_map_cursor m c ep = c" using cn(2) by (simp add: rebase_map_cursor_def squeezes_since_def unat_eq_zero)
    ultimately have "c \<le> used m" using assms(1) by (simp add: cursor_at_def)
    then show ?thesis using rebase_map_cursor_eq [OF log_wf_note [OF wf(1)] cov, of c] unfolding cn(1) by (simp add: rebased_def count_below_def)
  qed
  moreover have "log_wf ?c" by (rule log_wf_note [OF wf(1)])
  moreover have "squeezes_since ?c ep \<le> Suc n" using squeezes_since_note [of m' ep "Prefix (used m)"] wf assms(1) by (simp add: cursor_at_def)
  moreover have "length (log_records ?c) \<le> Suc n"
    using log_length_note [of "Prefix (used m)" m'] assms(1,3) by (simp add: cursor_at_def)
  ultimately show ?thesis unfolding cursor_at_def by (simp add: live_below_def)
qed

lemma cursor_at_clear:
  assumes "map_inv e m" "cursor_at m c ep p n" "n < 2 ^ 31"
  shows "cursor_at (js_map_clear m) c ep 0 (Suc n)"
proof -
  have none: "cursor_at m' c ep 0 (Suc n)"
    if "log_records m' = log_records m" "compaction_epoch m' = compaction_epoch m" "used m' = used m" "live_entries m' = []" for m'
    by (rule cursor_at_mono [OF cursor_at_quiet [OF assms(2) that(1,2), of 0]]) (use that(3) live_below_le [of m'] that(4) in simp_all)
  have discard: "cursor_at (note_map_compaction (Prefix (used m)) (m\<lparr>entries := []\<rparr>)) c ep 0 (Suc n)"
    "cursor_at (note_map_compaction (Prefix (used m)) (m\<lparr>map_size := 0, entries := []\<rparr>)) c ep 0 (Suc n)"
    by (rule cursor_at_discard [OF assms(2,3)]; simp)+
  show ?thesis
  proof (cases "map_size m = 0")
    case True
    then have "live_entries m = []" using assms(1) by (simp add: map_inv_def)
    then show ?thesis using True discard(1) none [of m] by (simp add: js_map_clear_def)
  next
    case False
    let ?c = "js_map_clear m"
    define scan where "scan \<longleftrightarrow> used m > SIDE_TABLE_CLEAR_SCAN_MAX \<or> (\<exists>(k, _) \<in> set (entries m). \<not> is_safe_numeric_key k)"
    show ?thesis
    proof (cases "map_foreach_is_active m")
      case True
      have "log_records ?c = log_records m" "compaction_epoch ?c = compaction_epoch m" "used ?c = used m"
        using False True unfolding js_map_clear_def Let_def scan_def [symmetric] by (simp_all add: map_foreach_is_active_def)
      then show ?thesis using none js_map_clear_correct [OF assms(1)] by blast
    next
      case inactive: False
      let ?d = "note_map_compaction (Prefix (used m)) (m\<lparr>map_size := 0, entries := []\<rparr>)"
      have "entries ?c = entries ?d" "log_records ?c = log_records ?d" "compaction_epoch ?c = compaction_epoch ?d"
        using False inactive unfolding js_map_clear_def Let_def scan_def [symmetric] by (simp_all add: map_foreach_is_active_def)
      then show ?thesis by (rule cursor_at_same_entries [OF discard(2)])
    qed
  qed
qed

subsection \<open>Runs\<close>

text \<open>
  The number of live entries before the cursor, on the insertion-ordered list: deleting a visited
  entry moves it down by one, clearing resets it, nothing else touches it.
\<close>

fun spec_mark :: "map_env \<Rightarrow> map_op \<Rightarrow> (u64 \<times> u64) list \<Rightarrow> nat \<Rightarrow> nat" where
  "spec_mark e (Map_delete k) L p = length (spec_delete e (normalize_zero k) (take p L))"
| "spec_mark e (Map_delete_number k) L p = length (spec_delete e (normalize_zero (number_key k)) (take p L))"
| "spec_mark e (Map_delete_string q) L p = length (spec_delete e (boxed_heap_string_key q) (take p L))"
| "spec_mark e Map_clear L p = 0"
| "spec_mark e _ L p = p"

fun run_mark :: "map_env \<Rightarrow> (addr \<Rightarrow> addr) \<Rightarrow> map_op list \<Rightarrow> (u64 \<times> u64) list \<Rightarrow> nat \<Rightarrow> nat" where
  "run_mark e cap [] L p = p"
| "run_mark e cap (op # ops) L p = run_mark e cap ops (snd (spec_step e cap op L)) (spec_mark e op L p)"

lemma cursor_at_set_string:
  assumes "map_inv e m" "cursor_at m c ep p n" "n < 2 ^ 31" "q AND POINTER_MASK \<noteq> 0" "map_set_string_key_value e alloc_ok m q v = Inr m'"
  shows "cursor_at m' c ep p (Suc n)"
proof -
  have "(if find_string_key_index e m q \<ge> 0 then Inr (store_value (find_string_key_index e m q) v m)
      else case ensure_capacity e alloc_ok m of Inl err \<Rightarrow> Inl err | Inr m \<Rightarrow> Inr (append_entry e (boxed_heap_string_key q) v m)) = Inr m'"
    using assms(5) unfolding map_set_string_key_value_def Let_def append_boxed_string [OF assms(4)] .
  then show ?thesis by (rule cursor_at_set [OF assms(1-3)])
qed

lemma cursor_at_raw:
  assumes "map_inv e m" "cursor_at m c ep p n" "n < 2 ^ 31"
  shows "cursor_at (snd (live_index_to_raw e m i)) c ep p (Suc n)"
  using cursor_at_if_holey [OF assms] cursor_at_mono [OF assms(2), of "Suc n"] by (simp add: live_index_to_raw_def)

lemma cursor_at_reads:
  assumes "map_inv e m" "cursor_at m c ep p n" "n < 2 ^ 31"
  shows "cursor_at (snd (map_get_resolved e cap m k)) c ep p (Suc n)"
    "cursor_at (snd (js_map_entry_key_at e m i)) c ep p (Suc n)" "cursor_at (snd (js_map_entry_value_at e m i)) c ep p (Suc n)"
    "cursor_at (snd (js_map_entries e m)) c ep p (Suc n)" "cursor_at m c ep p (Suc n)"
proof -
  show m: "cursor_at m c ep p (Suc n)" by (rule cursor_at_mono [OF assms(2)]) simp
  show "cursor_at (snd (map_get_resolved e cap m k)) c ep p (Suc n)"
    using cursor_at_store [OF m] m by (simp add: map_get_resolved_def Let_def)
  show "cursor_at (snd (js_map_entry_key_at e m i)) c ep p (Suc n)" "cursor_at (snd (js_map_entry_value_at e m i)) c ep p (Suc n)"
    using cursor_at_raw [OF assms, of i] by (auto simp: js_map_entry_key_at_def js_map_entry_value_at_def split: prod.split option.split)
  show "cursor_at (snd (js_map_entries e m)) c ep p (Suc n)"
    using cursor_at_if_holey [OF assms] by (simp add: js_map_entries_def Let_def)
qed

lemma cursor_at_js_map_delete:
  assumes "map_inv e m" "cursor_at m c ep p n" "n < 2 ^ 31" "\<not> raw_address k"
  shows "cursor_at (snd (js_map_delete e m k)) c ep (length (spec_delete e (normalize_zero k) (take p (live_entries m)))) (Suc n)"
  unfolding js_map_delete_def by (rule cursor_at_delete [OF assms(1) _ _ assms(2,3)])
    (use normalize_zero_map_key [OF assms(4)] find_position [OF assms(1,4)] in auto)

lemma cursor_at_step:
  assumes "map_inv e m" "map_op_ok op" "cursor_at m c ep p n" "n < 2 ^ 31" "map_step e alloc_ok cap op m = Inr (r, m')"
  shows "cursor_at m' c ep (spec_mark e op (live_entries m) p) (Suc n)"
proof -
  note reads = cursor_at_reads [OF assms(1,3,4)] and del = cursor_at_js_map_delete [OF assms(1,3,4)]
  have set: "cursor_at m' c ep p (Suc n)" if "map_set_resolved e alloc_ok m k v = Inr m'" for k v
    by (rule cursor_at_set [OF assms(1,3,4)]) (use that in \<open>simp add: map_set_resolved_def Let_def\<close>)
  show ?thesis
  proof (cases op)
    case (Map_set k v)
    then show ?thesis using assms(5) set by (auto split: sum.splits)
  next
    case (Map_set_string q v)
    then show ?thesis using assms(2,5) cursor_at_set_string [OF assms(1,3,4)] by (auto split: sum.splits)
  next
    case (Map_set_number k v)
    then show ?thesis using assms(5) set by (auto simp: number_key_ops split: sum.splits)
  next
    case (Map_get k)
    then show ?thesis using assms(5) reads(1) [of cap k] by (auto split: prod.splits)
  next
    case (Map_get_number k)
    then show ?thesis using assms(5) reads(1) [of cap "number_key k"] by (auto simp: number_key_ops split: prod.splits)
  next
    case (Map_delete k)
    then show ?thesis using assms(2,5) del [of k] by (auto split: prod.splits)
  next
    case (Map_delete_number k)
    then show ?thesis using assms(2,5) del [of "number_key k"] by (auto simp: number_key_ops split: prod.splits)
  next
    case (Map_delete_string q)
    then show ?thesis
      using assms(2,5) cursor_at_delete [OF assms(1) boxed_string_key(2) find_string_position [OF assms(1)] assms(3,4), of q]
      by (auto simp: js_map_delete_string_key_def split: prod.splits)
  next
    case Map_clear
    then show ?thesis using assms(5) cursor_at_clear [OF assms(1,3,4)] by auto
  next
    case (Map_key_at i)
    then show ?thesis using assms(5) reads(2) [of i] by (auto split: prod.splits)
  next
    case (Map_value_at i)
    then show ?thesis using assms(5) reads(3) [of i] by (auto split: prod.splits)
  next
    case Map_entries
    then show ?thesis using assms(5) reads(4) by (auto split: prod.splits)
  next
    case Map_foreach_enter
    then show ?thesis using assms(5) cursor_at_same_entries [OF reads(5), of m'] by (auto simp: map_foreach_enter_def)
  next
    case Map_foreach_leave
    let ?m = "m\<lparr>foreach_depth := foreach_depth m - 1\<rparr>"
    have l: "cursor_at ?m c ep p n" by (rule cursor_at_same_entries [OF assms(3)]) simp_all
    have "map_inv e ?m" using assms(1) by (simp add: map_inv_foreach)
    from cursor_at_if_holey [OF this l assms(4)] show ?thesis
      using Map_foreach_leave assms(5) cursor_at_mono [OF l, of "Suc n"] by (auto simp: map_foreach_leave_def Let_def split: if_splits)
  qed (use assms(5) reads(5) in auto)
qed

lemma cursor_at_run:
  assumes "map_inv e m" "\<And>op. op \<in> set ops \<Longrightarrow> map_op_ok op" "used m + length ops \<le> PTR_REBUILD_MAX"
    "cursor_at m c ep p n" "n + length ops \<le> 2 ^ 31" "run_map e alloc_ok cap ops m = Inr (rs, m')"
  shows "cursor_at m' c ep (run_mark e cap ops (live_entries m) p) (n + length ops)"
  using assms
proof (induction ops arbitrary: m p n rs)
  case (Cons op ops)
  obtain r m1 where r: "map_step e alloc_ok cap op m = Inr (r, m1)" using Cons.prems(6) by (auto split: sum.splits)
  have ok: "step_ok e cap op m (r, m1)" using map_step_sim [OF Cons.prems(1) _ _ r] Cons.prems(2,3) by simp
  then have m1: "map_inv e m1" "used m1 + length ops \<le> PTR_REBUILD_MAX" "spec_step e cap op (live_entries m) = (r, live_entries m1)"
    using Cons.prems(3) by (auto simp: step_ok_def)
  have op: "map_op_ok op" "n < 2 ^ 31" using Cons.prems(2,5) by simp_all
  note c1 = cursor_at_step [OF Cons.prems(1) op(1) Cons.prems(4) op(2) r]
  obtain rs' where "run_map e alloc_ok cap ops m1 = Inr (rs', m')" using Cons.prems(6) r by (auto split: sum.splits)
  from Cons.IH [OF m1(1) _ m1(2) c1 _ this] Cons.prems(2,5) show ?case by (simp add: m1(3))
qed simp

lemma run_map_used:
  assumes "map_inv e m" "\<And>op. op \<in> set ops \<Longrightarrow> map_op_ok op" "used m + length ops \<le> PTR_REBUILD_MAX"
    "run_map e alloc_ok cap ops m = Inr (rs, m')"
  shows "used m' \<le> used m + length ops"
  using assms
proof (induction ops arbitrary: m rs)
  case (Cons op ops)
  obtain r m1 rs' where r: "map_step e alloc_ok cap op m = Inr (r, m1)" "run_map e alloc_ok cap ops m1 = Inr (rs', m')"
    using Cons.prems(4) by (auto split: sum.splits)
  have ok: "step_ok e cap op m (r, m1)" using map_step_sim [OF Cons.prems(1) _ _ r(1)] Cons.prems(2,3) by simp
  then show ?case using Cons.IH [OF _ _ _ r(2)] Cons.prems(2,3) by (auto simp: step_ok_def)
qed simp

lemma cursor_skip_finds:
  assumes "i \<le> used m"
  shows "i \<le> cursor_skip m i \<and> cursor_skip m i \<le> used m \<and> live_below m (cursor_skip m i) = live_below m i \<and>
    (cursor_skip m i < used m \<longrightarrow> live_pair (entries m ! cursor_skip m i))"
  using assms
proof (induction m i rule: cursor_skip.induct)
  case (1 m i)
  show ?case
  proof (cases "i < used m \<and> fst (entries m ! i) = MAP_HOLE_KEY_BITS")
    case True
    then have "live_below m (i + 1) = live_below m i" by (simp add: live_below_def take_Suc_conv_app_nth live_pair_def)
    then show ?thesis using 1 True by (subst (1 2 3 4 5) cursor_skip.simps) auto
  next
    case False
    then show ?thesis using 1(2) by (subst (1 2 3 4 5) cursor_skip.simps) (auto simp: live_pair_def)
  qed
qed

lemma live_below_nth:
  assumes "i < used m" "live_pair (entries m ! i)"
  shows "live_below m i < length (live_entries m) \<and> live_entries m ! live_below m i = entries m ! i"
proof -
  have "live_entries m = filter live_pair (take i (entries m)) @ entries m ! i # filter live_pair (drop (Suc i) (entries m))"
    unfolding live_entries_filter using assms by (subst id_take_nth_drop [OF assms(1)]) simp
  then show ?thesis by (simp add: live_below_def)
qed

lemma map_cursor_next_raw_correct:
  assumes "cursor_at m c ep p n" "log_covers m ep"
  shows "case map_cursor_next_raw m c ep of
      None \<Rightarrow> p = length (live_entries m)
    | Some i \<Rightarrow> i < used m \<and> p < length (live_entries m) \<and> entries m ! i = live_entries m ! p \<and> live_below m i = p"
proof -
  let ?i = "cursor_skip m (rebase_map_cursor m c ep)"
  have "rebase_map_cursor m c ep \<le> used m" "live_below m (rebase_map_cursor m c ep) = p" using assms by (simp_all add: cursor_at_def)
  then have i: "?i \<le> used m" "live_below m ?i = p" "?i < used m \<Longrightarrow> live_pair (entries m ! ?i)"
    using cursor_skip_finds [of "rebase_map_cursor m c ep" m] by simp_all
  show ?thesis
  proof (cases "?i < used m")
    case True
    then show ?thesis using live_below_nth [OF True i(3) [OF True]] i(2) by (simp add: map_cursor_next_raw_def Let_def)
  next
    case False
    then have "p = length (live_entries m)" using i(1,2) by (simp add: live_below_def live_entries_filter)
    then show ?thesis using False by (simp add: map_cursor_next_raw_def Let_def)
  qed
qed

lemma f64_cursor:
  assumes "c < 2 ^ 32"
  shows "(if f64_lt 0 (f64_of_int (int c)) then f64_as_u32 (f64_of_int (int c)) else 0) = c"
proof -
  have z: "\<bar>int c\<bar> < 2 ^ 53" using assms by simp
  have "f64_as_u32 (f64_of_int (int c)) = c"
    using dense_integer_key_of_int(1) [OF assms] by (auto simp: dense_integer_key_def Let_def split: if_splits)
  moreover have "f64_lt 0 (f64_of_int (int c)) \<longleftrightarrow> 0 < c"
    using f64_of_int_units(1) [OF z] f64_of_int_not_nan [OF z] f64_of_int_units(1) [of 0] f64_of_int_not_nan [of 0]
    by (simp add: f64_lt_def f64_of_int_0)
  ultimately show ?thesis by simp
qed

lemma js_map_cursor_next_eq:
  assumes "c < 2 ^ 32"
  shows "js_map_cursor_next m (f64_of_int (int c)) (js_map_compaction_epoch m') =
    f64_of_int (case map_cursor_next_raw m c (compaction_epoch m') of None \<Rightarrow> - 1 | Some i \<Rightarrow> int i)"
proof -
  have "unat (compaction_epoch m') < 2 ^ 32" using unsigned_less [of "compaction_epoch m'"] by simp
  note cursors = f64_cursor [OF assms] f64_cursor [OF this]
  show ?thesis unfolding js_map_cursor_next_def js_map_compaction_epoch_def map_compaction_epoch_def Let_def cursors
    by (simp split: option.split)
qed

lemma cursor_at_start:
  assumes "log_wf m" "length (log_records m) \<le> n" "c \<le> used m"
  shows "cursor_at m c (compaction_epoch m) (live_below m c) n"
  using assms by (simp add: cursor_at_def squeezes_since_def rebase_map_cursor_def)

lemma fresh_run_log:
  assumes "\<And>op. op \<in> set ops \<Longrightarrow> map_op_ok op" "length ops \<le> PTR_REBUILD_MAX" "run_map e alloc_ok cap ops (fresh_map n) = Inr (rs, m)"
  shows "log_wf m" "length (log_records m) \<le> length ops"
proof -
  let ?a = "fresh_map n"
  have fresh: "cursor_at ?a 0 0 0 0" by (simp add: cursor_at_def fresh_map_def log_wf_def squeezes_since_def rebase_map_cursor_def live_below_def)
  have "cursor_at m 0 0 (run_mark e cap ops (live_entries ?a) 0) (0 + length ops)"
    by (rule cursor_at_run [OF map_inv_alloc(1) assms(1) _ fresh _ assms(3)]) (use assms(2) map_inv_alloc(3) [of n] in \<open>auto simp: PTR_REBUILD_MAX_def\<close>)
  then show "log_wf m" "length (log_records m) \<le> length ops" by (simp_all add: cursor_at_def)
qed

subsection \<open>Properties\<close>

text \<open>
  C4. The cursor of \<open>for-of\<close> survives every change of the map. A walk that has read up to a raw
  position of a reachable map, and lets any operations run before it asks for the next entry (among
  them deletions, clearing, growth and the compactions they cause), gets exactly the entry that
  follows the visited ones in insertion order, or the end when all the remaining ones are visited:
  no live entry is skipped and none is seen twice. The condition is that the log still has the
  squeezes since the walk last synchronised. The entry point that takes doubles agrees.
\<close>

theorem map_cursor_exact:
  assumes "\<forall>op \<in> set (ops @ ops'). map_op_ok op" "length (ops @ ops') \<le> PTR_REBUILD_MAX"
    "run_map e alloc_ok clean_arr_ptr ops (fresh_map n) = Inr (rs, m)" "c \<le> used m"
    "run_map e alloc_ok clean_arr_ptr ops' m = Inr (rs', m')" "log_covers m' (map_compaction_epoch m)"
    "visited = run_mark e clean_arr_ptr ops' (live_entries m) (live_below m c)"
  shows "js_map_cursor_next m' (f64_of_int (int c)) (js_map_compaction_epoch m) =
      f64_of_int (case map_cursor_next_raw m' c (map_compaction_epoch m) of None \<Rightarrow> - 1 | Some i \<Rightarrow> int i) \<and>
    (case map_cursor_next_raw m' c (map_compaction_epoch m) of
       None \<Rightarrow> visited = length (live_entries m')
     | Some i \<Rightarrow> i < used m' \<and> visited < length (live_entries m') \<and> entries m' ! i = live_entries m' ! visited \<and>
         live_below m' i = visited)"
proof -
  have ok: "\<And>op. op \<in> set ops \<Longrightarrow> map_op_ok op" "\<And>op. op \<in> set ops' \<Longrightarrow> map_op_ok op" using assms(1) by auto
  have "length ops \<le> PTR_REBUILD_MAX" using assms(2) by simp
  note log = fresh_run_log [OF ok(1) this assms(3)]
  note start = cursor_at_start [OF log assms(4)]
  have sim: "map_inv e m"
    using run_map_sim [OF map_inv_alloc(1) [of e n] ok(1), of ops alloc_ok clean_arr_ptr]
      assms(2,3) map_inv_alloc(3) [of n] by simp
  have used: "used m \<le> length ops"
    using run_map_used [OF map_inv_alloc(1) ok(1) _ assms(3)] assms(2) map_inv_alloc(3) [of n] by simp
  have c: "c < 2 ^ 32" using assms(2,4) used by (simp add: PTR_REBUILD_MAX_def)
  have "cursor_at m' c (compaction_epoch m) visited (length ops + length ops')" unfolding assms(7)
    by (rule cursor_at_run [OF sim ok(2) _ start _ assms(5)]) (use assms(2) used in \<open>auto simp: PTR_REBUILD_MAX_def\<close>)
  from map_cursor_next_raw_correct [OF this] js_map_cursor_next_eq [OF c] assms(6) show ?thesis by (simp add: map_compaction_epoch_def)
qed

subsection \<open>Small maps\<close>

text \<open>
  A map with room for four entries and no walk in progress, as its entries, its live count, its log
  and its epoch. The steps below follow it for number keys, which a map this small finds by a scan.
\<close>

definition small_map :: "js_map \<Rightarrow> (u64 \<times> u64) list \<Rightarrow> nat \<Rightarrow> compaction_record list \<Rightarrow> nat \<Rightarrow> u32 \<Rightarrow> bool" where
  "small_map m es sz recs kept ep \<longleftrightarrow> entries m = es \<and> map_size m = sz \<and> capacity m = 4 \<and> foreach_depth m = 0 \<and>
     log_records m = recs \<and> log_retained m = kept \<and> compaction_epoch m = ep"

lemma small_map_find:
  assumes "small_map m es sz recs kept ep" "length es \<le> 4" "is_plain_nonzero_number_bits k"
  shows "find_key_index e m k = scan_bits 0 es k"
  using assms by (simp add: find_key_index_def find_key_index_hot_def small_map_def SIDE_TABLE_THRESHOLD_def)

lemma small_map_set:
  assumes "small_map m es sz recs kept ep" "length es < 4" "is_plain_nonzero_number_bits k" "normalize_zero k = k" "scan_bits 0 es k = -1"
  shows "\<exists>m'. map_step e alloc_ok cap (Map_set k v) m = Inr (R_none, m') \<and> small_map m' (es @ [(k, v)]) (Suc sz) recs kept ep"
proof -
  have "map_set_resolved e alloc_ok m k v = Inr (append_entry e k v m)"
    using small_map_find [OF assms(1) _ assms(3)] assms
    by (simp add: map_set_resolved_def ensure_capacity_def small_map_def Let_def)
  moreover have "small_map (append_entry e k v m) (es @ [(k, v)]) (Suc sz) recs kept ep"
    using assms(1) by (simp add: small_map_def append_entry_eq)
  ultimately show ?thesis by simp
qed

lemma small_map_delete:
  assumes "small_map m es sz recs kept ep" "length es \<le> 4" "is_plain_nonzero_number_bits k" "normalize_zero k = k"
    "scan_bits 0 es k = int i" "i < length es"
  shows "\<exists>m'. map_step e alloc_ok cap (Map_delete k) m = Inr (R_int 1, m') \<and>
    small_map m' (es[i := (MAP_HOLE_KEY_BITS, TAG_UNDEFINED)]) (sz - 1) recs kept ep"
proof -
  have i: "i < used m" "used (tombstone_at e i m) < 16" using assms(1,2,6) by (simp_all add: small_map_def)
  then have "js_map_delete e m k = (1, tombstone_at e i m)"
    using small_map_find [OF assms(1,2,3)] assms(4,5) by (simp add: js_map_delete_def delete_entry_at_index_eq Let_def)
  moreover have "small_map (tombstone_at e i m) (es[i := (MAP_HOLE_KEY_BITS, TAG_UNDEFINED)]) (sz - 1) recs kept ep"
    using assms(1) by (simp add: small_map_def) (simp add: tombstone_at_def forget_map_index_entry_eq)
  ultimately show ?thesis by simp
qed

text \<open>Adding to a full map squeezes its tombstones out first.\<close>

lemma small_map_squeeze:
  assumes "small_map m es sz recs kept ep" "length es = 4" "sz < 4" "is_plain_nonzero_number_bits k" "normalize_zero k = k" "scan_bits 0 es k = -1"
    "compact_loop 0 es = (out, removed)" "length out < 4" "removed \<noteq> []" "kept + length removed \<le> 4096"
  shows "\<exists>m'. map_step e alloc_ok cap (Map_set k v) m = Inr (R_none, m') \<and>
    small_map m' (out @ [(k, v)]) (Suc sz) (recs @ [\<lparr>rec_epoch = ep + 1, rec_removed = Indices removed\<rparr>]) (kept + length removed) (ep + 1)"
proof -
  let ?c = "compact_map_entries e m"
  have trim: "trim_log b r n = (r, n)" if "n \<le> b" for b r n using that by (cases r) simp_all
  have c: "small_map ?c out sz (recs @ [\<lparr>rec_epoch = ep + 1, rec_removed = Indices removed\<rparr>]) (kept + length removed) (ep + 1)"
    using assms(1,7,9) trim [OF assms(10)]
    by (simp add: small_map_def compact_map_entries_def note_map_compaction_def rebuild_map_ptr_index_def Let_def
        MAP_COMPACTION_LOG_MIN_BUDGET_def retained_len_def)
  have "map_set_resolved e alloc_ok m k v = Inr (append_entry e k v ?c)"
    using small_map_find [OF assms(1) _ assms(4)] assms(1-6,8) c
    by (simp add: map_set_resolved_def ensure_capacity_def small_map_def map_foreach_is_active_def Let_def)
  moreover have "small_map (append_entry e k v ?c) (out @ [(k, v)]) (Suc sz)
      (recs @ [\<lparr>rec_epoch = ep + 1, rec_removed = Indices removed\<rparr>]) (kept + length removed) (ep + 1)"
    using c by (simp add: small_map_def append_entry_eq)
  ultimately show ?thesis by simp
qed

lemma small_map_clear:
  assumes "small_map m es sz recs kept ep" "0 < sz"
  shows "\<exists>m'. map_step e alloc_ok cap Map_clear m = Inr (R_none, m') \<and>
    small_map m' [] 0 [\<lparr>rec_epoch = ep + 1, rec_removed = Prefix (length es)\<rparr>] 1 (ep + 1)"
  using assms by (auto simp: small_map_def js_map_clear_def Let_def map_foreach_is_active_def note_map_compaction_def
      MAP_COMPACTION_LOG_MIN_BUDGET_def retained_len_def split: prod.split)

text \<open>The doubles 1 to 8 as keys.\<close>

definition num_key :: "nat \<Rightarrow> u64" where
  "num_key i = [0x3FF0000000000000, 0x4000000000000000, 0x4008000000000000, 0x4010000000000000,
     0x4014000000000000, 0x4018000000000000, 0x401C000000000000, 0x4020000000000000] ! i"

lemma num_key_ok:
  assumes "i < 8"
  shows "is_plain_nonzero_number_bits (num_key i)" "normalize_zero (num_key i) = num_key i" "\<not> raw_address (num_key i)"
    "num_key i \<noteq> MAP_HOLE_KEY_BITS" "is_safe_numeric_key (num_key i)"
proof -
  have "i = 0 \<or> i = 1 \<or> i = 2 \<or> i = 3 \<or> i = 4 \<or> i = 5 \<or> i = 6 \<or> i = 7" using assms by auto
  then show "is_plain_nonzero_number_bits (num_key i)" "normalize_zero (num_key i) = num_key i" "\<not> raw_address (num_key i)"
    "num_key i \<noteq> MAP_HOLE_KEY_BITS" "is_safe_numeric_key (num_key i)"
    by (auto simp: num_key_def is_plain_nonzero_number_bits_def normalize_zero_def raw_address_def is_safe_numeric_key_def
        MAP_HOLE_KEY_BITS_def tag_defs f64_eq_0_iff f64_is_nan_def f64_exp_def)
qed

lemma num_key_inj: "i < 8 \<Longrightarrow> j < 8 \<Longrightarrow> num_key i = num_key j \<longleftrightarrow> i = j"
  using nth_eq_iff_index_eq [of "[0x3FF0000000000000, 0x4000000000000000, 0x4008000000000000, 0x4010000000000000,
     0x4014000000000000, 0x4018000000000000, 0x401C000000000000, 0x4020000000000000 :: u64]" i j] by (simp add: num_key_def)

lemma num_key_eq: "i < 8 \<Longrightarrow> j < 8 \<Longrightarrow> jsvalue_eq e (num_key i) (num_key j) \<longleftrightarrow> i = j"
  using safe_key_eq num_key_ok(5) num_key_inj by metis

lemma small_map_fill:
  "\<exists>m. run_map e alloc_ok cap [Map_set (num_key 0) v, Map_set (num_key 1) v, Map_set (num_key 2) v, Map_set (num_key 3) v] (fresh_map 0)
      = Inr ([R_none, R_none, R_none, R_none], m) \<and>
    small_map m [(num_key 0, v), (num_key 1, v), (num_key 2, v), (num_key 3, v)] 4 [] 0 0"
proof -
  have m0: "small_map (fresh_map 0) [] 0 [] 0 0" by (simp add: small_map_def fresh_map_def)
  obtain m1 where m1: "map_step e alloc_ok cap (Map_set (num_key 0) v) (fresh_map 0) = Inr (R_none, m1)"
    "small_map m1 [(num_key 0, v)] 1 [] 0 0"
    using small_map_set [OF m0 _ num_key_ok(1,2) [of 0], where e = e and alloc_ok = alloc_ok and cap = cap and v = v]
    by (auto simp: num_key_inj eval_nat_numeral)
  obtain m2 where m2: "map_step e alloc_ok cap (Map_set (num_key 1) v) m1 = Inr (R_none, m2)"
    "small_map m2 [(num_key 0, v), (num_key 1, v)] 2 [] 0 0"
    using small_map_set [OF m1(2) _ num_key_ok(1,2) [of 1], where e = e and alloc_ok = alloc_ok and cap = cap and v = v]
    by (auto simp: num_key_inj eval_nat_numeral)
  obtain m3 where m3: "map_step e alloc_ok cap (Map_set (num_key 2) v) m2 = Inr (R_none, m3)"
    "small_map m3 [(num_key 0, v), (num_key 1, v), (num_key 2, v)] 3 [] 0 0"
    using small_map_set [OF m2(2) _ num_key_ok(1,2) [of 2], where e = e and alloc_ok = alloc_ok and cap = cap and v = v]
    by (auto simp: num_key_inj eval_nat_numeral)
  obtain m4 where m4: "map_step e alloc_ok cap (Map_set (num_key 3) v) m3 = Inr (R_none, m4)"
    "small_map m4 [(num_key 0, v), (num_key 1, v), (num_key 2, v), (num_key 3, v)] 4 [] 0 0"
    using small_map_set [OF m3(2) _ num_key_ok(1,2) [of 3], where e = e and alloc_ok = alloc_ok and cap = cap and v = v]
    by (auto simp: num_key_inj eval_nat_numeral)
  show ?thesis using m1(1) m2(1) m3(1) m4 by auto
qed

lemma num_key_live: "i < 8 \<Longrightarrow> live_pair (num_key i, v)"
  using num_key_ok(4) by (simp add: live_pair_def)

theorem map_cursor_exact_witness:
  "\<exists>m m'. run_map sample_env (\<lambda>_. True) id [Map_set (num_key 0) TAG_TRUE, Map_set (num_key 1) TAG_TRUE, Map_set (num_key 2) TAG_TRUE, Map_set (num_key 3) TAG_TRUE] (fresh_map 0)
      = Inr ([R_none, R_none, R_none, R_none], m) \<and>
    run_map sample_env (\<lambda>_. True) id [Map_delete (num_key 0), Map_set (num_key 4) TAG_TRUE] m = Inr ([R_int 1, R_none], m') \<and>
    map_compaction_epoch m' \<noteq> map_compaction_epoch m \<and>
    (\<exists>i. map_cursor_next_raw m' 2 (map_compaction_epoch m) = Some i \<and> entries m' ! i = (num_key 2, TAG_TRUE))"
proof -
  let ?ops = "[Map_set (num_key 0) TAG_TRUE, Map_set (num_key 1) TAG_TRUE, Map_set (num_key 2) TAG_TRUE, Map_set (num_key 3) TAG_TRUE]"
  let ?ops' = "[Map_delete (num_key 0), Map_set (num_key 4) TAG_TRUE]"
  let ?h = "(MAP_HOLE_KEY_BITS, TAG_UNDEFINED)"
  obtain m where m: "run_map sample_env (\<lambda>_. True) id ?ops (fresh_map 0) = Inr ([R_none, R_none, R_none, R_none], m)"
    "small_map m [(num_key 0, TAG_TRUE), (num_key 1, TAG_TRUE), (num_key 2, TAG_TRUE), (num_key 3, TAG_TRUE)] 4 [] 0 0" using small_map_fill by blast
  obtain m1 where m1: "map_step sample_env (\<lambda>_. True) id (Map_delete (num_key 0)) m = Inr (R_int 1, m1)"
    "small_map m1 [?h, (num_key 1, TAG_TRUE), (num_key 2, TAG_TRUE), (num_key 3, TAG_TRUE)] 3 [] 0 0"
    using small_map_delete [OF m(2) _ num_key_ok(1,2) [of 0], where e = sample_env and alloc_ok = "\<lambda>_. True" and cap = id and i = 0]
    by (auto simp: num_key_inj)
  have loop: "compact_loop 0 [?h, (num_key 1, TAG_TRUE), (num_key 2, TAG_TRUE), (num_key 3, TAG_TRUE)] = ([(num_key 1, TAG_TRUE), (num_key 2, TAG_TRUE), (num_key 3, TAG_TRUE)], [0])"
    by (simp add: num_key_ok(4))
  obtain m2 where m2: "map_step sample_env (\<lambda>_. True) id (Map_set (num_key 4) TAG_TRUE) m1 = Inr (R_none, m2)"
    "small_map m2 [(num_key 1, TAG_TRUE), (num_key 2, TAG_TRUE), (num_key 3, TAG_TRUE), (num_key 4, TAG_TRUE)] 4 [\<lparr>rec_epoch = 1, rec_removed = Indices [0]\<rparr>] 1 1"
    using small_map_squeeze [OF m1(2) _ _ num_key_ok(1,2) [of 4] _ loop, where e = sample_env and alloc_ok = "\<lambda>_. True" and cap = id and v = TAG_TRUE]
      num_key_ok(4) [of 4] by (auto simp: num_key_inj eval_nat_numeral)
  have run: "run_map sample_env (\<lambda>_. True) id ?ops' m = Inr ([R_int 1, R_none], m2)" using m1(1) m2(1) by simp
  have ok: "\<forall>op \<in> set (?ops @ ?ops'). map_op_ok op" "length (?ops @ ?ops') \<le> PTR_REBUILD_MAX"
    using num_key_ok(3) by (simp_all add: PTR_REBUILD_MAX_def)
  have c: "2 \<le> used m" "log_covers m2 (map_compaction_epoch m)"
    using m(2) m2(2) by (simp_all add: small_map_def log_covers_def squeezes_since_def map_compaction_epoch_def)
  have live: "live_entries m = [(num_key 0, TAG_TRUE), (num_key 1, TAG_TRUE), (num_key 2, TAG_TRUE), (num_key 3, TAG_TRUE)]" "live_below m 2 = 2"
    "live_entries m2 = [(num_key 1, TAG_TRUE), (num_key 2, TAG_TRUE), (num_key 3, TAG_TRUE), (num_key 4, TAG_TRUE)]"
    using m(2) m2(2) num_key_live by (simp_all add: small_map_def live_entries_filter live_below_def)
  have mark: "run_mark sample_env id ?ops' (live_entries m) (live_below m 2) = 1"
    using num_key_ok(2) by (simp add: live spec_delete_def num_key_eq)
  from map_cursor_exact [OF ok m(1) c(1) run c(2) mark [symmetric]]
  have "\<exists>i. map_cursor_next_raw m2 2 (map_compaction_epoch m) = Some i \<and> entries m2 ! i = (num_key 2, TAG_TRUE)"
    unfolding live by (auto split: option.splits)
  moreover have "map_compaction_epoch m2 \<noteq> map_compaction_epoch m" using m(2) m2(2) by (simp add: small_map_def map_compaction_epoch_def)
  ultimately show ?thesis using m(1) run by blast
qed

text \<open>
  C37. A cursor is not always reset by \<open>clear\<close>. The record of a clear drops the older history, on the
  ground that every cursor rebases to the start through it; but it moves a cursor down only by the
  extent that was cleared. After a squeeze that shortened the extent, a cursor that has not been
  rebased yet stays ahead: here a walk has visited four entries, its body deletes three of them,
  adds one (which squeezes the map), clears the map and adds three. The walk goes on with the third
  of the new entries, and the first two are never visited.
\<close>

theorem clear_after_squeeze_skips_entries:
  "\<exists>m m' rs rs'. run_map e alloc_ok clean_arr_ptr
      [Map_set (num_key 0) v, Map_set (num_key 1) v, Map_set (num_key 2) v, Map_set (num_key 3) v] (fresh_map 0) = Inr (rs, m) \<and>
    run_map e alloc_ok clean_arr_ptr
      [Map_delete (num_key 0), Map_delete (num_key 1), Map_delete (num_key 2), Map_set (num_key 4) v, Map_clear,
       Map_set (num_key 5) v, Map_set (num_key 6) v, Map_set (num_key 7) v] m = Inr (rs', m') \<and>
    entries m' = [(num_key 5, v), (num_key 6, v), (num_key 7, v)] \<and>
    map_cursor_next_raw m' 4 (map_compaction_epoch m) = Some 2"
proof -
  let ?h = "(MAP_HOLE_KEY_BITS, TAG_UNDEFINED)"
  note set = small_map_set [where e = e and alloc_ok = alloc_ok and cap = clean_arr_ptr and v = v]
  note del = small_map_delete [where e = e and alloc_ok = alloc_ok and cap = clean_arr_ptr]
  note keys = num_key_ok(1,2)
  obtain m rs where m: "run_map e alloc_ok clean_arr_ptr
      [Map_set (num_key 0) v, Map_set (num_key 1) v, Map_set (num_key 2) v, Map_set (num_key 3) v] (fresh_map 0) = Inr (rs, m)"
    "small_map m [(num_key 0, v), (num_key 1, v), (num_key 2, v), (num_key 3, v)] 4 [] 0 0" using small_map_fill by blast
  obtain m1 where m1: "map_step e alloc_ok clean_arr_ptr (Map_delete (num_key 0)) m = Inr (R_int 1, m1)"
    "small_map m1 [?h, (num_key 1, v), (num_key 2, v), (num_key 3, v)] 3 [] 0 0"
    using del [OF m(2) _ keys [of 0], where i = 0] by (auto simp: num_key_inj)
  obtain m2 where m2: "map_step e alloc_ok clean_arr_ptr (Map_delete (num_key 1)) m1 = Inr (R_int 1, m2)"
    "small_map m2 [?h, ?h, (num_key 2, v), (num_key 3, v)] 2 [] 0 0"
    using del [OF m1(2) _ keys [of 1], where i = 1] num_key_ok(4) [of 1] by (auto simp: num_key_inj)
  obtain m3 where m3: "map_step e alloc_ok clean_arr_ptr (Map_delete (num_key 2)) m2 = Inr (R_int 1, m3)"
    "small_map m3 [?h, ?h, ?h, (num_key 3, v)] 1 [] 0 0"
    using del [OF m2(2) _ keys [of 2], where i = 2] num_key_ok(4) [of 2] by (auto simp: num_key_inj eval_nat_numeral)
  have loop: "compact_loop 0 [?h, ?h, ?h, (num_key 3, v)] = ([(num_key 3, v)], [0, 1, 2])" by (simp add: num_key_ok(4))
  obtain m4 recs kept where m4: "map_step e alloc_ok clean_arr_ptr (Map_set (num_key 4) v) m3 = Inr (R_none, m4)"
    "small_map m4 [(num_key 3, v), (num_key 4, v)] 2 recs kept 1"
    using small_map_squeeze [OF m3(2) _ _ keys [of 4] _ loop, where e = e and alloc_ok = alloc_ok and cap = clean_arr_ptr and v = v]
      num_key_ok(4) [of 4] by (auto simp: num_key_inj eval_nat_numeral)
  let ?r = "[\<lparr>rec_epoch = 2, rec_removed = Prefix 2\<rparr>]"
  obtain m5 where m5: "map_step e alloc_ok clean_arr_ptr Map_clear m4 = Inr (R_none, m5)" "small_map m5 [] 0 ?r 1 2"
    using small_map_clear [OF m4(2), of e alloc_ok clean_arr_ptr] by (auto simp: eval_nat_numeral)
  obtain m6 where m6: "map_step e alloc_ok clean_arr_ptr (Map_set (num_key 5) v) m5 = Inr (R_none, m6)"
    "small_map m6 [(num_key 5, v)] 1 ?r 1 2"
    using set [OF m5(2) _ keys [of 5]] by (auto simp: eval_nat_numeral)
  obtain m7 where m7: "map_step e alloc_ok clean_arr_ptr (Map_set (num_key 6) v) m6 = Inr (R_none, m7)"
    "small_map m7 [(num_key 5, v), (num_key 6, v)] 2 ?r 1 2"
    using set [OF m6(2) _ keys [of 6]] by (auto simp: num_key_inj eval_nat_numeral)
  obtain m8 where m8: "map_step e alloc_ok clean_arr_ptr (Map_set (num_key 7) v) m7 = Inr (R_none, m8)"
    "small_map m8 [(num_key 5, v), (num_key 6, v), (num_key 7, v)] 3 ?r 1 2"
    using set [OF m7(2) _ keys [of 7]] by (auto simp: num_key_inj eval_nat_numeral)
  have "rebase_map_cursor m8 4 (map_compaction_epoch m) = 2"
    using m(2) m8(2) by (simp add: small_map_def rebase_map_cursor_def map_compaction_epoch_def count_below_def)
  then have "map_cursor_next_raw m8 4 (map_compaction_epoch m) = Some 2"
    using m8(2) num_key_ok(4) [of 7] unfolding map_cursor_next_raw_def by (subst cursor_skip.simps) (simp add: small_map_def)
  moreover have "entries m8 = [(num_key 5, v), (num_key 6, v), (num_key 7, v)]" using m8(2) by (simp add: small_map_def)
  ultimately show ?thesis using m(1) m1(1) m2(1) m3(1) m4(1) m5(1) m6(1) m7(1) m8(1) by auto
qed

end
