(* ===== verification/Collection_Walk.thy ===== *)
theory Collection_Walk
  imports NaN_Box
begin

text \<open>
  The walk of \<open>forEach\<close> over a collection that its callback may change, for any collection whose slots
  keep their positions while a walk is in progress: the callback as a program over the operations of the
  collection, the check of the callback argument, and an interface with the laws a walk relies on. The
  laws speak of one operation at a time: the slots are a live value or a tombstone, the live slots spell
  the contents in order, and an operation acts on the contents as its specification says while the slots
  stay where they are.
\<close>

subsection \<open>Callbacks\<close>

text \<open>
  What leaves a walk before its end: an error of the runtime, or a value thrown by the callback.
\<close>

datatype walk_throw = Runtime_throw js_throw | User_throw u64

text \<open>
  A callback is a program: it returns, throws, or runs an operation on the collection and goes on
  depending on its result. The state \<open>'s\<close> is whatever else of the user's program the callback changes.
\<close>

datatype ('op, 'r, 's) callback_prog =
    Return 's
  | Throw u64 's
  | Do 's 'op "'r \<Rightarrow> ('op, 'r, 's) callback_prog"

text \<open>An error of an operation, such as a failed allocation, leaves the callback; the collection stays as it was.\<close>

primrec run_prog :: "('op \<Rightarrow> 'm \<Rightarrow> js_throw + 'r \<times> 'm) \<Rightarrow> ('op, 'r, 's) callback_prog \<Rightarrow> 'm \<Rightarrow> walk_throw option \<times> 's \<times> 'm" where
  "run_prog step (Return s) m = (None, s, m)"
| "run_prog step (Throw x s) m = (Some (User_throw x), s, m)"
| "run_prog step (Do s op f) m =
     (case step op m of Inl err \<Rightarrow> (Some (Runtime_throw err), s, m) | Inr (r, m') \<Rightarrow> run_prog step (f r) m')"

text \<open>
  The same program on the contents, with the number of visited values that are still there.
\<close>

primrec spec_prog ::
    "('op \<Rightarrow> 'v list \<Rightarrow> 'r \<times> 'v list) \<Rightarrow> ('op \<Rightarrow> 'v list \<Rightarrow> nat \<Rightarrow> nat) \<Rightarrow> ('op, 'r, 's) callback_prog \<Rightarrow> 'v list \<Rightarrow> nat
     \<Rightarrow> walk_throw option \<times> 's \<times> 'v list \<times> nat" where
  "spec_prog step mark (Return s) L p = (None, s, L, p)"
| "spec_prog step mark (Throw x s) L p = (Some (User_throw x), s, L, p)"
| "spec_prog step mark (Do s op f) L p = (case step op L of (r, L') \<Rightarrow> spec_prog step mark (f r) L' (mark op L p))"

text \<open>Every run of the program has at most \<open>n\<close> operations, all of them allowed.\<close>

primrec prog_ok :: "('op \<Rightarrow> bool) \<Rightarrow> ('op, 'r, 's) callback_prog \<Rightarrow> nat \<Rightarrow> bool" where
  "prog_ok ok (Return s) n \<longleftrightarrow> True"
| "prog_ok ok (Throw x s) n \<longleftrightarrow> True"
| "prog_ok ok (Do s op f) n \<longleftrightarrow> 0 < n \<and> ok op \<and> (\<forall>r. prog_ok ok (f r) (n - 1))"

text \<open>
  What the walk asks of the rest of the runtime: whether a pointer is a closure, whether a value is a
  proxy around a callable, how a value is rendered in an error message, and the call itself, which
  receives the callback, the \<open>this\<close> argument and the argument vector.
\<close>

record ('s, 'm) callback_host =
  func_ptr_valid :: "addr \<Rightarrow> bool"
  proxy_callable :: "u64 \<Rightarrow> bool"
  render_callback_typeof :: "u64 \<Rightarrow> string"
  js_native_call_value :: "u64 \<Rightarrow> u64 \<Rightarrow> u64 list \<Rightarrow> 's \<Rightarrow> 'm \<Rightarrow> walk_throw option \<times> 's \<times> 'm"

definition resolve_callback_ptr :: "('s, 'm) callback_host \<Rightarrow> u64 \<Rightarrow> addr option" where
  "resolve_callback_ptr host cb =
     (if is_pointer cb then
        let p = as_pointer cb in if func_ptr_valid host p \<or> proxy_callable host cb then Some p else None
      else None)"

definition js_validate_array_callback :: "('s, 'm) callback_host \<Rightarrow> u64 \<Rightarrow> js_throw + addr" where
  "js_validate_array_callback host cb =
     (case resolve_callback_ptr host cb of
        Some p \<Rightarrow> Inr p
      | None \<Rightarrow> Inl (TypeError (render_callback_typeof host cb @ '' is not a function'')))"

text \<open>A host in which every pointer is a closure, and the call runs one program.\<close>

definition prog_host :: "('op \<Rightarrow> 'm \<Rightarrow> js_throw + 'r \<times> 'm) \<Rightarrow> (u64 list \<Rightarrow> 's \<Rightarrow> ('op, 'r, 's) callback_prog) \<Rightarrow> ('s, 'm) callback_host" where
  "prog_host step cb =
     \<lparr>func_ptr_valid = \<lambda>_. True, proxy_callable = \<lambda>_. False, render_callback_typeof = \<lambda>_. [],
      js_native_call_value = \<lambda>_ _ args s. run_prog step (cb args s)\<rparr>"

text \<open>The third argument of the callback: the collection, or the instance of a subclass that wraps it.\<close>

definition collection_value :: "u64 \<Rightarrow> addr \<Rightarrow> u64" where
  "collection_value collection_override self =
     (let has_override = collection_override \<noteq> TAG_UNDEFINED
      in if has_override then collection_override else js_nanbox_pointer self)"

definition sample_callback :: u64 where "sample_callback = 0x7FFD000000020000"

lemma prog_host_calls:
  "resolve_callback_ptr (prog_host step cb) sample_callback \<noteq> None"
  "js_native_call_value (prog_host step cb) callback this_arg = (\<lambda>args s. run_prog step (cb args s))"
  by (simp_all add: resolve_callback_ptr_def prog_host_def sample_callback_def is_pointer_def tag_defs Let_def)

subsection \<open>The walks\<close>

text \<open>The raw walk re-reads the extent after every call; it may not end, so it has fuel.\<close>

fun walk_loop ::
    "('m \<Rightarrow> nat) \<Rightarrow> ('m \<Rightarrow> nat \<Rightarrow> 'v option) \<Rightarrow> ('v \<Rightarrow> 's \<Rightarrow> 'm \<Rightarrow> 'x option \<times> 's \<times> 'm) \<Rightarrow> nat \<Rightarrow> nat \<Rightarrow> 's \<Rightarrow> 'm
     \<Rightarrow> ('x option \<times> 's \<times> 'm) option" where
  "walk_loop extent slot call 0 i s m = None"
| "walk_loop extent slot call (Suc fuel) i s m =
     (if i \<ge> extent m then Some (None, s, m)
      else case slot m i of
             None \<Rightarrow> walk_loop extent slot call fuel (i + 1) s m
           | Some v \<Rightarrow>
               (case call v s m of
                  (None, s, m) \<Rightarrow> walk_loop extent slot call fuel (i + 1) s m
                | (Some x, s, m) \<Rightarrow> Some (Some x, s, m)))"

text \<open>The walk over the contents, at the number of visited values that are still there.\<close>

fun spec_walk ::
    "('v \<Rightarrow> 's \<Rightarrow> 'v list \<Rightarrow> nat \<Rightarrow> 'x option \<times> 's \<times> 'v list \<times> nat) \<Rightarrow> nat \<Rightarrow> nat \<Rightarrow> 's \<Rightarrow> 'v list
     \<Rightarrow> ('x option \<times> 's \<times> 'v list) option" where
  "spec_walk spec_call 0 p s L = None"
| "spec_walk spec_call (Suc n) p s L =
     (if p \<ge> length L then Some (None, s, L)
      else case spec_call (L ! p) s L (Suc p) of
             (None, s, L, p) \<Rightarrow> spec_walk spec_call n p s L
           | (Some x, s, L, p) \<Rightarrow> Some (Some x, s, L))"

subsection \<open>The interface\<close>

locale collection_walk =
  fixes walking :: "nat \<Rightarrow> 'm \<Rightarrow> bool"
    and extent :: "'m \<Rightarrow> nat" and slot :: "'m \<Rightarrow> nat \<Rightarrow> 'v option" and contents :: "'m \<Rightarrow> 'v list" and below :: "'m \<Rightarrow> nat \<Rightarrow> nat"
    and layout :: "'m \<Rightarrow> 'm \<Rightarrow> bool"
    and ok :: "'op \<Rightarrow> bool" and step :: "'op \<Rightarrow> 'm \<Rightarrow> js_throw + 'r \<times> 'm"
    and spec_step :: "'op \<Rightarrow> 'v list \<Rightarrow> 'r \<times> 'v list" and mark :: "'op \<Rightarrow> 'v list \<Rightarrow> nat \<Rightarrow> nat"
    and failed :: "js_throw \<Rightarrow> bool"
  assumes below_end: "below m (extent m) = length (contents m)"
    and below_live: "j < extent m \<Longrightarrow> slot m j = Some v \<Longrightarrow>
      below m j < length (contents m) \<and> contents m ! below m j = v \<and> below m (j + 1) = Suc (below m j)"
    and below_hole: "j < extent m \<Longrightarrow> slot m j = None \<Longrightarrow> below m (j + 1) = below m j"
    and layout_refl: "layout m m"
    and layout_trans: "layout m m' \<Longrightarrow> layout m' m'' \<Longrightarrow> layout m m''"
    and walking_mono: "walking n m \<Longrightarrow> k \<le> n \<Longrightarrow> walking k m"
    and step_failed: "walking (Suc n) m \<Longrightarrow> ok op \<Longrightarrow> step op m = Inl err \<Longrightarrow> failed err"
    and step_follows: "walking (Suc n) m \<Longrightarrow> ok op \<Longrightarrow> j \<le> extent m \<Longrightarrow> step op m = Inr (r, m') \<Longrightarrow>
      spec_step op (contents m) = (r, contents m') \<and> mark op (contents m) (below m j) = below m' j \<and>
      walking n m' \<and> j \<le> extent m' \<and> layout m m'"
begin

text \<open>A callback acts on the contents as its program says, unless one of its operations fails.\<close>

lemma prog_follows:
  assumes "prog_ok ok prog b" "walking (b + n) m" "j \<le> extent m" "run_prog step prog m = (x, s, m')"
  shows "walking n m' \<and> j \<le> extent m' \<and> layout m m' \<and>
    ((\<exists>err. x = Some (Runtime_throw err) \<and> failed err) \<or>
     spec_prog spec_step mark prog (contents m) (below m j) = (x, s, contents m', below m' j))"
  using assms
proof (induction prog arbitrary: b m)
  case (Do s0 op f)
  obtain c where c: "b = Suc c" using Do.prems(1) by (cases b) auto
  have ok: "ok op" "walking (Suc (c + n)) m" "\<And>r. prog_ok ok (f r) c" using Do.prems(1,2) c by simp_all
  show ?case
  proof (cases "step op m")
    case (Inl err)
    then have "x = Some (Runtime_throw err)" "m' = m" using Do.prems(4) by simp_all
    then show ?thesis using step_failed [OF ok(2,1) Inl] walking_mono [OF ok(2), of n] Do.prems(3) layout_refl by simp
  next
    case (Inr rm)
    obtain r m1 where m1: "step op m = Inr (r, m1)" using Inr by (cases rm) simp
    note f = step_follows [OF ok(2,1) Do.prems(3) m1]
    have "run_prog step (f r) m1 = (x, s, m')" using Do.prems(4) m1 by simp
    from Do.IH [OF _ ok(3) _ _ this] f layout_trans [of m m1 m'] show ?thesis by auto
  qed
qed (use walking_mono layout_refl in auto)

abbreviation loop :: "('v \<Rightarrow> 's \<Rightarrow> ('op, 'r, 's) callback_prog) \<Rightarrow> nat \<Rightarrow> nat \<Rightarrow> 's \<Rightarrow> 'm \<Rightarrow> (walk_throw option \<times> 's \<times> 'm) option" where
  "loop cb \<equiv> walk_loop extent slot (\<lambda>v s. run_prog step (cb v s))"

text \<open>Stepping over tombstones to the next live slot.\<close>

lemma skip_holes:
  assumes "i \<le> extent m"
  shows "\<exists>d. i + d \<le> extent m \<and> below m (i + d) = below m i \<and> (i + d < extent m \<longrightarrow> slot m (i + d) \<noteq> None) \<and>
    (\<forall>fuel s. loop cb (fuel + d) i s m = loop cb fuel (i + d) s m)"
  using assms
proof (induction "extent m - i" arbitrary: i)
  case 0
  then show ?case by (intro exI [of _ 0]) simp
next
  case (Suc k)
  show ?case
  proof (cases "slot m i")
    case None
    have "i + 1 \<le> extent m" "k = extent m - (i + 1)" using Suc.hyps(2) by simp_all
    from Suc.hyps(1) [OF this(2,1)] obtain d where d: "i + 1 + d \<le> extent m" "below m (i + 1 + d) = below m (i + 1)"
      "i + 1 + d < extent m \<longrightarrow> slot m (i + 1 + d) \<noteq> None" "\<And>fuel s. loop cb (fuel + d) (i + 1) s m = loop cb fuel (i + 1 + d) s m" by blast
    have "i < extent m" using Suc.hyps(2) by simp
    then have "loop cb (fuel + Suc d) i s m = loop cb fuel (i + Suc d) s m" for fuel s using None d(4) [of fuel s] by simp
    then show ?thesis using d(1-3) below_hole [OF \<open>i < extent m\<close> None] by (intro exI [of _ "Suc d"]) simp
  next
    case (Some v)
    then show ?thesis using Suc.prems by (intro exI [of _ 0]) simp
  qed
qed

theorem loop_follows:
  assumes "\<And>v s. prog_ok ok (cb v s) b" "walking (n * b) m" "i \<le> extent m"
    "spec_walk (\<lambda>v s. spec_prog spec_step mark (cb v s)) n (below m i) s (contents m) = Some (x, s', L)"
  shows "\<exists>fuel y s'' m'. loop cb fuel i s m = Some (y, s'', m') \<and> walking 0 m' \<and> layout m m' \<and>
    ((\<exists>err. y = Some (Runtime_throw err) \<and> failed err) \<or> (y = x \<and> s'' = s' \<and> contents m' = L))"
  using assms(2-)
proof (induction n arbitrary: i s m)
  case (Suc n)
  obtain d where d: "i + d \<le> extent m" "below m (i + d) = below m i" "i + d < extent m \<longrightarrow> slot m (i + d) \<noteq> None"
    "\<And>fuel s. loop cb (fuel + d) i s m = loop cb fuel (i + d) s m" using skip_holes [OF Suc.prems(2)] by blast
  show ?case
  proof (cases "i + d < extent m")
    case False
    then have "below m i = length (contents m)" using d(1,2) below_end [of m] by simp
    then have "x = None" "s' = s" "L = contents m" using Suc.prems(3) by simp_all
    moreover have "loop cb (Suc 0 + d) i s m = Some (None, s, m)" unfolding d(4) using False by simp
    ultimately show ?thesis using walking_mono [OF Suc.prems(1), of 0] layout_refl by blast
  next
    case True
    then obtain v where v: "slot m (i + d) = Some v" using d(3) by blast
    note nth = below_live [OF True v, unfolded d(2)]
    obtain y s1 m1 where m1: "run_prog step (cb v s) m = (y, s1, m1)" by (metis surj_pair)
    have call: "walking (n * b) m1" "i + d + 1 \<le> extent m1" "layout m m1"
      "(\<exists>err. y = Some (Runtime_throw err) \<and> failed err) \<or>
       spec_prog spec_step mark (cb v s) (contents m) (Suc (below m i)) = (y, s1, contents m1, below m1 (i + d + 1))"
      using prog_follows [OF assms(1) _ _ m1, where n = "n * b" and j = "i + d + 1"] Suc.prems(1) True nth by simp_all
    have loop: "loop cb (Suc fuel + d) i s m = (case y of None \<Rightarrow> loop cb fuel (i + d + 1) s1 m1 | Some z \<Rightarrow> Some (Some z, s1, m1))" for fuel
      unfolding d(4) using True v m1 by (simp split: option.split)
    note fin = walking_mono [OF call(1), of 0]
    show ?thesis
    proof (cases "\<exists>err. y = Some (Runtime_throw err) \<and> failed err")
      case True
      then show ?thesis using loop [of 0] fin call(3) by (intro exI [of _ "Suc 0 + d"]) auto
    next
      case False
      then have spec: "(case y of None \<Rightarrow> spec_walk (\<lambda>v s. spec_prog spec_step mark (cb v s)) n (below m1 (i + d + 1)) s1 (contents m1)
          | Some z \<Rightarrow> Some (Some z, s1, contents m1)) = Some (x, s', L)" using Suc.prems(3) nth call(4) by (auto split: option.split)
      show ?thesis
      proof (cases y)
        case (Some z)
        then show ?thesis using loop [of 0] fin call(3) spec by (intro exI [of _ "Suc 0 + d"]) auto
      next
        case None
        then obtain fuel w s2 m' where m': "loop cb fuel (i + d + 1) s1 m1 = Some (w, s2, m')" "walking 0 m'" "layout m1 m'"
          "(\<exists>err. w = Some (Runtime_throw err) \<and> failed err) \<or> (w = x \<and> s2 = s' \<and> contents m' = L)"
          using Suc.IH [OF call(1,2), of s1] spec by auto
        have "loop cb (Suc fuel + d) i s m = Some (w, s2, m')" unfolding loop using None m'(1) by simp
        then show ?thesis using m'(2,4) layout_trans [OF call(3) m'(3)] by blast
      qed
    qed
  qed
qed simp

end

end
