(* ===== verification/Map_Foreach.thy ===== *)
theory Map_Foreach
  imports Map_Cursor Collection_Walk
begin

text \<open>
  The walk of \<open>Map.prototype.forEach\<close> (\<open>map.rs\<close>) with a callback that changes the map it walks over,
  against the walk over the insertion-ordered list that the language prescribes, and a callback on
  which the two differ.
\<close>

subsection \<open>The walk\<close>

text \<open>
  The loop reads the extent anew before every step and calls the callback with value, key and
  collection. A throw of the callback leaves the loop at once. The walk need not end when the callback
  keeps adding entries, so it has fuel; \<open>None\<close> is a walk that has run out of it.
\<close>

fun foreach_loop ::
    "nat \<Rightarrow> (u64 list \<Rightarrow> 's \<Rightarrow> js_map \<Rightarrow> walk_throw option \<times> 's \<times> js_map) \<Rightarrow> u64 \<Rightarrow> nat \<Rightarrow> 's \<Rightarrow> js_map
     \<Rightarrow> (walk_throw option \<times> 's \<times> js_map) option" where
  "foreach_loop 0 call map_value i s m = None"
| "foreach_loop (Suc fuel) call map_value i s m =
     (if i \<ge> used m then Some (None, s, m)
      else
        let (key, v) = entries m ! i
        in if key = MAP_HOLE_KEY_BITS then foreach_loop fuel call map_value (i + 1) s m
           else case call [v, key, map_value] s m of
                  (None, s, m) \<Rightarrow> foreach_loop fuel call map_value (i + 1) s m
                | (Some x, s, m) \<Rightarrow> Some (Some x, s, m))"

text \<open>
  A callback that is not callable is refused before anything else. A throw passes by the end of the
  function, which would pop the walk from the stack of active walks; the enclosing \<open>try\<close> truncates that
  stack instead.
\<close>

definition js_map_foreach_impl ::
    "map_env \<Rightarrow> ('s, js_map) callback_host \<Rightarrow> nat \<Rightarrow> addr \<Rightarrow> u64 \<Rightarrow> u64 \<Rightarrow> u64 \<Rightarrow> 's \<Rightarrow> js_map
     \<Rightarrow> (walk_throw option \<times> 's \<times> js_map) option" where
  "js_map_foreach_impl e host fuel self callback this_arg collection_override s m =
     (case js_validate_array_callback host callback of
        Inl err \<Rightarrow> Some (Some (Runtime_throw err), s, m)
      | Inr _ \<Rightarrow>
          let m = (if map_foreach_is_active m then m else compact_if_holey e m);
              map_value = collection_value collection_override self;
              m = map_foreach_enter m
          in case foreach_loop fuel (js_native_call_value host callback this_arg) map_value 0 s m of
               None \<Rightarrow> None
             | Some (Some x, s, m) \<Rightarrow> Some (Some x, s, m)
             | Some (None, s, m) \<Rightarrow>
                 let (outermost, m) = map_foreach_leave m
                 in Some (None, s, if outermost then compact_if_holey e m else m))"

definition map_foreach_stack_restore :: "nat \<Rightarrow> js_map \<Rightarrow> js_map" where
  "map_foreach_stack_restore depth m = m\<lparr>foreach_depth := min depth (foreach_depth m)\<rparr>"

subsection \<open>A walk in progress keeps the positions\<close>

text \<open>
  The operations of a callback: all but the bulk snapshot, which squeezes the map under the walk, and
  the brackets of a nested walk over the same map.
\<close>

fun callback_op_ok :: "map_op \<Rightarrow> bool" where
  "callback_op_ok Map_entries = False"
| "callback_op_ok Map_foreach_enter = False"
| "callback_op_ok Map_foreach_leave = False"
| "callback_op_ok op = map_op_ok op"

lemma callback_op_map_op: "callback_op_ok op \<Longrightarrow> map_op_ok op"
  by (cases op) simp_all

definition same_layout :: "js_map \<Rightarrow> js_map \<Rightarrow> bool" where
  "same_layout m m' \<longleftrightarrow> log_records m' = log_records m \<and> compaction_epoch m' = compaction_epoch m \<and> foreach_depth m' = foreach_depth m"

lemma same_layout_trans: "same_layout m m' \<Longrightarrow> same_layout m' m'' \<Longrightarrow> same_layout m m''"
  by (simp add: same_layout_def)

lemma same_layout_basic:
  "same_layout m m" "same_layout m (store_value r v m)" "same_layout m (append_entry e k v m)" "same_layout m (tombstone_at e i m)"
  by (simp_all add: same_layout_def store_value_def append_entry_eq)

lemma same_layout_ensure:
  assumes "map_foreach_is_active m" "ensure_capacity e alloc_ok m = Inr m'"
  shows "same_layout m m'"
  using assms by (auto simp: same_layout_def ensure_capacity_def grow_entries_def Let_def split: if_splits)

lemma same_layout_set:
  assumes "map_foreach_is_active m"
    "(if r \<ge> 0 then Inr (store_value r v m)
      else case ensure_capacity e alloc_ok m of Inl err \<Rightarrow> Inl err | Inr m \<Rightarrow> Inr (append_entry e k v m)) = Inr m'"
  shows "same_layout m m'"
proof (cases "r \<ge> 0")
  case True
  then show ?thesis using assms(2) same_layout_basic(2) by auto
next
  case False
  then obtain m1 where m1: "ensure_capacity e alloc_ok m = Inr m1" "m' = append_entry e k v m1"
    using assms(2) by (cases "ensure_capacity e alloc_ok m") auto
  show ?thesis unfolding m1(2) using same_layout_ensure [OF assms(1) m1(1)] same_layout_basic(3) by (rule same_layout_trans)
qed

lemma same_layout_delete:
  assumes "map_foreach_is_active m"
  shows "same_layout m (snd (delete_entry_at_index e m r))"
proof (cases "r < 0 \<or> nat r \<ge> used m")
  case True
  then show ?thesis using same_layout_basic(1) by (auto simp: delete_entry_at_index_def)
next
  case False
  then obtain i where i: "r = int i" "i < used m" by (metis nat_int not_le zero_le_imp_eq_int)
  show ?thesis unfolding i(1) delete_entry_at_index_eq [OF i(2)]
    using assms same_layout_basic(4) [of m e i] by (simp add: Let_def map_foreach_is_active_def)
qed

lemma same_layout_clear:
  assumes "map_foreach_is_active m"
  shows "same_layout m (js_map_clear m)"
proof -
  define scan where "scan \<longleftrightarrow> used m > SIDE_TABLE_CLEAR_SCAN_MAX \<or> (\<exists>(k, _) \<in> set (entries m). \<not> is_safe_numeric_key k)"
  show ?thesis using assms unfolding js_map_clear_def Let_def scan_def [symmetric] same_layout_def by (simp add: map_foreach_is_active_def)
qed

lemma same_layout_reads:
  assumes "map_foreach_is_active m"
  shows "same_layout m (snd (map_get_resolved e cap m k))" "same_layout m (snd (js_map_entry_key_at e m i))"
    "same_layout m (snd (js_map_entry_value_at e m i))"
proof -
  show "same_layout m (snd (map_get_resolved e cap m k))" using same_layout_basic by (simp add: map_get_resolved_def Let_def)
  have "snd (live_index_to_raw e m i) = m" using assms by (simp add: live_index_to_raw_def)
  then show "same_layout m (snd (js_map_entry_key_at e m i))" "same_layout m (snd (js_map_entry_value_at e m i))"
    using same_layout_basic(1) by (auto simp: js_map_entry_key_at_def js_map_entry_value_at_def split: prod.splits option.splits)
qed

lemma same_layout_step:
  assumes "map_foreach_is_active m" "callback_op_ok op" "map_step e alloc_ok cap op m = Inr (r, m')"
  shows "same_layout m m'"
proof -
  note reads = same_layout_reads [OF assms(1)] and basic = same_layout_basic(1) [of m]
  have set: "same_layout m m'" if "map_set_resolved e alloc_ok m k v = Inr m'" for k v
    using that same_layout_set [OF assms(1)] unfolding map_set_resolved_def Let_def by blast
  have str: "same_layout m m'" if "map_set_string_key_value e alloc_ok m q v = Inr m'" "q AND POINTER_MASK \<noteq> 0" for q v
    using that(1) same_layout_set [OF assms(1)] unfolding map_set_string_key_value_def Let_def append_boxed_string [OF that(2)] by blast
  have del: "same_layout m (snd (js_map_delete e m k))" "same_layout m (snd (js_map_delete_string_key e m q))" for k q
    unfolding js_map_delete_def js_map_delete_string_key_def by (rule same_layout_delete [OF assms(1)])+
  show ?thesis
  proof (cases op)
    case (Map_set_string q v)
    then show ?thesis using assms(2,3) str by (auto split: sum.splits)
  next
    case (Map_get k)
    then show ?thesis using assms(3) reads(1) [of e cap k] by (auto split: prod.splits)
  next
    case (Map_get_number k)
    then show ?thesis using assms(3) reads(1) [of e cap "number_key k"] by (auto simp: number_key_ops split: prod.splits)
  next
    case (Map_delete k)
    then show ?thesis using assms(3) del(1) [of k] by (auto split: prod.splits)
  next
    case (Map_delete_number k)
    then show ?thesis using assms(3) del(1) [of "number_key k"] by (auto simp: number_key_ops split: prod.splits)
  next
    case (Map_delete_string q)
    then show ?thesis using assms(3) del(2) [of q] by (auto split: prod.splits)
  next
    case Map_clear
    then show ?thesis using assms(3) same_layout_clear [OF assms(1)] by auto
  next
    case (Map_key_at i)
    then show ?thesis using assms(3) reads(2) [of e i] by (auto split: prod.splits)
  next
    case (Map_value_at i)
    then show ?thesis using assms(3) reads(3) [of e i] by (auto split: prod.splits)
  qed (use assms(2,3) basic set in \<open>auto simp: number_key_ops split: sum.splits\<close>)
qed

subsection \<open>The walk over the ordered list\<close>

text \<open>What holds between two operations of a walk that has at most \<open>n\<close> more of them.\<close>

definition walking :: "map_env \<Rightarrow> nat \<Rightarrow> js_map \<Rightarrow> bool" where
  "walking e n m \<longleftrightarrow> map_inv e m \<and> map_foreach_is_active m \<and> log_wf m \<and> length (log_records m) \<le> PTR_REBUILD_MAX \<and>
     used m + n \<le> PTR_REBUILD_MAX"

text \<open>One operation: the map follows the ordered list, and so does the position.\<close>

lemma walking_step:
  assumes "walking e (Suc n) m" "callback_op_ok op" "j \<le> used m" "map_step e alloc_ok cap op m = Inr (r, m')"
  shows "spec_step e cap op (live_entries m) = (r, live_entries m') \<and> spec_mark e op (live_entries m) (live_below m j) = live_below m' j \<and>
    walking e n m' \<and> j \<le> used m' \<and> same_layout m m'"
proof -
  have w: "map_inv e m" "map_foreach_is_active m" "log_wf m" "length (log_records m) \<le> PTR_REBUILD_MAX" "used m + Suc n \<le> PTR_REBUILD_MAX"
    using assms(1) by (simp_all add: walking_def)
  have ok: "\<And>o'. o' \<in> set [op] \<Longrightarrow> map_op_ok o'" using callback_op_map_op [OF assms(2)] by simp
  have bound: "used m + length [op] \<le> PTR_REBUILD_MAX" using w(5) by simp
  have run: "run_map e alloc_ok cap [op] m = Inr ([r], m')" using assms(4) by simp
  have sim: "map_inv e m'" "spec_step e cap op (live_entries m) = (r, live_entries m')"
    using run_map_sim [OF w(1) ok bound, where alloc_ok = alloc_ok and cap = cap] run by (auto split: prod.splits)
  have lay: "same_layout m m'" by (rule same_layout_step [OF w(2) assms(2,4)])
  have "cursor_at m j (compaction_epoch m) (live_below m j) PTR_REBUILD_MAX" by (rule cursor_at_start [OF w(3,4) assms(3)])
  from cursor_at_run [OF w(1) ok bound this _ run]
  have "cursor_at m' j (compaction_epoch m) (spec_mark e op (live_entries m) (live_below m j)) (Suc PTR_REBUILD_MAX)"
    by (simp add: PTR_REBUILD_MAX_def)
  moreover have "log_covers m' (compaction_epoch m)" "rebase_map_cursor m' c (compaction_epoch m) = c" for c
    using lay w(4) by (simp_all add: same_layout_def log_covers_def squeezes_since_def rebase_map_cursor_def PTR_REBUILD_MAX_def)
  ultimately have at: "log_wf m'" "j \<le> used m'" "live_below m' j = spec_mark e op (live_entries m) (live_below m j)"
    by (simp_all add: cursor_at_def)
  have "used m' + n \<le> PTR_REBUILD_MAX" using run_map_used [OF w(1) ok bound run] w(5) by simp
  then have "walking e n m'" using sim(1) lay w(2,4) at(1) by (simp add: walking_def same_layout_def map_foreach_is_active_def)
  then show ?thesis using sim(2) at lay by simp
qed

lemma walking_fails:
  assumes "walking e (Suc n) m" "callback_op_ok op" "map_step e alloc_ok cap op m = Inl err"
  shows "err = throw_allocation_failed \<and> (\<exists>c. \<not> alloc_ok c)"
proof -
  have "run_map e alloc_ok cap [op] m = Inl err" using assms(3) by simp
  then show ?thesis using run_map_sim [of e m "[op]" alloc_ok cap] callback_op_map_op [OF assms(2)] assms(1) by (auto simp: walking_def)
qed

text \<open>The walk as an instance of the walk over a collection.\<close>

definition map_slot :: "js_map \<Rightarrow> nat \<Rightarrow> (u64 \<times> u64) option" where
  "map_slot m i = (if live_pair (entries m ! i) then Some (entries m ! i) else None)"

lemma foreach_loop_walk:
  "foreach_loop fuel call map_value i s m = walk_loop (\<lambda>m. used m) map_slot (\<lambda>kv. call [snd kv, fst kv, map_value]) fuel i s m"
  by (induction fuel arbitrary: i s m) (auto simp: map_slot_def live_pair_def split: prod.split option.split)

interpretation mw: collection_walk "walking e" "\<lambda>m. used m" map_slot live_entries live_below same_layout callback_op_ok
  "map_step e alloc_ok cap" "spec_step e cap" "spec_mark e" "\<lambda>err. err = throw_allocation_failed \<and> (\<exists>c. \<not> alloc_ok c)" for e alloc_ok cap
proof
  show "live_below m (used m) = length (live_entries m)" for m by (simp add: live_below_def live_entries_filter)
  show "live_below m j < length (live_entries m) \<and> live_entries m ! live_below m j = kv \<and> live_below m (j + 1) = Suc (live_below m j)"
    if "j < used m" "map_slot m j = Some kv" for m j kv
    using that live_below_nth [of j m] by (simp add: map_slot_def live_below_def take_Suc_conv_app_nth split: if_splits)
  show "live_below m (j + 1) = live_below m j" if "j < used m" "map_slot m j = None" for m j
    using that by (simp add: map_slot_def live_below_def take_Suc_conv_app_nth split: if_splits)
  show "walking e n m \<Longrightarrow> k \<le> n \<Longrightarrow> walking e k m" for n k m by (simp add: walking_def)
qed (fact same_layout_basic(1) same_layout_trans walking_fails walking_step)+

text \<open>
  The walk over the ordered list: the callback, as a program, runs on the list; the walk goes on behind
  the entries it has visited.
\<close>

abbreviation spec_foreach ::
    "map_env \<Rightarrow> (addr \<Rightarrow> addr) \<Rightarrow> (u64 list \<Rightarrow> 's \<Rightarrow> (map_op, map_result, 's) callback_prog) \<Rightarrow> u64 \<Rightarrow> nat \<Rightarrow> 's \<Rightarrow> (u64 \<times> u64) list
     \<Rightarrow> (walk_throw option \<times> 's \<times> (u64 \<times> u64) list) option" where
  "spec_foreach e cap cb map_value n s L \<equiv>
     spec_walk (\<lambda>kv s. spec_prog (spec_step e cap) (spec_mark e) (cb [snd kv, fst kv, map_value] s)) n 0 s L"

subsection \<open>Properties\<close>

lemma walking_enter:
  assumes "map_inv e m" "log_wf m" "length (log_records m) < PTR_REBUILD_MAX" "used m + n \<le> PTR_REBUILD_MAX"
  shows "walking e n (map_foreach_enter (if map_foreach_is_active m then m else compact_if_holey e m))"
    "live_entries (map_foreach_enter (if map_foreach_is_active m then m else compact_if_holey e m)) = live_entries m"
proof -
  let ?m = "if map_foreach_is_active m then m else compact_if_holey e m"
  have "cursor_at m 0 (compaction_epoch m) (live_below m 0) (length (log_records m))" by (rule cursor_at_start [OF assms(2)]) simp_all
  from cursor_at_if_holey [OF assms(1) this] have c: "log_wf (compact_if_holey e m)" "length (log_records (compact_if_holey e m)) \<le> PTR_REBUILD_MAX"
    using assms(3) by (simp_all add: cursor_at_def PTR_REBUILD_MAX_def)
  have m: "map_inv e ?m" "log_wf ?m" "length (log_records ?m) \<le> PTR_REBUILD_MAX" "used ?m + n \<le> PTR_REBUILD_MAX" "live_entries ?m = live_entries m"
    using assms c compact_if_holey_correct(1,4) [OF assms(1)] used_bounds(1) [of e m] by simp_all
  have "log_wf (?m\<lparr>foreach_depth := d\<rparr>) = log_wf ?m" for d by (simp add: log_wf_def)
  then show "walking e n (map_foreach_enter ?m)" using m unfolding walking_def map_foreach_enter_def map_inv_foreach by (simp add: map_foreach_is_active_def)
  show "live_entries (map_foreach_enter ?m) = live_entries m" using m(5) unfolding map_foreach_enter_def map_inv_foreach .
qed

text \<open>
  C9. \<open>forEach\<close> visits what the language prescribes while its callback changes the map. On a reachable
  map, with a callable callback that is any program over the lookups, insertions, deletions, clears and
  indexed reads of that map (on the entries before, at and after the current one, depending on their
  results) and that may throw, the raw walk over the extent, which steps over tombstones and re-reads
  the extent after every call, calls the callback with the same values, keys and collection in the same
  order as the walk over the insertion-ordered list: added entries are visited, deleted ones are not,
  none is visited twice. When that walk ends, by itself or by a throw, the raw walk ends in the same
  way, with the same state of the callback and the same map, and the stack of active walks is as before
  once the handler of a throw has cut it back; the only other outcome is the \<open>RangeError\<close> of a failed
  allocation. Not among the operations of the callback are the bulk reads (\<open>js_map_entries\<close>, \<open>_keys\<close>,
  \<open>_values\<close>), for which it does not hold, and a nested \<open>forEach\<close> over the same map.
\<close>

theorem js_map_foreach_visits_in_order:
  assumes "\<forall>op \<in> set ops. map_op_ok op" "run_map e alloc_ok clean_arr_ptr ops (fresh_map n) = Inr (rs, m)"
    "resolve_callback_ptr host callback \<noteq> None"
    "js_native_call_value host callback this_arg = (\<lambda>args s. run_prog (map_step e alloc_ok clean_arr_ptr) (cb args s))"
    "\<forall>args s. prog_ok callback_op_ok (cb args s) b" "length ops + calls * b < PTR_REBUILD_MAX"
    "spec_foreach e clean_arr_ptr cb (collection_value collection self) calls s (live_entries m) = Some (x, s', L)"
  shows "\<exists>fuel y s'' m'. js_map_foreach_impl e host fuel self callback this_arg collection s m = Some (y, s'', m') \<and>
    foreach_depth (if y = None then m' else map_foreach_stack_restore (foreach_depth m) m') = foreach_depth m \<and>
    (y = x \<and> s'' = s' \<and> live_entries m' = L \<or> y = Some (Runtime_throw throw_allocation_failed) \<and> (\<exists>c. \<not> alloc_ok c))"
proof -
  let ?m = "map_foreach_enter (if map_foreach_is_active m then m else compact_if_holey e m)"
  let ?call = "\<lambda>kv s. run_prog (map_step e alloc_ok clean_arr_ptr) (cb [snd kv, fst kv, collection_value collection self] s)"
  have ok: "\<And>op. op \<in> set ops \<Longrightarrow> map_op_ok op" using assms(1) by blast
  have len: "used (fresh_map n) + length ops \<le> PTR_REBUILD_MAX" using assms(6) map_inv_alloc(3) [of n] by simp
  have inv: "map_inv e m" using run_map_sim [OF map_inv_alloc(1) ok len, where alloc_ok = alloc_ok and cap = clean_arr_ptr and e = e] assms(2) by simp
  have log: "log_wf m" "length (log_records m) \<le> length ops" using fresh_run_log [OF ok _ assms(2)] assms(6) by simp_all
  have "used m \<le> length ops" using run_map_used [OF map_inv_alloc(1) ok len assms(2)] map_inv_alloc(3) [of n] by simp
  then have enter: "walking e (calls * b) ?m" "live_entries ?m = live_entries m"
    using walking_enter [OF inv log(1), of "calls * b"] log(2) assms(6) by simp_all
  let ?cb = "\<lambda>kv. cb [snd kv, fst kv, collection_value collection self]"
  have prog: "\<And>kv s. prog_ok callback_op_ok (?cb kv s) b" using assms(5) by blast
  have spec: "spec_foreach e clean_arr_ptr cb (collection_value collection self) calls s (live_entries ?m) = Some (x, s', L)"
    and zero: "live_below ?m 0 = 0" using assms(7) enter(2) by (simp_all add: live_below_def)
  obtain fuel y s'' m' where m': "walk_loop (\<lambda>m. used m) map_slot ?call fuel 0 s ?m = Some (y, s'', m')" "walking e 0 m'" "same_layout ?m m'"
    "(\<exists>err. y = Some (Runtime_throw err) \<and> err = throw_allocation_failed \<and> (\<exists>c. \<not> alloc_ok c)) \<or> (y = x \<and> s'' = s' \<and> live_entries m' = L)"
    using mw.loop_follows [OF prog enter(1) le0, unfolded zero, OF spec, of alloc_ok] by blast
  have depth: "foreach_depth m' = Suc (foreach_depth m)"
    using m'(3) compact_if_holey_correct(6) [OF inv] by (simp add: same_layout_def map_foreach_enter_def)
  obtain p where p: "js_validate_array_callback host callback = Inr p" using assms(3) by (auto simp: js_validate_array_callback_def)
  let ?l = "m'\<lparr>foreach_depth := foreach_depth m\<rparr>"
  have l: "map_inv e ?l" "live_entries ?l = live_entries m'" using m'(2) unfolding map_inv_foreach by (simp_all add: walking_def)
  let ?r = "if y = None then if foreach_depth m = 0 then compact_if_holey e ?l else ?l else m'"
  have "js_map_foreach_impl e host fuel self callback this_arg collection s m = Some (y, s'', ?r)"
    using m'(1) depth unfolding js_map_foreach_impl_def Let_def p assms(4) foreach_loop_walk
    by (simp add: map_foreach_leave_def Let_def split: option.split)
  moreover have "live_entries ?r = live_entries m'"
    "foreach_depth (if y = None then ?r else map_foreach_stack_restore (foreach_depth m) ?r) = foreach_depth m"
    using l(2) depth compact_if_holey_correct(4,6) [OF l(1)] by (auto simp: map_foreach_stack_restore_def)
  ultimately show ?thesis using m'(4) by blast
qed

theorem js_map_foreach_visits_in_order_witness:
  "\<exists>m fuel m'. run_map sample_env (\<lambda>_. True) id
      [Map_set (num_key 0) TAG_TRUE, Map_set (num_key 1) TAG_TRUE, Map_set (num_key 2) TAG_TRUE, Map_set (num_key 3) TAG_TRUE] (fresh_map 0)
      = Inr ([R_none, R_none, R_none, R_none], m) \<and>
    js_map_foreach_impl sample_env
      (prog_host (map_step sample_env (\<lambda>_. True) id)
        (\<lambda>args s. Do s (Map_delete (num_key 1)) (\<lambda>_. if args ! 1 = num_key 2 then Throw TAG_NULL (s @ [args ! 1]) else Return (s @ [args ! 1]))))
      fuel 0x20000 sample_callback TAG_UNDEFINED TAG_UNDEFINED [] m = Some (Some (User_throw TAG_NULL), [num_key 0, num_key 2], m') \<and>
    map fst (live_entries m') = [num_key 0, num_key 2, num_key 3]"
proof -
  let ?ops = "[Map_set (num_key 0) TAG_TRUE, Map_set (num_key 1) TAG_TRUE, Map_set (num_key 2) TAG_TRUE, Map_set (num_key 3) TAG_TRUE]"
  let ?cb = "\<lambda>args s. Do s (Map_delete (num_key 1)) (\<lambda>_. if args ! 1 = num_key 2 then Throw TAG_NULL (s @ [args ! 1]) else Return (s @ [args ! 1]))"
  obtain m where m: "run_map sample_env (\<lambda>_. True) id ?ops (fresh_map 0) = Inr ([R_none, R_none, R_none, R_none], m)"
    "small_map m [(num_key 0, TAG_TRUE), (num_key 1, TAG_TRUE), (num_key 2, TAG_TRUE), (num_key 3, TAG_TRUE)] 4 [] 0 0"
    using small_map_fill by blast
  have live: "live_entries m = [(num_key 0, TAG_TRUE), (num_key 1, TAG_TRUE), (num_key 2, TAG_TRUE), (num_key 3, TAG_TRUE)]"
    using m(2) num_key_live by (simp add: small_map_def live_entries_filter)
  have ok: "\<forall>op \<in> set ?ops. map_op_ok op" "\<forall>args s. prog_ok callback_op_ok (?cb args s) 1" using num_key_ok(3) by simp_all
  have bound: "length ?ops + 4 * 1 < PTR_REBUILD_MAX" by (simp add: PTR_REBUILD_MAX_def)
  have spec: "spec_foreach sample_env id ?cb (collection_value TAG_UNDEFINED 0x20000) 4 [] (live_entries m)
      = Some (Some (User_throw TAG_NULL), [num_key 0, num_key 2], [(num_key 0, TAG_TRUE), (num_key 2, TAG_TRUE), (num_key 3, TAG_TRUE)])"
    unfolding live by (simp add: eval_nat_numeral num_key_ok(2) num_key_inj spec_delete_def num_key_eq)
  note host = prog_host_calls [where step = "map_step sample_env (\<lambda>_. True) id" and cb = ?cb]
  from js_map_foreach_visits_in_order [OF ok(1) m(1) host ok(2) bound spec] m(1) show ?thesis by fastforce
qed

lemma entries_squeezed:
  assumes "map_inv e m"
  shows "map_step e alloc_ok cap Map_entries m = Inr (R_list (live_entries m), compact_if_holey e m)" "entries (compact_if_holey e m) = live_entries m"
proof -
  have "map_size m = length (live_entries m)" using assms by (simp add: map_inv_def)
  then show "map_step e alloc_ok cap Map_entries m = Inr (R_list (live_entries m), compact_if_holey e m)"
    using compact_if_holey_correct [OF assms] by (simp add: js_map_entries_def map_nth)
  show "entries (compact_if_holey e m) = live_entries m" by (rule compact_if_holey_correct(2) [OF assms])
qed

text \<open>A callback that deletes the entry of key 1 when it is called on it, and then reads the entries.\<close>

definition squeezing_callback :: "u64 list \<Rightarrow> u64 list \<Rightarrow> (map_op, map_result, u64 list) callback_prog" where
  "squeezing_callback args s =
     (if args ! 1 = num_key 0 then Do s (Map_delete (num_key 0)) (\<lambda>_. Do s Map_entries (\<lambda>_. Return (s @ [args ! 1])))
      else Return (s @ [args ! 1]))"

lemma squeezing_call:
  assumes "walking e 1 m" "live_entries m = (num_key 0, v) # L" "\<And>k w. (k, w) \<in> set L \<Longrightarrow> k \<in> num_key ` {1..<8}"
  shows "\<exists>m'. run_prog (map_step e alloc_ok cap) (squeezing_callback [v, num_key 0, mv] s) m = (None, s @ [num_key 0], m') \<and>
    entries m' = L \<and> live_entries m' = L \<and> map_inv e m' \<and> foreach_depth m' = foreach_depth m"
proof -
  obtain r m1 where m1: "map_step e alloc_ok cap (Map_delete (num_key 0)) m = Inr (r, m1)"
    by (cases "js_map_delete e m (num_key 0)") simp
  have "\<not> jsvalue_eq e k (num_key 0)" if "(k, w) \<in> set L" for k w using assms(3) [OF that] num_key_eq [of _ 0 e] by auto
  then have "spec_delete e (num_key 0) ((num_key 0, v) # L) = L" by (auto simp: spec_delete_def num_key_eq intro!: filter_True)
  then have s1: "map_inv e m1" "live_entries m1 = L" "foreach_depth m1 = foreach_depth m"
    using walking_step [OF _ _ le0 m1, of 0] assms(1,2) num_key_ok(2,3) by (simp_all add: walking_def same_layout_def)
  have "run_prog (map_step e alloc_ok cap) (squeezing_callback [v, num_key 0, mv] s) m = (None, s @ [num_key 0], compact_if_holey e m1)"
    using m1 entries_squeezed(1) [OF s1(1), of alloc_ok cap] by (simp add: squeezing_callback_def del: map_step.simps)
  then show ?thesis using s1 compact_if_holey_correct [OF s1(1)] by auto
qed

text \<open>
  C40. The bulk reads break a walk in progress. The callback of a \<open>forEach\<close> over four entries deletes
  the first entry when it is called on it and then asks for the entries of the map; they are squeezed
  although a walk is active, so the raw position that comes next is the third entry, and the second,
  which is still in the map, is never visited. The walk over the ordered list visits all four.
\<close>

theorem js_map_foreach_entries_skips:
  "\<exists>m fuel m' rs. run_map e alloc_ok clean_arr_ptr
      [Map_set (num_key 0) v, Map_set (num_key 1) v, Map_set (num_key 2) v, Map_set (num_key 3) v] (fresh_map 0) = Inr (rs, m) \<and>
    js_map_foreach_impl e (prog_host (map_step e alloc_ok clean_arr_ptr) squeezing_callback) fuel self sample_callback this_arg collection [] m
      = Some (None, [num_key 0, num_key 2, num_key 3], m') \<and>
    live_entries m' = [(num_key 1, v), (num_key 2, v), (num_key 3, v)] \<and>
    spec_foreach e clean_arr_ptr squeezing_callback (collection_value collection self) 5 [] (live_entries m)
      = Some (None, [num_key 0, num_key 1, num_key 2, num_key 3], live_entries m')"
proof -
  let ?ops = "[Map_set (num_key 0) v, Map_set (num_key 1) v, Map_set (num_key 2) v, Map_set (num_key 3) v]"
  let ?L = "[(num_key 0, v), (num_key 1, v), (num_key 2, v), (num_key 3, v)]" and ?L' = "[(num_key 1, v), (num_key 2, v), (num_key 3, v)]"
  let ?mv = "collection_value collection self" and ?step = "map_step e alloc_ok clean_arr_ptr"
  obtain m rs where m: "run_map e alloc_ok clean_arr_ptr ?ops (fresh_map 0) = Inr (rs, m)" "small_map m ?L 4 [] 0 0"
    using small_map_fill by blast
  have es: "entries m = ?L" "live_entries m = ?L" "foreach_depth m = 0" "\<And>i. i < 8 \<Longrightarrow> num_key i \<noteq> MAP_HOLE_KEY_BITS"
    using m(2) num_key_live num_key_ok(4) by (simp_all add: small_map_def live_entries_filter)
  have ok: "\<And>op. op \<in> set ?ops \<Longrightarrow> map_op_ok op" using num_key_ok(3) by auto
  then have inv: "map_inv e m" using run_map_sim [OF map_inv_alloc(1) [of e 0], of ?ops alloc_ok clean_arr_ptr] m(1) map_inv_alloc(3) [of 0]
    by (simp add: PTR_REBUILD_MAX_def del: run_map.simps)
  let ?m = "m\<lparr>foreach_depth := Suc 0\<rparr>"
  have enter: "map_foreach_enter (if map_foreach_is_active m then m else compact_if_holey e m) = ?m"
    using m(2) by (simp add: small_map_def map_foreach_is_active_def map_foreach_enter_def compact_if_holey_def)
  have "walking e 1 ?m" using walking_enter(1) [OF inv, of 1] fresh_run_log [OF ok _ m(1)] unfolding enter
    by (simp add: es PTR_REBUILD_MAX_def)
  moreover have "live_entries ?m = (num_key 0, v) # ?L'" using es(2) unfolding map_inv_foreach by simp
  ultimately obtain m2 where m2: "run_prog ?step (squeezing_callback [v, num_key 0, ?mv] []) ?m = (None, [num_key 0], m2)"
    "entries m2 = ?L'" "live_entries m2 = ?L'" "map_inv e m2" "foreach_depth m2 = Suc 0"
    using squeezing_call [of e ?m v ?L' alloc_ok clean_arr_ptr ?mv "[]"] by fastforce
  have rest: "run_prog ?step (squeezing_callback [v, num_key i, ?mv] s) m0 = (None, s @ [num_key i], m0)" if "0 < i" "i < 8" for s i m0
    using that num_key_inj [of i 0] by (simp add: squeezing_callback_def)
  have loop: "foreach_loop 4 (\<lambda>args s. run_prog ?step (squeezing_callback args s)) ?mv 0 [] ?m = Some (None, [num_key 0, num_key 2, num_key 3], m2)"
    by (simp add: eval_nat_numeral es m2(1,2) rest)
  let ?l = "m2\<lparr>foreach_depth := 0\<rparr>"
  have l: "map_inv e ?l" "live_entries ?l = ?L'" using m2(3,4) unfolding map_inv_foreach by simp_all
  obtain p where p: "js_validate_array_callback (prog_host ?step squeezing_callback) sample_callback = Inr p"
    using prog_host_calls(1) [of ?step squeezing_callback] by (auto simp: js_validate_array_callback_def)
  have "js_map_foreach_impl e (prog_host ?step squeezing_callback) 4 self sample_callback this_arg collection [] m
      = Some (None, [num_key 0, num_key 2, num_key 3], compact_if_holey e ?l)"
    unfolding js_map_foreach_impl_def Let_def p prog_host_calls(2) enter using loop m2(5) by (simp add: map_foreach_leave_def Let_def)
  moreover have "live_entries (compact_if_holey e ?l) = ?L'" using l compact_if_holey_correct(4) [OF l(1)] by simp
  moreover have "spec_foreach e clean_arr_ptr squeezing_callback ?mv 5 [] (live_entries m) = Some (None, [num_key 0, num_key 1, num_key 2, num_key 3], ?L')"
    unfolding es by (simp add: squeezing_callback_def eval_nat_numeral num_key_ok(2) num_key_inj spec_delete_def num_key_eq)
  ultimately show ?thesis using m(1) by fastforce
qed

end
