(* ===== verification/Js_Set.thy ===== *)
theory Js_Set
  imports Map_Cursor
begin

text \<open>
  \<open>Set\<close> (\<open>set.rs\<close>): a list of elements with tombstones, one hash index from values to positions, and
  the same compaction log as \<open>Map\<close>. The values and the environment are those of the map keys. The
  operations act on a receiver already resolved to its header, with its index present.
\<close>

subsection \<open>Values\<close>

definition SET_HOLE_VALUE_BITS :: u64 where "SET_HOLE_VALUE_BITS = TAG_HOLE"
definition SMALL_SET_SCAN_MAX :: nat where "SMALL_SET_SCAN_MAX = 8"
definition SET_COMPACTION_LOG_MIN_BUDGET :: nat where "SET_COMPACTION_LOG_MIN_BUDGET = 4096"

definition set_normalize_zero :: "f64 \<Rightarrow> f64" where
  "set_normalize_zero v =
     (if v = SET_HOLE_VALUE_BITS then TAG_UNDEFINED
      else if f64_eq v 0 then 0
      else if f64_is_nan v \<and> is_number v then F64_NAN
      else v)"

definition normalize_number_value_from_boxed :: "f64 \<Rightarrow> f64 option" where
  "normalize_number_value_from_boxed v =
     (if is_int32 v then Some (set_normalize_zero (f64_of_int (as_int32 v)))
      else if is_number v then Some (set_normalize_zero v)
      else None)"

definition set_extract_string_ptr :: "u64 \<Rightarrow> addr" where
  "set_extract_string_ptr bits =
     (let upper = drop_bit 48 bits
      in if upper = 0x7FFF then bits AND 0xFFFFFFFFFFFF
         else if upper = 0x7FFD then bits AND 0xFFFFFFFFFFFF
         else if upper = 0 then (let lower = bits AND 0xFFFFFFFFFFFF in if lower > 0x10000 then lower else 0)
         else 0)"

text \<open>
  The bytes of a string-like value. The scratch buffer of an inline string has room for five bytes; a
  length byte above five is not a value the runtime makes, and the view ends with the buffer.
\<close>

definition set_string_view :: "map_env \<Rightarrow> u64 \<Rightarrow> u8 list option" where
  "set_string_view e bits =
     (let upper = drop_bit 48 bits
      in if upper = drop_bit 48 SHORT_STRING_TAG then
           (let len = unat (drop_bit SHORT_STRING_LEN_SHIFT (bits AND SHORT_STRING_LEN_MASK));
                data = bits AND SHORT_STRING_DATA_MASK
            in Some (map (\<lambda>i. ucast (drop_bit (i * 8) data AND 0xFF)) [0..<min len SHORT_STRING_MAX_LEN]))
         else
           let ptr = set_extract_string_ptr bits
           in if ptr = 0 \<or> ptr < 0x1000 then None else Some (str_data (strings (env_heap e) ptr)))"

definition set_is_string_like :: "map_env \<Rightarrow> u64 \<Rightarrow> bool" where
  "set_is_string_like e bits =
     (let upper = drop_bit 48 bits
      in if upper = drop_bit 48 SHORT_STRING_TAG then True
         else if upper = 0x7FFF then set_extract_string_ptr bits \<noteq> 0
         else
           let ptr = set_extract_string_ptr bits
           in if \<not> is_above_handle_band ptr then False
              else obj_type (gc_headers (env_heap e) (ptr - GC_HEADER_SIZE)) = GC_TYPE_STRING)"

definition boxed_heap_string_value :: "addr \<Rightarrow> f64" where
  "boxed_heap_string_value v = STRING_TAG OR (v AND POINTER_MASK)"

definition set_jsvalue_eq :: "map_env \<Rightarrow> f64 \<Rightarrow> f64 \<Rightarrow> bool" where
  "set_jsvalue_eq e a b =
     (if a = b then True
      else if js_is_symbol e a \<noteq> 0 \<or> js_is_symbol e b \<noteq> 0 then False
      else if set_is_string_like e a \<and> set_is_string_like e b then
        (case (set_string_view e a, set_string_view e b) of
           (Some a_bytes, Some b_bytes) \<Rightarrow>
             if length a_bytes \<noteq> length b_bytes then False
             else if length a_bytes = 0 then True
             else a_bytes = b_bytes
         | _ \<Rightarrow> False)
      else False)"

text \<open>What \<open>JSValueKey\<close> feeds to the hasher: a domain tag, the length twice and the bytes of a string, else the bits.\<close>

definition js_value_key_hash :: "map_env \<Rightarrow> f64 \<Rightarrow> u64 list" where
  "js_value_key_hash e bits =
     (if set_is_string_like e bits then
        (case set_string_view e bits of
           Some bytes \<Rightarrow> 0xFFFFFFFF # of_nat (length bytes) # of_nat (length bytes) # map ucast bytes
         | None \<Rightarrow> [bits])
      else [bits])"

definition boxed_i32_value :: "int \<Rightarrow> f64" where
  "boxed_i32_value v = js_int32 v"

definition boxed_bool_value :: "int \<Rightarrow> f64" where
  "boxed_bool_value v = (if v \<noteq> 0 then TAG_TRUE else TAG_FALSE)"

subsection \<open>State\<close>

type_synonym SetRemovedSlots = RemovedSlots
type_synonym set_compaction_record = compaction_record

record js_set =
  set_size :: nat
  set_capacity :: nat
  elements :: "u64 list"
  set_ix :: "(u64 \<times> nat) list"
  set_epoch :: u32
  set_records :: "set_compaction_record list"
  set_retained :: nat
  set_foreach_depth :: nat

abbreviation set_used :: "js_set \<Rightarrow> nat" where "set_used s \<equiv> length (elements s)"

definition fresh_set :: "nat \<Rightarrow> js_set" where
  "fresh_set cap =
     \<lparr>set_size = 0, set_capacity = (if cap = 0 then 4 else cap), elements = [], set_ix = [],
      set_epoch = 0, set_records = [], set_retained = 0, set_foreach_depth = 0\<rparr>"

definition js_set_alloc :: "(nat \<Rightarrow> bool) \<Rightarrow> nat \<Rightarrow> js_throw + js_set" where
  "js_set_alloc alloc_ok cap =
     (if alloc_ok (set_capacity (fresh_set cap)) then Inr (fresh_set cap) else Inl throw_allocation_failed)"

definition js_set_size :: "js_set \<Rightarrow> nat" where "js_set_size s = set_size s"

definition set_foreach_is_active :: "js_set \<Rightarrow> bool" where
  "set_foreach_is_active s \<longleftrightarrow> set_foreach_depth s > 0"

definition set_foreach_enter :: "js_set \<Rightarrow> js_set" where
  "set_foreach_enter s = s\<lparr>set_foreach_depth := set_foreach_depth s + 1\<rparr>"

definition set_foreach_leave :: "js_set \<Rightarrow> bool \<times> js_set" where
  "set_foreach_leave s = (let depth = set_foreach_depth s - 1 in (depth = 0, s\<lparr>set_foreach_depth := depth\<rparr>))"

subsection \<open>The index and the log\<close>

definition sx_get :: "map_env \<Rightarrow> (u64 \<times> nat) list \<Rightarrow> u64 \<Rightarrow> nat option" where
  "sx_get e = table_get (set_jsvalue_eq e)"

definition sx_insert :: "map_env \<Rightarrow> u64 \<Rightarrow> nat \<Rightarrow> (u64 \<times> nat) list \<Rightarrow> (u64 \<times> nat) list" where
  "sx_insert e = table_insert (set_jsvalue_eq e)"

definition sx_remove :: "map_env \<Rightarrow> u64 \<Rightarrow> (u64 \<times> nat) list \<Rightarrow> (u64 \<times> nat) list" where
  "sx_remove e = table_remove (set_jsvalue_eq e)"

definition rebuild_set_index :: "map_env \<Rightarrow> js_set \<Rightarrow> js_set" where
  "rebuild_set_index e s =
     (if set_used s > set_capacity s \<or> set_used s > PTR_REBUILD_MAX then s
      else s\<lparr>set_ix := index_entries (\<lambda>v. v \<noteq> SET_HOLE_VALUE_BITS) (sx_insert e) 0 (elements s) []\<rparr>)"

definition note_set_compaction :: "SetRemovedSlots \<Rightarrow> js_set \<Rightarrow> js_set" where
  "note_set_compaction removed s =
     (let epoch = set_epoch s + 1;
          budget = max SET_COMPACTION_LOG_MIN_BUDGET (set_capacity s);
          (records, retained) = (case removed of Prefix _ \<Rightarrow> ([], 0) | Indices _ \<Rightarrow> (set_records s, set_retained s));
          retained = retained + retained_len removed;
          records = records @ [\<lparr>rec_epoch = epoch, rec_removed = removed\<rparr>];
          (records, retained) = trim_log budget records retained
      in s\<lparr>set_epoch := epoch, set_records := records, set_retained := retained\<rparr>)"

fun set_compact_loop :: "nat \<Rightarrow> u64 list \<Rightarrow> u64 list \<times> nat list" where
  "set_compact_loop i [] = ([], [])"
| "set_compact_loop i (v # rest) =
     (let (out, removed) = set_compact_loop (Suc i) rest
      in if v = SET_HOLE_VALUE_BITS then (out, i # removed) else (v # out, removed))"

definition compact_set_elements :: "map_env \<Rightarrow> js_set \<Rightarrow> js_set" where
  "compact_set_elements e s =
     (let (out, removed) = set_compact_loop 0 (elements s);
          s = s\<lparr>elements := out\<rparr>;
          s = rebuild_set_index e s
      in if removed \<noteq> [] then note_set_compaction (Indices removed) s else s)"

definition compact_if_holey_set :: "map_env \<Rightarrow> js_set \<Rightarrow> js_set" where
  "compact_if_holey_set e s = (if set_used s \<noteq> set_size s then compact_set_elements e s else s)"

subsection \<open>Lookup\<close>

fun set_scan :: "nat \<Rightarrow> u64 list \<Rightarrow> u64 \<Rightarrow> int" where
  "set_scan i [] bits = -1"
| "set_scan i (v # rest) bits = (if v = bits then int i else set_scan (Suc i) rest bits)"

definition find_value_index_hot :: "js_set \<Rightarrow> f64 \<Rightarrow> int option" where
  "find_value_index_hot s bits =
     (if \<not> is_plain_nonzero_number_bits bits then None
      else if set_used s > SMALL_SET_SCAN_MAX then None
      else Some (set_scan 0 (elements s) bits))"

definition find_value_index_cold :: "map_env \<Rightarrow> js_set \<Rightarrow> f64 \<Rightarrow> int" where
  "find_value_index_cold e s v =
     (case sx_get e (set_ix s) v of
        Some index \<Rightarrow> if index < set_used s then int index else -1
      | None \<Rightarrow> -1)"

definition find_value_index :: "map_env \<Rightarrow> js_set \<Rightarrow> f64 \<Rightarrow> int" where
  "find_value_index e s v =
     (case find_value_index_hot s v of Some index \<Rightarrow> index | None \<Rightarrow> find_value_index_cold e s v)"

definition js_set_find_value_index :: "map_env \<Rightarrow> js_set \<Rightarrow> f64 \<Rightarrow> f64" where
  "js_set_find_value_index e s v = f64_of_int (find_value_index e s (set_normalize_zero v))"

subsection \<open>Adding\<close>

definition grow_elements :: "(nat \<Rightarrow> bool) \<Rightarrow> js_set \<Rightarrow> js_throw + js_set" where
  "grow_elements alloc_ok s =
     (let new_capacity = set_capacity s * 2 mod 2 ^ 32
      in if alloc_ok new_capacity then Inr (s\<lparr>set_capacity := new_capacity\<rparr>) else Inl throw_allocation_failed)"

definition set_ensure_capacity :: "map_env \<Rightarrow> (nat \<Rightarrow> bool) \<Rightarrow> js_set \<Rightarrow> js_throw + js_set" where
  "set_ensure_capacity e alloc_ok s =
     (if set_used s < set_capacity s then Inr s
      else if set_size s < set_used s \<and> \<not> set_foreach_is_active s then
        (let s = compact_set_elements e s
         in if set_used s < set_capacity s then Inr s else grow_elements alloc_ok s)
      else grow_elements alloc_ok s)"

definition append_element :: "map_env \<Rightarrow> u64 \<Rightarrow> js_set \<Rightarrow> js_set" where
  "append_element e v s =
     (let u = set_used s
      in s\<lparr>elements := elements s @ [v], set_ix := sx_insert e v u (set_ix s), set_size := set_size s + 1\<rparr>)"

definition set_add_resolved :: "map_env \<Rightarrow> (nat \<Rightarrow> bool) \<Rightarrow> js_set \<Rightarrow> f64 \<Rightarrow> js_throw + js_set" where
  "set_add_resolved e alloc_ok s v =
     (let v = set_normalize_zero v;
          idx = find_value_index e s v
      in if idx \<ge> 0 then Inr s
         else case set_ensure_capacity e alloc_ok s of
                Inl err \<Rightarrow> Inl err
              | Inr s \<Rightarrow> Inr (append_element e v s))"

definition set_add_string_resolved :: "map_env \<Rightarrow> (nat \<Rightarrow> bool) \<Rightarrow> js_set \<Rightarrow> addr \<Rightarrow> js_throw + js_set" where
  "set_add_string_resolved e alloc_ok s q =
     (let v = boxed_heap_string_value q;
          idx = find_value_index e s v
      in if idx \<ge> 0 then Inr s
         else case set_ensure_capacity e alloc_ok s of
                Inl err \<Rightarrow> Inl err
              | Inr s \<Rightarrow> Inr (append_element e v s))"

definition js_set_add_number :: "map_env \<Rightarrow> (nat \<Rightarrow> bool) \<Rightarrow> js_set \<Rightarrow> f64 \<Rightarrow> js_throw + js_set" where
  "js_set_add_number e alloc_ok s v =
     (case normalize_number_value_from_boxed v of
        None \<Rightarrow> set_add_resolved e alloc_ok s v
      | Some v \<Rightarrow> set_add_resolved e alloc_ok s v)"

definition js_set_add_i32 :: "map_env \<Rightarrow> (nat \<Rightarrow> bool) \<Rightarrow> js_set \<Rightarrow> int \<Rightarrow> js_throw + js_set" where
  "js_set_add_i32 e alloc_ok s v = set_add_resolved e alloc_ok s (boxed_i32_value v)"

definition js_set_add_u32 :: "map_env \<Rightarrow> (nat \<Rightarrow> bool) \<Rightarrow> js_set \<Rightarrow> u32 \<Rightarrow> js_throw + js_set" where
  "js_set_add_u32 e alloc_ok s v = set_add_resolved e alloc_ok s (f64_of_int (uint v))"

definition js_set_add_bool :: "map_env \<Rightarrow> (nat \<Rightarrow> bool) \<Rightarrow> js_set \<Rightarrow> int \<Rightarrow> js_throw + js_set" where
  "js_set_add_bool e alloc_ok s v = set_add_resolved e alloc_ok s (boxed_bool_value v)"

subsection \<open>Membership and deletion\<close>

definition js_set_has :: "map_env \<Rightarrow> js_set \<Rightarrow> f64 \<Rightarrow> int" where
  "js_set_has e s v = (if find_value_index e s (set_normalize_zero v) \<ge> 0 then 1 else 0)"

definition js_set_has_number :: "map_env \<Rightarrow> js_set \<Rightarrow> f64 \<Rightarrow> int" where
  "js_set_has_number e s v =
     (case normalize_number_value_from_boxed v of None \<Rightarrow> js_set_has e s v | Some v \<Rightarrow> js_set_has e s v)"

definition js_set_has_string :: "map_env \<Rightarrow> js_set \<Rightarrow> addr \<Rightarrow> int" where
  "js_set_has_string e s q = (if find_value_index e s (boxed_heap_string_value q) \<ge> 0 then 1 else 0)"

definition js_set_has_i32 :: "map_env \<Rightarrow> js_set \<Rightarrow> int \<Rightarrow> int" where
  "js_set_has_i32 e s v = js_set_has e s (boxed_i32_value v)"

definition js_set_has_u32 :: "map_env \<Rightarrow> js_set \<Rightarrow> u32 \<Rightarrow> int" where
  "js_set_has_u32 e s v = js_set_has e s (f64_of_int (uint v))"

definition js_set_has_bool :: "map_env \<Rightarrow> js_set \<Rightarrow> int \<Rightarrow> int" where
  "js_set_has_bool e s v = js_set_has e s (boxed_bool_value v)"

definition js_set_delete :: "map_env \<Rightarrow> js_set \<Rightarrow> f64 \<Rightarrow> int \<times> js_set" where
  "js_set_delete e s v =
     (let idx = find_value_index e s (set_normalize_zero v)
      in if idx < 0 then (0, s)
         else
           let i = nat idx;
               deleted_value = elements s ! i;
               s = s\<lparr>elements := (elements s)[i := SET_HOLE_VALUE_BITS], set_size := set_size s - 1,
                     set_ix := sx_remove e deleted_value (set_ix s)\<rparr>
           in (1, if set_used s \<ge> 16 \<and> set_size s < set_used s div 2 \<and> \<not> set_foreach_is_active s
                  then compact_set_elements e s else s))"

definition js_set_delete_number :: "map_env \<Rightarrow> js_set \<Rightarrow> f64 \<Rightarrow> int \<times> js_set" where
  "js_set_delete_number e s v =
     (case normalize_number_value_from_boxed v of None \<Rightarrow> js_set_delete e s v | Some v \<Rightarrow> js_set_delete e s v)"

definition js_set_delete_string :: "map_env \<Rightarrow> js_set \<Rightarrow> addr \<Rightarrow> int \<times> js_set" where
  "js_set_delete_string e s q = js_set_delete e s (boxed_heap_string_value q)"

definition js_set_delete_i32 :: "map_env \<Rightarrow> js_set \<Rightarrow> int \<Rightarrow> int \<times> js_set" where
  "js_set_delete_i32 e s v = js_set_delete e s (boxed_i32_value v)"

definition js_set_delete_u32 :: "map_env \<Rightarrow> js_set \<Rightarrow> u32 \<Rightarrow> int \<times> js_set" where
  "js_set_delete_u32 e s v = js_set_delete e s (f64_of_int (uint v))"

definition js_set_delete_bool :: "map_env \<Rightarrow> js_set \<Rightarrow> int \<Rightarrow> int \<times> js_set" where
  "js_set_delete_bool e s v = js_set_delete e s (boxed_bool_value v)"

definition js_set_clear :: "js_set \<Rightarrow> js_set" where
  "js_set_clear s =
     (let active_foreach = set_foreach_is_active s;
          extent = set_used s
      in if set_size s = 0 then
           (if \<not> active_foreach \<and> extent > 0 then note_set_compaction (Prefix extent) (s\<lparr>elements := []\<rparr>) else s)
         else
           let s = s\<lparr>set_size := 0\<rparr>;
               s = (if active_foreach then
                      s\<lparr>elements := map (\<lambda>v. if v \<noteq> SET_HOLE_VALUE_BITS then SET_HOLE_VALUE_BITS else v) (elements s)\<rparr>
                    else note_set_compaction (Prefix extent) (s\<lparr>elements := []\<rparr>))
           in s\<lparr>set_ix := []\<rparr>)"

subsection \<open>Reading by position\<close>

fun set_live_step :: "nat \<Rightarrow> nat \<Rightarrow> u64 list \<Rightarrow> nat \<Rightarrow> nat option" where
  "set_live_step raw live [] idx = None"
| "set_live_step raw live (v # rest) idx =
     (if v \<noteq> SET_HOLE_VALUE_BITS then (if live = idx then Some raw else set_live_step (Suc raw) (Suc live) rest idx)
      else set_live_step (Suc raw) live rest idx)"

definition live_index_to_raw_set :: "map_env \<Rightarrow> js_set \<Rightarrow> nat \<Rightarrow> nat option \<times> js_set" where
  "live_index_to_raw_set e s idx =
     (if idx \<ge> set_size s then (None, s)
      else if \<not> set_foreach_is_active s then (Some idx, compact_if_holey_set e s)
      else (set_live_step 0 0 (elements s) idx, s))"

definition js_set_value_at :: "map_env \<Rightarrow> js_set \<Rightarrow> nat \<Rightarrow> u64 \<times> js_set" where
  "js_set_value_at e s i =
     (case live_index_to_raw_set e s i of
        (None, s) \<Rightarrow> (TAG_UNDEFINED, s)
      | (Some raw, s) \<Rightarrow> (elements s ! raw, s))"

definition js_set_value_raw_at :: "js_set \<Rightarrow> nat \<Rightarrow> u64" where
  "js_set_value_raw_at s i = (if i \<ge> set_used s then TAG_UNDEFINED else elements s ! i)"

definition js_set_to_array :: "map_env \<Rightarrow> js_set \<Rightarrow> u64 list \<times> js_set" where
  "js_set_to_array e s = (let s = compact_if_holey_set e s in (take (set_size s) (elements s), s))"

text \<open>\<open>new Set(array)\<close>, with the elements that the reads of the array yield.\<close>

fun set_add_all :: "map_env \<Rightarrow> (nat \<Rightarrow> bool) \<Rightarrow> u64 list \<Rightarrow> js_set \<Rightarrow> js_throw + js_set" where
  "set_add_all e alloc_ok [] s = Inr s"
| "set_add_all e alloc_ok (v # vs) s =
     (case set_add_resolved e alloc_ok s v of Inl err \<Rightarrow> Inl err | Inr s \<Rightarrow> set_add_all e alloc_ok vs s)"

definition js_set_from_array :: "map_env \<Rightarrow> (nat \<Rightarrow> bool) \<Rightarrow> u64 list option \<Rightarrow> js_throw + js_set" where
  "js_set_from_array e alloc_ok arr =
     (case js_set_alloc alloc_ok 4 of
        Inl err \<Rightarrow> Inl err
      | Inr s \<Rightarrow> (case arr of None \<Rightarrow> Inr s | Some vs \<Rightarrow> set_add_all e alloc_ok vs s))"

subsection \<open>The cursor\<close>

definition rebase_set_cursor :: "js_set \<Rightarrow> nat \<Rightarrow> u32 \<Rightarrow> nat" where
  "rebase_set_cursor s cursor loop_epoch =
     (if set_epoch s = loop_epoch then cursor else rebase_loop loop_epoch (set_records s) cursor)"

function set_cursor_skip :: "js_set \<Rightarrow> nat \<Rightarrow> nat" where
  "set_cursor_skip s idx =
     (if idx < set_used s \<and> elements s ! idx = SET_HOLE_VALUE_BITS then set_cursor_skip s (idx + 1) else idx)"
  by pat_completeness auto
termination
  by (relation "measure (\<lambda>(s, idx). set_used s - idx)") auto

declare set_cursor_skip.simps [simp del]

definition set_cursor_next_raw :: "js_set \<Rightarrow> nat \<Rightarrow> u32 \<Rightarrow> nat option" where
  "set_cursor_next_raw s cursor loop_epoch =
     (let idx = set_cursor_skip s (rebase_set_cursor s cursor loop_epoch) in if idx < set_used s then Some idx else None)"

definition set_compaction_epoch :: "js_set \<Rightarrow> u32" where
  "set_compaction_epoch s = set_epoch s"

definition js_set_cursor_next :: "js_set \<Rightarrow> f64 \<Rightarrow> f64 \<Rightarrow> f64" where
  "js_set_cursor_next s cursor epoch =
     (let cursor = (if f64_lt 0 cursor then f64_as_u32 cursor else 0);
          epoch = (if f64_lt 0 epoch then f64_as_u32 epoch else 0)
      in case set_cursor_next_raw s cursor (of_nat epoch) of
           Some idx \<Rightarrow> f64_of_int (int idx)
         | None \<Rightarrow> f64_of_int (- 1))"

definition js_set_compaction_epoch :: "js_set \<Rightarrow> f64" where
  "js_set_compaction_epoch s = f64_of_int (int (unat (set_compaction_epoch s)))"

end
