(* ===== verification/Set_Refinement.thy ===== *)
theory Set_Refinement
  imports Js_Set
begin

text \<open>
  The operations of \<open>Set\<close> against their specification, a duplicate-free list in insertion order: the
  equality of values, the invariant, what each operation does to the live elements, and whole sequences of
  operations.
\<close>

subsection \<open>Equality of values\<close>

definition value_class_of :: "map_env \<Rightarrow> u64 \<Rightarrow> key_class" where
  "value_class_of e k =
     (if js_is_symbol e k \<noteq> 0 then KBits k
      else if set_is_string_like e k then
        (case set_string_view e k of Some bytes \<Rightarrow> KStr bytes | None \<Rightarrow> KBits k)
      else KBits k)"

lemma set_hole: "SET_HOLE_VALUE_BITS = MAP_HOLE_KEY_BITS"
  by (simp add: SET_HOLE_VALUE_BITS_def MAP_HOLE_KEY_BITS_def)

lemma set_normalize_zero_eq: "set_normalize_zero v = normalize_zero v"
  by (simp add: set_normalize_zero_def normalize_zero_def set_hole)

lemma set_jsvalue_eq_class: "set_jsvalue_eq e a b \<longleftrightarrow> value_class_of e a = value_class_of e b"
  by (auto simp: set_jsvalue_eq_def value_class_of_def split: option.splits)

lemma set_jsvalue_eq_equiv: "set_jsvalue_eq e a a" "set_jsvalue_eq e a b \<Longrightarrow> set_jsvalue_eq e b a"
  "set_jsvalue_eq e a b \<Longrightarrow> set_jsvalue_eq e b c \<Longrightarrow> set_jsvalue_eq e a c"
  by (simp_all add: set_jsvalue_eq_class)

text \<open>The index is a hash table: equal values have equal hashes.\<close>

lemma equal_values_hash: "set_jsvalue_eq e a b \<Longrightarrow> js_value_key_hash e a = js_value_key_hash e b"
  by (auto simp: set_jsvalue_eq_class value_class_of_def js_value_key_hash_def split: if_splits option.splits)

interpretation sx: key_table "\<lambda>v. v \<noteq> SET_HOLE_VALUE_BITS" "set_jsvalue_eq e" for e
  by unfold_locales (auto intro: set_jsvalue_eq_equiv)

lemma safe_value_class:
  assumes "is_safe_numeric_key k"
  shows "value_class_of e k = KBits k"
proof -
  have "tag16 k \<notin> {0x7FFF, 0x7FFD, 0x7FFE, 0x7FFA, 0x7FF9}" using assms by (simp add: safe_numeric_key_iff)
  moreover have "set_extract_string_ptr k = 0"
    using extract_string_ptr_safe [OF assms] by (simp add: set_extract_string_ptr_def extract_string_ptr_from_value_def)
  then have "\<not> is_above_handle_band (set_extract_string_ptr k)" by (simp add: is_above_handle_band_def band_defs)
  ultimately have "\<not> set_is_string_like e k"
    by (simp add: set_is_string_like_def Let_def tag16_def tag_defs word_unat_eq_iff)
  then show ?thesis by (simp add: value_class_of_def)
qed

lemma bits_value_eq: "value_class_of e k = KBits k \<Longrightarrow> set_jsvalue_eq e x k \<longleftrightarrow> x = k"
  by (auto simp: set_jsvalue_eq_class value_class_of_def split: if_splits option.splits)

lemma safe_value_eq: "is_safe_numeric_key k \<Longrightarrow> set_jsvalue_eq e x k \<longleftrightarrow> x = k"
  by (rule bits_value_eq [OF safe_value_class])

lemma set_hole_neq: "map_key k \<Longrightarrow> \<not> set_jsvalue_eq e SET_HOLE_VALUE_BITS k" "map_key k \<Longrightarrow> \<not> set_jsvalue_eq e k SET_HOLE_VALUE_BITS"
  using safe_value_eq [OF hole_safe] map_keyD(1) set_jsvalue_eq_equiv(2) unfolding set_hole by blast+

text \<open>
  A value whose tag agrees with the heap, as for the keys of \<open>Map\<close>. The set reads the type byte in front
  of every pointer above the handle band, so that byte must not be the one of a string.
\<close>

definition value_wf :: "map_env \<Rightarrow> u64 \<Rightarrow> bool" where
  "value_wf e k \<longleftrightarrow> key_wf e k \<and>
     (case js_view k of VPointer p \<Rightarrow> is_above_handle_band p \<longrightarrow> obj_type (gc_headers (env_heap e) (p - GC_HEADER_SIZE)) \<noteq> GC_TYPE_STRING | _ \<Rightarrow> True)"

lemma other_value_class:
  assumes "tag16 k \<notin> {0x7FFF, 0x7FF9, 0x7FFD}" "\<not> raw_address k"
  shows "value_class_of e k = KBits k"
proof -
  have "set_extract_string_ptr k = 0"
    using assms low48 [of k] by (auto simp: set_extract_string_ptr_def Let_def tag16_def raw_address_def)
  then have "\<not> is_above_handle_band (set_extract_string_ptr k)" by (simp add: is_above_handle_band_def band_defs)
  then have "\<not> set_is_string_like e k"
    using assms(1) by (simp add: set_is_string_like_def Let_def tag16_def tag_defs word_unat_eq_iff)
  then show ?thesis by (simp add: value_class_of_def)
qed

lemma value_class_wf:
  assumes "value_wf e k"
  shows "value_class_of e k = (case js_view k of VBigInt _ \<Rightarrow> KBits k | _ \<Rightarrow> key_class_of e k)"
proof -
  have wf: "key_wf e k" using assms by (simp add: value_wf_def)
  have tag: "tag16 k = view_tag (js_view k)" by (rule tag16_view)
  have pl: "k AND POINTER_MASK = view_payload (js_view k)" by (rule payload_view)
  have raw: "\<not> raw_address k" using wf map_keyD(4) by (simp add: key_wf_def)
  note kc = key_class_wf [OF wf]
  show ?thesis
  proof (cases "js_view k")
    case (VNumber n)
    then have "is_number k" by (simp add: js_view_cases)
    then show ?thesis using VNumber other_value_class [OF _ raw] kc by (auto simp: is_tag16)
  next
    case (VString p)
    have t: "tag16 k = 0x7FFF" "k AND POINTER_MASK = p" using tag pl VString by (simp_all add: view_tag_def view_payload_def)
    have h: "header_type e p = Some GC_TYPE_STRING" using wf VString by (simp add: key_wf_def)
    note pc = plausible_clean [OF header_type_plausible [OF h]]
    have w: "drop_bit 48 k = 0x7FFF" using t(1) by (simp add: tag16_def word_unat_eq_iff)
    have x: "set_extract_string_ptr k = p" using w t(2) by (simp add: set_extract_string_ptr_def Let_def POINTER_MASK_def)
    have big: "\<not> p < 0x1000" using pc(3) by (simp add: band_defs word_le_nat_alt word_less_nat_alt)
    have "js_is_symbol e k = 0" using t(1) by (simp add: js_is_symbol_def pointer_tag_iff)
    moreover have "set_is_string_like e k" "set_string_view e k = Some (str_data (strings (env_heap e) p))"
      using w x pc(1) big by (simp_all add: set_is_string_like_def set_string_view_def Let_def) (simp_all add: tag_defs)
    ultimately show ?thesis using VString kc pc(1) by (simp add: value_class_of_def string_bytes_def)
  next
    case (VShort l d)
    obtain bytes where b: "short_string_to_buf k = Some bytes" using value_ok_short [OF _ VShort] wf by (auto simp: key_wf_def)
    have t: "tag16 k = 0x7FF9" using tag VShort by (simp add: view_tag_def)
    have w: "drop_bit 48 k = 0x7FF9" using t by (simp add: tag16_def word_unat_eq_iff)
    have "js_is_symbol e k = 0" using t by (simp add: js_is_symbol_def pointer_tag_iff)
    moreover have "set_is_string_like e k" using w by (simp add: set_is_string_like_def Let_def) (simp add: tag_defs)
    moreover have "set_string_view e k = string_view_from_bits e k"
      using w by (simp add: set_string_view_def string_view_from_bits_def Let_def SHORT_STRING_TAG_def)
    moreover have "string_view_from_bits e k = Some bytes"
      using w b by (simp add: string_view_from_bits_def short_string_to_buf_def short_string_len_def Let_def min_def
          SHORT_STRING_TAG_def split: if_splits)
    ultimately show ?thesis using VShort kc b by (simp add: value_class_of_def)
  next
    case (VPointer p)
    have t: "tag16 k = 0x7FFD" "k AND POINTER_MASK = p" using tag pl VPointer by (simp_all add: view_tag_def view_payload_def)
    have w: "drop_bit 48 k = 0x7FFD" using t(1) by (simp add: tag16_def word_unat_eq_iff)
    have x: "set_extract_string_ptr k = p" using w t(2) by (simp add: set_extract_string_ptr_def Let_def POINTER_MASK_def)
    have "is_above_handle_band p \<longrightarrow> obj_type (gc_headers (env_heap e) (p - GC_HEADER_SIZE)) \<noteq> GC_TYPE_STRING"
      using assms VPointer by (simp add: value_wf_def)
    then have "\<not> set_is_string_like e k" using w x by (simp add: set_is_string_like_def Let_def SHORT_STRING_TAG_def)
    then show ?thesis using VPointer kc by (simp add: value_class_of_def)
  next
    case (VReserved r)
    then have "tag16 k \<in> {0x7FFC, 0x7FFE}" by (auto simp: view_simps split: if_splits)
    then show ?thesis using VReserved other_value_class [OF _ raw] kc by auto
  qed (use other_value_class [OF _ raw, of e] tag kc in \<open>auto simp: view_tag_def\<close>)
qed

subsection \<open>The invariant\<close>

definition live_values :: "js_set \<Rightarrow> u64 list" where
  "live_values s = filter (\<lambda>v. v \<noteq> SET_HOLE_VALUE_BITS) (elements s)"

definition values_ok :: "map_env \<Rightarrow> u64 list \<Rightarrow> bool" where
  "values_ok e vs \<longleftrightarrow> (\<forall>v \<in> set vs. v = SET_HOLE_VALUE_BITS \<or> map_key v) \<and>
     sorted_wrt (\<lambda>a b. a \<noteq> SET_HOLE_VALUE_BITS \<longrightarrow> \<not> set_jsvalue_eq e a b) vs"

definition set_inv :: "map_env \<Rightarrow> js_set \<Rightarrow> bool" where
  "set_inv e s \<longleftrightarrow> values_ok e (elements s) \<and> set_size s = length (live_values s) \<and> 0 < set_capacity s \<and>
     set_used s \<le> set_capacity s \<and> set_used s \<le> PTR_REBUILD_MAX \<and> 
     index_exact (\<lambda>v. v \<noteq> SET_HOLE_VALUE_BITS) (set_jsvalue_eq e) (elements s) (sx_get e (set_ix s))"

lemma values_ok_nth:
  "values_ok e vs \<longleftrightarrow> (\<forall>v \<in> set vs. v = SET_HOLE_VALUE_BITS \<or> map_key v) \<and>
     (\<forall>i j. i < j \<longrightarrow> j < length vs \<longrightarrow> vs ! i \<noteq> SET_HOLE_VALUE_BITS \<longrightarrow> \<not> set_jsvalue_eq e (vs ! i) (vs ! j))"
  by (auto simp: values_ok_def sorted_wrt_iff_nth_less)

lemma values_ok_filter: "values_ok e vs \<Longrightarrow> values_ok e (filter P vs)"
  by (auto simp: values_ok_def intro: sorted_wrt_filter)

lemma values_ok_append:
  "values_ok e vs \<Longrightarrow> map_key v \<Longrightarrow> (\<And>x. x \<in> set vs \<Longrightarrow> \<not> set_jsvalue_eq e x v) \<Longrightarrow> values_ok e (vs @ [v])"
  by (auto simp: values_ok_def sorted_wrt_append)

lemma values_ok_unique:
  assumes "values_ok e vs" "map_key v" "i < length vs" "j < length vs" "set_jsvalue_eq e (vs ! i) v" "set_jsvalue_eq e (vs ! j) v"
  shows "i = j"
proof (rule ccontr)
  assume "i \<noteq> j"
  have eq: "set_jsvalue_eq e (vs ! i) (vs ! j)" "set_jsvalue_eq e (vs ! j) (vs ! i)" using assms(5,6) by (simp_all add: set_jsvalue_eq_class)
  have "vs ! i \<noteq> SET_HOLE_VALUE_BITS" "vs ! j \<noteq> SET_HOLE_VALUE_BITS" using assms(2,5,6) set_hole_neq(1) by metis+
  then show False using eq assms(1,3,4) \<open>i \<noteq> j\<close> by (cases "i < j") (auto simp: values_ok_nth)
qed

subsection \<open>Lookup\<close>

definition value_position :: "map_env \<Rightarrow> u64 list \<Rightarrow> u64 \<Rightarrow> int \<Rightarrow> bool" where
  "value_position e vs v r \<longleftrightarrow>
     (r = -1 \<and> (\<forall>x \<in> set vs. \<not> set_jsvalue_eq e x v)) \<or> (\<exists>i < length vs. r = int i \<and> set_jsvalue_eq e (vs ! i) v)"

lemma set_scan_cases:
  "(set_scan i vs v = -1 \<and> v \<notin> set vs) \<or> (\<exists>j < length vs. set_scan i vs v = int (i + j) \<and> vs ! j = v)"
proof (induction vs arbitrary: i)
  case (Cons x vs)
  show ?case
  proof (cases "x = v")
    case False
    then show ?thesis using Cons [of "Suc i"] by force
  qed force
qed simp

lemma find_value_index_position:
  assumes "set_inv e s" "map_key v"
  shows "value_position e (elements s) v (find_value_index e s v)"
proof (cases "find_value_index_hot s v")
  case (Some r)
  then have h: "is_plain_nonzero_number_bits v" "r = set_scan 0 (elements s) v" by (auto simp: find_value_index_hot_def split: if_splits)
  have "set_jsvalue_eq e x v \<longleftrightarrow> x = v" for x using safe_value_eq [OF plain_number_safe [OF h(1) assms(2)]] .
  then show ?thesis using set_scan_cases [of 0 "elements s" v] Some h(2) by (auto simp: find_value_index_def value_position_def)
next
  case None
  have ex: "index_exact (\<lambda>v. v \<noteq> SET_HOLE_VALUE_BITS) (set_jsvalue_eq e) (elements s) (sx_get e (set_ix s))"
    using assms(1) by (simp add: set_inv_def)
  have v: "v \<noteq> SET_HOLE_VALUE_BITS" using map_keyD(1) [OF assms(2)] by (simp add: set_hole)
  have hole: "x \<noteq> SET_HOLE_VALUE_BITS" if "set_jsvalue_eq e x v" for x using that set_hole_neq(1) [OF assms(2)] by blast
  show ?thesis
  proof (cases "sx_get e (set_ix s) v")
    case miss: None
    then have "\<not> set_jsvalue_eq e x v" if "x \<in> set (elements s)" for x
      using that index_exact_None [OF ex v] hole by (auto simp: in_set_conv_nth)
    then show ?thesis using None miss by (simp add: find_value_index_def find_value_index_cold_def value_position_def)
  next
    case (Some i)
    then show ?thesis using None index_exactD [OF ex v, of i] by (simp add: find_value_index_def find_value_index_cold_def value_position_def)
  qed
qed

subsection \<open>Compaction\<close>

lemma set_compact_loop_eq:
  "set_compact_loop i vs = (filter (\<lambda>v. v \<noteq> SET_HOLE_VALUE_BITS) vs, snd (compact_loop i (map (\<lambda>v. (v, w)) vs)))"
  by (induction i vs rule: set_compact_loop.induct) (auto simp: set_hole split: prod.splits)

lemma note_set_compaction_fields [simp]:
  "elements (note_set_compaction r s) = elements s" "set_size (note_set_compaction r s) = set_size s"
  "set_capacity (note_set_compaction r s) = set_capacity s" "set_ix (note_set_compaction r s) = set_ix s"
  "set_foreach_depth (note_set_compaction r s) = set_foreach_depth s"
  by (simp_all add: note_set_compaction_def Let_def split: prod.split)

lemma set_inv_cong:
  "elements s' = elements s \<Longrightarrow> set_size s' = set_size s \<Longrightarrow> set_capacity s' = set_capacity s \<Longrightarrow> set_ix s' = set_ix s \<Longrightarrow>
   set_inv e s' = set_inv e s"
  by (simp add: set_inv_def live_values_def)

lemma live_values_le: "length (live_values s) \<le> set_used s"
  by (simp add: live_values_def)

lemma live_values_all: "length (live_values s) = set_used s \<Longrightarrow> live_values s = elements s"
  unfolding live_values_def by (metis filter_id_conv length_filter_less less_irrefl)

lemma rebuild_set_index_exact:
  assumes "values_ok e vs" "SET_HOLE_VALUE_BITS \<notin> set vs"
  shows "index_exact (\<lambda>v. v \<noteq> SET_HOLE_VALUE_BITS) (set_jsvalue_eq e) vs
    (sx_get e (index_entries (\<lambda>v. v \<noteq> SET_HOLE_VALUE_BITS) (sx_insert e) 0 vs []))"
  using sx.index_entries_clear [where ks = vs and n = "length vs" and e = e] assms(1)
  unfolding sx_get_def sx_insert_def values_ok_nth by blast

lemma compact_set_elements_eq:
  assumes "set_inv e s"
  shows "compact_set_elements e s =
    (let s' = s\<lparr>elements := live_values s, set_ix := index_entries (\<lambda>v. v \<noteq> SET_HOLE_VALUE_BITS) (sx_insert e) 0 (live_values s) []\<rparr>;
         removed = snd (set_compact_loop 0 (elements s))
     in if removed \<noteq> [] then note_set_compaction (Indices removed) s' else s')"
proof -
  have out: "fst (set_compact_loop 0 (elements s)) = live_values s" by (simp add: set_compact_loop_eq [of _ _ 0] live_values_def)
  have len: "length (live_values s) \<le> set_capacity s" "length (live_values s) \<le> PTR_REBUILD_MAX"
    using live_values_le [of s] assms by (simp_all add: set_inv_def)
  show ?thesis unfolding compact_set_elements_def case_prod_beta Let_def out
    using len by (simp add: rebuild_set_index_def)
qed

lemma compact_set_elements_correct:
  assumes "set_inv e s"
  shows "set_inv e (compact_set_elements e s)" "elements (compact_set_elements e s) = live_values s"
    "live_values (compact_set_elements e s) = live_values s" "set_size (compact_set_elements e s) = set_size s"
    "set_capacity (compact_set_elements e s) = set_capacity s" "set_foreach_depth (compact_set_elements e s) = set_foreach_depth s"
proof -
  let ?s = "s\<lparr>elements := live_values s, set_ix := index_entries (\<lambda>v. v \<noteq> SET_HOLE_VALUE_BITS) (sx_insert e) 0 (live_values s) []\<rparr>"
  let ?c = "compact_set_elements e s"
  have c: "elements ?c = elements ?s" "set_size ?c = set_size ?s" "set_capacity ?c = set_capacity ?s" "set_ix ?c = set_ix ?s"
    "set_foreach_depth ?c = set_foreach_depth ?s" unfolding compact_set_elements_eq [OF assms] Let_def by simp_all
  then show "elements ?c = live_values s" "set_size ?c = set_size s" "set_capacity ?c = set_capacity s" "set_foreach_depth ?c = set_foreach_depth s"
    by simp_all
  show "live_values ?c = live_values s" using c(1) by (simp add: live_values_def)
  have "values_ok e (live_values s)" using assms by (simp add: set_inv_def live_values_def values_ok_filter)
  moreover have "SET_HOLE_VALUE_BITS \<notin> set (live_values s)" by (simp add: live_values_def)
  moreover have "live_values ?s = live_values s" by (simp add: live_values_def)
  ultimately have "set_inv e ?s" using assms rebuild_set_index_exact [of e "live_values s"] live_values_le [of s]
    by (simp add: set_inv_def)
  then show "set_inv e ?c" using set_inv_cong [of ?c ?s e] c by simp
qed

lemma compact_if_holey_set_correct:
  assumes "set_inv e s"
  shows "set_inv e (compact_if_holey_set e s)" "elements (compact_if_holey_set e s) = live_values s"
    "live_values (compact_if_holey_set e s) = live_values s" "set_size (compact_if_holey_set e s) = set_size s"
    "set_capacity (compact_if_holey_set e s) = set_capacity s" "set_foreach_depth (compact_if_holey_set e s) = set_foreach_depth s"
proof -
  have "live_values s = elements s" if "set_used s = set_size s" using that assms live_values_all by (simp add: set_inv_def)
  then show "set_inv e (compact_if_holey_set e s)" "elements (compact_if_holey_set e s) = live_values s"
    "live_values (compact_if_holey_set e s) = live_values s" "set_size (compact_if_holey_set e s) = set_size s"
    "set_capacity (compact_if_holey_set e s) = set_capacity s" "set_foreach_depth (compact_if_holey_set e s) = set_foreach_depth s"
    using compact_set_elements_correct [OF assms] assms by (simp_all add: compact_if_holey_set_def)
qed

subsection \<open>Adding\<close>

lemma set_ensure_capacity_correct:
  assumes "set_inv e s" "set_used s < PTR_REBUILD_MAX" "set_ensure_capacity e alloc_ok s = Inr s'"
  shows "set_inv e s' \<and> set_used s' < set_capacity s' \<and> set_used s' \<le> set_used s \<and> live_values s' = live_values s
    \<and> set (elements s') \<subseteq> set (elements s)"
proof -
  let ?c = "compact_set_elements e s"
  note c = compact_set_elements_correct [OF assms(1)]
  have sub: "set (live_values s) \<subseteq> set (elements s)" by (auto simp: live_values_def)
  have grow: "set_inv e s' \<and> set_used s' < set_capacity s' \<and> elements s' = elements s0 \<and> live_values s' = live_values s0"
    if "set_inv e s0" "\<not> set_used s0 < set_capacity s0" "set_used s0 < PTR_REBUILD_MAX" "grow_elements alloc_ok s0 = Inr s'" for s0
  proof -
    have full: "set_used s0 = set_capacity s0" using that(1,2) by (simp add: set_inv_def)
    then have "set_capacity s0 * 2 mod 2 ^ 32 = set_capacity s0 * 2" using that(3) by (simp add: PTR_REBUILD_MAX_def)
    then have "s' = s0\<lparr>set_capacity := set_capacity s0 * 2\<rparr>" using that(4) by (auto simp: grow_elements_def Let_def split: if_splits)
    then show ?thesis using that(1) full by (auto simp: set_inv_def live_values_def)
  qed
  show ?thesis
  proof (cases "set_used s < set_capacity s")
    case True
    then show ?thesis using assms by (simp add: set_ensure_capacity_def)
  next
    case full: False
    have uc: "set_used ?c < PTR_REBUILD_MAX" "set_used ?c \<le> set_used s" using c(2) live_values_le [of s] assms(2) by simp_all
    show ?thesis
    proof (cases "set_size s < set_used s \<and> \<not> set_foreach_is_active s")
      case True
      then have e: "(if set_used ?c < set_capacity ?c then Inr ?c else grow_elements alloc_ok ?c) = Inr s'"
        using assms(3) full by (simp add: set_ensure_capacity_def Let_def)
      show ?thesis
      proof (cases "set_used ?c < set_capacity ?c")
        case room: True
        then have "s' = ?c" using e by simp
        then show ?thesis using c(1-3) uc(2) room sub by simp
      next
        case no_room: False
        then have "grow_elements alloc_ok ?c = Inr s'" using e by simp
        from grow [OF c(1) no_room uc(1) this] show ?thesis using c(2,3) uc(2) sub by auto
      qed
    next
      case False
      have "grow_elements alloc_ok s = Inr s'" using assms(3) unfolding set_ensure_capacity_def by (simp only: full False if_False)
      from grow [OF assms(1) full assms(2) this] show ?thesis by auto
    qed
  qed
qed

lemma append_element_correct:
  assumes "set_inv e s" "map_key v" "\<And>x. x \<in> set (elements s) \<Longrightarrow> \<not> set_jsvalue_eq e x v"
    "set_used s < set_capacity s" "set_used s < PTR_REBUILD_MAX"
  shows "set_inv e (append_element e v s) \<and> live_values (append_element e v s) = live_values s @ [v]"
proof -
  have v: "v \<noteq> SET_HOLE_VALUE_BITS" using map_keyD(1) [OF assms(2)] by (simp add: set_hole)
  have live: "live_values (append_element e v s) = live_values s @ [v]" using v by (simp add: append_element_def live_values_def Let_def)
  have "index_exact (\<lambda>v. v \<noteq> SET_HOLE_VALUE_BITS) (set_jsvalue_eq e) (elements s @ [v]) (sx_get e (sx_insert e v (set_used s) (set_ix s)))"
    unfolding sx_get_def sx_insert_def
    using sx.exact_append [OF TrueI _ v TrueI] assms(1,3) by (simp add: set_inv_def sx_get_def)
  moreover have "values_ok e (elements s @ [v])" using values_ok_append [OF _ assms(2,3)] assms(1) by (simp add: set_inv_def)
  ultimately have "set_inv e (append_element e v s)"
    using assms(1,4,5) live unfolding set_inv_def by (simp add: append_element_def Let_def)
  then show ?thesis using live by blast
qed

subsection \<open>The specification\<close>

text \<open>An insertion-ordered list without duplicates under the equality of values.\<close>

definition spec_member :: "map_env \<Rightarrow> u64 \<Rightarrow> u64 list \<Rightarrow> bool" where
  "spec_member e v L \<longleftrightarrow> (\<exists>x \<in> set L. set_jsvalue_eq e x v)"

definition spec_add :: "map_env \<Rightarrow> u64 \<Rightarrow> u64 list \<Rightarrow> u64 list" where
  "spec_add e v L = (if spec_member e v L then L else L @ [v])"

definition spec_remove :: "map_env \<Rightarrow> u64 \<Rightarrow> u64 list \<Rightarrow> u64 list" where
  "spec_remove e v L = filter (\<lambda>x. \<not> set_jsvalue_eq e x v) L"

lemma spec_member_live:
  assumes "map_key v"
  shows "spec_member e v (live_values s) \<longleftrightarrow> (\<exists>x \<in> set (elements s). set_jsvalue_eq e x v)"
  using set_hole_neq(1) [OF assms] by (auto simp: spec_member_def live_values_def)

lemma value_position_member:
  assumes "map_key v" "value_position e (elements s) v r"
  shows "r \<ge> 0 \<longleftrightarrow> spec_member e v (live_values s)"
  using assms(2) unfolding spec_member_live [OF assms(1)] value_position_def by (auto intro: bexI [OF _ nth_mem])

lemma find_value_index_member:
  "set_inv e s \<Longrightarrow> map_key v \<Longrightarrow> find_value_index e s v \<ge> 0 \<longleftrightarrow> spec_member e v (live_values s)"
  by (rule value_position_member [OF _ find_value_index_position])

lemma add_value_correct:
  assumes "set_inv e s" "map_key v" "set_used s < PTR_REBUILD_MAX"
    "(if find_value_index e s v \<ge> 0 then Inr s
      else case set_ensure_capacity e alloc_ok s of Inl err \<Rightarrow> Inl err | Inr s \<Rightarrow> Inr (append_element e v s)) = Inr s'"
  shows "set_inv e s' \<and> live_values s' = spec_add e v (live_values s) \<and> set_used s' \<le> Suc (set_used s)"
proof (cases "find_value_index e s v \<ge> 0")
  case True
  then show ?thesis using assms find_value_index_member [OF assms(1,2)] by (simp add: spec_add_def)
next
  case False
  then have miss: "\<not> spec_member e v (live_values s)" using find_value_index_member [OF assms(1,2)] by simp
  obtain s1 where s1: "set_ensure_capacity e alloc_ok s = Inr s1" "s' = append_element e v s1"
    using assms(4) False by (cases "set_ensure_capacity e alloc_ok s") auto
  note c = set_ensure_capacity_correct [OF assms(1,3) s1(1)]
  have fresh: "\<not> set_jsvalue_eq e x v" if "x \<in> set (elements s1)" for x
    using that c miss unfolding spec_member_live [OF assms(2)] by blast
  have "set_inv e s' \<and> live_values s' = live_values s1 @ [v]" unfolding s1(2)
    by (rule append_element_correct [OF _ assms(2) fresh]) (use c assms(3) in auto)
  moreover have "set_used s' \<le> Suc (set_used s)" using c by (simp add: s1(2) append_element_def Let_def)
  ultimately show ?thesis using c miss by (simp add: spec_add_def)
qed

lemma set_add_resolved_correct:
  assumes "set_inv e s" "\<not> raw_address v" "set_used s < PTR_REBUILD_MAX" "set_add_resolved e alloc_ok s v = Inr s'"
  shows "set_inv e s' \<and> live_values s' = spec_add e (normalize_zero v) (live_values s) \<and> set_used s' \<le> Suc (set_used s)"
  by (rule add_value_correct [OF assms(1) normalize_zero_map_key [OF assms(2)] assms(3)])
    (use assms(4) in \<open>simp add: set_add_resolved_def set_normalize_zero_eq Let_def\<close>)

lemma boxed_string_value: "boxed_heap_string_value q = boxed_heap_string_key q" "map_key (boxed_heap_string_value q)"
  "set_normalize_zero (boxed_heap_string_value q) = boxed_heap_string_value q" "\<not> raw_address (boxed_heap_string_value q)"
proof -
  show eq: "boxed_heap_string_value q = boxed_heap_string_key q" by (simp add: boxed_heap_string_value_def boxed_heap_string_key_def)
  show "map_key (boxed_heap_string_value q)" "set_normalize_zero (boxed_heap_string_value q) = boxed_heap_string_value q"
    "\<not> raw_address (boxed_heap_string_value q)"
    using boxed_string_key(2) [of q] map_keyD(3,4) by (simp_all add: eq set_normalize_zero_eq)
qed

lemma set_add_string_resolved_eq: "set_add_string_resolved e alloc_ok s q = set_add_resolved e alloc_ok s (boxed_heap_string_value q)"
  by (simp add: set_add_string_resolved_def set_add_resolved_def boxed_string_value(3))

subsection \<open>Deleting\<close>

definition set_tombstone :: "map_env \<Rightarrow> nat \<Rightarrow> js_set \<Rightarrow> js_set" where
  "set_tombstone e i s = s\<lparr>elements := (elements s)[i := SET_HOLE_VALUE_BITS], set_size := set_size s - 1,
     set_ix := sx_remove e (elements s ! i) (set_ix s)\<rparr>"

lemma update_value_at:
  assumes "values_ok e vs" "map_key v" "i < length vs" "set_jsvalue_eq e (vs ! i) v"
  shows "vs[i := w] = map (\<lambda>x. if set_jsvalue_eq e x v then w else x) vs"
proof (rule nth_equalityI)
  fix j assume "j < length (vs[i := w])"
  then have j: "j < length vs" by simp
  have "set_jsvalue_eq e (vs ! j) v \<longleftrightarrow> j = i" using values_ok_unique [OF assms(1,2), of i j] assms(3,4) j by auto
  then show "vs[i := w] ! j = map (\<lambda>x. if set_jsvalue_eq e x v then w else x) vs ! j" using j by (simp add: nth_list_update)
qed simp

lemma filter_tombstones:
  "filter (\<lambda>x. x \<noteq> h) (map (\<lambda>x. if P x then h else x) vs) = filter (\<lambda>x. \<not> P x) (filter (\<lambda>x. x \<noteq> h) vs)"
  by (induction vs) auto

lemma filter_update_drop: "i < length vs \<Longrightarrow> P (vs ! i) \<Longrightarrow> \<not> P w \<Longrightarrow> Suc (length (filter P (vs[i := w]))) = length (filter P vs)"
  by (induction vs arbitrary: i) (auto split: nat.split)

lemma values_ok_hole:
  assumes "values_ok e vs"
  shows "values_ok e (vs[i := SET_HOLE_VALUE_BITS])"
proof -
  have hole: "\<not> set_jsvalue_eq e x SET_HOLE_VALUE_BITS" if "x \<noteq> SET_HOLE_VALUE_BITS" for x
    using that safe_value_eq [OF hole_safe] unfolding set_hole by blast
  have ok: "\<forall>v \<in> set (vs[i := SET_HOLE_VALUE_BITS]). v = SET_HOLE_VALUE_BITS \<or> map_key v"
    using assms subsetD [OF set_update_subset_insert] unfolding values_ok_nth by fast
  have "\<not> set_jsvalue_eq e (vs[i := SET_HOLE_VALUE_BITS] ! j) (vs[i := SET_HOLE_VALUE_BITS] ! k)"
    if "j < k" "k < length vs" "vs[i := SET_HOLE_VALUE_BITS] ! j \<noteq> SET_HOLE_VALUE_BITS" for j k
    using assms that hole [of "vs ! j"] unfolding values_ok_nth by (cases "i = j"; cases "i = k") simp_all
  then show ?thesis using ok unfolding values_ok_nth by simp
qed

lemma set_tombstone_correct:
  assumes "set_inv e s" "map_key v" "i < set_used s" "set_jsvalue_eq e (elements s ! i) v"
  shows "set_inv e (set_tombstone e i s)" "live_values (set_tombstone e i s) = spec_remove e v (live_values s)"
proof -
  have s: "values_ok e (elements s)" "sx.exact e (elements s) (set_ix s)"
    using assms(1) by (simp_all add: set_inv_def sx_get_def)
  have es: "elements (set_tombstone e i s) = map (\<lambda>x. if set_jsvalue_eq e x v then SET_HOLE_VALUE_BITS else x) (elements s)"
    using update_value_at [OF s(1) assms(2-4)] by (simp add: set_tombstone_def)
  show live: "live_values (set_tombstone e i s) = spec_remove e v (live_values s)"
    unfolding live_values_def es spec_remove_def filter_tombstones by simp
  have ni: "elements s ! i \<noteq> SET_HOLE_VALUE_BITS" using assms(2,4) set_hole_neq(1) by metis
  have uniq: "\<not> set_jsvalue_eq e (elements s ! j) (elements s ! i)" if "j < set_used s" "j \<noteq> i" for j
    using values_ok_unique [OF s(1) assms(2) that(1) assms(3)] assms(4) that(2) set_jsvalue_eq_equiv(3) by blast
  have ex: "sx.exact e ((elements s)[i := SET_HOLE_VALUE_BITS]) (table_remove (set_jsvalue_eq e) (elements s ! i) (set_ix s))"
    by (rule sx.exact_delete [OF TrueI s(2) assms(3) ni]) (use uniq in auto)
  have "set_size s = length (live_values s)" using assms(1) by (simp add: set_inv_def)
  moreover have "Suc (length (live_values (set_tombstone e i s))) = length (live_values s)"
    unfolding live_values_def using filter_update_drop [OF assms(3), of "\<lambda>v. v \<noteq> SET_HOLE_VALUE_BITS"] ni by (simp add: set_tombstone_def)
  ultimately have "set_size s - 1 = length (live_values (set_tombstone e i s))" by simp
  then show "set_inv e (set_tombstone e i s)"
    using assms(1) values_ok_hole [OF s(1), of i] ex unfolding set_inv_def by (simp add: set_tombstone_def sx_get_def sx_remove_def)
qed

lemma js_set_delete_cases:
  "js_set_delete e s v =
     (let idx = find_value_index e s (normalize_zero v); t = set_tombstone e (nat idx) s
      in if idx < 0 then (0, s)
         else (1, if set_used t \<ge> 16 \<and> set_size t < set_used t div 2 \<and> \<not> set_foreach_is_active t then compact_set_elements e t else t))"
  by (simp add: js_set_delete_def set_normalize_zero_eq set_tombstone_def Let_def)

lemma js_set_delete_correct:
  assumes "set_inv e s" "\<not> raw_address v" "js_set_delete e s v = (b, s')"
  shows "set_inv e s' \<and> live_values s' = spec_remove e (normalize_zero v) (live_values s) \<and> set_used s' \<le> set_used s \<and>
    b = (if spec_member e (normalize_zero v) (live_values s) then 1 else 0)"
proof -
  let ?v = "normalize_zero v"
  have k: "map_key ?v" by (rule normalize_zero_map_key [OF assms(2)])
  note pos = find_value_index_position [OF assms(1) k]
  show ?thesis
  proof (cases "find_value_index e s ?v < 0")
    case True
    then have "\<not> spec_member e ?v (live_values s)" using find_value_index_member [OF assms(1) k] by simp
    moreover from this have "spec_remove e ?v (live_values s) = live_values s"
      by (auto simp: spec_remove_def spec_member_def filter_id_conv)
    ultimately show ?thesis using True assms(1,3) by (simp add: js_set_delete_cases)
  next
    case False
    then obtain i where i: "find_value_index e s ?v = int i" "i < set_used s" "set_jsvalue_eq e (elements s ! i) ?v"
      using pos by (auto simp: value_position_def)
    let ?t = "set_tombstone e i s"
    note t = set_tombstone_correct [OF assms(1) k i(2,3)]
    have r: "b = 1" "s' = ?t \<or> s' = compact_set_elements e ?t"
      using assms(3) by (auto simp: js_set_delete_cases i(1) Let_def split: if_splits)
    have "set_used ?t = set_used s" by (simp add: set_tombstone_def)
    then have "set_inv e s' \<and> live_values s' = spec_remove e ?v (live_values s) \<and> set_used s' \<le> set_used s"
      using r(2) t compact_set_elements_correct(1-3) [OF t(1)] live_values_le [of ?t] by auto
    then show ?thesis using r(1) find_value_index_member [OF assms(1) k] i(1) by simp
  qed
qed

subsection \<open>Clearing\<close>

lemma set_inv_holes:
  assumes "set_inv e s" "\<And>v. v \<in> set (elements s') \<Longrightarrow> v = SET_HOLE_VALUE_BITS" "set_used s' \<le> set_used s" "set_size s' = 0"
    "set_capacity s' = set_capacity s" "\<And>v. v \<noteq> SET_HOLE_VALUE_BITS \<Longrightarrow> sx_get e (set_ix s') v = None"
  shows "set_inv e s' \<and> live_values s' = []"
proof -
  have live: "live_values s' = []" using assms(2) by (auto simp: live_values_def filter_empty_conv)
  have hole: "elements s' ! i = SET_HOLE_VALUE_BITS" if "i < set_used s'" for i using assms(2) nth_mem [OF that] by blast
  then have "values_ok e (elements s')" using assms(2) by (simp add: values_ok_nth)
  moreover have "index_exact (\<lambda>v. v \<noteq> SET_HOLE_VALUE_BITS) (set_jsvalue_eq e) (elements s') (sx_get e (set_ix s'))"
    using assms(6) hole by (auto simp: index_exact_def)
  ultimately show ?thesis using assms(1,3-5) live by (simp add: set_inv_def)
qed

lemma js_set_clear_correct:
  assumes "set_inv e s"
  shows "set_inv e (js_set_clear s) \<and> live_values (js_set_clear s) = [] \<and> set_used (js_set_clear s) \<le> set_used s"
proof (cases "set_size s = 0")
  case True
  then have l: "live_values s = []" using assms by (simp add: set_inv_def)
  then have holes: "v = SET_HOLE_VALUE_BITS" if "v \<in> set (elements s)" for v
    using that by (auto simp: live_values_def filter_empty_conv)
  have none: "sx_get e (set_ix s) v = None" if "v \<noteq> SET_HOLE_VALUE_BITS" for v
  proof -
    have "index_exact (\<lambda>v. v \<noteq> SET_HOLE_VALUE_BITS) (set_jsvalue_eq e) (elements s) (sx_get e (set_ix s))"
      using assms by (simp add: set_inv_def)
    from index_exact_None [OF this that] show ?thesis using holes nth_mem by blast
  qed
  have "set_inv e (note_set_compaction r (s\<lparr>elements := []\<rparr>)) \<and> live_values (note_set_compaction r (s\<lparr>elements := []\<rparr>)) = []" for r
    by (rule set_inv_holes [OF assms]) (use True none in simp_all)
  then show ?thesis using True assms l by (simp add: js_set_clear_def Let_def)
next
  case False
  let ?c = "js_set_clear s"
  have c: "elements ?c = (if set_foreach_is_active s then map (\<lambda>v. if v \<noteq> SET_HOLE_VALUE_BITS then SET_HOLE_VALUE_BITS else v) (elements s) else [])"
    "set_size ?c = 0" "set_capacity ?c = set_capacity s" "set_ix ?c = []"
    using False by (simp_all add: js_set_clear_def Let_def set_foreach_is_active_def)
  have "set_inv e ?c \<and> live_values ?c = []"
    by (rule set_inv_holes [OF assms]) (use c in \<open>auto simp: sx_get_def split: if_splits\<close>)
  then show ?thesis using c(1) by simp
qed

subsection \<open>Positions\<close>

lemma set_live_step_correct:
  "live \<le> idx \<Longrightarrow> idx < live + length (filter (\<lambda>v. v \<noteq> SET_HOLE_VALUE_BITS) vs) \<Longrightarrow>
   \<exists>j < length vs. set_live_step raw live vs idx = Some (raw + j) \<and> vs ! j = filter (\<lambda>v. v \<noteq> SET_HOLE_VALUE_BITS) vs ! (idx - live)"
proof (induction raw live vs idx rule: set_live_step.induct)
  case (2 raw live v rest idx)
  show ?case
  proof (cases "v = SET_HOLE_VALUE_BITS")
    case True
    then obtain j where "j < length rest" "set_live_step (Suc raw) live rest idx = Some (Suc raw + j)"
        "rest ! j = filter (\<lambda>v. v \<noteq> SET_HOLE_VALUE_BITS) rest ! (idx - live)"
      using 2(2) [OF _ 2(3)] 2(4) by auto
    then show ?thesis using True by (intro exI [of _ "Suc j"]) simp
  next
    case False
    show ?thesis
    proof (cases "live = idx")
      case ne: False
      then obtain j where "j < length rest" "set_live_step (Suc raw) (Suc live) rest idx = Some (Suc raw + j)"
          "rest ! j = filter (\<lambda>v. v \<noteq> SET_HOLE_VALUE_BITS) rest ! (idx - Suc live)"
        using 2(1) [OF False ne] 2(3,4) False by auto
      moreover have "idx - live = Suc (idx - Suc live)" using ne 2(3) by linarith
      ultimately show ?thesis using False ne by (intro exI [of _ "Suc j"]) simp
    qed (use False in auto)
  qed
qed simp

lemma js_set_value_at_correct:
  assumes "set_inv e s" "js_set_value_at e s i = (v, s')"
  shows "set_inv e s' \<and> live_values s' = live_values s \<and> set_used s' \<le> set_used s \<and>
    v = (if i < length (live_values s) then live_values s ! i else TAG_UNDEFINED)"
proof -
  have size: "set_size s = length (live_values s)" using assms(1) by (simp add: set_inv_def)
  note c = compact_if_holey_set_correct [OF assms(1)]
  show ?thesis
  proof (cases "i \<ge> set_size s")
    case True
    then show ?thesis using assms size by (simp add: js_set_value_at_def live_index_to_raw_set_def)
  next
    case False
    show ?thesis
    proof (cases "set_foreach_is_active s")
      case True
      then show ?thesis using assms False size set_live_step_correct [of 0 i "elements s" 0]
        by (auto simp: js_set_value_at_def live_index_to_raw_set_def live_values_def)
    next
      case inactive: False
      then have "s' = compact_if_holey_set e s" "v = elements s' ! i"
        using assms(2) False by (auto simp: js_set_value_at_def live_index_to_raw_set_def)
      then show ?thesis using c(1-3) False size live_values_le [of s] by simp
    qed
  qed
qed

lemma js_set_to_array_correct:
  assumes "set_inv e s"
  shows "js_set_to_array e s = (live_values s, compact_if_holey_set e s)"
  using compact_if_holey_set_correct(2,4) [OF assms] assms by (simp add: js_set_to_array_def Let_def set_inv_def)

subsection \<open>Sequences of operations\<close>

text \<open>The value of an operation, in the representation of its entry point.\<close>

datatype set_arg = Arg_value u64 | Arg_number u64 | Arg_string addr | Arg_i32 int | Arg_u32 u32 | Arg_bool int

datatype set_op =
    Set_add set_arg
  | Set_has set_arg
  | Set_delete set_arg
  | Set_clear
  | Set_size
  | Set_value_at nat
  | Set_to_array
  | Set_foreach_enter
  | Set_foreach_leave

datatype set_result = S_none | S_value u64 | S_int int | S_list "u64 list"

fun add_arg :: "map_env \<Rightarrow> (nat \<Rightarrow> bool) \<Rightarrow> js_set \<Rightarrow> set_arg \<Rightarrow> js_throw + js_set" where
  "add_arg e alloc_ok s (Arg_value v) = set_add_resolved e alloc_ok s v"
| "add_arg e alloc_ok s (Arg_number v) = js_set_add_number e alloc_ok s v"
| "add_arg e alloc_ok s (Arg_string q) = set_add_string_resolved e alloc_ok s q"
| "add_arg e alloc_ok s (Arg_i32 v) = js_set_add_i32 e alloc_ok s v"
| "add_arg e alloc_ok s (Arg_u32 v) = js_set_add_u32 e alloc_ok s v"
| "add_arg e alloc_ok s (Arg_bool v) = js_set_add_bool e alloc_ok s v"

fun has_arg :: "map_env \<Rightarrow> js_set \<Rightarrow> set_arg \<Rightarrow> int" where
  "has_arg e s (Arg_value v) = js_set_has e s v"
| "has_arg e s (Arg_number v) = js_set_has_number e s v"
| "has_arg e s (Arg_string q) = js_set_has_string e s q"
| "has_arg e s (Arg_i32 v) = js_set_has_i32 e s v"
| "has_arg e s (Arg_u32 v) = js_set_has_u32 e s v"
| "has_arg e s (Arg_bool v) = js_set_has_bool e s v"

fun delete_arg :: "map_env \<Rightarrow> js_set \<Rightarrow> set_arg \<Rightarrow> int \<times> js_set" where
  "delete_arg e s (Arg_value v) = js_set_delete e s v"
| "delete_arg e s (Arg_number v) = js_set_delete_number e s v"
| "delete_arg e s (Arg_string q) = js_set_delete_string e s q"
| "delete_arg e s (Arg_i32 v) = js_set_delete_i32 e s v"
| "delete_arg e s (Arg_u32 v) = js_set_delete_u32 e s v"
| "delete_arg e s (Arg_bool v) = js_set_delete_bool e s v"

fun set_step :: "map_env \<Rightarrow> (nat \<Rightarrow> bool) \<Rightarrow> set_op \<Rightarrow> js_set \<Rightarrow> js_throw + (set_result \<times> js_set)" where
  "set_step e alloc_ok (Set_add a) s = (case add_arg e alloc_ok s a of Inl err \<Rightarrow> Inl err | Inr s \<Rightarrow> Inr (S_none, s))"
| "set_step e alloc_ok (Set_has a) s = Inr (S_int (has_arg e s a), s)"
| "set_step e alloc_ok (Set_delete a) s = (let (b, s) = delete_arg e s a in Inr (S_int b, s))"
| "set_step e alloc_ok Set_clear s = Inr (S_none, js_set_clear s)"
| "set_step e alloc_ok Set_size s = Inr (S_int (int (js_set_size s)), s)"
| "set_step e alloc_ok (Set_value_at i) s = (let (v, s) = js_set_value_at e s i in Inr (S_value v, s))"
| "set_step e alloc_ok Set_to_array s = (let (l, s) = js_set_to_array e s in Inr (S_list l, s))"
| "set_step e alloc_ok Set_foreach_enter s = Inr (S_none, set_foreach_enter s)"
| "set_step e alloc_ok Set_foreach_leave s =
     (let (outermost, s) = set_foreach_leave s in Inr (S_none, if outermost then compact_if_holey_set e s else s))"

fun run_set :: "map_env \<Rightarrow> (nat \<Rightarrow> bool) \<Rightarrow> set_op list \<Rightarrow> js_set \<Rightarrow> js_throw + (set_result list \<times> js_set)" where
  "run_set e alloc_ok [] s = Inr ([], s)"
| "run_set e alloc_ok (op # ops) s =
     (case set_step e alloc_ok op s of
        Inl err \<Rightarrow> Inl err
      | Inr (r, s) \<Rightarrow> (case run_set e alloc_ok ops s of Inl err \<Rightarrow> Inl err | Inr (rs, s) \<Rightarrow> Inr (r # rs, s)))"

text \<open>The same operations on the duplicate-free list.\<close>

fun arg_bits :: "set_arg \<Rightarrow> u64" where
  "arg_bits (Arg_value v) = v"
| "arg_bits (Arg_number v) = number_key v"
| "arg_bits (Arg_string q) = boxed_heap_string_value q"
| "arg_bits (Arg_i32 v) = js_int32 v"
| "arg_bits (Arg_u32 v) = f64_of_int (uint v)"
| "arg_bits (Arg_bool v) = (if v \<noteq> 0 then TAG_TRUE else TAG_FALSE)"

abbreviation arg_value :: "set_arg \<Rightarrow> u64" where "arg_value a \<equiv> normalize_zero (arg_bits a)"

fun spec_set_step :: "map_env \<Rightarrow> set_op \<Rightarrow> u64 list \<Rightarrow> set_result \<times> u64 list" where
  "spec_set_step e (Set_add a) L = (S_none, spec_add e (arg_value a) L)"
| "spec_set_step e (Set_has a) L = (S_int (if spec_member e (arg_value a) L then 1 else 0), L)"
| "spec_set_step e (Set_delete a) L = (S_int (if spec_member e (arg_value a) L then 1 else 0), spec_remove e (arg_value a) L)"
| "spec_set_step e Set_clear L = (S_none, [])"
| "spec_set_step e Set_size L = (S_int (int (length L)), L)"
| "spec_set_step e (Set_value_at i) L = (S_value (if i < length L then L ! i else TAG_UNDEFINED), L)"
| "spec_set_step e Set_to_array L = (S_list L, L)"
| "spec_set_step e Set_foreach_enter L = (S_none, L)"
| "spec_set_step e Set_foreach_leave L = (S_none, L)"

fun run_spec_set :: "map_env \<Rightarrow> set_op list \<Rightarrow> u64 list \<Rightarrow> set_result list \<times> u64 list" where
  "run_spec_set e [] L = ([], L)"
| "run_spec_set e (op # ops) L = (let (r, L) = spec_set_step e op L; (rs, L) = run_spec_set e ops L in (r # rs, L))"

text \<open>Values are not bare addresses, and an \<open>i32\<close> is in its range.\<close>

fun arg_ok :: "set_arg \<Rightarrow> bool" where
  "arg_ok (Arg_value v) \<longleftrightarrow> \<not> raw_address v"
| "arg_ok (Arg_number v) \<longleftrightarrow> \<not> raw_address (number_key v)"
| "arg_ok (Arg_i32 v) \<longleftrightarrow> - (2 ^ 31) \<le> v \<and> v < 2 ^ 31"
| "arg_ok _ \<longleftrightarrow> True"

fun set_op_ok :: "set_op \<Rightarrow> bool" where
  "set_op_ok (Set_add a) \<longleftrightarrow> arg_ok a"
| "set_op_ok (Set_has a) \<longleftrightarrow> arg_ok a"
| "set_op_ok (Set_delete a) \<longleftrightarrow> arg_ok a"
| "set_op_ok _ \<longleftrightarrow> True"

lemma raw_address_mag: "raw_address k \<Longrightarrow> f64_mag k < 2 ^ 48 \<and> 0 < f64_mag k"
proof -
  assume r: "raw_address k"
  then have "unat k div 2 ^ 48 = 0" using unat_drop_bit_div [of 48 k] by (simp add: raw_address_def)
  then have lt: "unat k < 2 ^ 48" by (simp add: div_eq_0_iff)
  moreover have "0 < unat k" using r by (auto simp: raw_address_def word_less_nat_alt)
  moreover have "f64_exp k = 0" "f64_mant k = unat k" using lt by (simp_all add: f64_exp_def f64_mant_def)
  ultimately show ?thesis by (simp add: f64_mag_def)
qed

lemma f64_of_int_not_raw:
  assumes "\<bar>z\<bar> < 2 ^ 53"
  shows "\<not> raw_address (f64_of_int z)"
proof
  assume "raw_address (f64_of_int z)"
  then have m: "f64_mag (f64_of_int z) < 2 ^ 48" "0 < f64_mag (f64_of_int z)" using raw_address_mag by auto
  have u: "\<bar>f64_units (f64_of_int z)\<bar> = int (f64_mag (f64_of_int z))" by (simp add: f64_units_def)
  then have "\<bar>z\<bar> * 2 ^ 1074 < 2 ^ 48" "z \<noteq> 0" using m f64_of_int_units(1) [OF assms] by (auto simp: abs_mult)
  moreover from this(2) have "1 * (2 :: int) ^ 1074 \<le> \<bar>z\<bar> * 2 ^ 1074" by (intro mult_right_mono) auto
  moreover have "(2 :: int) ^ 48 \<le> 2 ^ 1074" by (rule power_increasing) simp_all
  ultimately show False by linarith
qed

lemma arg_not_raw: "arg_ok a \<Longrightarrow> \<not> raw_address (arg_bits a)"
proof (cases a)
  case (Arg_i32 z)
  moreover assume "arg_ok a"
  ultimately have "tag16 (js_int32 z) = 0x7FFE" using view_int32 [of z] by (simp add: tag16_view view_tag_def)
  then show ?thesis using Arg_i32 by (auto simp: raw_address_def tag16_def)
next
  case (Arg_u32 v)
  moreover have "uint v < 2 ^ 32" using unsigned_less [of v] by simp
  ultimately show ?thesis using f64_of_int_not_raw [of "uint v"] by simp
qed (use boxed_string_value(4) in \<open>auto simp: raw_address_def tag_defs\<close>)

lemma arg_ops:
  "add_arg e alloc_ok s a = set_add_resolved e alloc_ok s (arg_bits a)"
  "has_arg e s a = js_set_has e s (arg_bits a)"
  "delete_arg e s a = js_set_delete e s (arg_bits a)"
proof -
  have n: "normalize_number_value_from_boxed v = normalize_number_key_from_boxed v" for v
    by (simp add: normalize_number_value_from_boxed_def normalize_number_key_from_boxed_def set_normalize_zero_eq)
  note defs = number_key_def n boxed_i32_value_def boxed_bool_value_def
  show "add_arg e alloc_ok s a = set_add_resolved e alloc_ok s (arg_bits a)"
    by (cases a) (simp_all add: defs js_set_add_number_def js_set_add_i32_def js_set_add_u32_def js_set_add_bool_def
        set_add_string_resolved_eq split: option.split)
  show "has_arg e s a = js_set_has e s (arg_bits a)"
    by (cases a) (simp_all add: defs js_set_has_number_def js_set_has_i32_def js_set_has_u32_def js_set_has_bool_def
        js_set_has_string_def js_set_has_def boxed_string_value(3) split: option.split)
  show "delete_arg e s a = js_set_delete e s (arg_bits a)"
    by (cases a) (simp_all add: defs js_set_delete_number_def js_set_delete_i32_def js_set_delete_u32_def js_set_delete_bool_def
        js_set_delete_string_def split: option.split)
qed

lemma set_inv_foreach: "set_inv e (s\<lparr>set_foreach_depth := d\<rparr>) = set_inv e s" "live_values (s\<lparr>set_foreach_depth := d\<rparr>) = live_values s"
  by (simp_all add: set_inv_def live_values_def)

definition set_step_ok :: "map_env \<Rightarrow> set_op \<Rightarrow> js_set \<Rightarrow> set_result \<times> js_set \<Rightarrow> bool" where
  "set_step_ok e op s r \<longleftrightarrow> set_inv e (snd r) \<and> spec_set_step e op (live_values s) = (fst r, live_values (snd r)) \<and>
     set_used (snd r) \<le> Suc (set_used s)"

lemma set_step_sim:
  assumes "set_inv e s" "set_op_ok op" "set_used s < PTR_REBUILD_MAX" "set_step e alloc_ok op s = Inr r"
  shows "set_step_ok e op s r"
proof (cases op)
  case (Set_add a)
  then obtain s' where s': "set_add_resolved e alloc_ok s (arg_bits a) = Inr s'" "r = (S_none, s')"
    using assms(4) by (auto simp: arg_ops split: sum.splits)
  from set_add_resolved_correct [OF assms(1) _ assms(3) s'(1)] show ?thesis
    using arg_not_raw [of a] assms(2) Set_add s'(2) by (simp add: set_step_ok_def)
next
  case (Set_has a)
  then have "map_key (arg_value a)" using arg_not_raw [of a] assms(2) normalize_zero_map_key by simp
  from find_value_index_member [OF assms(1) this] show ?thesis
    using assms(1,4) Set_has by (auto simp: set_step_ok_def arg_ops js_set_has_def set_normalize_zero_eq)
next
  case (Set_delete a)
  obtain b s' where d: "js_set_delete e s (arg_bits a) = (b, s')" by fastforce
  then have "r = (S_int b, s')" using assms(4) Set_delete by (simp add: arg_ops)
  then show ?thesis using js_set_delete_correct [OF assms(1) _ d] arg_not_raw [of a] assms(2) Set_delete by (simp add: set_step_ok_def)
next
  case Set_clear
  then show ?thesis using assms(4) js_set_clear_correct [OF assms(1)] by (auto simp: set_step_ok_def)
next
  case Set_size
  then show ?thesis using assms(1,4) by (auto simp: set_step_ok_def js_set_size_def set_inv_def)
next
  case (Set_value_at i)
  obtain v s' where d: "js_set_value_at e s i = (v, s')" by fastforce
  then show ?thesis using js_set_value_at_correct [OF assms(1) d] assms(4) Set_value_at by (auto simp: set_step_ok_def)
next
  case Set_to_array
  then show ?thesis using js_set_to_array_correct [OF assms(1)] compact_if_holey_set_correct(1-3) [OF assms(1)] live_values_le [of s] assms(4)
    by (auto simp: set_step_ok_def)
next
  case Set_foreach_enter
  then show ?thesis using assms(1,4) by (auto simp: set_step_ok_def set_foreach_enter_def set_inv_foreach)
next
  case Set_foreach_leave
  let ?s = "s\<lparr>set_foreach_depth := set_foreach_depth s - 1\<rparr>"
  have i: "set_inv e ?s" "live_values ?s = live_values s" using assms(1) by (simp_all add: set_inv_foreach)
  show ?thesis using compact_if_holey_set_correct(1-3) [OF i(1)] i live_values_le [of s] assms(4) Set_foreach_leave
    by (auto simp: set_step_ok_def set_foreach_leave_def Let_def)
qed

lemma set_add_error:
  assumes "set_add_resolved e alloc_ok s v = Inl err"
  shows "err = throw_allocation_failed \<and> (\<exists>n. \<not> alloc_ok n)"
proof -
  have g: "err = throw_allocation_failed \<and> (\<exists>n. \<not> alloc_ok n)" if "grow_elements alloc_ok s' = Inl err" for s'
    using that by (auto simp: grow_elements_def Let_def split: if_splits)
  have "set_ensure_capacity e alloc_ok s = Inl err"
    using assms by (auto simp: set_add_resolved_def Let_def split: if_splits sum.splits)
  then show ?thesis using g by (auto simp: set_ensure_capacity_def Let_def split: if_splits)
qed

lemma set_step_error:
  "set_step e alloc_ok op s = Inl err \<Longrightarrow> err = throw_allocation_failed \<and> (\<exists>n. \<not> alloc_ok n)"
  using set_add_error by (cases op) (auto simp: arg_ops Let_def split: sum.splits prod.splits)

lemma set_inv_alloc: "set_inv e (fresh_set n)" "live_values (fresh_set n) = []" "set_used (fresh_set n) = 0"
  using sx.exact_new [where e = e] by (simp_all add: set_inv_def fresh_set_def values_ok_def live_values_def sx_get_def)

lemma run_set_sim:
  assumes "set_inv e s" "\<And>op. op \<in> set ops \<Longrightarrow> set_op_ok op" "set_used s + length ops \<le> PTR_REBUILD_MAX"
  shows "case run_set e alloc_ok ops s of
      Inl err \<Rightarrow> err = throw_allocation_failed \<and> (\<exists>n. \<not> alloc_ok n)
    | Inr (rs, s') \<Rightarrow> set_inv e s' \<and> run_spec_set e ops (live_values s) = (rs, live_values s') \<and> set_used s' \<le> set_used s + length ops"
  using assms
proof (induction ops arbitrary: s)
  case (Cons op ops)
  show ?case
  proof (cases "set_step e alloc_ok op s")
    case (Inl err)
    then show ?thesis using set_step_error [OF Inl] by simp
  next
    case (Inr rs)
    obtain r s1 where rs: "rs = (r, s1)" by fastforce
    have "set_step_ok e op s (r, s1)" using set_step_sim [OF Cons.prems(1) _ _ Inr] Cons.prems(2,3) rs by simp
    then have s1: "set_inv e s1" "set_used s1 + length ops \<le> PTR_REBUILD_MAX" "spec_set_step e op (live_values s) = (r, live_values s1)"
      "set_used s1 \<le> Suc (set_used s)" using Cons.prems(3) by (auto simp: set_step_ok_def)
    have "op' \<in> set ops \<Longrightarrow> set_op_ok op'" for op' using Cons.prems(2) by simp
    from Cons.IH [OF s1(1) this s1(2)] show ?thesis using Inr rs s1(3,4) by (auto split: sum.splits prod.splits)
  qed
qed simp

lemma set_add_all_correct:
  assumes "set_inv e s" "\<And>v. v \<in> set vs \<Longrightarrow> \<not> raw_address v" "set_used s + length vs \<le> PTR_REBUILD_MAX"
  shows "case set_add_all e alloc_ok vs s of
      Inl err \<Rightarrow> err = throw_allocation_failed \<and> (\<exists>n. \<not> alloc_ok n)
    | Inr s' \<Rightarrow> set_inv e s' \<and> live_values s' = fold (spec_add e) (map normalize_zero vs) (live_values s) \<and>
        set_used s' \<le> set_used s + length vs"
  using assms
proof (induction vs arbitrary: s)
  case (Cons v vs)
  show ?case
  proof (cases "set_add_resolved e alloc_ok s v")
    case (Inl err)
    then show ?thesis using set_add_error by simp
  next
    case (Inr s1)
    have s1: "set_inv e s1" "live_values s1 = spec_add e (normalize_zero v) (live_values s)" "set_used s1 \<le> Suc (set_used s)"
      using set_add_resolved_correct [OF Cons.prems(1) _ _ Inr] Cons.prems(2,3) by simp_all
    have "set_used s1 + length vs \<le> PTR_REBUILD_MAX" using s1(3) Cons.prems(3) by simp
    from Cons.IH [OF s1(1) _ this] show ?thesis using Inr s1(2,3) Cons.prems(2) by (auto split: sum.splits)
  qed
qed simp

subsection \<open>Integers and doubles\<close>

lemma int32_value:
  assumes "- (2 ^ 31) \<le> z" "z < 2 ^ 31"
  shows "tag16 (js_int32 z) = 0x7FFE" "normalize_zero (js_int32 z) = js_int32 z" "f64_is_nan (js_int32 z)" "set_jsvalue_eq e x (js_int32 z) \<longleftrightarrow> x = js_int32 z"
proof -
  have v: "js_view (js_int32 z) = VInt32 z" by (rule view_int32 [OF assms])
  then show t: "tag16 (js_int32 z) = 0x7FFE" by (simp add: tag16_view view_tag_def)
  define n where "n = unat (js_int32 z)"
  have n: "n div 2 ^ 48 = 0x7FFE" using t by (simp add: tag16_def n_def unat_drop_bit_div)
  have "n div 2 ^ 52 = n div 2 ^ 48 div 2 ^ 4" by (simp flip: div_mult2_eq power_add)
  moreover have "n mod 2 ^ 52 \<noteq> 0"
  proof
    assume "n mod 2 ^ 52 = 0"
    then have "2 ^ 52 dvd n" by presburger
    then obtain k where "n = 2 ^ 52 * k" by (auto elim: dvdE)
    then have "n div 2 ^ 48 = 2 ^ 4 * k" by simp
    then have "16 * k = 32766" using n by simp
    then show False by presburger
  qed
  ultimately show nan: "f64_is_nan (js_int32 z)" using n by (simp add: f64_is_nan_def f64_exp_def f64_mant_def n_def)
  have ne: "js_int32 z \<noteq> c" if "tag16 c \<noteq> 0x7FFE" for c using t that by auto
  have "\<not> is_number (js_int32 z)" using v by (auto simp: js_view_cases)
  then show "normalize_zero (js_int32 z) = js_int32 z" unfolding normalize_zero_fixed
    using ne [of MAP_HOLE_KEY_BITS] ne [of "0x8000000000000000"] by (simp add: tag16_def MAP_HOLE_KEY_BITS_def tag_defs)
  have "\<not> raw_address (js_int32 z)" using t by (auto simp: raw_address_def tag16_def)
  then show "set_jsvalue_eq e x (js_int32 z) \<longleftrightarrow> x = js_int32 z" by (intro bits_value_eq other_value_class) (simp_all add: t)
qed

lemma int32_not_double:
  assumes "- (2 ^ 31) \<le> z" "z < 2 ^ 31" "\<bar>w\<bar> < 2 ^ 53"
  shows "\<not> set_jsvalue_eq e (js_int32 z) (normalize_zero (f64_of_int w))"
proof
  assume "set_jsvalue_eq e (js_int32 z) (normalize_zero (f64_of_int w))"
  then have eq: "normalize_zero (f64_of_int w) = js_int32 z" using int32_value(4) [OF assms(1,2)] set_jsvalue_eq_equiv(2) by blast
  have "\<not> f64_is_nan (f64_of_int w)" using f64_of_int_units(2) [OF assms(3)] by (simp add: f64_is_finite_def f64_is_nan_def)
  moreover have "\<not> f64_is_nan 0" by (simp add: f64_is_nan_def f64_exp_def f64_mant_def)
  moreover have "TAG_UNDEFINED \<noteq> js_int32 z"
  proof
    assume "TAG_UNDEFINED = js_int32 z"
    then have "tag16 TAG_UNDEFINED = 0x7FFE" using int32_value(1) [OF assms(1,2)] by simp
    then show False by (simp add: tag16_def tag_defs)
  qed
  ultimately show False using eq int32_value(3) [OF assms(1,2)] by (auto simp: normalize_zero_def split: if_splits)
qed

subsection \<open>Properties\<close>

text \<open>
  C2. \<open>Set\<close> implements an insertion-ordered set. Starting from the set that \<open>new Set(array)\<close> builds, any sequence
  of \<open>add\<close>, \<open>has\<close> and \<open>delete\<close> (through the entry points for boxed values, numbers, strings, the
  integer widths and booleans), \<open>clear\<close>, \<open>size\<close>, positional reads, conversion to an array and the
  start and end of \<open>forEach\<close> walks either stops with the \<open>RangeError\<close> of a failed allocation or gives
  the results of a list that appends a value when no equal one is present. This holds across the scan
  of small sets, the hash index, tombstones, compaction and growth. The live count is exact and the
  extent stays within the capacity. \<open>new Set(array)\<close> adds the elements of the array in order. The
  bound is the extent up to which the index is rebuilt.
\<close>

theorem js_set_refines_ordered_set:
  assumes "\<forall>op \<in> set ops. set_op_ok op" "\<forall>v \<in> set vs. \<not> raw_address v" "length vs + length ops \<le> PTR_REBUILD_MAX"
  shows "case js_set_from_array e alloc_ok (Some vs) of
      Inl err \<Rightarrow> err = throw_allocation_failed \<and> (\<exists>c. \<not> alloc_ok c)
    | Inr s0 \<Rightarrow>
        (case run_set e alloc_ok ops s0 of
           Inl err \<Rightarrow> err = throw_allocation_failed \<and> (\<exists>c. \<not> alloc_ok c)
         | Inr (rs, s) \<Rightarrow> run_spec_set e ops (fold (spec_add e) (map normalize_zero vs) []) = (rs, live_values s) \<and>
             js_set_size s = length (live_values s) \<and> set_used s \<le> set_capacity s)"
proof (cases "js_set_from_array e alloc_ok (Some vs)")
  case (Inl err)
  then show ?thesis using set_add_all_correct [OF set_inv_alloc(1) [of e 4], of vs alloc_ok] assms(2,3) set_inv_alloc(3) [of 4]
    by (auto simp: js_set_from_array_def js_set_alloc_def split: sum.splits if_splits)
next
  case (Inr s0)
  then have "set_add_all e alloc_ok vs (fresh_set 4) = Inr s0"
    by (auto simp: js_set_from_array_def js_set_alloc_def split: sum.splits if_splits)
  then have s0: "set_inv e s0" "live_values s0 = fold (spec_add e) (map normalize_zero vs) []" "set_used s0 \<le> length vs"
    using set_add_all_correct [OF set_inv_alloc(1) [of e 4], of vs alloc_ok] assms(2,3) set_inv_alloc(2,3) [of 4] by auto
  then show ?thesis using Inr run_set_sim [OF s0(1), of ops alloc_ok] assms(1,3)
    by (auto simp: set_inv_def js_set_size_def split: sum.splits prod.splits)
qed

theorem js_set_refines_ordered_set_witness:
  "\<exists>s0 s. js_set_from_array sample_env (\<lambda>_. True) (Some [0x3FF0000000000000, 0x8000000000000000, 0]) = Inr s0 \<and>
    run_set sample_env (\<lambda>_. True) [Set_add (Arg_value 0x3FF0000000000000), Set_delete (Arg_value 0x3FF0000000000000),
       Set_has (Arg_value 0x3FF0000000000000), Set_to_array] s0
    = Inr ([S_none, S_int 1, S_int 0, S_list [0]], s)"
proof -
  let ?vs = "[0x3FF0000000000000, 0x8000000000000000, 0]"
  let ?ops = "[Set_add (Arg_value 0x3FF0000000000000), Set_delete (Arg_value 0x3FF0000000000000),
       Set_has (Arg_value 0x3FF0000000000000), Set_to_array]"
  have ok: "\<forall>op \<in> set ?ops. set_op_ok op" "\<forall>v \<in> set ?vs. \<not> raw_address v" "length ?vs + length ?ops \<le> PTR_REBUILD_MAX"
    by (simp_all add: raw_address_def PTR_REBUILD_MAX_def)
  have n: "normalize_zero 0 = 0" by (simp add: normalize_zero_def f64_eq_0_iff MAP_HOLE_KEY_BITS_def tag_defs)
  have eq: "set_jsvalue_eq sample_env x 0x3FF0000000000000 = (x = 0x3FF0000000000000)" "set_jsvalue_eq sample_env x 0 = (x = 0)" for x
    using safe_value_eq safe_samples(1,2) by blast+
  have spec: "run_spec_set sample_env ?ops (fold (spec_add sample_env) (map normalize_zero ?vs) []) = ([S_none, S_int 1, S_int 0, S_list [0]], [0])"
    by (simp add: safe_samples n spec_add_def spec_member_def spec_remove_def eq)
  from js_set_refines_ordered_set [OF ok, where e = sample_env and alloc_ok = "\<lambda>_. True"] show ?thesis
    unfolding spec by (cases "js_set_from_array sample_env (\<lambda>_. True) (Some ?vs)") (auto split: sum.splits)
qed

text \<open>Int32-tagged values keep their bits under normalisation, and nothing else is normalised to one.\<close>

lemma int32_bits:
  assumes "is_int32 x" "y \<noteq> SET_HOLE_VALUE_BITS"
  shows "normalize_zero x = x" "value_class_of e x = KBits x" "normalize_zero y = x \<longleftrightarrow> y = x"
proof -
  have t: "tag16 x = 0x7FFE" using assms(1) by (simp add: is_int32_iff)
  have "\<not> raw_address x" using t by (auto simp: raw_address_def tag16_def)
  then show "value_class_of e x = KBits x" using t by (intro other_value_class) simp_all
  have n: "x \<noteq> MAP_HOLE_KEY_BITS" "\<not> f64_eq x 0" "\<not> is_number x" "x \<noteq> 0" "x \<noteq> F64_NAN"
    using t by (auto simp: is_tag16 f64_eq_0_iff MAP_HOLE_KEY_BITS_def F64_NAN_def tag16_def tag_defs)
  then show "normalize_zero x = x" by (simp add: normalize_zero_def)
  then show "normalize_zero y = x \<longleftrightarrow> y = x" using n assms(2) by (auto simp: normalize_zero_def set_hole)
qed

text \<open>
  C28. How \<open>Set\<close> compares values. For values other than the int32-tagged ones and pairs of BigInts,
  \<open>jsvalue_eq\<close> of \<open>set.rs\<close> holds after normalisation exactly when the denoted JavaScript values are the
  same by SameValueZero, across inline and heap strings, the two zeros and every NaN. An int32-tagged
  number is equal to itself only, not to the double of the same number, and two BigInts are equal only
  when they are the same allocation, unlike in \<open>Map\<close>. Equal values have the same hash, so a hashed
  lookup cannot miss one. Values are well formed: no bare address, an inline string of at most five
  bytes, a tag that agrees with the header of the object, and objects named by their current address.
\<close>

theorem set_value_equality:
  assumes "bigint_mem_ok (bigints (env_heap e))" "a \<noteq> SET_HOLE_VALUE_BITS" "b \<noteq> SET_HOLE_VALUE_BITS"
    "is_int32 a \<or> value_wf e (set_normalize_zero a)" "is_int32 b \<or> value_wf e (set_normalize_zero b)"
  shows "(set_jsvalue_eq e (set_normalize_zero a) (set_normalize_zero b) \<longleftrightarrow>
        (if is_int32 a \<or> is_int32 b \<or> is_bigint a \<and> is_bigint b then a = b
         else same_value_zero (js_denote (env_heap e) a) (js_denote (env_heap e) b)))
    \<and> (set_jsvalue_eq e (set_normalize_zero a) (set_normalize_zero b) \<longrightarrow>
         js_value_key_hash e (set_normalize_zero a) = js_value_key_hash e (set_normalize_zero b))"
proof (cases "is_int32 a \<or> is_int32 b")
  case True
  have "set_jsvalue_eq e (normalize_zero a) (normalize_zero b) \<longleftrightarrow> a = b"
    using True
  proof
    assume "is_int32 b"
    from int32_bits [OF this assms(2)] show ?thesis using bits_value_eq [of e b] by simp
  next
    assume "is_int32 a"
    from int32_bits [OF this assms(3)] show ?thesis using bits_value_eq [of e a] set_jsvalue_eq_equiv(2) by metis
  qed
  then show ?thesis using True equal_values_hash by (auto simp: set_normalize_zero_eq)
next
  case False
  let ?a = "normalize_zero a" and ?b = "normalize_zero b" and ?d = "js_denote (env_heap e)"
  have wf: "value_wf e ?a" "value_wf e ?b" "key_wf e ?a" "key_wf e ?b" using assms(4,5) False by (simp_all add: set_normalize_zero_eq value_wf_def)
  have big: "is_bigint (normalize_zero x) = is_bigint x" "is_bigint x \<Longrightarrow> normalize_zero x = x" if "x \<noteq> MAP_HOLE_KEY_BITS" for x
  proof -
    have "\<not> is_bigint 0" "\<not> is_bigint F64_NAN" "f64_eq x 0 \<Longrightarrow> \<not> is_bigint x"
      by (auto simp: is_bigint_def F64_NAN_def tag_defs f64_eq_0_iff)
    moreover have "is_number x \<Longrightarrow> \<not> is_bigint x" by (auto simp: js_view_cases)
    ultimately show "is_bigint (normalize_zero x) = is_bigint x" "is_bigint x \<Longrightarrow> normalize_zero x = x"
      using that by (auto simp: normalize_zero_def)
  qed
  have iff: "set_jsvalue_eq e ?a ?b \<longleftrightarrow> (if is_bigint ?a \<and> is_bigint ?b then ?a = ?b else jsvalue_eq e ?a ?b)"
    unfolding set_jsvalue_eq_class jsvalue_eq_class value_class_wf [OF wf(1)] value_class_wf [OF wf(2)] key_class_wf [OF wf(3)] key_class_wf [OF wf(4)]
    by (cases "js_view ?a"; cases "js_view ?b") (auto simp: js_view_cases)
  have "jsvalue_eq e ?a ?b \<longleftrightarrow> same_value_zero (?d a) (?d b)"
    using jsvalue_eq_same_value_zero [OF assms(1) wf(3,4)] normalize_zero_denote [of a "env_heap e"] normalize_zero_denote [of b "env_heap e"]
      same_value_zero_equiv(2,3) assms(2,3) unfolding set_hole by blast
  then show ?thesis using False iff big [of a] big [of b] assms(2,3) equal_values_hash [of e ?a ?b] by (auto simp: set_normalize_zero_eq set_hole)
qed

theorem set_value_equality_witness:
  "set_jsvalue_eq sample_env (set_normalize_zero 0x8000000000000000) (set_normalize_zero 0) = same_value_zero (JNumber 0x8000000000000000) (JNumber 0)"
proof -
  have n: "normalize_zero 0x8000000000000000 = 0" "normalize_zero 0 = 0"
    by (simp_all add: normalize_zero_def f64_eq_0_iff MAP_HOLE_KEY_BITS_def tag_defs)
  have wf: "value_wf sample_env 0"
    using n by (simp add: value_wf_def key_wf_def map_key_def raw_address_def value_ok_def is_short_string_def is_bigint_def tag_defs js_view_def Let_def)
  have d: "js_denote sample_heap 0x8000000000000000 = JNumber 0x8000000000000000" "js_denote sample_heap 0 = JNumber 0"
    by (simp_all add: js_denote_def js_view_def Let_def)
  show ?thesis
    using set_value_equality [of sample_env "0x8000000000000000" 0] wf n sample_heap_ok(1) d
    by (simp add: sample_env_def SET_HOLE_VALUE_BITS_def set_normalize_zero_eq is_bigint_def is_int32_def tag_defs)
qed

text \<open>
  C39. The entry points for \<open>i32\<close> values are consistent with each other only. A number added through
  \<open>js_set_add_i32\<close> is stored with the int32 tag and found through \<open>js_set_has_i32\<close>, but neither
  \<open>js_set_has_u32\<close> nor \<open>js_set_has_number\<close> (which unboxes an int32 to a double) nor the generic \<open>has\<close> on
  the same number as a double finds it.
\<close>

theorem js_set_i32_is_not_a_number:
  assumes "0 \<le> z" "z < 2 ^ 31"
  shows "\<exists>s. run_set e (\<lambda>_. True)
      [Set_add (Arg_i32 z), Set_has (Arg_i32 z), Set_has (Arg_u32 (word_of_int z)), Set_has (Arg_number (js_int32 z)), Set_has (Arg_value (f64_of_int z))] (fresh_set 0)
      = Inr ([S_none, S_int 1, S_int 0, S_int 0, S_int 0], s)"
proof -
  let ?ops = "[Set_add (Arg_i32 z), Set_has (Arg_i32 z), Set_has (Arg_u32 (word_of_int z)), Set_has (Arg_number (js_int32 z)), Set_has (Arg_value (f64_of_int z))]"
  have z: "- (2 ^ 31) \<le> z" "\<bar>z\<bar> < 2 ^ 53" using assms by simp_all
  have v: "js_view (js_int32 z) = VInt32 z" by (rule view_int32 [OF z(1) assms(2)])
  have num: "number_key (js_int32 z) = normalize_zero (f64_of_int z)"
    using predicates_view(5) [of "js_int32 z"] v js_view_payload(5) [OF v] by (simp add: number_key_def normalize_number_key_from_boxed_def)
  have u: "uint (word_of_int z :: u32) = z" using assms by (simp add: uint_word_of_int_eq take_bit_int_eq_self)
  have raw: "\<not> raw_address (normalize_zero (f64_of_int z))"
    using normalize_zero_map_key [OF f64_of_int_not_raw [OF z(2)]] map_keyD(4) by blast
  have ok: "set_op_ok op" if "op \<in> set ?ops" for op using that z(1) assms(2) num raw f64_of_int_not_raw [OF z(2)] by auto
  have spec: "run_spec_set e ?ops [] = ([S_none, S_int 1, S_int 0, S_int 0, S_int 0], [js_int32 z])"
    using int32_not_double [OF z(1) assms(2) z(2), of e]
    by (simp add: spec_add_def spec_member_def int32_value(2) [OF z(1) assms(2)] set_jsvalue_eq_equiv(1) num u normalize_zero_idem)
  show ?thesis using run_set_sim [OF set_inv_alloc(1) [of e 0] ok, of ?ops "\<lambda>_. True"] spec set_inv_alloc(2,3) [of 0]
    by (cases "run_set e (\<lambda>_. True) ?ops (fresh_set 0)") (auto simp: PTR_REBUILD_MAX_def simp del: run_set.simps)
qed

theorem js_set_i32_is_not_a_number_witness:
  "\<exists>s. run_set sample_env (\<lambda>_. True)
      [Set_add (Arg_i32 5), Set_has (Arg_i32 5), Set_has (Arg_u32 5), Set_has (Arg_number (js_int32 5)), Set_has (Arg_value (f64_of_int 5))] (fresh_set 0)
      = Inr ([S_none, S_int 1, S_int 0, S_int 0, S_int 0], s)"
  using js_set_i32_is_not_a_number [of 5 sample_env] by simp

subsection \<open>Small sets\<close>

text \<open>
  A set with room for four elements, no walk in progress and an empty log, as its elements and live
  count. The steps below follow it for numbers, which a set this small finds by a scan.
\<close>

definition small_set :: "js_set \<Rightarrow> u64 list \<Rightarrow> nat \<Rightarrow> bool" where
  "small_set s vs sz \<longleftrightarrow> elements s = vs \<and> set_size s = sz \<and> set_capacity s = 4 \<and> set_foreach_depth s = 0 \<and>
     set_records s = [] \<and> set_epoch s = 0"

lemma small_set_find:
  assumes "small_set s vs sz" "length vs \<le> 4" "is_plain_nonzero_number_bits v"
  shows "find_value_index e s v = set_scan 0 vs v"
  using assms by (simp add: find_value_index_def find_value_index_hot_def small_set_def SMALL_SET_SCAN_MAX_def)

lemma small_set_add:
  assumes "small_set s vs sz" "length vs < 4" "is_plain_nonzero_number_bits v" "normalize_zero v = v" "set_scan 0 vs v = -1"
  shows "\<exists>s'. set_step e alloc_ok (Set_add (Arg_value v)) s = Inr (S_none, s') \<and> small_set s' (vs @ [v]) (Suc sz)"
proof -
  have "set_add_resolved e alloc_ok s v = Inr (append_element e v s)"
    using small_set_find [OF assms(1) _ assms(3)] assms
    by (simp add: set_add_resolved_def set_ensure_capacity_def small_set_def set_normalize_zero_eq Let_def)
  moreover have "small_set (append_element e v s) (vs @ [v]) (Suc sz)"
    using assms(1) by (simp add: small_set_def append_element_def Let_def)
  ultimately show ?thesis by simp
qed

lemma small_set_delete:
  assumes "small_set s vs sz" "length vs \<le> 4" "is_plain_nonzero_number_bits v" "normalize_zero v = v"
    "set_scan 0 vs v = int i" "i < length vs"
  shows "\<exists>s'. set_step e alloc_ok (Set_delete (Arg_value v)) s = Inr (S_int 1, s') \<and> small_set s' (vs[i := SET_HOLE_VALUE_BITS]) (sz - 1)"
proof -
  have "set_used (set_tombstone e i s) < 16" using assms(1,2) by (simp add: small_set_def set_tombstone_def)
  then have "js_set_delete e s v = (1, set_tombstone e i s)"
    using small_set_find [OF assms(1,2,3)] assms(4,5) by (simp add: js_set_delete_cases Let_def)
  moreover have "small_set (set_tombstone e i s) (vs[i := SET_HOLE_VALUE_BITS]) (sz - 1)"
    using assms(1) by (simp add: small_set_def set_tombstone_def)
  ultimately show ?thesis by simp
qed

lemma small_set_fill:
  "\<exists>s. run_set e alloc_ok [Set_add (Arg_value (num_key 0)), Set_add (Arg_value (num_key 1)), Set_add (Arg_value (num_key 2))] (fresh_set 0)
      = Inr ([S_none, S_none, S_none], s) \<and> small_set s [num_key 0, num_key 1, num_key 2] 3"
proof -
  note add = small_set_add [where e = e and alloc_ok = alloc_ok]
  have s0: "small_set (fresh_set 0) [] 0" by (simp add: small_set_def fresh_set_def)
  obtain s1 where s1: "set_step e alloc_ok (Set_add (Arg_value (num_key 0))) (fresh_set 0) = Inr (S_none, s1)" "small_set s1 [num_key 0] 1"
    using add [OF s0 _ num_key_ok(1,2) [of 0]] by (auto simp: eval_nat_numeral)
  obtain s2 where s2: "set_step e alloc_ok (Set_add (Arg_value (num_key 1))) s1 = Inr (S_none, s2)" "small_set s2 [num_key 0, num_key 1] 2"
    using add [OF s1(2) _ num_key_ok(1,2) [of 1]] by (auto simp: num_key_inj eval_nat_numeral)
  obtain s3 where s3: "set_step e alloc_ok (Set_add (Arg_value (num_key 2))) s2 = Inr (S_none, s3)" "small_set s3 [num_key 0, num_key 1, num_key 2] 3"
    using add [OF s2(2) _ num_key_ok(1,2) [of 2]] by (auto simp: num_key_inj eval_nat_numeral)
  show ?thesis using s1(1) s2(1) s3 by (auto simp del: set_step.simps)
qed

end
