(* ===== verification/Set_Cursor.thy ===== *)
theory Set_Cursor
  imports Set_Refinement
begin

text \<open>
  The cursor over a \<open>Set\<close> (\<open>set.rs\<close>). The elements and the compaction log of a set are those of a map
  whose values do not matter, and on that view the cursor of the set is the cursor of the map.
\<close>

subsection \<open>A set as a map\<close>

definition set_view :: "js_set \<Rightarrow> js_map" where
  "set_view s = (fresh_map 0)\<lparr>map_size := set_size s, capacity := set_capacity s, entries := map (\<lambda>v. (v, TAG_UNDEFINED)) (elements s),
     compaction_epoch := set_epoch s, log_records := set_records s, log_retained := set_retained s\<rparr>"

lemma set_view_fields [simp]:
  "entries (set_view s) = map (\<lambda>v. (v, TAG_UNDEFINED)) (elements s)" "compaction_epoch (set_view s) = set_epoch s"
  "log_records (set_view s) = set_records s" "log_retained (set_view s) = set_retained s" "capacity (set_view s) = set_capacity s"
  by (simp_all add: set_view_def)

lemma set_view_note: "set_view (note_set_compaction r s) = note_map_compaction r (set_view s)"
  by (cases r) (simp_all add: note_set_compaction_def note_map_compaction_def set_view_def Let_def
      SET_COMPACTION_LOG_MIN_BUDGET_def MAP_COMPACTION_LOG_MIN_BUDGET_def split: prod.split)

lemma filter_live_view: "filter live_pair (map (\<lambda>v. (v, w)) vs) = map (\<lambda>v. (v, w)) (filter (\<lambda>v. v \<noteq> SET_HOLE_VALUE_BITS) vs)"
  by (induction vs) (simp_all add: live_pair_def set_hole)

lemma live_entries_view: "live_entries (set_view s) = map (\<lambda>v. (v, TAG_UNDEFINED)) (live_values s)"
  by (simp add: live_entries_filter filter_live_view live_values_def)

definition set_live_below :: "js_set \<Rightarrow> nat \<Rightarrow> nat" where
  "set_live_below s i = length (filter (\<lambda>v. v \<noteq> SET_HOLE_VALUE_BITS) (take i (elements s)))"

lemma live_below_view: "live_below (set_view s) i = set_live_below s i"
  by (simp add: live_below_def set_live_below_def take_map filter_live_view)

lemma rebase_set_cursor_view: "rebase_set_cursor s c ep = rebase_map_cursor (set_view s) c ep"
  by (simp add: rebase_set_cursor_def rebase_map_cursor_def)

lemma set_cursor_skip_view: "set_cursor_skip s i = cursor_skip (set_view s) i"
proof (induction s i rule: set_cursor_skip.induct)
  case (1 s i)
  then show ?case by (subst set_cursor_skip.simps, subst cursor_skip.simps) (auto simp: set_hole)
qed

lemma set_cursor_next_raw_view: "set_cursor_next_raw s c ep = map_cursor_next_raw (set_view s) c ep"
  by (simp add: set_cursor_next_raw_def map_cursor_next_raw_def rebase_set_cursor_view set_cursor_skip_view)

lemma js_set_cursor_next_view:
  "js_set_cursor_next s c ep = js_map_cursor_next (set_view s) c ep" "js_set_compaction_epoch s = js_map_compaction_epoch (set_view s)"
  by (simp_all add: js_set_cursor_next_def js_map_cursor_next_def set_cursor_next_raw_view js_set_compaction_epoch_def
      js_map_compaction_epoch_def set_compaction_epoch_def map_compaction_epoch_def)

subsection \<open>What a cursor has to visit\<close>

abbreviation set_cursor_at :: "js_set \<Rightarrow> nat \<Rightarrow> u32 \<Rightarrow> nat \<Rightarrow> nat \<Rightarrow> bool" where
  "set_cursor_at s \<equiv> cursor_at (set_view s)"

lemma set_cursor_quiet:
  assumes "set_cursor_at s c ep p n" "set_records s' = set_records s" "set_epoch s' = set_epoch s"
    "\<And>i. i \<le> set_used s \<Longrightarrow> set_live_below s i = p \<Longrightarrow> i \<le> set_used s' \<and> set_live_below s' i = p'"
  shows "set_cursor_at s' c ep p' n"
  by (rule cursor_at_quiet [OF assms(1)]) (use assms(2-4) in \<open>simp_all add: live_below_view\<close>)

lemma set_cursor_same:
  assumes "set_cursor_at s c ep p n" "set_records s' = set_records s" "set_epoch s' = set_epoch s" "elements s' = elements s"
  shows "set_cursor_at s' c ep p n"
  by (rule set_cursor_quiet [OF assms(1-3)]) (simp add: set_live_below_def assms(4))

lemma set_cursor_compact:
  assumes "set_inv e s" "set_cursor_at s c ep p n" "n < 2 ^ 31"
  shows "set_cursor_at (compact_set_elements e s) c ep p (Suc n)"
proof -
  let ?s = "s\<lparr>elements := live_values s, set_ix := index_entries (\<lambda>v. v \<noteq> SET_HOLE_VALUE_BITS) (sx_insert e) 0 (live_values s) []\<rparr>"
  let ?r = "snd (compact_loop 0 (entries (set_view s)))"
  have r: "snd (set_compact_loop 0 (elements s)) = ?r" using set_compact_loop_eq [of 0 "elements s" TAG_UNDEFINED] by simp
  have "entries (set_view ?s) = filter live_pair (entries (set_view s))" by (simp add: filter_live_view live_values_def)
  then have "cursor_at (if ?r \<noteq> [] then note_map_compaction (Indices ?r) (set_view ?s) else set_view ?s) c ep p (Suc n)"
    by (rule cursor_at_squeeze [OF assms(2,3)]) simp_all
  moreover have "set_view (compact_set_elements e s) = (if ?r \<noteq> [] then note_map_compaction (Indices ?r) (set_view ?s) else set_view ?s)"
    unfolding compact_set_elements_eq [OF assms(1)] Let_def r by (simp add: set_view_note)
  ultimately show ?thesis by simp
qed

lemma set_cursor_if_holey:
  assumes "set_inv e s" "set_cursor_at s c ep p n" "n < 2 ^ 31"
  shows "set_cursor_at (compact_if_holey_set e s) c ep p (Suc n)"
  using set_cursor_compact [OF assms] cursor_at_mono [OF assms(2), of "Suc n"] by (simp add: compact_if_holey_set_def)

lemma set_cursor_add:
  assumes "set_inv e s" "set_cursor_at s c ep p n" "n < 2 ^ 31" "set_add_resolved e alloc_ok s v = Inr s'"
  shows "set_cursor_at s' c ep p (Suc n)"
proof -
  have s: "set_cursor_at s c ep p (Suc n)" by (rule cursor_at_mono [OF assms(2)]) simp
  have grow: "set_cursor_at s2 c ep p (Suc n)" if "grow_elements alloc_ok s1 = Inr s2" "set_cursor_at s1 c ep p (Suc n)" for s1 s2
    by (rule set_cursor_same [OF that(2)]) (use that(1) in \<open>auto simp: grow_elements_def Let_def split: if_splits\<close>)
  have ens: "set_cursor_at s1 c ep p (Suc n)" if "set_ensure_capacity e alloc_ok s = Inr s1" for s1
    using that s grow set_cursor_compact [OF assms(1-3)] by (auto simp: set_ensure_capacity_def Let_def split: if_splits)
  have app: "set_cursor_at (append_element e w s1) c ep p (Suc n)" if "set_cursor_at s1 c ep p (Suc n)" for w s1
    by (rule set_cursor_quiet [OF that]) (simp_all add: append_element_def Let_def set_live_below_def)
  show ?thesis using assms(4) s ens app by (auto simp: set_add_resolved_def Let_def split: if_splits sum.splits)
qed

lemma set_live_below_take: "filter (\<lambda>v. v \<noteq> SET_HOLE_VALUE_BITS) (take i (elements s)) = take (set_live_below s i) (live_values s)"
  unfolding set_live_below_def live_values_def by (rule filter_take_prefix)

lemma set_cursor_delete:
  assumes "set_inv e s" "set_cursor_at s c ep p n" "n < 2 ^ 31" "\<not> raw_address v"
  shows "set_cursor_at (snd (js_set_delete e s v)) c ep (length (spec_remove e (normalize_zero v) (take p (live_values s)))) (Suc n)"
proof -
  let ?v = "normalize_zero v"
  let ?p = "length (spec_remove e ?v (take p (live_values s)))"
  have k: "map_key ?v" by (rule normalize_zero_map_key [OF assms(4)])
  show ?thesis
  proof (cases "find_value_index e s ?v < 0")
    case True
    then have "\<not> spec_member e ?v (live_values s)" using find_value_index_member [OF assms(1) k] by simp
    then have same: "spec_remove e ?v (take p (live_values s)) = take p (live_values s)"
      by (auto simp: spec_remove_def spec_member_def filter_id_conv dest: in_set_takeD)
    have "set_cursor_at s c ep (length (take p (live_values s))) n"
      by (rule set_cursor_quiet [OF assms(2) refl refl]) (metis set_live_below_take set_live_below_def)
    then show ?thesis using True same cursor_at_mono by (simp add: js_set_delete_cases Let_def)
  next
    case False
    then obtain i where i: "find_value_index e s ?v = int i" "i < set_used s" "set_jsvalue_eq e (elements s ! i) ?v"
      using find_value_index_position [OF assms(1) k] by (auto simp: value_position_def)
    let ?t = "set_tombstone e i s"
    have ok: "values_ok e (elements s)" using assms(1) by (simp add: set_inv_def)
    have es: "elements ?t = map (\<lambda>x. if set_jsvalue_eq e x ?v then SET_HOLE_VALUE_BITS else x) (elements s)"
      using update_value_at [OF ok k i(2,3)] by (simp add: set_tombstone_def)
    have below: "set_live_below ?t j = length (spec_remove e ?v (take (set_live_below s j) (live_values s)))" for j
      unfolding set_live_below_take [symmetric] spec_remove_def by (simp only: set_live_below_def es take_map filter_tombstones)
    have t: "set_cursor_at ?t c ep ?p n"
    proof (rule set_cursor_quiet [OF assms(2)])
      show "j \<le> set_used ?t \<and> set_live_below ?t j = ?p" if "j \<le> set_used s" "set_live_below s j = p" for j
        using that below [of j] by (simp add: set_tombstone_def)
    qed (simp_all add: set_tombstone_def)
    show ?thesis
      using set_cursor_compact [OF set_tombstone_correct(1) [OF assms(1) k i(2,3)] t assms(3)] cursor_at_mono [OF t, of "Suc n"]
      by (simp add: js_set_delete_cases i(1) Let_def)
  qed
qed

lemma set_cursor_clear:
  assumes "set_inv e s" "set_cursor_at s c ep p n" "n < 2 ^ 31"
  shows "set_cursor_at (js_set_clear s) c ep 0 (Suc n)"
proof -
  let ?c = "js_set_clear s"
  have none: "set_cursor_at s' c ep 0 (Suc n)"
    if "set_records s' = set_records s" "set_epoch s' = set_epoch s" "set_used s' = set_used s" "live_values s' = []" for s'
  proof -
    have "set_live_below s' i = 0" for i using set_live_below_take [of i s'] that(4) by (simp add: set_live_below_def)
    then have "set_cursor_at s' c ep 0 n" by (intro set_cursor_quiet [OF assms(2) that(1,2)]) (simp_all add: that(3))
    then show ?thesis by (rule cursor_at_mono) simp
  qed
  have discard: "set_cursor_at (note_set_compaction (Prefix (set_used s)) s') c ep 0 (Suc n)"
    if "set_records s' = set_records s" "set_epoch s' = set_epoch s" "elements s' = []" for s'
    using cursor_at_discard [OF assms(2,3), of "set_view s'"] that by (simp add: set_view_note)
  note live = js_set_clear_correct [OF assms(1)]
  show ?thesis
  proof (cases "set_size s = 0")
    case True
    then have "live_values s = []" using assms(1) by (simp add: set_inv_def)
    then show ?thesis using True none [of s] discard [of "s\<lparr>elements := []\<rparr>"] by (simp add: js_set_clear_def Let_def)
  next
    case False
    show ?thesis
    proof (cases "set_foreach_is_active s")
      case True
      have "set_records ?c = set_records s" "set_epoch ?c = set_epoch s" "set_used ?c = set_used s"
        using False True by (simp_all add: js_set_clear_def Let_def set_foreach_is_active_def)
      then show ?thesis using none live by blast
    next
      case inactive: False
      let ?d = "note_set_compaction (Prefix (set_used s)) (s\<lparr>set_size := 0, elements := []\<rparr>)"
      have "set_records ?c = set_records ?d" "set_epoch ?c = set_epoch ?d" "elements ?c = elements ?d"
        using False inactive by (simp_all add: js_set_clear_def Let_def set_foreach_is_active_def)
      moreover have "set_cursor_at ?d c ep 0 (Suc n)" by (rule discard) simp_all
      ultimately show ?thesis using set_cursor_same [of ?d c ep 0 "Suc n" ?c] by blast
    qed
  qed
qed

subsection \<open>Runs\<close>

fun set_mark :: "map_env \<Rightarrow> set_op \<Rightarrow> u64 list \<Rightarrow> nat \<Rightarrow> nat" where
  "set_mark e (Set_delete a) L p = length (spec_remove e (arg_value a) (take p L))"
| "set_mark e Set_clear L p = 0"
| "set_mark e _ L p = p"

fun run_set_mark :: "map_env \<Rightarrow> set_op list \<Rightarrow> u64 list \<Rightarrow> nat \<Rightarrow> nat" where
  "run_set_mark e [] L p = p"
| "run_set_mark e (op # ops) L p = run_set_mark e ops (snd (spec_set_step e op L)) (set_mark e op L p)"

lemma set_cursor_step:
  assumes "set_inv e s" "set_op_ok op" "set_cursor_at s c ep p n" "n < 2 ^ 31" "set_step e alloc_ok op s = Inr (r, s')"
  shows "set_cursor_at s' c ep (set_mark e op (live_values s) p) (Suc n)"
proof -
  have s: "set_cursor_at s c ep p (Suc n)" by (rule cursor_at_mono [OF assms(3)]) simp
  note holey = set_cursor_if_holey [OF assms(1,3,4)]
  show ?thesis
  proof (cases op)
    case (Set_add a)
    then show ?thesis using assms(5) set_cursor_add [OF assms(1,3,4)] by (auto simp: arg_ops split: sum.splits)
  next
    case (Set_delete a)
    then show ?thesis using assms(2,5) set_cursor_delete [OF assms(1,3,4) arg_not_raw, of a] by (auto simp: arg_ops split: prod.splits)
  next
    case Set_clear
    then show ?thesis using assms(5) set_cursor_clear [OF assms(1,3,4)] by auto
  next
    case (Set_value_at i)
    have "set_cursor_at (snd (js_set_value_at e s i)) c ep p (Suc n)"
      using s holey by (simp add: js_set_value_at_def live_index_to_raw_set_def split: option.split)
    then show ?thesis using assms(5) Set_value_at by (auto split: prod.splits)
  next
    case Set_to_array
    then show ?thesis using assms(5) holey by (auto simp: js_set_to_array_def Let_def)
  next
    case Set_foreach_enter
    then show ?thesis using assms(5) set_cursor_same [OF s, of s'] by (auto simp: set_foreach_enter_def)
  next
    case Set_foreach_leave
    let ?s = "s\<lparr>set_foreach_depth := set_foreach_depth s - 1\<rparr>"
    have l: "set_cursor_at ?s c ep p n" by (rule set_cursor_same [OF assms(3)]) simp_all
    have "set_inv e ?s" using assms(1) by (simp add: set_inv_foreach)
    from set_cursor_if_holey [OF this l assms(4)] show ?thesis
      using Set_foreach_leave assms(5) cursor_at_mono [OF l, of "Suc n"] by (auto simp: set_foreach_leave_def Let_def split: if_splits)
  qed (use assms(5) s in auto)
qed

lemma set_cursor_run:
  assumes "set_inv e s" "\<And>op. op \<in> set ops \<Longrightarrow> set_op_ok op" "set_used s + length ops \<le> PTR_REBUILD_MAX"
    "set_cursor_at s c ep p n" "n + length ops \<le> 2 ^ 31" "run_set e alloc_ok ops s = Inr (rs, s')"
  shows "set_cursor_at s' c ep (run_set_mark e ops (live_values s) p) (n + length ops)"
  using assms
proof (induction ops arbitrary: s p n rs)
  case (Cons op ops)
  obtain r s1 where r: "set_step e alloc_ok op s = Inr (r, s1)" using Cons.prems(6) by (auto split: sum.splits)
  have ok: "set_step_ok e op s (r, s1)" using set_step_sim [OF Cons.prems(1) _ _ r] Cons.prems(2,3) by simp
  then have s1: "set_inv e s1" "set_used s1 + length ops \<le> PTR_REBUILD_MAX" "spec_set_step e op (live_values s) = (r, live_values s1)"
    using Cons.prems(3) by (auto simp: set_step_ok_def)
  have op: "set_op_ok op" "n < 2 ^ 31" using Cons.prems(2,5) by simp_all
  note c1 = set_cursor_step [OF Cons.prems(1) op(1) Cons.prems(4) op(2) r]
  obtain rs' where "run_set e alloc_ok ops s1 = Inr (rs', s')" using Cons.prems(6) r by (auto split: sum.splits)
  from Cons.IH [OF s1(1) _ s1(2) c1 _ this] Cons.prems(2,5) show ?case by (simp add: s1(3))
qed simp

lemma fresh_set_log:
  assumes "\<And>op. op \<in> set ops \<Longrightarrow> set_op_ok op" "length ops \<le> PTR_REBUILD_MAX" "run_set e alloc_ok ops (fresh_set n) = Inr (rs, s)"
  shows "log_wf (set_view s)" "length (set_records s) \<le> length ops"
proof -
  have fresh: "set_cursor_at (fresh_set n) 0 0 0 0"
    by (simp add: cursor_at_def fresh_set_def log_wf_def squeezes_since_def rebase_map_cursor_def live_below_def)
  have "set_cursor_at s 0 0 (run_set_mark e ops (live_values (fresh_set n)) 0) (0 + length ops)"
    by (rule set_cursor_run [OF set_inv_alloc(1) assms(1) _ fresh _ assms(3)]) (use assms(2) set_inv_alloc(3) [of n] in \<open>auto simp: PTR_REBUILD_MAX_def\<close>)
  then show "log_wf (set_view s)" "length (set_records s) \<le> length ops" by (simp_all add: cursor_at_def)
qed

subsection \<open>Properties\<close>

text \<open>
  C10. The cursor of \<open>for-of\<close> over a \<open>Set\<close> survives every change of the set. A walk that has read up to
  a raw position of a reachable set, and lets any operations run before it asks for the next element,
  gets exactly the element that follows the visited ones in insertion order, or the end when none
  remains: none is skipped and none is seen twice. The condition is that the log still has the
  squeezes since the walk last synchronised. The entry point that takes doubles agrees.
\<close>

theorem set_cursor_exact:
  assumes "\<forall>op \<in> set (ops @ ops'). set_op_ok op" "length (ops @ ops') \<le> PTR_REBUILD_MAX"
    "run_set e alloc_ok ops (fresh_set n) = Inr (rs, s)" "c \<le> set_used s"
    "run_set e alloc_ok ops' s = Inr (rs', s')" "log_covers (set_view s') (set_compaction_epoch s)"
    "visited = run_set_mark e ops' (live_values s) (set_live_below s c)"
  shows "js_set_cursor_next s' (f64_of_int (int c)) (js_set_compaction_epoch s) =
      f64_of_int (case set_cursor_next_raw s' c (set_compaction_epoch s) of None \<Rightarrow> - 1 | Some i \<Rightarrow> int i) \<and>
    (case set_cursor_next_raw s' c (set_compaction_epoch s) of
       None \<Rightarrow> visited = length (live_values s')
     | Some i \<Rightarrow> i < set_used s' \<and> visited < length (live_values s') \<and> elements s' ! i = live_values s' ! visited \<and>
         set_live_below s' i = visited)"
proof -
  have ok: "\<And>op. op \<in> set ops \<Longrightarrow> set_op_ok op" "\<And>op. op \<in> set ops' \<Longrightarrow> set_op_ok op" using assms(1) by auto
  have len: "length ops \<le> PTR_REBUILD_MAX" using assms(2) by simp
  have sim: "set_inv e s" "set_used s \<le> length ops"
    using run_set_sim [OF set_inv_alloc(1) [of e n] ok(1), of ops alloc_ok] assms(3) len set_inv_alloc(3) [of n] by auto
  note log = fresh_set_log [OF ok(1) len assms(3)]
  have start: "set_cursor_at s c (set_epoch s) (set_live_below s c) (length ops)"
    using cursor_at_start [OF log(1), of "length ops" c] log(2) assms(4) by (simp add: live_below_view)
  have c: "c < 2 ^ 32" using assms(2,4) sim(2) by (simp add: PTR_REBUILD_MAX_def)
  have fin: "set_cursor_at s' c (set_epoch s) visited (length ops + length ops')" unfolding assms(7)
    by (rule set_cursor_run [OF sim(1) ok(2) _ start _ assms(5)]) (use assms(2) sim(2) in \<open>auto simp: PTR_REBUILD_MAX_def\<close>)
  have nth: "entries (set_view s') ! i = live_entries (set_view s') ! visited \<longleftrightarrow> elements s' ! i = live_values s' ! visited"
    if "i < set_used s'" "visited < length (live_values s')" for i
    using that by (simp add: live_entries_view)
  have "case set_cursor_next_raw s' c (set_compaction_epoch s) of
       None \<Rightarrow> visited = length (live_values s')
     | Some i \<Rightarrow> i < set_used s' \<and> visited < length (live_values s') \<and> elements s' ! i = live_values s' ! visited \<and>
         set_live_below s' i = visited"
    using map_cursor_next_raw_correct [OF fin] assms(6) nth
    by (auto simp: set_cursor_next_raw_view set_compaction_epoch_def live_entries_view live_below_view split: option.splits)
  moreover have "js_set_cursor_next s' (f64_of_int (int c)) (js_set_compaction_epoch s) =
      f64_of_int (case set_cursor_next_raw s' c (set_compaction_epoch s) of None \<Rightarrow> - 1 | Some i \<Rightarrow> int i)"
    unfolding js_set_cursor_next_view js_map_cursor_next_eq [OF c] by (simp add: set_cursor_next_raw_view set_compaction_epoch_def)
  ultimately show ?thesis by blast
qed

theorem set_cursor_exact_witness:
  "\<exists>s s'. run_set sample_env (\<lambda>_. True) [Set_add (Arg_value (num_key 0)), Set_add (Arg_value (num_key 1)), Set_add (Arg_value (num_key 2))] (fresh_set 0)
      = Inr ([S_none, S_none, S_none], s) \<and>
    run_set sample_env (\<lambda>_. True) [Set_delete (Arg_value (num_key 1))] s = Inr ([S_int 1], s') \<and>
    (\<exists>i. set_cursor_next_raw s' 1 (set_compaction_epoch s) = Some i \<and> elements s' ! i = num_key 2)"
proof -
  let ?ops = "[Set_add (Arg_value (num_key 0)), Set_add (Arg_value (num_key 1)), Set_add (Arg_value (num_key 2))]"
  let ?ops' = "[Set_delete (Arg_value (num_key 1))]"
  obtain s where s: "run_set sample_env (\<lambda>_. True) ?ops (fresh_set 0) = Inr ([S_none, S_none, S_none], s)"
    "small_set s [num_key 0, num_key 1, num_key 2] 3" using small_set_fill by blast
  obtain s' where s': "set_step sample_env (\<lambda>_. True) (Set_delete (Arg_value (num_key 1))) s = Inr (S_int 1, s')"
    "small_set s' [num_key 0, SET_HOLE_VALUE_BITS, num_key 2] 2"
    using small_set_delete [OF s(2) _ num_key_ok(1,2) [of 1], where e = sample_env and alloc_ok = "\<lambda>_. True" and i = 1]
    by (auto simp: num_key_inj eval_nat_numeral)
  have run: "run_set sample_env (\<lambda>_. True) ?ops' s = Inr ([S_int 1], s')" using s'(1) by simp
  have ok: "\<forall>op \<in> set (?ops @ ?ops'). set_op_ok op" "length (?ops @ ?ops') \<le> PTR_REBUILD_MAX"
    using num_key_ok(3) by (simp_all add: PTR_REBUILD_MAX_def)
  have c: "1 \<le> set_used s" "log_covers (set_view s') (set_compaction_epoch s)"
    using s(2) s'(2) by (simp_all add: small_set_def log_covers_def squeezes_since_def set_compaction_epoch_def)
  have live: "live_values s = [num_key 0, num_key 1, num_key 2]" "set_live_below s 1 = 1" "live_values s' = [num_key 0, num_key 2]"
    using s(2) s'(2) num_key_ok(4) by (simp_all add: small_set_def live_values_def set_live_below_def set_hole)
  have eq: "set_jsvalue_eq sample_env x (num_key 1) = (x = num_key 1)" for x using safe_value_eq num_key_ok(5) [of 1] by simp
  have mark: "run_set_mark sample_env ?ops' (live_values s) (set_live_below s 1) = 1"
    using num_key_ok(2) [of 1] by (simp add: live spec_remove_def eq num_key_inj take_Cons' del: One_nat_def)
  from set_cursor_exact [OF ok s(1) c(1) run c(2) mark [symmetric]]
  have "\<exists>i. set_cursor_next_raw s' 1 (set_compaction_epoch s) = Some i \<and> elements s' ! i = num_key 2"
    unfolding live by (auto split: option.splits)
  then show ?thesis using s(1) run by blast
qed

end
