(* ===== verification/Set_Foreach.thy ===== *)
theory Set_Foreach
  imports Set_Cursor Collection_Walk
begin

text \<open>
  The walk of \<open>Set.prototype.forEach\<close> (\<open>set.rs\<close>) with a callback that changes the set it walks over.
  It is the walk of \<open>Map\<close> on the elements, through the same interface.
\<close>

subsection \<open>The walk\<close>

text \<open>The callback receives the element twice and the collection. The walk has fuel as it need not end.\<close>

fun set_foreach_loop ::
    "nat \<Rightarrow> (u64 list \<Rightarrow> 's \<Rightarrow> js_set \<Rightarrow> walk_throw option \<times> 's \<times> js_set) \<Rightarrow> u64 \<Rightarrow> nat \<Rightarrow> 's \<Rightarrow> js_set
     \<Rightarrow> (walk_throw option \<times> 's \<times> js_set) option" where
  "set_foreach_loop 0 call set_value i st s = None"
| "set_foreach_loop (Suc fuel) call set_value i st s =
     (if i \<ge> set_used s then Some (None, st, s)
      else
        let v = elements s ! i
        in if v = SET_HOLE_VALUE_BITS then set_foreach_loop fuel call set_value (i + 1) st s
           else case call [v, v, set_value] st s of
                  (None, st, s) \<Rightarrow> set_foreach_loop fuel call set_value (i + 1) st s
                | (Some x, st, s) \<Rightarrow> Some (Some x, st, s))"

text \<open>
  Unlike \<open>Map\<close>, the set is squeezed before the callback is checked. As there, a throw passes by the end of
  the function, and the enclosing \<open>try\<close> cuts the stack of active walks back.
\<close>

definition js_set_foreach_impl ::
    "map_env \<Rightarrow> ('s, js_set) callback_host \<Rightarrow> nat \<Rightarrow> addr \<Rightarrow> u64 \<Rightarrow> u64 \<Rightarrow> u64 \<Rightarrow> 's \<Rightarrow> js_set
     \<Rightarrow> (walk_throw option \<times> 's \<times> js_set) option" where
  "js_set_foreach_impl e host fuel self callback this_arg collection_override st s =
     (let s = (if set_foreach_is_active s then s else compact_if_holey_set e s)
      in case js_validate_array_callback host callback of
           Inl err \<Rightarrow> Some (Some (Runtime_throw err), st, s)
         | Inr _ \<Rightarrow>
             let set_value = collection_value collection_override self;
                 s = set_foreach_enter s
             in case set_foreach_loop fuel (js_native_call_value host callback this_arg) set_value 0 st s of
                  None \<Rightarrow> None
                | Some (Some x, st, s) \<Rightarrow> Some (Some x, st, s)
                | Some (None, st, s) \<Rightarrow>
                    let (outermost, s) = set_foreach_leave s
                    in Some (None, st, if outermost then compact_if_holey_set e s else s))"

definition set_foreach_stack_restore :: "nat \<Rightarrow> js_set \<Rightarrow> js_set" where
  "set_foreach_stack_restore depth s = s\<lparr>set_foreach_depth := min depth (set_foreach_depth s)\<rparr>"

subsection \<open>A walk in progress keeps the positions\<close>

text \<open>
  The operations of a callback: all but the conversion to an array, which squeezes the set under the
  walk, and the brackets of a nested walk over the same set.
\<close>

fun set_callback_op_ok :: "set_op \<Rightarrow> bool" where
  "set_callback_op_ok Set_to_array = False"
| "set_callback_op_ok Set_foreach_enter = False"
| "set_callback_op_ok Set_foreach_leave = False"
| "set_callback_op_ok op = set_op_ok op"

lemma set_callback_op_set_op: "set_callback_op_ok op \<Longrightarrow> set_op_ok op"
  by (cases op) simp_all

definition same_set_layout :: "js_set \<Rightarrow> js_set \<Rightarrow> bool" where
  "same_set_layout s s' \<longleftrightarrow> set_records s' = set_records s \<and> set_epoch s' = set_epoch s \<and> set_foreach_depth s' = set_foreach_depth s"

lemma same_set_layout_step:
  assumes "set_foreach_is_active s" "set_callback_op_ok op" "set_step e alloc_ok op s = Inr (r, s')"
  shows "same_set_layout s s'"
proof (cases op)
  case (Set_add a)
  have ens: "same_set_layout s s1" if "set_ensure_capacity e alloc_ok s = Inr s1" for s1
    using that assms(1) by (auto simp: same_set_layout_def set_ensure_capacity_def grow_elements_def Let_def split: if_splits)
  have "same_set_layout s s'" if "set_add_resolved e alloc_ok s v = Inr s'" for v
  proof (cases "find_value_index e s (set_normalize_zero v) \<ge> 0")
    case True
    then show ?thesis using that by (simp add: set_add_resolved_def Let_def same_set_layout_def)
  next
    case False
    note add = that
    obtain s1 where "set_ensure_capacity e alloc_ok s = Inr s1" "s' = append_element e (set_normalize_zero v) s1"
      using add False by (auto simp: set_add_resolved_def Let_def split: sum.splits)
    then show ?thesis using ens by (simp add: same_set_layout_def append_element_def Let_def)
  qed
  then show ?thesis using assms(3) Set_add by (auto simp: arg_ops split: sum.splits)
next
  case (Set_delete a)
  have "same_set_layout s (snd (js_set_delete e s v))" for v
    using assms(1) by (simp add: js_set_delete_cases set_tombstone_def set_foreach_is_active_def same_set_layout_def Let_def)
  from this [of "arg_bits a"] show ?thesis using assms(3) Set_delete by (auto simp: arg_ops split: prod.splits)
next
  case Set_clear
  then show ?thesis using assms(1,3) by (auto simp: js_set_clear_def set_foreach_is_active_def same_set_layout_def Let_def)
next
  case (Set_value_at i)
  have "snd (js_set_value_at e s i) = s" using assms(1)
    by (simp add: js_set_value_at_def live_index_to_raw_set_def split: option.split)
  then show ?thesis using assms(3) Set_value_at by (auto simp: same_set_layout_def split: prod.splits)
qed (use assms(2,3) in \<open>auto simp: same_set_layout_def\<close>)

subsection \<open>The walk over the ordered list\<close>

definition set_walking :: "map_env \<Rightarrow> nat \<Rightarrow> js_set \<Rightarrow> bool" where
  "set_walking e n s \<longleftrightarrow> set_inv e s \<and> set_foreach_is_active s \<and> log_wf (set_view s) \<and> length (set_records s) \<le> PTR_REBUILD_MAX \<and>
     set_used s + n \<le> PTR_REBUILD_MAX"

definition set_slot :: "js_set \<Rightarrow> nat \<Rightarrow> u64 option" where
  "set_slot s i = (if elements s ! i = SET_HOLE_VALUE_BITS then None else Some (elements s ! i))"

lemma set_foreach_loop_walk:
  "set_foreach_loop fuel call set_value i st s = walk_loop (\<lambda>s. set_used s) set_slot (\<lambda>v. call [v, v, set_value]) fuel i st s"
  by (induction fuel arbitrary: i st s) (auto simp: set_slot_def Let_def split: prod.split option.split)

lemma set_walking_step:
  assumes "set_walking e (Suc n) s" "set_callback_op_ok op" "j \<le> set_used s" "set_step e alloc_ok op s = Inr (r, s')"
  shows "spec_set_step e op (live_values s) = (r, live_values s') \<and> set_mark e op (live_values s) (set_live_below s j) = set_live_below s' j \<and>
    set_walking e n s' \<and> j \<le> set_used s' \<and> same_set_layout s s'"
proof -
  have w: "set_inv e s" "set_foreach_is_active s" "log_wf (set_view s)" "length (set_records s) \<le> PTR_REBUILD_MAX" "set_used s + Suc n \<le> PTR_REBUILD_MAX"
    using assms(1) by (simp_all add: set_walking_def)
  note ok = set_callback_op_set_op [OF assms(2)]
  have "run_set e alloc_ok [op] s = Inr ([r], s')" using assms(4) by simp
  then have sim: "set_inv e s'" "spec_set_step e op (live_values s) = (r, live_values s')" "set_used s' \<le> Suc (set_used s)"
    using run_set_sim [OF w(1), of "[op]" alloc_ok] ok w(5) by (auto split: prod.splits)
  have lay: "same_set_layout s s'" by (rule same_set_layout_step [OF w(2) assms(2,4)])
  have "set_cursor_at s j (set_epoch s) (set_live_below s j) PTR_REBUILD_MAX"
    using cursor_at_start [OF w(3), of PTR_REBUILD_MAX j] w(4) assms(3) by (simp add: live_below_view)
  from set_cursor_step [OF w(1) ok this _ assms(4)]
  have "set_cursor_at s' j (set_epoch s) (set_mark e op (live_values s) (set_live_below s j)) (Suc PTR_REBUILD_MAX)" by (simp add: PTR_REBUILD_MAX_def)
  moreover have "log_covers (set_view s') (set_epoch s)" "rebase_map_cursor (set_view s') c (set_epoch s) = c" for c
    using lay w(4) by (simp_all add: same_set_layout_def log_covers_def squeezes_since_def rebase_map_cursor_def PTR_REBUILD_MAX_def)
  ultimately have at: "log_wf (set_view s')" "j \<le> set_used s'" "set_live_below s' j = set_mark e op (live_values s) (set_live_below s j)"
    by (simp_all add: cursor_at_def live_below_view)
  have "set_walking e n s'" using sim(1,3) lay w(2,4,5) at(1) by (simp add: set_walking_def same_set_layout_def set_foreach_is_active_def)
  then show ?thesis using sim(2) at lay by simp
qed

lemma set_walking_fails:
  assumes "set_walking e (Suc n) s" "set_callback_op_ok op" "set_step e alloc_ok op s = Inl err"
  shows "err = throw_allocation_failed \<and> (\<exists>c. \<not> alloc_ok c)"
proof -
  have "run_set e alloc_ok [op] s = Inl err" using assms(3) by simp
  then show ?thesis using run_set_sim [of e s "[op]" alloc_ok] set_callback_op_set_op [OF assms(2)] assms(1) by (auto simp: set_walking_def)
qed

interpretation sw: collection_walk "set_walking e" "\<lambda>s. set_used s" set_slot live_values set_live_below same_set_layout set_callback_op_ok
  "set_step e alloc_ok" "spec_set_step e" "set_mark e" "\<lambda>err. err = throw_allocation_failed \<and> (\<exists>c. \<not> alloc_ok c)" for e alloc_ok
proof
  show "set_live_below s (set_used s) = length (live_values s)" for s by (simp add: set_live_below_def live_values_def)
  show "set_live_below s j < length (live_values s) \<and> live_values s ! set_live_below s j = v \<and> set_live_below s (j + 1) = Suc (set_live_below s j)"
    if "j < set_used s" "set_slot s j = Some v" for s j v
  proof -
    have "set_live_below s (j + 1) = Suc (set_live_below s j)"
      using that by (simp add: set_slot_def set_live_below_def take_Suc_conv_app_nth split: if_splits)
    then show ?thesis using live_below_nth [of j "set_view s"] that
      by (auto simp: set_slot_def live_pair_def live_entries_view live_below_view set_hole split: if_splits)
  qed
  show "set_live_below s (j + 1) = set_live_below s j" if "j < set_used s" "set_slot s j = None" for s j
    using that by (simp add: set_slot_def set_live_below_def take_Suc_conv_app_nth split: if_splits)
  show "same_set_layout s s" for s by (simp add: same_set_layout_def)
  show "same_set_layout s s' \<Longrightarrow> same_set_layout s' s'' \<Longrightarrow> same_set_layout s s''" for s s' s'' by (simp add: same_set_layout_def)
  show "set_walking e n s \<Longrightarrow> k \<le> n \<Longrightarrow> set_walking e k s" for n k s by (simp add: set_walking_def)
qed (fact set_walking_fails set_walking_step)+

abbreviation spec_set_foreach ::
    "map_env \<Rightarrow> (u64 list \<Rightarrow> 's \<Rightarrow> (set_op, set_result, 's) callback_prog) \<Rightarrow> u64 \<Rightarrow> nat \<Rightarrow> 's \<Rightarrow> u64 list
     \<Rightarrow> (walk_throw option \<times> 's \<times> u64 list) option" where
  "spec_set_foreach e cb set_value n st L \<equiv> spec_walk (\<lambda>v st. spec_prog (spec_set_step e) (set_mark e) (cb [v, v, set_value] st)) n 0 st L"

subsection \<open>Properties\<close>

lemma set_walking_enter:
  assumes "set_inv e s" "log_wf (set_view s)" "length (set_records s) < PTR_REBUILD_MAX" "set_used s + n \<le> PTR_REBUILD_MAX"
  defines "s' \<equiv> set_foreach_enter (if set_foreach_is_active s then s else compact_if_holey_set e s)"
  shows "set_walking e n s'" "live_values s' = live_values s" "set_foreach_depth s' = Suc (set_foreach_depth s)"
proof -
  let ?s = "if set_foreach_is_active s then s else compact_if_holey_set e s"
  have "set_cursor_at s 0 (set_epoch s) (set_live_below s 0) (length (set_records s))"
    using cursor_at_start [OF assms(2), of "length (set_records s)" 0] by (simp add: live_below_view)
  from set_cursor_if_holey [OF assms(1) this]
  have c: "log_wf (set_view (compact_if_holey_set e s))" "length (set_records (compact_if_holey_set e s)) \<le> PTR_REBUILD_MAX"
    using assms(3) by (simp_all add: cursor_at_def PTR_REBUILD_MAX_def)
  note holey = compact_if_holey_set_correct [OF assms(1)]
  have s: "set_inv e ?s" "log_wf (set_view ?s)" "length (set_records ?s) \<le> PTR_REBUILD_MAX" "set_used ?s + n \<le> PTR_REBUILD_MAX"
    "live_values ?s = live_values s" "set_foreach_depth ?s = set_foreach_depth s"
    using assms c holey live_values_le [of s] by simp_all
  have "log_wf (set_view (?s\<lparr>set_foreach_depth := d\<rparr>)) = log_wf (set_view ?s)" for d by (simp add: log_wf_def)
  then show "set_walking e n s'" using s unfolding set_walking_def s'_def set_foreach_enter_def set_inv_foreach by (simp add: set_foreach_is_active_def)
  show "live_values s' = live_values s" using s(5) unfolding s'_def set_foreach_enter_def set_inv_foreach .
  show "set_foreach_depth s' = Suc (set_foreach_depth s)" using s(6) by (simp add: s'_def set_foreach_enter_def)
qed

text \<open>
  C14. \<open>forEach\<close> on a \<open>Set\<close> visits what the language prescribes while its callback changes the set. On a
  reachable set, with a callable callback that is any program over the additions, deletions, clears,
  membership tests and indexed reads of that set and that may throw, the raw walk over the extent calls
  the callback with the same elements and collection in the same order as the walk over the
  insertion-ordered list. When that walk ends, by itself or by a throw, the raw walk ends in the same
  way, with the same state of the callback and the same set, and the stack of active walks is as before
  once the handler of a throw has cut it back; the only other outcome is the \<open>RangeError\<close> of a failed
  allocation. Not among the operations of the callback are \<open>js_set_to_array\<close> and the composition methods,
  which squeeze the set under the walk, and a nested \<open>forEach\<close> over the same set.
\<close>

theorem js_set_foreach_visits_in_order:
  assumes "\<forall>op \<in> set ops. set_op_ok op" "run_set e alloc_ok ops (fresh_set n) = Inr (rs, s)"
    "resolve_callback_ptr host callback \<noteq> None"
    "js_native_call_value host callback this_arg = (\<lambda>args st. run_prog (set_step e alloc_ok) (cb args st))"
    "\<forall>args st. prog_ok set_callback_op_ok (cb args st) b" "length ops + calls * b < PTR_REBUILD_MAX"
    "spec_set_foreach e cb (collection_value collection self) calls st (live_values s) = Some (x, st', L)"
  shows "\<exists>fuel y st'' s'. js_set_foreach_impl e host fuel self callback this_arg collection st s = Some (y, st'', s') \<and>
    set_foreach_depth (if y = None then s' else set_foreach_stack_restore (set_foreach_depth s) s') = set_foreach_depth s \<and>
    (y = x \<and> st'' = st' \<and> live_values s' = L \<or> y = Some (Runtime_throw throw_allocation_failed) \<and> (\<exists>c. \<not> alloc_ok c))"
proof -
  let ?s = "set_foreach_enter (if set_foreach_is_active s then s else compact_if_holey_set e s)"
  let ?cb = "\<lambda>v. cb [v, v, collection_value collection self]"
  have ok: "\<And>op. op \<in> set ops \<Longrightarrow> set_op_ok op" using assms(1) by blast
  have len: "set_used (fresh_set n) + length ops \<le> PTR_REBUILD_MAX" using assms(6) set_inv_alloc(3) [of n] by simp
  have inv: "set_inv e s" "set_used s \<le> length ops"
    using run_set_sim [OF set_inv_alloc(1) ok len, where alloc_ok = alloc_ok and e = e] assms(2) set_inv_alloc(3) [of n] by simp_all
  note log = fresh_set_log [OF ok _ assms(2)]
  have enter: "set_walking e (calls * b) ?s" "live_values ?s = live_values s" "set_foreach_depth ?s = Suc (set_foreach_depth s)"
    using set_walking_enter [OF inv(1) log(1), of "calls * b"] log(2) inv(2) assms(6) by simp_all
  have prog: "\<And>v st. prog_ok set_callback_op_ok (?cb v st) b" using assms(5) by blast
  have spec: "spec_set_foreach e cb (collection_value collection self) calls st (live_values ?s) = Some (x, st', L)"
    and zero: "set_live_below ?s 0 = 0" using assms(7) enter(2) by (simp_all add: set_live_below_def)
  obtain fuel y st'' s' where s': "walk_loop (\<lambda>s. set_used s) set_slot (\<lambda>v st. run_prog (set_step e alloc_ok) (?cb v st)) fuel 0 st ?s = Some (y, st'', s')"
    "set_walking e 0 s'" "same_set_layout ?s s'"
    "(\<exists>err. y = Some (Runtime_throw err) \<and> err = throw_allocation_failed \<and> (\<exists>c. \<not> alloc_ok c)) \<or> (y = x \<and> st'' = st' \<and> live_values s' = L)"
    using sw.loop_follows [OF prog enter(1) le0, unfolded zero, OF spec, of alloc_ok] by blast
  have depth: "set_foreach_depth s' = Suc (set_foreach_depth s)" using s'(3) enter(3) by (simp add: same_set_layout_def)
  obtain p where p: "js_validate_array_callback host callback = Inr p" using assms(3) by (auto simp: js_validate_array_callback_def)
  let ?l = "s'\<lparr>set_foreach_depth := set_foreach_depth s\<rparr>"
  have l: "set_inv e ?l" "live_values ?l = live_values s'" using s'(2) unfolding set_inv_foreach by (simp_all add: set_walking_def)
  let ?r = "if y = None then if set_foreach_depth s = 0 then compact_if_holey_set e ?l else ?l else s'"
  have "js_set_foreach_impl e host fuel self callback this_arg collection st s = Some (y, st'', ?r)"
    using s'(1) depth unfolding js_set_foreach_impl_def Let_def p assms(4) set_foreach_loop_walk
    by (simp add: set_foreach_leave_def Let_def split: option.split)
  moreover have "live_values ?r = live_values s'"
    "set_foreach_depth (if y = None then ?r else set_foreach_stack_restore (set_foreach_depth s) ?r) = set_foreach_depth s"
    using l(2) depth compact_if_holey_set_correct(3,6) [OF l(1)] by (auto simp: set_foreach_stack_restore_def)
  ultimately show ?thesis using s'(4) by blast
qed

theorem js_set_foreach_visits_in_order_witness:
  "\<exists>s fuel s'. run_set sample_env (\<lambda>_. True) [Set_add (Arg_value (num_key 0)), Set_add (Arg_value (num_key 1)), Set_add (Arg_value (num_key 2))] (fresh_set 0)
      = Inr ([S_none, S_none, S_none], s) \<and>
    js_set_foreach_impl sample_env
      (prog_host (set_step sample_env (\<lambda>_. True))
        (\<lambda>args st. Do st (Set_delete (Arg_value (num_key 1)))
           (\<lambda>r. if r = S_int 1 then Do st (Set_add (Arg_value (num_key 3))) (\<lambda>_. Return (st @ [args ! 0])) else Return (st @ [args ! 0]))))
      fuel 0x20000 sample_callback TAG_UNDEFINED TAG_UNDEFINED [] s = Some (None, [num_key 0, num_key 2, num_key 3], s') \<and>
    live_values s' = [num_key 0, num_key 2, num_key 3]"
proof -
  let ?ops = "[Set_add (Arg_value (num_key 0)), Set_add (Arg_value (num_key 1)), Set_add (Arg_value (num_key 2))]"
  let ?cb = "\<lambda>args st. Do st (Set_delete (Arg_value (num_key 1)))
    (\<lambda>r. if r = S_int 1 then Do st (Set_add (Arg_value (num_key 3))) (\<lambda>_. Return (st @ [args ! 0])) else Return (st @ [args ! 0]))"
  obtain s where s: "run_set sample_env (\<lambda>_. True) ?ops (fresh_set 0) = Inr ([S_none, S_none, S_none], s)"
    "small_set s [num_key 0, num_key 1, num_key 2] 3" using small_set_fill by blast
  have live: "live_values s = [num_key 0, num_key 1, num_key 2]" using s(2) num_key_ok(4) by (simp add: small_set_def live_values_def set_hole)
  have ok: "\<forall>op \<in> set ?ops. set_op_ok op" "\<forall>args st. prog_ok set_callback_op_ok (?cb args st) 2" using num_key_ok(3) by simp_all
  have bound: "length ?ops + 4 * 2 < PTR_REBUILD_MAX" by (simp add: PTR_REBUILD_MAX_def)
  have eq: "set_jsvalue_eq sample_env (num_key i) (num_key j) = (i = j)" if "i < 8" "j < 8" for i j
    using safe_value_eq num_key_ok(5) [OF that(2)] num_key_inj [OF that] by simp
  have spec: "spec_set_foreach sample_env ?cb (collection_value TAG_UNDEFINED 0x20000) 4 [] (live_values s)
      = Some (None, [num_key 0, num_key 2, num_key 3], [num_key 0, num_key 2, num_key 3])"
    unfolding live by (simp add: eval_nat_numeral num_key_ok(2) spec_remove_def spec_add_def spec_member_def eq)
  note host = prog_host_calls [where step = "set_step sample_env (\<lambda>_. True)" and cb = ?cb]
  from js_set_foreach_visits_in_order [OF ok(1) s(1) host ok(2) bound spec] s(1) show ?thesis by fastforce
qed

end
