(* ===== verification/Set_Compose.thy ===== *)
theory Set_Compose
  imports Set_Refinement
begin

text \<open>
  The ES2024 composition methods of \<open>Set\<close> (\<open>set.rs\<close>): \<open>union\<close>, \<open>intersection\<close>, \<open>difference\<close> and
  \<open>symmetricDifference\<close>, which build a new set, and \<open>isSubsetOf\<close>, \<open>isSupersetOf\<close> and
  \<open>isDisjointFrom\<close>. The receiver is \<open>None\<close> for a pointer that resolves to no set. The argument is not a
  set, the receiver itself or another set; only the receiver changes, by compaction.
\<close>

datatype other_set = Other_none | Other_self | Other_set js_set

definition other_set_ptr :: "other_set \<Rightarrow> js_set option \<Rightarrow> js_set option" where
  "other_set_ptr other recv = (case other of Other_none \<Rightarrow> None | Other_self \<Rightarrow> recv | Other_set t \<Rightarrow> Some t)"

text \<open>The slots \<open>0..size\<close> of a set, read without looking for tombstones.\<close>

definition raw_walk :: "js_set option \<Rightarrow> u64 list" where
  "raw_walk recv = (case recv of None \<Rightarrow> [] | Some s \<Rightarrow> map (\<lambda>i. elements s ! i) [0..<set_size s])"

definition in_set :: "map_env \<Rightarrow> js_set option \<Rightarrow> u64 \<Rightarrow> bool" where
  "in_set e recv v = (case recv of None \<Rightarrow> False | Some s \<Rightarrow> js_set_has e s v \<noteq> 0)"

fun add_where :: "map_env \<Rightarrow> (nat \<Rightarrow> bool) \<Rightarrow> (u64 \<Rightarrow> bool) \<Rightarrow> u64 list \<Rightarrow> js_set \<Rightarrow> js_throw + js_set" where
  "add_where e alloc_ok sel [] s = Inr s"
| "add_where e alloc_ok sel (v # vs) s =
     (if sel v then (case set_add_resolved e alloc_ok s v of Inl err \<Rightarrow> Inl err | Inr s \<Rightarrow> add_where e alloc_ok sel vs s)
      else add_where e alloc_ok sel vs s)"

definition js_set_union :: "map_env \<Rightarrow> (nat \<Rightarrow> bool) \<Rightarrow> js_set option \<Rightarrow> other_set \<Rightarrow> js_throw + (js_set \<times> js_set option)" where
  "js_set_union e alloc_ok recv other =
     (let recv = map_option (compact_if_holey_set e) recv
      in case js_set_alloc alloc_ok 4 of
           Inl err \<Rightarrow> Inl err
         | Inr result \<Rightarrow>
             (case set_add_all e alloc_ok (raw_walk recv) result of
                Inl err \<Rightarrow> Inl err
              | Inr result \<Rightarrow>
                  (case set_add_all e alloc_ok (raw_walk (other_set_ptr other recv)) result of
                     Inl err \<Rightarrow> Inl err
                   | Inr result \<Rightarrow> Inr (result, recv))))"

definition js_set_intersection :: "map_env \<Rightarrow> (nat \<Rightarrow> bool) \<Rightarrow> js_set option \<Rightarrow> other_set \<Rightarrow> js_throw + (js_set \<times> js_set option)" where
  "js_set_intersection e alloc_ok recv other =
     (let recv = map_option (compact_if_holey_set e) recv
      in case js_set_alloc alloc_ok 4 of
           Inl err \<Rightarrow> Inl err
         | Inr result \<Rightarrow>
             if recv = None then Inr (result, recv)
             else
               let other = other_set_ptr other recv
               in case add_where e alloc_ok (\<lambda>v. in_set e other v) (raw_walk recv) result of
                    Inl err \<Rightarrow> Inl err
                  | Inr result \<Rightarrow> Inr (result, recv))"

definition js_set_difference :: "map_env \<Rightarrow> (nat \<Rightarrow> bool) \<Rightarrow> js_set option \<Rightarrow> other_set \<Rightarrow> js_throw + (js_set \<times> js_set option)" where
  "js_set_difference e alloc_ok recv other =
     (let recv = map_option (compact_if_holey_set e) recv
      in case js_set_alloc alloc_ok 4 of
           Inl err \<Rightarrow> Inl err
         | Inr result \<Rightarrow>
             if recv = None then Inr (result, recv)
             else
               let other = other_set_ptr other recv
               in case add_where e alloc_ok (\<lambda>v. \<not> in_set e other v) (raw_walk recv) result of
                    Inl err \<Rightarrow> Inl err
                  | Inr result \<Rightarrow> Inr (result, recv))"

definition js_set_symmetric_difference :: "map_env \<Rightarrow> (nat \<Rightarrow> bool) \<Rightarrow> js_set option \<Rightarrow> other_set \<Rightarrow> js_throw + (js_set \<times> js_set option)" where
  "js_set_symmetric_difference e alloc_ok recv other =
     (let recv = map_option (compact_if_holey_set e) recv
      in case js_set_alloc alloc_ok 4 of
           Inl err \<Rightarrow> Inl err
         | Inr result \<Rightarrow>
             let other = other_set_ptr other recv
             in case add_where e alloc_ok (\<lambda>v. \<not> in_set e other v) (raw_walk recv) result of
                  Inl err \<Rightarrow> Inl err
                | Inr result \<Rightarrow>
                    (case add_where e alloc_ok (\<lambda>v. \<not> in_set e recv v) (raw_walk other) result of
                       Inl err \<Rightarrow> Inl err
                     | Inr result \<Rightarrow> Inr (result, recv)))"

fun all_in :: "map_env \<Rightarrow> js_set \<Rightarrow> u64 list \<Rightarrow> int" where
  "all_in e s [] = 1"
| "all_in e s (v # vs) = (if js_set_has e s v = 0 then 0 else all_in e s vs)"

fun none_in :: "map_env \<Rightarrow> js_set \<Rightarrow> u64 list \<Rightarrow> int" where
  "none_in e s [] = 1"
| "none_in e s (v # vs) = (if js_set_has e s v \<noteq> 0 then 0 else none_in e s vs)"

definition js_set_is_subset_of :: "map_env \<Rightarrow> js_set option \<Rightarrow> other_set \<Rightarrow> int \<times> js_set option" where
  "js_set_is_subset_of e recv other =
     (let recv = map_option (compact_if_holey_set e) recv
      in case recv of
           None \<Rightarrow> (1, recv)
         | Some s \<Rightarrow>
             (case other_set_ptr other recv of
                None \<Rightarrow> (if set_size s = 0 then 1 else 0, recv)
              | Some t \<Rightarrow> (all_in e t (raw_walk recv), recv)))"

definition js_set_is_superset_of :: "map_env \<Rightarrow> js_set option \<Rightarrow> other_set \<Rightarrow> int \<times> js_set option" where
  "js_set_is_superset_of e recv other =
     (let recv = map_option (compact_if_holey_set e) recv
      in case other_set_ptr other recv of
           None \<Rightarrow> (1, recv)
         | Some t \<Rightarrow>
             (case recv of
                None \<Rightarrow> (if set_size t = 0 then 1 else 0, recv)
              | Some s \<Rightarrow> (all_in e s (raw_walk (Some t)), recv)))"

definition js_set_is_disjoint_from :: "map_env \<Rightarrow> js_set option \<Rightarrow> other_set \<Rightarrow> int \<times> js_set option" where
  "js_set_is_disjoint_from e recv other =
     (let recv = map_option (compact_if_holey_set e) recv
      in case recv of
           None \<Rightarrow> (1, recv)
         | Some s \<Rightarrow>
             (case other_set_ptr other recv of
                None \<Rightarrow> (1, recv)
              | Some t \<Rightarrow> (none_in e t (raw_walk recv), recv)))"

subsection \<open>The walks\<close>

lemma raw_walk_full:
  assumes "set_inv e s" "set_used s = set_size s"
  shows "raw_walk (Some s) = live_values s"
proof -
  have "live_values s = elements s" using assms live_values_all by (simp add: set_inv_def)
  then show ?thesis using assms(2) map_nth [of "elements s"] by (simp add: raw_walk_def)
qed

lemma raw_walk_compact:
  assumes "set_inv e s"
  shows "raw_walk (Some (compact_if_holey_set e s)) = live_values s"
proof -
  note c = compact_if_holey_set_correct [OF assms]
  have "set_used (compact_if_holey_set e s) = set_size (compact_if_holey_set e s)" using c(2,4) assms by (simp add: set_inv_def)
  from raw_walk_full [OF c(1) this] show ?thesis using c(3) by simp
qed

lemma live_values_ok:
  assumes "set_inv e s"
  shows "sorted_wrt (\<lambda>a b. \<not> set_jsvalue_eq e a b) (live_values s)" "v \<in> set (live_values s) \<Longrightarrow> map_key v"
proof -
  have ok: "values_ok e (live_values s)" using assms by (simp add: set_inv_def live_values_def values_ok_filter)
  then show "sorted_wrt (\<lambda>a b. \<not> set_jsvalue_eq e a b) (live_values s)" unfolding values_ok_def
    by (auto simp: live_values_def intro: sorted_wrt_mono_rel [rotated])
  show "v \<in> set (live_values s) \<Longrightarrow> map_key v" using ok unfolding values_ok_def by (auto simp: live_values_def)
qed

lemma has_member: "set_inv e s \<Longrightarrow> map_key v \<Longrightarrow> js_set_has e s v \<noteq> 0 \<longleftrightarrow> spec_member e v (live_values s)"
  using find_value_index_member map_keyD(3) by (simp add: js_set_has_def set_normalize_zero_eq)

lemma add_where_filter: "add_where e alloc_ok sel vs s = set_add_all e alloc_ok (filter sel vs) s"
  by (induction vs arbitrary: s) (auto split: sum.split)

lemma fold_spec_add:
  "sorted_wrt (\<lambda>a b. \<not> set_jsvalue_eq e a b) vs \<Longrightarrow> fold (spec_add e) vs L = L @ filter (\<lambda>v. \<not> spec_member e v L) vs"
proof (induction vs arbitrary: L)
  case (Cons v vs)
  have "spec_member e x (L @ [v]) = spec_member e x L" if "x \<in> set vs" for x
    using Cons.prems that by (auto simp: spec_member_def)
  then have "filter (\<lambda>x. \<not> spec_member e x (L @ [v])) vs = filter (\<lambda>x. \<not> spec_member e x L) vs" by (intro filter_cong) auto
  then show ?case using Cons by (simp add: spec_add_def)
qed simp

text \<open>A new set that ends with the given elements, unless an allocation fails.\<close>

definition composes :: "(nat \<Rightarrow> bool) \<Rightarrow> js_throw + (js_set \<times> js_set option) \<Rightarrow> u64 list \<Rightarrow> js_set \<Rightarrow> bool" where
  "composes alloc_ok outcome L s \<longleftrightarrow>
     (case outcome of
        Inl err \<Rightarrow> err = throw_allocation_failed \<and> (\<exists>c. \<not> alloc_ok c)
      | Inr (r, recv) \<Rightarrow> live_values r = L \<and> js_set_size r = length L \<and> recv = Some s)"

lemma add_all_fresh:
  assumes "\<And>v. v \<in> set vs \<union> set ws \<Longrightarrow> map_key v" "length vs + length ws \<le> PTR_REBUILD_MAX"
    "sorted_wrt (\<lambda>a b. \<not> set_jsvalue_eq e a b) vs" "sorted_wrt (\<lambda>a b. \<not> set_jsvalue_eq e a b) ws"
  shows "composes alloc_ok
     (case js_set_alloc alloc_ok 4 of
        Inl err \<Rightarrow> Inl err
      | Inr r \<Rightarrow>
          (case set_add_all e alloc_ok vs r of
             Inl err \<Rightarrow> Inl err
           | Inr r \<Rightarrow> (case set_add_all e alloc_ok ws r of Inl err \<Rightarrow> Inl err | Inr r \<Rightarrow> Inr (r, Some s))))
     (vs @ filter (\<lambda>v. \<not> spec_member e v vs) ws) s"
proof (cases "js_set_alloc alloc_ok 4")
  case (Inl err)
  then show ?thesis by (auto simp: composes_def js_set_alloc_def split: if_splits)
next
  case (Inr r0)
  have norm: "map normalize_zero xs = xs" if "set xs \<subseteq> set vs \<union> set ws" for xs
    using that assms(1) map_keyD(3) by (auto intro!: map_idI)
  have raw: "\<not> raw_address v" if "v \<in> set vs \<union> set ws" for v using assms(1) [OF that] map_keyD(4) by blast
  have r0: "r0 = fresh_set 4" using Inr by (auto simp: js_set_alloc_def split: if_splits)
  have first: "case set_add_all e alloc_ok vs r0 of
      Inl err \<Rightarrow> err = throw_allocation_failed \<and> (\<exists>n. \<not> alloc_ok n)
    | Inr r \<Rightarrow> set_inv e r \<and> live_values r = vs \<and> set_used r \<le> length vs"
    using set_add_all_correct [OF set_inv_alloc(1) [of e 4], of vs alloc_ok] raw norm [of vs] fold_spec_add [OF assms(3), of "[]"]
      assms(2) set_inv_alloc(2,3) [of 4] unfolding r0 by (simp add: spec_member_def split: sum.splits)
  show ?thesis
  proof (cases "set_add_all e alloc_ok vs r0")
    case err: (Inl err)
    then show ?thesis using first Inr by (simp add: composes_def)
  next
    case r: (Inr r)
    then have i: "set_inv e r" "live_values r = vs" "set_used r \<le> length vs" using first by simp_all
    have "set_used r + length ws \<le> PTR_REBUILD_MAX" using i(3) assms(2) by simp
    from set_add_all_correct [OF i(1) _ this, of alloc_ok] show ?thesis
      using r Inr raw norm [of ws] fold_spec_add [OF assms(4), of vs] i(2)
      by (auto simp: composes_def js_set_size_def set_inv_def split: sum.splits)
  qed
qed

subsection \<open>The methods\<close>

lemma all_in_eq: "set_inv e s \<Longrightarrow> (\<And>v. v \<in> set vs \<Longrightarrow> map_key v) \<Longrightarrow>
  all_in e s vs = (if \<forall>v \<in> set vs. spec_member e v (live_values s) then 1 else 0)"
proof (induction vs)
  case (Cons v vs)
  then show ?case using has_member [OF Cons.prems(1), of v] by (cases "js_set_has e s v = 0") auto
qed simp

lemma none_in_eq: "set_inv e s \<Longrightarrow> (\<And>v. v \<in> set vs \<Longrightarrow> map_key v) \<Longrightarrow>
  none_in e s vs = (if \<exists>v \<in> set vs. spec_member e v (live_values s) then 0 else 1)"
proof (induction vs)
  case (Cons v vs)
  then show ?case using has_member [OF Cons.prems(1), of v] by (cases "js_set_has e s v = 0") auto
qed simp

lemma filter_in_set:
  assumes "set_inv e t" "\<And>v. v \<in> set vs \<Longrightarrow> map_key v"
  shows "filter (\<lambda>v. in_set e (Some t) v) vs = filter (\<lambda>v. spec_member e v (live_values t)) vs"
    "filter (\<lambda>v. \<not> in_set e (Some t) v) vs = filter (\<lambda>v. \<not> spec_member e v (live_values t)) vs"
  using has_member [OF assms(1)] assms(2) by (auto simp: in_set_def intro!: filter_cong)

lemma compose_any:
  assumes "set_inv e s" "set_inv e t" "c = compact_if_holey_set e s" "other_set_ptr other (Some c) = Some t" "length (live_values s) \<le> PTR_REBUILD_MAX"
  shows "composes alloc_ok (js_set_intersection e alloc_ok (Some s) other) (filter (\<lambda>v. spec_member e v (live_values t)) (live_values s)) c"
    "composes alloc_ok (js_set_difference e alloc_ok (Some s) other) (filter (\<lambda>v. \<not> spec_member e v (live_values t)) (live_values s)) c"
    "js_set_is_subset_of e (Some s) other = (if \<forall>v \<in> set (live_values s). spec_member e v (live_values t) then 1 else 0, Some c)"
    "js_set_is_disjoint_from e (Some s) other = (if \<exists>v \<in> set (live_values s). spec_member e v (live_values t) then 0 else 1, Some c)"
proof -
  let ?A = "live_values s"
  note A = live_values_ok [OF assms(1)]
  have walk: "raw_walk (Some c) = ?A" using raw_walk_compact [OF assms(1)] assms(3) by simp
  have add: "composes alloc_ok
     (case js_set_alloc alloc_ok 4 of
        Inl err \<Rightarrow> Inl err
      | Inr r \<Rightarrow> (case set_add_all e alloc_ok (filter P ?A) r of Inl err \<Rightarrow> Inl err | Inr r \<Rightarrow> Inr (r, Some c))) (filter P ?A) c" for P
  proof -
    have "length (filter P ?A) + length [] \<le> PTR_REBUILD_MAX" using le_trans [OF length_filter_le assms(5)] by simp
    from add_all_fresh [OF _ this sorted_wrt_filter [OF A(1)], of alloc_ok c] show ?thesis
      unfolding set_add_all.simps sum.case using A(2) by simp
  qed
  have recv: "map_option (compact_if_holey_set e) (Some s) = Some c" "(Some c = None) = False" using assms(3) by simp_all
  have sel: "filter (\<lambda>v. in_set e (Some t) v) ?A = filter (\<lambda>v. spec_member e v (live_values t)) ?A"
    "filter (\<lambda>v. \<not> in_set e (Some t) v) ?A = filter (\<lambda>v. \<not> spec_member e v (live_values t)) ?A"
    by (rule filter_in_set [OF assms(2)]; erule A(2))+
  show "composes alloc_ok (js_set_intersection e alloc_ok (Some s) other) (filter (\<lambda>v. spec_member e v (live_values t)) ?A) c"
    "composes alloc_ok (js_set_difference e alloc_ok (Some s) other) (filter (\<lambda>v. \<not> spec_member e v (live_values t)) ?A) c"
    unfolding js_set_intersection_def js_set_difference_def Let_def recv if_False assms(4) add_where_filter walk sel
    by (rule add)+
  show "js_set_is_subset_of e (Some s) other = (if \<forall>v \<in> set ?A. spec_member e v (live_values t) then 1 else 0, Some c)"
    "js_set_is_disjoint_from e (Some s) other = (if \<exists>v \<in> set ?A. spec_member e v (live_values t) then 0 else 1, Some c)"
    unfolding js_set_is_subset_of_def js_set_is_disjoint_from_def Let_def recv assms(4) walk option.case
    using all_in_eq [OF assms(2), of ?A] none_in_eq [OF assms(2), of ?A] A(2) by simp_all
qed

text \<open>The methods that walk the argument need it to be free of tombstones.\<close>

lemma compose_full:
  assumes "set_inv e s" "set_inv e t" "c = compact_if_holey_set e s" "other_set_ptr other (Some c) = Some t"
    "length (live_values s) + length (live_values t) \<le> PTR_REBUILD_MAX" "set_used t = set_size t"
  shows "composes alloc_ok (js_set_union e alloc_ok (Some s) other)
      (live_values s @ filter (\<lambda>v. \<not> spec_member e v (live_values s)) (live_values t)) c"
    "composes alloc_ok (js_set_symmetric_difference e alloc_ok (Some s) other)
      (filter (\<lambda>v. \<not> spec_member e v (live_values t)) (live_values s) @ filter (\<lambda>v. \<not> spec_member e v (live_values s)) (live_values t)) c"
    "js_set_is_superset_of e (Some s) other = (if \<forall>v \<in> set (live_values t). spec_member e v (live_values s) then 1 else 0, Some c)"
proof -
  let ?A = "live_values s" and ?B = "live_values t"
  note A = live_values_ok [OF assms(1)] and B = live_values_ok [OF assms(2)]
  have walk: "raw_walk (Some c) = ?A" "raw_walk (Some t) = ?B" using raw_walk_compact [OF assms(1)] raw_walk_full [OF assms(2,6)] assms(3) by simp_all
  have recv: "map_option (compact_if_holey_set e) (Some s) = Some c" using assms(3) by simp
  have c: "set_inv e c" "live_values c = ?A" using compact_if_holey_set_correct(1,3) [OF assms(1)] assms(3) by simp_all
  show "composes alloc_ok (js_set_union e alloc_ok (Some s) other) (?A @ filter (\<lambda>v. \<not> spec_member e v ?A) ?B) c"
    unfolding js_set_union_def Let_def recv assms(4) walk
    by (rule add_all_fresh [OF _ assms(5) A(1) B(1)]) (use A(2) B(2) in auto)
  let ?A' = "filter (\<lambda>v. \<not> spec_member e v ?B) ?A" and ?B' = "filter (\<lambda>v. \<not> spec_member e v ?A) ?B"
  have len: "length ?A' + length ?B' \<le> PTR_REBUILD_MAX"
    using assms(5) length_filter_le [of "\<lambda>v. \<not> spec_member e v ?B" ?A] length_filter_le [of "\<lambda>v. \<not> spec_member e v ?A" ?B] by linarith
  have "\<forall>v \<in> set ?B'. \<not> spec_member e v ?A'" by (auto simp: spec_member_def)
  then have rest: "filter (\<lambda>v. \<not> spec_member e v ?A') ?B' = ?B'" by (rule filter_True)
  have sel: "filter (\<lambda>v. \<not> in_set e (Some t) v) ?A = ?A'" "filter (\<lambda>v. \<not> in_set e (Some c) v) ?B = ?B'"
    using filter_in_set(2) [OF assms(2), of ?A] filter_in_set(2) [OF c(1), of ?B] A(2) B(2) c(2) by simp_all
  show "composes alloc_ok (js_set_symmetric_difference e alloc_ok (Some s) other) (?A' @ ?B') c"
    unfolding js_set_symmetric_difference_def Let_def recv assms(4) add_where_filter walk sel
    by (rule add_all_fresh [OF _ len sorted_wrt_filter [OF A(1)] sorted_wrt_filter [OF B(1)], unfolded rest]) (use A(2) B(2) in auto)
  show "js_set_is_superset_of e (Some s) other = (if \<forall>v \<in> set ?B. spec_member e v ?A then 1 else 0, Some c)"
    unfolding js_set_is_superset_of_def Let_def recv assms(4) walk option.case
    using all_in_eq [OF c(1), of ?B] B(2) c(2) by simp
qed

subsection \<open>An argument with tombstones\<close>

lemma undefined_value:
  "normalize_zero SET_HOLE_VALUE_BITS = TAG_UNDEFINED" "map_key TAG_UNDEFINED" "i < 8 \<Longrightarrow> TAG_UNDEFINED \<noteq> num_key i"
  "i < 8 \<Longrightarrow> \<not> set_jsvalue_eq e (num_key i) TAG_UNDEFINED"
proof -
  show hole: "normalize_zero SET_HOLE_VALUE_BITS = TAG_UNDEFINED" by (simp add: set_hole) (simp add: normalize_zero_def)
  have "\<not> raw_address SET_HOLE_VALUE_BITS" by (simp add: SET_HOLE_VALUE_BITS_def raw_address_def tag_defs)
  from normalize_zero_map_key [OF this] show "map_key TAG_UNDEFINED" by (simp add: hole)
  show ne: "TAG_UNDEFINED \<noteq> num_key i" if "i < 8" for i
    using that num_key_ok(1) [OF that] by (auto simp: is_plain_nonzero_number_bits_def tag_defs)
  show "\<not> set_jsvalue_eq e (num_key i) TAG_UNDEFINED" if "i < 8" for i
    using safe_value_eq [OF num_key_ok(5) [OF that], of e TAG_UNDEFINED] ne [OF that] set_jsvalue_eq_equiv(2) [of e "num_key i" TAG_UNDEFINED] by blast
qed

lemma fresh_set_empty:
  "raw_walk (Some (fresh_set n)) = []" "compact_if_holey_set e (fresh_set n) = fresh_set n"
  "filter (\<lambda>v. \<not> in_set e (Some (fresh_set n)) v) vs = vs"
proof -
  show "raw_walk (Some (fresh_set n)) = []" "compact_if_holey_set e (fresh_set n) = fresh_set n"
    by (simp_all add: raw_walk_def fresh_set_def compact_if_holey_set_def)
  have "\<not> in_set e (Some (fresh_set n)) v" for v
    by (simp add: in_set_def js_set_has_def find_value_index_def find_value_index_hot_def find_value_index_cold_def fresh_set_def sx_get_def)
  then show "filter (\<lambda>v. \<not> in_set e (Some (fresh_set n)) v) vs = vs" by (simp add: filter_id_conv)
qed

text \<open>Adding the slots of a walk that begins with a tombstone.\<close>

lemma add_tombstone:
  "\<exists>r. set_add_all e (\<lambda>_. True) [SET_HOLE_VALUE_BITS, num_key 1] (fresh_set 4) = Inr r \<and> live_values r = [TAG_UNDEFINED, num_key 1]"
proof -
  let ?vs = "[SET_HOLE_VALUE_BITS, num_key 1]"
  have raw: "\<not> raw_address v" if "v \<in> set ?vs" for v
    using that num_key_ok(3) [of 1] by (auto simp: SET_HOLE_VALUE_BITS_def raw_address_def tag_defs)
  have norm: "map normalize_zero ?vs = [TAG_UNDEFINED, num_key 1]" using num_key_ok(2) [of 1] undefined_value(1) by simp
  have "set_jsvalue_eq e x (num_key 1) = (x = num_key 1)" for x using safe_value_eq num_key_ok(5) [of 1] by simp
  then have spec: "fold (spec_add e) [TAG_UNDEFINED, num_key 1] [] = [TAG_UNDEFINED, num_key 1]"
    using undefined_value(3) [of 1] by (simp add: spec_add_def spec_member_def del: One_nat_def)
  show ?thesis
    using set_add_all_correct [OF set_inv_alloc(1) [of e 4], where vs = ?vs and alloc_ok = "\<lambda>_. True", OF raw]
    unfolding norm set_inv_alloc(2,3) spec
    by (simp add: PTR_REBUILD_MAX_def split: sum.splits del: set_add_all.simps One_nat_def)
qed

subsection \<open>Properties\<close>

text \<open>
  C8. The composition methods of \<open>Set\<close> compute what they name, in insertion order, on any two
  reachable sets and on a set with itself: \<open>intersection\<close> and \<open>difference\<close> keep the elements of the
  receiver that are, or are not, in the argument, and \<open>isSubsetOf\<close> and \<open>isDisjointFrom\<close> decide the
  relations. \<open>union\<close>, \<open>symmetricDifference\<close> and \<open>isSupersetOf\<close> are right when the argument
  has no tombstone or is the receiver. The methods that build a set may instead stop with the \<open>RangeError\<close>
  of a failed allocation. The receiver is only compacted.
\<close>

theorem js_set_composition_correct:
  assumes "\<forall>op \<in> set (ops @ ops'). set_op_ok op" "length (ops @ ops') \<le> PTR_REBUILD_MAX"
    "run_set e alloc_ok ops (fresh_set n) = Inr (rs, s)" "run_set e alloc_ok ops' (fresh_set n') = Inr (rs', t)"
    "other = Other_set t \<or> other = Other_self \<and> t = s" "A = live_values s" "B = live_values t" "c = compact_if_holey_set e s"
  shows "composes alloc_ok (js_set_intersection e alloc_ok (Some s) other) (filter (\<lambda>v. spec_member e v B) A) c \<and>
    composes alloc_ok (js_set_difference e alloc_ok (Some s) other) (filter (\<lambda>v. \<not> spec_member e v B) A) c \<and>
    js_set_is_subset_of e (Some s) other = (if \<forall>v \<in> set A. spec_member e v B then 1 else 0, Some c) \<and>
    js_set_is_disjoint_from e (Some s) other = (if \<exists>v \<in> set A. spec_member e v B then 0 else 1, Some c) \<and>
    (other = Other_self \<or> set_used t = set_size t \<longrightarrow>
      composes alloc_ok (js_set_union e alloc_ok (Some s) other) (A @ filter (\<lambda>v. \<not> spec_member e v A) B) c \<and>
      composes alloc_ok (js_set_symmetric_difference e alloc_ok (Some s) other)
        (filter (\<lambda>v. \<not> spec_member e v B) A @ filter (\<lambda>v. \<not> spec_member e v A) B) c \<and>
      js_set_is_superset_of e (Some s) other = (if \<forall>v \<in> set B. spec_member e v A then 1 else 0, Some c))"
proof -
  have s: "set_inv e s" "set_used s \<le> length ops"
    using run_set_sim [OF set_inv_alloc(1) [of e n], of ops alloc_ok] assms(1-3) set_inv_alloc(3) [of n] by auto
  have t: "set_inv e t" "set_used t \<le> length ops'"
    using run_set_sim [OF set_inv_alloc(1) [of e n'], of ops' alloc_ok] assms(1,2,4) set_inv_alloc(3) [of n'] by auto
  note cc = compact_if_holey_set_correct [OF s(1), folded assms(8)]
  have full: "set_used c = set_size c" using cc(2,4) s(1) by (simp add: set_inv_def)
  obtain t' where t': "other_set_ptr other (Some c) = Some t'" "set_inv e t'" "live_values t' = B"
    "other = Other_self \<or> set_used t = set_size t \<Longrightarrow> set_used t' = set_size t'"
  proof (cases "other = Other_self")
    case True
    then show thesis using that [of c] cc full assms(5,7) by (simp add: other_set_ptr_def)
  next
    case False
    then show thesis using that [of t] t(1) assms(5,7) by (simp add: other_set_ptr_def)
  qed
  have len: "length A + length B \<le> PTR_REBUILD_MAX"
    using live_values_le [of s] live_values_le [of t] s(2) t(2) assms(2,6,7) by simp
  then have lenA: "length (live_values s) \<le> PTR_REBUILD_MAX" using assms(6) by simp
  note any = compose_any [OF s(1) t'(2) assms(8) t'(1) lenA]
    and all = compose_full [OF s(1) t'(2) assms(8) t'(1) _ t'(4)]
  show ?thesis using any all len unfolding assms(6) t'(3) by blast
qed

theorem js_set_composition_correct_witness:
  "\<exists>s t. run_set sample_env (\<lambda>_. True) [Set_add (Arg_value (num_key 0)), Set_add (Arg_value (num_key 1)), Set_add (Arg_value (num_key 2))] (fresh_set 0)
      = Inr ([S_none, S_none, S_none], s) \<and>
    run_set sample_env (\<lambda>_. True) [Set_add (Arg_value (num_key 1))] (fresh_set 0) = Inr ([S_none], t) \<and>
    js_set_is_superset_of sample_env (Some s) (Other_set t) = (1, Some s) \<and>
    (\<exists>r. js_set_difference sample_env (\<lambda>_. True) (Some s) (Other_set t) = Inr (r, Some s) \<and> live_values r = [num_key 0, num_key 2])"
proof -
  let ?ops = "[Set_add (Arg_value (num_key 0)), Set_add (Arg_value (num_key 1)), Set_add (Arg_value (num_key 2))]"
  let ?ops' = "[Set_add (Arg_value (num_key 1))]"
  obtain s where s: "run_set sample_env (\<lambda>_. True) ?ops (fresh_set 0) = Inr ([S_none, S_none, S_none], s)"
    "small_set s [num_key 0, num_key 1, num_key 2] 3" using small_set_fill by blast
  have "small_set (fresh_set 0) [] 0" by (simp add: small_set_def fresh_set_def)
  from small_set_add [OF this _ num_key_ok(1,2) [of 1], where e = sample_env and alloc_ok = "\<lambda>_. True"]
  obtain t where t: "run_set sample_env (\<lambda>_. True) ?ops' (fresh_set 0) = Inr ([S_none], t)" "small_set t [num_key 1] 1"
    by (auto simp: eval_nat_numeral)
  have ok: "\<forall>op \<in> set (?ops @ ?ops'). set_op_ok op" "length (?ops @ ?ops') \<le> PTR_REBUILD_MAX"
    using num_key_ok(3) by (simp_all add: PTR_REBUILD_MAX_def)
  have live: "live_values s = [num_key 0, num_key 1, num_key 2]" "live_values t = [num_key 1]"
    using s(2) t(2) num_key_ok(4) by (simp_all add: small_set_def live_values_def set_hole)
  have c: "compact_if_holey_set sample_env s = s" "set_used t = set_size t"
    using s(2) t(2) by (simp_all add: small_set_def compact_if_holey_set_def)
  have eq: "set_jsvalue_eq sample_env x (num_key i) = (x = num_key i)" if "i < 8" for x i using safe_value_eq num_key_ok(5) [OF that] by simp
  note c' = js_set_composition_correct [OF ok s(1) t(1) disjI1 [OF refl] refl refl refl, unfolded live c(1)]
  have "filter (\<lambda>v. \<not> spec_member sample_env v [num_key 1]) [num_key 0, num_key 1, num_key 2] = [num_key 0, num_key 2]"
    "\<forall>v \<in> set [num_key 1]. spec_member sample_env v [num_key 0, num_key 1, num_key 2]"
    by (simp_all add: spec_member_def eq num_key_inj del: One_nat_def)
  then have "composes (\<lambda>_. True) (js_set_difference sample_env (\<lambda>_. True) (Some s) (Other_set t)) [num_key 0, num_key 2] s"
    "js_set_is_superset_of sample_env (Some s) (Other_set t) = (1, Some s)" using c' c(2) by simp_all
  then show ?thesis using s(1) t(1) by (auto simp: composes_def split: sum.splits prod.splits)
qed

text \<open>
  C38. \<open>union\<close>, \<open>symmetricDifference\<close> and \<open>isSupersetOf\<close> are wrong when the argument has tombstones: they
  squeeze the receiver and then read the first \<open>size\<close> raw slots of the argument. Here \<open>{1, 2, 3}\<close>
  loses its first element. The union of the empty set with it is then \<open>{undefined, 2}\<close>, and so is the symmetric
  difference, instead of \<open>{2, 3}\<close>; and a set with the same elements is not found to be a superset of it.
\<close>

theorem js_set_union_reads_tombstones:
  "\<exists>t. run_set e (\<lambda>_. True)
      [Set_add (Arg_value (num_key 0)), Set_add (Arg_value (num_key 1)), Set_add (Arg_value (num_key 2)), Set_delete (Arg_value (num_key 0))] (fresh_set 0)
      = Inr ([S_none, S_none, S_none, S_int 1], t) \<and>
    live_values t = [num_key 1, num_key 2] \<and>
    (\<exists>r s. js_set_union e (\<lambda>_. True) (Some (fresh_set 4)) (Other_set t) = Inr (r, s) \<and> live_values r = [TAG_UNDEFINED, num_key 1]) \<and>
    (\<exists>r s. js_set_symmetric_difference e (\<lambda>_. True) (Some (fresh_set 4)) (Other_set t) = Inr (r, s) \<and> live_values r = [TAG_UNDEFINED, num_key 1]) \<and>
    (\<exists>s. js_set_is_superset_of e (Some t) (Other_set t) = (0, s))"
proof -
  let ?ops = "[Set_add (Arg_value (num_key 0)), Set_add (Arg_value (num_key 1)), Set_add (Arg_value (num_key 2)), Set_delete (Arg_value (num_key 0))]"
  let ?h = SET_HOLE_VALUE_BITS and ?u = TAG_UNDEFINED and ?f = "fresh_set 4"
  obtain s where s: "run_set e (\<lambda>_. True) [Set_add (Arg_value (num_key 0)), Set_add (Arg_value (num_key 1)), Set_add (Arg_value (num_key 2))] (fresh_set 0)
      = Inr ([S_none, S_none, S_none], s)" "small_set s [num_key 0, num_key 1, num_key 2] 3" using small_set_fill by blast
  obtain t where t: "set_step e (\<lambda>_. True) (Set_delete (Arg_value (num_key 0))) s = Inr (S_int 1, t)" "small_set t [?h, num_key 1, num_key 2] 2"
    using small_set_delete [OF s(2) _ num_key_ok(1,2) [of 0], where e = e and alloc_ok = "\<lambda>_. True" and i = 0] by (auto simp: num_key_inj)
  have run: "run_set e (\<lambda>_. True) ?ops (fresh_set 0) = Inr ([S_none, S_none, S_none, S_int 1], t)"
    using s(1) t(1) by (auto simp del: set_step.simps split: sum.splits)
  have op: "set_op_ok op" if "op \<in> set ?ops" for op using that num_key_ok(3) by auto
  have inv: "set_inv e t" using run_set_sim [OF set_inv_alloc(1) [of e 0] op, of ?ops "\<lambda>_. True"] run set_inv_alloc(3) [of 0]
    by (simp add: PTR_REBUILD_MAX_def del: run_set.simps)
  have live: "live_values t = [num_key 1, num_key 2]" using t(2) num_key_ok(4) by (simp add: small_set_def live_values_def set_hole)
  have walk: "raw_walk (Some t) = [?h, num_key 1]" using t(2) by (simp add: raw_walk_def small_set_def upt_rec)
  obtain r where r: "set_add_all e (\<lambda>_. True) [?h, num_key 1] ?f = Inr r" "live_values r = [?u, num_key 1]" using add_tombstone by blast
  have alloc: "js_set_alloc (\<lambda>_. True) 4 = Inr ?f" by (simp add: js_set_alloc_def)
  have recv: "map_option (compact_if_holey_set e) (Some ?f) = Some ?f" "other_set_ptr (Other_set t) x = Some t" for x
    using fresh_set_empty(2) by (simp_all add: other_set_ptr_def)
  have union: "js_set_union e (\<lambda>_. True) (Some ?f) (Other_set t) = Inr (r, Some ?f)"
    unfolding js_set_union_def Let_def recv alloc sum.case fresh_set_empty(1) walk set_add_all.simps(1) r(1) by simp
  have symm: "js_set_symmetric_difference e (\<lambda>_. True) (Some ?f) (Other_set t) = Inr (r, Some ?f)"
    unfolding js_set_symmetric_difference_def Let_def recv alloc sum.case add_where_filter fresh_set_empty(1,3) filter.simps(1) walk
      set_add_all.simps(1) r(1) by simp
  let ?c = "compact_if_holey_set e t"
  note c = compact_if_holey_set_correct(1,3) [OF inv]
  have "\<not> spec_member e ?u (live_values ?c)" unfolding c(2) live spec_member_def using undefined_value(4) by simp
  then have "js_set_has e ?c ?h = 0"
    using find_value_index_member [OF c(1) undefined_value(2)] undefined_value(1) by (simp add: js_set_has_def set_normalize_zero_eq)
  then have sup: "js_set_is_superset_of e (Some t) (Other_set t) = (0, Some ?c)"
    by (simp add: js_set_is_superset_of_def other_set_ptr_def walk)
  show ?thesis using run live r(2) union symm sup by blast
qed

end
