(* ===== verification/Spec2Isabelle.thy ===== *)
theory Spec2Isabelle
  imports BigInt_Convert Value_Ops Context_Store Promise_Rejection Utf8_Decoder Half_Float BigInt_Number
  Map_Foreach Set_Foreach Set_Compose
begin

text \<open>
  \<^bold>\<open>A verification development of the Perry runtime.\<close> Perry compiles TypeScript ahead of time to native code;
  the generated code calls a runtime library (\<open>src/crates/perry-runtime\<close>) that implements the values and
  the collections of JavaScript. The compiler proper emits LLVM text for these entry points; what a program
  computes is decided in the runtime, and this development models the parts of it that are pure data and
  control: BigInt, the NaN-boxed value representation with equality and truthiness, the tables behind
  promises, the streaming UTF-8 decoder, half precision floats, and \<open>Map\<close> and \<open>Set\<close>.

  \<^bold>\<open>Conventions.\<close> \<open>u8\<close>, \<open>u16\<close>, \<open>u32\<close>, \<open>u64\<close>, \<open>u128\<close> are words, so arithmetic wraps as in a release build;
  \<open>i32\<close>, \<open>i64\<close>, \<open>i128\<close> are integers read with \<open>sint\<close>; \<open>usize\<close> counters and the \<open>u32\<close> positions of tables are
  natural numbers, with \<open>mod 2 ^ 32\<close> where the code converts. A Rust \<open>f64\<close> is its 64 bits. A throw or a panic
  is the left value of \<open>js_throw + 'a\<close> (\<open>Prelude\<close>). Loops are recursive functions on the data they walk;
  only the loops of \<open>forEach\<close>, whose callback can extend the walk for ever, have fuel, and their theorems provide
  enough of it. Code outside the modelled files is an argument: the arena address of a new BigInt, the heap
  (headers, forwarding words, string bytes), the symbol registry, the allocator's verdict, the array
  resolver, which values are callable, and the callbacks of user code.

  \<^bold>\<open>BigInt\<close> (\<open>bigint/mod.rs\<close>, \<open>arith.rs\<close>, \<open>bitwise.rs\<close>, \<open>compare.rs\<close>, \<open>convert.rs\<close>).
  \<open>BigInt_Limbs\<close> has the sixteen-limb two's complement representation and its reading as an integer.
  \<open>BigInt_Interface\<close> states as locales how a limb-level operation becomes an exported one, and is
  interpreted by every operation. \<open>BigInt_Arith\<close> models negation to exponentiation with their \<open>i64\<close> fast
  paths, carry loops, schoolbook multiplication and three-tier division; \<open>BigInt_Bitwise\<close> shifts, bitwise
  operators, \<open>asIntN\<close>/\<open>asUintN\<close> and comparison; \<open>BigInt_Convert\<close> the parsers and printers;
  \<open>BigInt_Number\<close> the conversions from and to Number and the mixed comparison. The theorems give the exact
  integer result of each operation, or the error it raises when the result does not fit 1024 bits, and
  record where the code departs from that.

  \<^bold>\<open>Numbers\<close>. \<open>F64\<close> reads binary64 patterns in units of the smallest subnormal, \<open>F64_Arith\<close> rounds to
  nearest even. \<open>Half_Float\<close> (\<open>typedarray_half.rs\<close>) proves the binary16 conversions nearest and exact.

  \<^bold>\<open>Values\<close> (\<open>value/tags.rs\<close>, \<open>jsvalue.rs\<close>, \<open>nanbox.rs\<close>, \<open>addr_class.rs\<close>, \<open>equality.rs\<close>). \<open>NaN_Box\<close> has
  tags, constructors, tests and accessors with their round trips; \<open>Value_Ops\<close> classifies addresses, reads
  headers in a memory that faults where nothing is mapped, follows forwarding, and relates truthiness, strict equality and SameValueZero to a semantic view.

  \<^bold>\<open>Promises\<close> (\<open>promise/keyed_table.rs\<close>, \<open>context_store.rs\<close>, \<open>rejection.rs\<close>). \<open>Keyed_Table\<close> is the multimap
  of parked reactions with its lazily built index, simulated by lists of pending entries per promise;
  \<open>Context_Store\<close> the dense key vector with its map, refining a finite map; \<open>Promise_Rejection\<close> the tracker of
  unhandled rejections as a step function, with the order of its events.

  \<^bold>\<open>Text\<close>. \<open>Utf8_Decoder\<close> (\<open>utf8_stream_decoder.rs\<close>): decoding in chunks equals decoding at once.

  \<^bold>\<open>Map\<close> (\<open>map.rs\<close>). \<open>Key_Index\<close> is the interface of the side indices: a locale with the laws of
  lookup, insertion, deletion and clearing, and the consequences the entry list needs, proved once.
  \<open>Map_Numeric_Index\<close> interprets it by the hash table with its adaptive range table, \<open>Js_Map\<close> by the pointer
  index. \<open>Map_Keys\<close> has normalisation, hashing and key equality, \<open>Js_Map\<close> the header with its entries,
  tombstones, compaction log and all operations together with the invariant, \<open>Map_Refinement\<close> their
  refinement of an insertion-ordered list. \<open>Map_Cursor\<close> shows that the \<open>for-of\<close> cursor stays exact under
  every change of the map, and where it does not; \<open>Map_Foreach\<close> the same for \<open>forEach\<close> with callbacks that
  look up, insert, delete, clear and throw, and the entry it skips when a callback reads all entries. The bound \<open>PTR_REBUILD_MAX\<close> on the number of operations is the code's own: above sixteen
  million entries an index is no longer rebuilt.

  \<^bold>\<open>Set\<close> (\<open>set.rs\<close>). \<open>Js_Set\<close> has the values, the header with its elements, hash index and compaction log, and
  every operation; the index is the table of \<open>Key_Index\<close> under the equality of values. \<open>Set_Refinement\<close>
  relates that equality to SameValueZero, keeps the invariant and refines a duplicate-free ordered list.
  \<open>Set_Cursor\<close> reads a set as a map without values, so that the cursor of \<open>Map_Cursor\<close> carries over.
  \<open>Collection_Walk\<close> has callbacks as programs over the operations of a collection, the check of the callback
  (\<open>array/iter_methods.rs\<close>) and the interface of \<open>forEach\<close>: a locale with what a raw walk relies on, one
  operation at a time, and the theorem that it follows the walk over the ordered contents; \<open>Map_Foreach\<close> and
  \<open>Set_Foreach\<close> interpret it. A nested walk over the same collection is not a callback operation.
  \<open>Set_Compose\<close> has the ES2024 methods on two sets, their results, and how three of them go wrong on an
  argument with tombstones. Two entry points for numbers that disagree are recorded in \<open>Set_Refinement\<close>.

  \<^bold>\<open>Not modelled\<close>. The collector's marking, evacuation and pacing (raw arenas, clocks, thread state), so
  within an operation no object moves; objects, shapes, closures, proxies and the iteration protocol, which
  run user code; strings beyond their bytes; loose equality and relational comparison, which coerce; the
  registries and finalisers of side allocations; the Node and operating system layer; and the compiler
  crates, whose output is LLVM text. Test-only counters and diagnostics are left out.
\<close>

end
